(* ===== verification/Prelude.thy ===== *)
theory Prelude
  imports Main "HOL-Library.AList" "HOL-Library.Multiset" "HOL-Library.Char_ord" "HOL-Library.List_Lexorder"
begin

text \<open>
  What every component of the model shares: errors as values, JavaScript's objects,
  maps, sets and arrays as lists, the decimal rendering of indices, and the interface
  (a locale) through which the components reason about insertion-ordered stores.
\<close>

named_theorems js_defs "definitions of the JavaScript container operations"
named_theorems store_simps "what a lookup returns after the operations of a store"

section \<open>Errors as values\<close>

text \<open>
  The exceptions the modelled code raises. A node assertion (\<open>assert.ok\<close>) is
  \<open>AssertionError\<close>, reading a property of \<open>undefined\<close> is \<open>TypeError\<close>,
  and n8n's own error classes carry their message.
\<close>

datatype js_error =
    AssertionError
  | TypeError
  | ApplicationError string
  | UserError string
  | UnexpectedError string
  | OperationalError string

type_synonym 'a res = "js_error + 'a"

definition bind_res :: "'e + 'a \<Rightarrow> ('a \<Rightarrow> 'e + 'b) \<Rightarrow> 'e + 'b" where
  "bind_res r f = (case r of Inl e \<Rightarrow> Inl e | Inr x \<Rightarrow> f x)"

lemma bind_res_simps [simp]:
  "bind_res (Inl e) f = Inl e"
  "bind_res (Inr x) f = f x"
  by (simp_all add: bind_res_def)

lemma bind_res_Inr_iff: "bind_res r f = Inr y \<longleftrightarrow> (\<exists>x. r = Inr x \<and> f x = Inr y)"
  by (cases r) simp_all

lemma bind_res_cong [fundef_cong]:
  "r = r' \<Longrightarrow> (\<And>x. r' = Inr x \<Longrightarrow> f x = g x) \<Longrightarrow> bind_res r f = bind_res r' g"
  by (cases r') simp_all

text \<open>A \<open>for\<close> loop over a list whose body may raise: it stops at the first error.\<close>

fun fold_res :: "('a \<Rightarrow> 's \<Rightarrow> 'e + 's) \<Rightarrow> 'a list \<Rightarrow> 's \<Rightarrow> 'e + 's" where
  "fold_res f [] s = Inr s"
| "fold_res f (x # xs) s = bind_res (f x s) (fold_res f xs)"

lemma fold_res_append:
  "fold_res f (xs @ ys) s = bind_res (fold_res f xs s) (fold_res f ys)"
  by (induction xs arbitrary: s) (simp_all add: bind_res_def split: sum.splits)

lemma fold_res_pure: "fold_res (\<lambda>x s. Inr (g x s)) xs s = Inr (fold g xs s)"
  by (induction xs arbitrary: s) simp_all

lemma fold_res_cong [fundef_cong]:
  "xs = ys \<Longrightarrow> s = t \<Longrightarrow> (\<And>x s. x \<in> set ys \<Longrightarrow> f x s = g x s) \<Longrightarrow> fold_res f xs s = fold_res g ys t"
proof (induction ys arbitrary: xs s t)
  case (Cons y ys)
  then show ?case by (auto intro!: bind_res_cong)
qed simp

text \<open>A loop whose body does not fail in any state that satisfies the invariant.\<close>

lemma fold_res_inv:
  assumes "I s" and "\<And>x s. x \<in> set xs \<Longrightarrow> I s \<Longrightarrow> \<exists>s'. f x s = Inr s' \<and> I s'"
  shows "\<exists>s'. fold_res f xs s = Inr s' \<and> I s'"
  using assms
proof (induction xs arbitrary: s)
  case (Cons x xs)
  then obtain s1 where "f x s = Inr s1" "I s1" by (metis list.set_intros(1))
  with Cons show ?case by simp
qed simp

text \<open>What holds after every step of a loop that did not fail.\<close>

lemma fold_res_keeps:
  assumes "fold_res f xs s = Inr s'" and "I s"
    and "\<And>x s s'. x \<in> set xs \<Longrightarrow> I s \<Longrightarrow> f x s = Inr s' \<Longrightarrow> I s'"
  shows "I s'"
  using assms
proof (induction xs arbitrary: s)
  case (Cons x xs)
  then obtain s1 where s1: "f x s = Inr s1" "fold_res f xs s1 = Inr s'" by (auto simp: bind_res_Inr_iff)
  have "I s1" by (rule Cons.prems(3) [OF _ Cons.prems(2) s1(1)]) simp
  then show ?case
    by (rule Cons.IH [OF s1(2)]) (rule Cons.prems(3), simp_all)
qed simp

section \<open>Arrays\<close>

text \<open>
  Reading an array out of range gives \<open>undefined\<close> (\<open>None\<close>), and \<open>at\<close> counts
  a negative index from the end.
\<close>

definition arr_get :: "'a list \<Rightarrow> nat \<Rightarrow> 'a option" where
  "arr_get xs i = (if i < length xs then Some (xs ! i) else None)"

definition arr_at :: "'a list \<Rightarrow> int \<Rightarrow> 'a option" where
  "arr_at xs i =
     (let n = int (length xs); j = (if i < 0 then n + i else i)
      in if 0 \<le> j \<and> j < n then Some (xs ! nat j) else None)"

text \<open>Writing past the end extends the array; the cells between are holes.\<close>

definition arr_set :: "'a \<Rightarrow> 'a list \<Rightarrow> nat \<Rightarrow> 'a \<Rightarrow> 'a list" where
  "arr_set hole xs i v = (xs @ replicate (Suc i - length xs) hole)[i := v]"

definition arr_remove :: "'a list \<Rightarrow> nat \<Rightarrow> 'a list" where
  "arr_remove xs i = take i xs @ drop (Suc i) xs"

text \<open>\<open>findIndex\<close>: the first index whose element satisfies the predicate.\<close>

fun find_index :: "('a \<Rightarrow> bool) \<Rightarrow> 'a list \<Rightarrow> nat option" where
  "find_index p [] = None"
| "find_index p (x # xs) = (if p x then Some 0 else map_option Suc (find_index p xs))"

lemma arr_get_Some_iff: "arr_get xs i = Some x \<longleftrightarrow> i < length xs \<and> xs ! i = x"
  by (auto simp: arr_get_def)

lemma arr_get_in_set: "arr_get xs i = Some x \<Longrightarrow> x \<in> set xs"
  by (auto simp: arr_get_Some_iff)

lemma arr_at_nonneg: "arr_at xs (int i) = arr_get xs i"
  by (auto simp: arr_at_def arr_get_def Let_def)

lemma length_arr_set: "length (arr_set hole xs i v) = max (length xs) (Suc i)"
  by (simp add: arr_set_def)

lemma arr_get_arr_set:
  "arr_get (arr_set hole xs i v) j =
     (if j = i then Some v else if j < length xs then Some (xs ! j)
      else if j < i then Some hole else None)"
  by (auto simp: arr_get_def arr_set_def nth_append nth_list_update)

lemma find_index_Some:
  "find_index p xs = Some i \<Longrightarrow> i < length xs \<and> p (xs ! i) \<and> (\<forall>j < i. \<not> p (xs ! j))"
proof (induction xs arbitrary: i)
  case (Cons x xs)
  show ?case
  proof (cases "p x")
    case False
    with Cons.prems obtain k where "find_index p xs = Some k" "i = Suc k" by auto
    with Cons.IH [of k] False show ?thesis by (auto simp: less_Suc_eq_0_disj)
  qed (use Cons.prems in auto)
qed simp

lemma find_index_None: "find_index p xs = None \<longleftrightarrow> (\<forall>x \<in> set xs. \<not> p x)"
  by (induction xs) auto

lemma find_index_map: "find_index p (map f xs) = find_index (\<lambda>x. p (f x)) xs"
  by (induction xs) simp_all

lemma map_arr_remove: "map f (arr_remove xs i) = arr_remove (map f xs) i"
  by (simp add: arr_remove_def take_map drop_map)

lemma mset_arr_remove:
  "i < length xs \<Longrightarrow> mset xs = add_mset (xs ! i) (mset (arr_remove xs i))"
  by (simp add: arr_remove_def id_take_nth_drop [of i xs, THEN arg_cong, of mset]
      del: append_take_drop_id)

lemma set_arr_remove: "set (arr_remove xs i) \<subseteq> set xs"
  by (auto simp: arr_remove_def dest: in_set_takeD in_set_dropD)

lemma length_arr_remove: "i < length xs \<Longrightarrow> length (arr_remove xs i) = length xs - 1"
  by (simp add: arr_remove_def)

section \<open>Sets: insertion order, no duplicates\<close>

definition set_add :: "'a \<Rightarrow> 'a list \<Rightarrow> 'a list" where
  "set_add x s = (if x \<in> set s then s else s @ [x])"

definition set_of :: "'a list \<Rightarrow> 'a list" where
  "set_of xs = fold set_add xs []"

lemma set_set_add [simp]: "set (set_add x s) = insert x (set s)"
  by (auto simp: set_add_def)

lemma distinct_set_add [simp]: "distinct (set_add x s) = distinct s"
  by (auto simp: set_add_def)

lemma set_fold_set_add [simp]: "set (fold set_add xs s) = set xs \<union> set s"
  by (induction xs arbitrary: s) auto

lemma distinct_fold_set_add [simp]: "distinct (fold set_add xs s) = distinct s"
  by (induction xs arbitrary: s) auto

lemma set_set_of [simp]: "set (set_of xs) = set xs"
  by (simp add: set_of_def)

lemma distinct_set_of [simp]: "distinct (set_of xs)"
  by (simp add: set_of_def)

lemma set_of_distinct: "distinct xs \<Longrightarrow> set_of xs = xs"
proof -
  have "distinct (acc @ xs) \<Longrightarrow> fold set_add xs acc = acc @ xs" for acc
    by (induction xs arbitrary: acc) (simp_all add: set_add_def)
  then show "distinct xs \<Longrightarrow> set_of xs = xs" by (simp add: set_of_def)
qed

text \<open>
  A search that keeps a list of checked elements ends because each call checks one more of
  finitely many: the order below, on the number of unchecked elements and the work left, is
  the one the termination proofs use.
\<close>

definition remaining :: "'a list \<Rightarrow> 'a list \<Rightarrow> nat" where
  "remaining ks chk = card (set ks - set chk)"

lemma remaining_less:
  "n \<in> set ks \<Longrightarrow> n \<notin> set chk \<Longrightarrow> insert n (set chk) \<subseteq> set chk' \<Longrightarrow> remaining ks chk' < remaining ks chk"
  unfolding remaining_def by (rule psubset_card_mono) auto

lemma remaining_le: "set chk \<subseteq> set chk' \<Longrightarrow> remaining ks chk' \<le> remaining ks chk"
  unfolding remaining_def by (rule card_mono) auto

definition search_order :: "((nat \<times> nat) \<times> nat \<times> nat) set" where
  "search_order = less_than <*lex*> less_than"

lemma wf_search_order: "wf search_order"
  by (simp add: search_order_def wf_lex_prod)

lemma search_orderI:
  "a < c \<Longrightarrow> ((a, b), (c, d)) \<in> search_order"
  "a \<le> c \<Longrightarrow> b < d \<Longrightarrow> ((a, b), (c, d)) \<in> search_order"
  by (auto simp: search_order_def)

section \<open>Decimal strings\<close>

text \<open>
  \<open>dec_str\<close> is what a template string makes of a non-negative integer, \<open>parse_dec\<close>
  is \<open>parseInt(s, 10)\<close> on a string of digits.
\<close>

definition digit_char :: "nat \<Rightarrow> char" where
  "digit_char d = char_of (48 + d)"

definition is_digit :: "char \<Rightarrow> bool" where
  "is_digit c \<longleftrightarrow> 48 \<le> (of_char c :: nat) \<and> (of_char c :: nat) \<le> 57"

fun dec_str :: "nat \<Rightarrow> string" where
  "dec_str n = (if n < 10 then [digit_char n] else dec_str (n div 10) @ [digit_char (n mod 10)])"

declare dec_str.simps [simp del]

definition parse_dec :: "string \<Rightarrow> nat" where
  "parse_dec s = foldl (\<lambda>n c. 10 * n + ((of_char c :: nat) - 48)) 0 s"

lemma of_char_digit: "d < 10 \<Longrightarrow> (of_char (digit_char d) :: nat) = 48 + d"
  by (simp add: digit_char_def)

lemma is_digit_digit_char: "d < 10 \<Longrightarrow> is_digit (digit_char d)"
  by (simp add: is_digit_def of_char_digit)

lemma dec_str_digits: "c \<in> set (dec_str n) \<Longrightarrow> is_digit c"
proof (induction n rule: dec_str.induct)
  case (1 n)
  then show ?case
    by (cases "n < 10") (auto simp: dec_str.simps [of n] is_digit_digit_char)
qed

lemma parse_dec_str [simp]: "parse_dec (dec_str n) = n"
proof (induction n rule: dec_str.induct)
  case (1 n)
  then show ?case
    by (cases "n < 10") (auto simp: dec_str.simps [of n] parse_dec_def of_char_digit)
qed

lemma dec_str_inject [simp]: "dec_str m = dec_str n \<longleftrightarrow> m = n"
  by (metis parse_dec_str)

lemma dec_str_nonempty [simp]: "dec_str n \<noteq> []"
  by (subst dec_str.simps) simp

text \<open>
  A property key that is a canonical array index (\<open>"0"\<close>, \<open>"17"\<close>, not \<open>"017"\<close>):
  JavaScript enumerates those first, in ascending order.
\<close>

definition is_index_key :: "string \<Rightarrow> bool" where
  "is_index_key s \<longleftrightarrow> s \<noteq> [] \<and> list_all is_digit s \<and> (hd s \<noteq> CHR ''0'' \<or> length s = 1)
     \<and> parse_dec s < 2 ^ 32 - 1"

text \<open>The number of a string of digits as an integer, so that keys evaluate.\<close>

definition parse_int :: "string \<Rightarrow> int" where
  "parse_int s = foldl (\<lambda>n c. 10 * n + (of_char c - 48)) 0 s"

lemma parse_int: "list_all is_digit s \<Longrightarrow> parse_int s = int (parse_dec s)"
proof -
  have "list_all is_digit s \<Longrightarrow> foldl (\<lambda>n c. 10 * n + ((of_char c :: int) - 48)) (int m) s
      = int (foldl (\<lambda>n c. 10 * n + ((of_char c :: nat) - 48)) m s)" for m
  proof (induction s arbitrary: m)
    case (Cons c s)
    then have "48 \<le> (of_char c :: nat)" by (simp add: is_digit_def)
    moreover have "(of_char c :: int) = int (of_char c)" by (simp add: of_nat_of_char)
    ultimately have "10 * int m + ((of_char c :: int) - 48) = int (10 * m + ((of_char c :: nat) - 48))" by simp
    then show ?case using Cons.IH [of "10 * m + ((of_char c :: nat) - 48)"] Cons.prems by (simp only: foldl_Cons list.pred_inject)
  qed simp
  from this [of 0] show "list_all is_digit s \<Longrightarrow> parse_int s = int (parse_dec s)"
    by (simp add: parse_int_def parse_dec_def)
qed

lemma is_index_key_code [code]:
  "is_index_key s = (s \<noteq> [] \<and> list_all is_digit s \<and> (hd s \<noteq> CHR ''0'' \<or> length s = 1) \<and> parse_int s < 4294967295)"
  by (auto simp: is_index_key_def parse_int)

section \<open>Objects and maps: insertion-ordered stores\<close>

text \<open>
  A JavaScript \<open>Map\<close> is the list of its entries in insertion order: \<open>set\<close> is
  \<^const>\<open>AList.update\<close>, \<open>delete\<close> is \<^const>\<open>AList.delete\<close>, \<open>get\<close>
  is \<^const>\<open>map_of\<close>. An object is the list of its own properties in enumeration order:
  the index keys ascending, then the others in insertion order. An object with integer keys
  is a list sorted by key.
\<close>

fun obj_insert_index :: "string \<Rightarrow> 'v \<Rightarrow> (string \<times> 'v) list \<Rightarrow> (string \<times> 'v) list" where
  "obj_insert_index k v [] = [(k, v)]"
| "obj_insert_index k v ((k', v') # xs) =
     (if is_index_key k' \<and> parse_dec k' < parse_dec k
      then (k', v') # obj_insert_index k v xs
      else (k, v) # (k', v') # xs)"

definition obj_set :: "string \<Rightarrow> 'v \<Rightarrow> (string \<times> 'v) list \<Rightarrow> (string \<times> 'v) list" where
  "obj_set k v xs =
     (if k \<in> fst ` set xs then AList.update k v xs
      else if is_index_key k then obj_insert_index k v xs
      else xs @ [(k, v)])"

fun idx_set :: "nat \<Rightarrow> 'v \<Rightarrow> (nat \<times> 'v) list \<Rightarrow> (nat \<times> 'v) list" where
  "idx_set k v [] = [(k, v)]"
| "idx_set k v ((k', v') # xs) =
     (if k' < k then (k', v') # idx_set k v xs
      else if k' = k then (k, v) # xs
      else (k, v) # (k', v') # xs)"

abbreviation has_key :: "('k \<times> 'v) list \<Rightarrow> 'k \<Rightarrow> bool" where
  "has_key xs k \<equiv> map_of xs k \<noteq> None"

abbreviation keys_of :: "('k \<times> 'v) list \<Rightarrow> 'k list" where
  "keys_of xs \<equiv> map fst xs"

abbreviation values_of :: "('k \<times> 'v) list \<Rightarrow> 'v list" where
  "values_of xs \<equiv> map snd xs"

lemma distinct_map_fst_entries: "distinct (keys_of xs) \<Longrightarrow> distinct xs"
  by (simp add: distinct_map)

text \<open>
  What a client relies on: \<open>put\<close> overwrites one key and keeps the keys distinct.
\<close>

locale ordered_store =
  fixes put :: "'k \<Rightarrow> 'v \<Rightarrow> ('k \<times> 'v) list \<Rightarrow> ('k \<times> 'v) list"
    and ok :: "('k \<times> 'v) list \<Rightarrow> bool"
  assumes ok_nil: "ok []"
    and ok_put: "ok xs \<Longrightarrow> ok (put k v xs)"
    and ok_distinct: "ok xs \<Longrightarrow> distinct (keys_of xs)"
    and lookup_put: "ok xs \<Longrightarrow> map_of (put k v xs) = (map_of xs)(k \<mapsto> v)"
begin

lemma keys_put:
  assumes "ok xs"
  shows "set (keys_of (put k v xs)) = insert k (set (keys_of xs))"
proof -
  have "dom (map_of (put k v xs)) = insert k (dom (map_of xs))"
    using assms by (simp add: lookup_put)
  then show ?thesis by (simp add: dom_map_of_conv_image_fst)
qed

lemma values_put:
  assumes "ok xs"
  shows "set (put k v xs) = insert (k, v) {p \<in> set xs. fst p \<noteq> k}"
proof -
  have "(a, b) \<in> set (put k v xs) \<longleftrightarrow> (a, b) \<in> insert (k, v) {p \<in> set xs. fst p \<noteq> k}" for a b
  proof -
    have "(a, b) \<in> set (put k v xs) \<longleftrightarrow> map_of (put k v xs) a = Some b"
      using assms ok_put ok_distinct by (metis map_of_eq_Some_iff)
    also have "\<dots> \<longleftrightarrow> (if a = k then b = v else map_of xs a = Some b)"
      using assms by (auto simp: lookup_put)
    also have "\<dots> \<longleftrightarrow> (a, b) \<in> insert (k, v) {p \<in> set xs. fst p \<noteq> k}"
      using assms ok_distinct by (auto simp: map_of_eq_Some_iff)
    finally show ?thesis .
  qed
  then show ?thesis by auto
qed

lemma mset_put:
  assumes "ok xs"
  shows "mset (put k v xs) = add_mset (k, v) (filter_mset (\<lambda>p. fst p \<noteq> k) (mset xs))"
proof -
  have "distinct (put k v xs)" "distinct ((k, v) # filter (\<lambda>p. fst p \<noteq> k) xs)"
    using assms ok_put ok_distinct by (auto intro!: distinct_filter intro: distinct_map_fst_entries)
  moreover have "set (put k v xs) = set ((k, v) # filter (\<lambda>p. fst p \<noteq> k) xs)"
    using values_put [OF assms] by simp
  ultimately have "mset (put k v xs) = mset ((k, v) # filter (\<lambda>p. fst p \<noteq> k) xs)"
    by (simp only: set_eq_iff_mset_eq_distinct)
  then show ?thesis by simp
qed

lemma ok_fold: "ok xs \<Longrightarrow> ok (fold (\<lambda>a. put (f a) (g a)) as xs)"
  by (induction as arbitrary: xs) (auto intro: ok_put)

lemma keys_fold:
  "ok xs \<Longrightarrow> set (keys_of (fold (\<lambda>a. put (f a) (g a)) as xs)) = f ` set as \<union> set (keys_of xs)"
proof (induction as arbitrary: xs)
  case (Cons a as)
  then show ?case using keys_put [OF Cons.prems] by (auto simp: ok_put)
qed simp

text \<open>Storing values under their own keys: with distinct keys nothing is lost.\<close>

lemma values_fold:
  assumes "ok xs" and "inj_on f (set as)" and "f ` set as \<inter> set (keys_of xs) = {}"
  shows "set (fold (\<lambda>a. put (f a) (g a)) as xs) = (\<lambda>a. (f a, g a)) ` set as \<union> set xs"
  using assms
proof (induction as arbitrary: xs rule: rev_induct)
  case (snoc a as)
  let ?ys = "fold (\<lambda>a. put (f a) (g a)) as xs"
  have ys: "set ?ys = (\<lambda>a. (f a, g a)) ` set as \<union> set xs" and ok: "ok ?ys"
    using snoc by (auto intro: ok_fold simp: inj_on_def)
  have "{p \<in> set ?ys. fst p \<noteq> f a} \<union> {(f a, g a)} = (\<lambda>a. (f a, g a)) ` set (as @ [a]) \<union> set xs"
    using snoc.prems unfolding ys by (force simp: inj_on_def)
  then show ?case using values_put [OF ok, of "f a" "g a"] by auto
qed simp

end

lemma obj_insert_index_lookup:
  "k \<notin> fst ` set xs \<Longrightarrow> map_of (obj_insert_index k v xs) = (map_of xs)(k \<mapsto> v)"
  by (induction k v xs rule: obj_insert_index.induct) auto

lemma obj_insert_index_keys: "fst ` set (obj_insert_index k v xs) = insert k (fst ` set xs)"
  by (induction k v xs rule: obj_insert_index.induct) auto

lemma obj_insert_index_distinct:
  "distinct (keys_of xs) \<Longrightarrow> k \<notin> fst ` set xs \<Longrightarrow> distinct (keys_of (obj_insert_index k v xs))"
  by (induction k v xs rule: obj_insert_index.induct) (auto simp: obj_insert_index_keys)

lemma map_of_append_fresh:
  assumes "k \<notin> fst ` set xs"
  shows "map_of (xs @ [(k, v)]) = (map_of xs)(k \<mapsto> v)"
proof -
  from assms have "map_of xs k = None" by (simp add: map_of_eq_None_iff)
  then show ?thesis by (auto simp: map_add_def fun_eq_iff split: option.splits)
qed

lemma obj_set_lookup [store_simps]: "map_of (obj_set k v xs) = (map_of xs)(k \<mapsto> v)"
  by (simp add: obj_set_def update_conv' obj_insert_index_lookup map_of_append_fresh
      del: map_of_append)

lemma obj_set_distinct:
  "distinct (keys_of xs) \<Longrightarrow> distinct (keys_of (obj_set k v xs))"
  by (auto simp: obj_set_def obj_insert_index_distinct distinct_update)

lemma idx_set_keys: "fst ` set (idx_set k v xs) = insert k (fst ` set xs)"
  by (induction k v xs rule: idx_set.induct) auto

lemma idx_set_sorted:
  "sorted_wrt (<) (keys_of xs) \<Longrightarrow> sorted_wrt (<) (keys_of (idx_set k v xs))"
proof (induction k v xs rule: idx_set.induct)
  case (2 k v k' v' xs)
  have "fst ` set (idx_set k v xs) = insert k (fst ` set xs)" by (rule idx_set_keys)
  with 2 show ?case by fastforce
qed simp

lemma idx_set_lookup:
  "sorted_wrt (<) (keys_of xs) \<Longrightarrow> map_of (idx_set k v xs) = (map_of xs)(k \<mapsto> v)"
proof (induction k v xs rule: idx_set.induct)
  case (2 k v k' v' xs)
  then show ?case by (auto simp: fun_eq_iff)
qed simp

text \<open>Writing at a key that is there or larger than all others, and removing one, by position.\<close>

lemma idx_set_at:
  "sorted_wrt (<) (keys_of xs) \<Longrightarrow> k < length xs \<Longrightarrow> idx_set (fst (xs ! k)) v xs = xs[k := (fst (xs ! k), v)]"
proof (induction xs arbitrary: k)
  case (Cons x xs)
  show ?case
  proof (cases k)
    case (Suc j)
    with Cons.prems have "fst x < fst (xs ! j)" by auto
    with Cons Suc show ?thesis by (cases x) simp
  qed (cases x, simp)
qed simp

lemma idx_set_append: "\<forall>k \<in> fst ` set xs. k < r \<Longrightarrow> idx_set r v xs = xs @ [(r, v)]"
  by (induction xs) auto

lemma delete_at:
  "distinct (keys_of xs) \<Longrightarrow> k < length xs \<Longrightarrow> AList.delete (fst (xs ! k)) xs = arr_remove xs k"
proof (induction xs arbitrary: k)
  case (Cons x xs)
  show ?case
  proof (cases k)
    case 0
    with Cons.prems show ?thesis by (cases x) (simp add: arr_remove_def delete_id)
  next
    case (Suc j)
    with Cons.prems have "fst (xs ! j) \<in> fst ` set xs" by simp
    with Cons Suc show ?thesis by (cases x) (auto simp: arr_remove_def)
  qed
qed simp

lemma keys_delete: "keys_of (AList.delete k xs) = filter (\<lambda>k'. k' \<noteq> k) (keys_of xs)"
  by (induction xs) auto

lemma sorted_less_distinct: "sorted_wrt (<) (xs :: nat list) \<Longrightarrow> distinct xs"
  by (simp add: strict_sorted_iff)

interpretation js_map: ordered_store AList.update "\<lambda>xs. distinct (keys_of xs)"
  by unfold_locales (auto simp: update_conv' distinct_update)

interpretation js_obj: ordered_store obj_set "\<lambda>xs. distinct (keys_of xs)"
  by unfold_locales (auto simp: obj_set_lookup obj_set_distinct)

interpretation js_idx: ordered_store idx_set "\<lambda>xs. sorted_wrt (<) (keys_of xs)"
  by unfold_locales (auto simp: idx_set_lookup idx_set_sorted sorted_less_distinct)

text \<open>The entry at a key, cut out of the entries of a store.\<close>

lemma mset_split_key:
  assumes "distinct (keys_of xs)"
  shows "mset xs = filter_mset (\<lambda>p. fst p \<noteq> k) (mset xs)
    + (case map_of xs k of None \<Rightarrow> {#} | Some v \<Rightarrow> {#(k, v)#})"
  using assms
proof (induction xs)
  case (Cons p xs)
  show ?case
  proof (cases "fst p = k")
    case True
    with Cons.prems have "map_of xs k = None" "filter_mset (\<lambda>p. fst p \<noteq> k) (mset xs) = mset xs"
      using image_iff by (fastforce simp: map_of_eq_None_iff filter_mset_eq_conv)+
    with True show ?thesis by (cases p) simp
  next
    case False
    with Cons show ?thesis by (cases p) (auto split: option.splits)
  qed
qed simp

text \<open>Removing entries by key.\<close>

lemma map_of_delete [store_simps]: "map_of (AList.delete k xs) = (map_of xs)(k := None)"
  by (rule delete_conv')

lemma map_of_fold_delete:
  "map_of (fold AList.delete ks xs) k = (if k \<in> set ks then None else map_of xs k)"
  by (induction ks arbitrary: xs) (auto simp: delete_conv')

section \<open>Sorting\<close>

text \<open>
  \<open>Array.prototype.sort\<close> is stable, so that its result is determined by the comparison when
  the comparison is consistent: a stable insertion sort gives the same list.
\<close>

fun js_insert :: "('a \<Rightarrow> 'a \<Rightarrow> int) \<Rightarrow> 'a \<Rightarrow> 'a list \<Rightarrow> 'a list" where
  "js_insert cmp x [] = [x]"
| "js_insert cmp x (y # ys) = (if cmp x y \<le> 0 then x # y # ys else y # js_insert cmp x ys)"

definition js_sort :: "('a \<Rightarrow> 'a \<Rightarrow> int) \<Rightarrow> 'a list \<Rightarrow> 'a list" where
  "js_sort cmp xs = foldr (js_insert cmp) xs []"

definition consistent_cmp :: "('a \<Rightarrow> 'a \<Rightarrow> int) \<Rightarrow> bool" where
  "consistent_cmp cmp \<longleftrightarrow> (\<forall>a b. 0 < cmp a b \<longrightarrow> cmp b a \<le> 0) \<and> (\<forall>a b c. cmp a b \<le> 0 \<longrightarrow> cmp b c \<le> 0 \<longrightarrow> cmp a c \<le> 0)"

lemma mset_js_insert: "mset (js_insert cmp x ys) = add_mset x (mset ys)"
  by (induction ys) auto

lemma mset_js_sort [simp]: "mset (js_sort cmp xs) = mset xs"
  unfolding js_sort_def by (induction xs) (simp_all add: mset_js_insert)

lemma set_js_sort [simp]: "set (js_sort cmp xs) = set xs"
  by (metis mset_js_sort set_mset_mset)

lemma length_js_sort [simp]: "length (js_sort cmp xs) = length xs"
  by (metis mset_js_sort size_mset)

lemma sorted_js_sort:
  assumes "consistent_cmp cmp"
  shows "sorted_wrt (\<lambda>a b. cmp a b \<le> 0) (js_sort cmp xs)"
proof -
  have "sorted_wrt (\<lambda>a b. cmp a b \<le> 0) (js_insert cmp x ys)"
    if "sorted_wrt (\<lambda>a b. cmp a b \<le> 0) ys" for x ys
    using that
  proof (induction ys)
    case (Cons y ys)
    have "set (js_insert cmp x ys) = insert x (set ys)"
      using arg_cong [OF mset_js_insert [of cmp x ys], of set_mset] by simp
    then show ?case using Cons assms unfolding consistent_cmp_def by (auto simp: not_le)
  qed simp
  then show ?thesis unfolding js_sort_def by (induction xs) auto
qed

end
