(* ===== verification/Interfaces.thy ===== *)
theory Interfaces
  imports Complex_Main Prelude
begin

text \<open>
  The data types of \<open>packages/workflow/src/interfaces.ts\<close> that the engine works on:
  nodes, connections, the items that flow along them, the result of a node's runs and the
  stacks of the execution engine. An optional property is an \<open>option\<close>; an object
  keyed by node names or connection types is the list of its entries in enumeration order.
  Opaque properties (credentials, binary data, hints, metadata) are kept as data objects.
\<close>

section \<open>Values\<close>

datatype json =
    JNull
  | JBool bool
  | JNum rat
  | JStr string
  | JArr "json list"
  | JObj "(string \<times> json) list"

type_synonym IDataObject = "(string \<times> json) list"

text \<open>What a JavaScript condition makes of a value that is present.\<close>

fun json_truthy :: "json \<Rightarrow> bool" where
  "json_truthy JNull = False"
| "json_truthy (JBool b) = b"
| "json_truthy (JNum n) = (n \<noteq> 0)"
| "json_truthy (JStr s) = (s \<noteq> [])"
| "json_truthy (JArr _) = True"
| "json_truthy (JObj _) = True"

section \<open>Nodes and connections\<close>

datatype NodeConnectionType =
    AiAgent | AiChain | AiDocument | AiEmbedding | AiLanguageModel | AiMemory
  | AiOutputParser | AiRetriever | AiReranker | AiTextSplitter | AiTool | AiVectorStore | MainType

fun conn_type_str :: "NodeConnectionType \<Rightarrow> string" where
  "conn_type_str AiAgent = ''ai_agent''"
| "conn_type_str AiChain = ''ai_chain''"
| "conn_type_str AiDocument = ''ai_document''"
| "conn_type_str AiEmbedding = ''ai_embedding''"
| "conn_type_str AiLanguageModel = ''ai_languageModel''"
| "conn_type_str AiMemory = ''ai_memory''"
| "conn_type_str AiOutputParser = ''ai_outputParser''"
| "conn_type_str AiRetriever = ''ai_retriever''"
| "conn_type_str AiReranker = ''ai_reranker''"
| "conn_type_str AiTextSplitter = ''ai_textSplitter''"
| "conn_type_str AiTool = ''ai_tool''"
| "conn_type_str AiVectorStore = ''ai_vectorStore''"
| "conn_type_str MainType = ''main''"

lemma conn_type_str_inject [simp]: "conn_type_str s = conn_type_str t \<longleftrightarrow> s = t"
  by (cases s; cases t) simp_all

datatype OnError = ContinueErrorOutput | ContinueRegularOutput | StopWorkflow

record INode =
  node_name :: string
  node_type :: string
  node_typeVersion :: rat
  node_id :: string
  node_position :: "rat \<times> rat"
  disabled :: "bool option"
  retryOnFail :: "bool option"
  maxTries :: "rat option"
  waitBetweenTries :: "rat option"
  alwaysOutputData :: "bool option"
  executeOnce :: "bool option"
  onError :: "OnError option"
  continueOnFail :: "bool option"
  parameters :: IDataObject
  node_credentials :: "IDataObject option"
  node_notes :: "string option"
  node_notesInFlow :: "bool option"
  node_webhookId :: "string option"
  node_extendsCredential :: "string option"
  rewireOutputLogTo :: "NodeConnectionType option"
  forceCustomOperation :: "(string \<times> string) option"

text \<open>A node with nothing but its name and type, for examples.\<close>

definition plain_node :: "string \<Rightarrow> string \<Rightarrow> INode" where
  "plain_node nm ty = \<lparr>node_name = nm, node_type = ty, node_typeVersion = 1, node_id = nm,
     node_position = (0, 0), disabled = None, retryOnFail = None, maxTries = None,
     waitBetweenTries = None, alwaysOutputData = None, executeOnce = None, onError = None,
     continueOnFail = None, parameters = [], node_credentials = None, node_notes = None,
     node_notesInFlow = None, node_webhookId = None, node_extendsCredential = None,
     rewireOutputLogTo = None, forceCustomOperation = None\<rparr>"

lemma plain_node_simps [simp]:
  "node_name (plain_node nm ty) = nm"
  "node_type (plain_node nm ty) = ty"
  "disabled (plain_node nm ty) = None"
  by (simp_all add: plain_node_def)

lemma plain_node_inject [simp]: "plain_node a s = plain_node b t \<longleftrightarrow> a = b \<and> s = t"
  by (auto simp: plain_node_def)

record IConnection =
  conn_node :: string
  conn_type :: NodeConnectionType
  conn_index :: nat

type_synonym NodeInputConnections = "IConnection list option list"
type_synonym INodeConnections = "(NodeConnectionType \<times> NodeInputConnections) list"
type_synonym IConnections = "(string \<times> INodeConnections) list"
type_synonym INodes = "(string \<times> INode) list"

record INodeConnection =
  sourceIndex :: nat
  destinationIndex :: nat

record IConnectedNode =
  cn_name :: string
  cn_indicies :: "nat list"
  cn_depth :: nat

section \<open>Items and run data\<close>

record ISourceData =
  previousNode :: string
  previousNodeOutput :: "nat option"
  previousNodeRun :: "nat option"

record IPairedItemData =
  pi_item :: nat
  pi_input :: "nat option"
  pi_sourceOverwrite :: "ISourceData option"

datatype pairedItem =
    PairedNumber nat
  | PairedOne IPairedItemData
  | PairedMany "IPairedItemData list"

record INodeExecutionData =
  item_json :: IDataObject
  item_binary :: "IDataObject option"
  item_error :: "json option"
  item_paired :: "pairedItem option"
  item_metadata :: "IDataObject option"
  item_index :: "nat option"

type_synonym ITaskDataConnections = "(NodeConnectionType \<times> INodeExecutionData list option list) list"
type_synonym ITaskDataConnectionsSource = "(NodeConnectionType \<times> ISourceData option list) list"

datatype ExecutionStatus =
    StCanceled | StCrashed | StError | StNew | StRunning | StSuccess | StUnknown | StWaiting

datatype WorkflowExecuteMode =
    ModeCli | ModeError | ModeIntegrated | ModeInternal | ModeManual | ModeRetry | ModeTrigger
  | ModeWebhook | ModeEvaluation

record ITaskData =
  td_startTime :: int
  td_executionIndex :: "nat option"
  td_source :: "ISourceData option list"
  td_hints :: "json list option"
  td_executionTime :: int
  td_executionStatus :: "ExecutionStatus option"
  td_data :: "ITaskDataConnections option"
  td_inputOverride :: "ITaskDataConnections option"
  td_error :: "string option"
  td_metadata :: "IDataObject option"

type_synonym IRunData = "(string \<times> ITaskData list) list"
type_synonym IPinData = "(string \<times> INodeExecutionData list) list"

record IExecuteData =
  ex_node :: INode
  ex_data :: ITaskDataConnections
  ex_source :: "ITaskDataConnectionsSource option"
  ex_metadata :: "IDataObject option"

type_synonym IWaitingForExecution = "(string \<times> (nat \<times> ITaskDataConnections) list) list"
type_synonym IWaitingForExecutionSource =
  "(string \<times> (nat \<times> ITaskDataConnectionsSource) list) list"

record StartNodeData =
  sn_name :: string
  sn_sourceData :: "ISourceData option"

text \<open>The item the engine gives a node that has no input.\<close>

definition empty_item :: INodeExecutionData where
  "empty_item = \<lparr>item_json = [], item_binary = None, item_error = None, item_paired = None,
     item_metadata = None, item_index = None\<rparr>"

section \<open>Node types\<close>

text \<open>
  A node type is code of a node package that the engine only looks up: which handlers it
  has, the groups and inputs its description names and the inputs it requires.
\<close>

datatype requiredInputs = RequiredCount nat | RequiredInputs "nat list" | RequiredExpression string

datatype output_config = PlainOutput NodeConnectionType | OutputConfiguration "NodeConnectionType option"

text \<open>The outputs are a list, or \<^term>\<open>None\<close> when they are an expression.\<close>

record INodeType =
  nt_name :: string
  nt_group :: "string list"
  nt_inputs :: nat
  nt_requiredInputs :: "requiredInputs option"
  nt_execute :: bool
  nt_poll :: bool
  nt_trigger :: bool
  nt_webhook :: bool
  nt_requestDefaults :: bool
  nt_customOperations :: "(string \<times> string list) list option"
  nt_outputs :: "output_config list option"

type_synonym INodeTypes = "string \<Rightarrow> rat \<Rightarrow> INodeType option"

end
