(* ===== verification/Connections.thy ===== *)
theory Connections
  imports Interfaces
begin

text \<open>
  The connections of a workflow (\<open>IConnections\<close>): the loop nest every traversal of them
  shares, the relation between nodes they induce, and \<open>Workflow.getConnectionsByDestination\<close>,
  which turns them around. The main result is that the two forms hold the same connections.
\<close>

named_theorems conn_simps "the connections held by an updated connection structure"

section \<open>Iterating over the connections\<close>

text \<open>
  The four nested loops (source node, connection type, output index, connection) that
  \<open>workflow.ts\<close>, \<open>graph-utils.ts\<close> and \<open>directed-graph.ts\<close> share. An output
  without connections is \<open>null\<close> and is skipped.
\<close>

fun conns_at :: "IConnection list option \<Rightarrow> IConnection list" where
  "conns_at None = []"
| "conns_at (Some cs) = cs"

type_synonym conn_tuple = "string \<times> NodeConnectionType \<times> nat \<times> IConnection"

definition conns_of_lists ::
    "string \<Rightarrow> NodeConnectionType \<Rightarrow> NodeInputConnections \<Rightarrow> conn_tuple list" where
  "conns_of_lists s t ls =
     concat (map (\<lambda>(i, l). map (\<lambda>c. (s, t, i, c)) (conns_at l)) (enumerate 0 ls))"

definition conns_of_node :: "string \<Rightarrow> INodeConnections \<Rightarrow> conn_tuple list" where
  "conns_of_node s m = concat (map (\<lambda>(t, ls). conns_of_lists s t ls) m)"

definition all_connections :: "IConnections \<Rightarrow> conn_tuple list" where
  "all_connections cs = concat (map (\<lambda>(s, m). conns_of_node s m) cs)"

text \<open>Keys of a JavaScript object are distinct, at both levels.\<close>

definition wf_connections :: "IConnections \<Rightarrow> bool" where
  "wf_connections cs \<longleftrightarrow> distinct (keys_of cs) \<and> (\<forall>(s, m) \<in> set cs. distinct (keys_of m))"

lemma wf_connectionsD:
  "wf_connections cs \<Longrightarrow> map_of cs s = Some m \<Longrightarrow> distinct (keys_of m)"
  by (auto simp: wf_connections_def dest: map_of_SomeD)

lemma in_conns_of_lists:
  "(s', t', i, c) \<in> set (conns_of_lists s t ls)
     \<longleftrightarrow> s' = s \<and> t' = t \<and> i < length ls \<and> c \<in> set (conns_at (ls ! i))"
proof -
  have "(s', t', i, c) \<in> set (conns_of_lists s t ls)
      \<longleftrightarrow> (\<exists>p \<in> set (enumerate 0 ls). s' = s \<and> t' = t \<and> i = fst p \<and> c \<in> set (conns_at (snd p)))"
    by (force simp: conns_of_lists_def)
  also have "\<dots> \<longleftrightarrow> s' = s \<and> t' = t \<and> i < length ls \<and> c \<in> set (conns_at (ls ! i))"
    by (auto simp: in_set_enumerate_eq intro: bexI [of _ "(i, ls ! i)"])
  finally show ?thesis .
qed

lemma conns_of_lists_Nil [simp]: "conns_of_lists s t [] = []"
  by (simp add: conns_of_lists_def)

lemma in_all_connections:
  assumes "wf_connections cs"
  shows "(s, t, i, c) \<in> set (all_connections cs)
     \<longleftrightarrow> (\<exists>m ls. map_of cs s = Some m \<and> map_of m t = Some ls \<and> i < length ls
           \<and> c \<in> set (conns_at (ls ! i)))"
proof -
  have "(s, t, i, c) \<in> set (all_connections cs)
      \<longleftrightarrow> (\<exists>m ls. (s, m) \<in> set cs \<and> (t, ls) \<in> set m \<and> i < length ls \<and> c \<in> set (conns_at (ls ! i)))"
    by (fastforce simp: all_connections_def conns_of_node_def in_conns_of_lists)
  also have "\<dots> \<longleftrightarrow> (\<exists>m ls. map_of cs s = Some m \<and> map_of m t = Some ls \<and> i < length ls
           \<and> c \<in> set (conns_at (ls ! i)))"
    using assms by (fastforce simp: wf_connections_def)
  finally show ?thesis .
qed

text \<open>The relation between node names that connections with a type in \<open>T\<close> induce.\<close>

definition conn_rel :: "IConnections \<Rightarrow> NodeConnectionType set \<Rightarrow> (string \<times> string) set" where
  "conn_rel cs T = {(a, b). \<exists>t i c. (a, t, i, c) \<in> set (all_connections cs) \<and> t \<in> T \<and> conn_node c = b}"

section \<open>Connections by destination\<close>

text \<open>
  The body of the innermost loop of \<open>getConnectionsByDestination\<close>: create the entry of the
  destination and of the connection's type if they are missing, pad its list of inputs up to the
  connection's index, and add the source there (nothing is added where the input is \<open>null\<close>,
  which is what \<open>?.push\<close> does).
\<close>

definition pad_inputs :: "nat \<Rightarrow> NodeInputConnections \<Rightarrow> NodeInputConnections" where
  "pad_inputs j ls = ls @ replicate (Suc j - length ls) (Some [])"

definition add_to_destination ::
    "conn_tuple \<Rightarrow> IConnections \<Rightarrow> IConnections" where
  "add_to_destination p ret =
     (case p of (sourceNode, type, inputIndex, connectionInfo) \<Rightarrow>
       (let byType = (case map_of ret (conn_node connectionInfo) of None \<Rightarrow> [] | Some m \<Rightarrow> m);
            inputs = (case map_of byType (conn_type connectionInfo) of None \<Rightarrow> [] | Some l \<Rightarrow> l);
            padded = pad_inputs (conn_index connectionInfo) inputs;
            entry = map_option (\<lambda>l. l @ [\<lparr>conn_node = sourceNode, conn_type = type, conn_index = inputIndex\<rparr>])
                      (padded ! conn_index connectionInfo)
        in obj_set (conn_node connectionInfo)
             (AList.update (conn_type connectionInfo) (padded[conn_index connectionInfo := entry]) byType)
             ret))"

definition getConnectionsByDestination :: "IConnections \<Rightarrow> IConnections" where
  "getConnectionsByDestination connections = fold add_to_destination (all_connections connections) []"

text \<open>The structure under construction holds no \<open>null\<close>.\<close>

definition wf_by_destination :: "IConnections \<Rightarrow> bool" where
  "wf_by_destination cs \<longleftrightarrow> wf_connections cs \<and> (\<forall>(s, m) \<in> set cs. \<forall>(t, ls) \<in> set m. None \<notin> set ls)"

fun invert_connection :: "conn_tuple \<Rightarrow> conn_tuple" where
  "invert_connection (s, t, i, c) =
     (conn_node c, conn_type c, conn_index c, \<lparr>conn_node = s, conn_type = t, conn_index = i\<rparr>)"

lemma invert_invert [simp]: "invert_connection (invert_connection p) = p"
  by (cases p) simp

lemma conns_of_lists_pad [conn_simps]:
  "conns_of_lists s t (pad_inputs j ls) = conns_of_lists s t ls"
proof -
  have "concat (map (\<lambda>(i, l). map (\<lambda>c. (s, t, i, c)) (conns_at l)) (enumerate n (replicate k (Some []))))
      = []" for n k by (auto simp: in_set_enumerate_eq)
  then show ?thesis by (simp add: conns_of_lists_def pad_inputs_def enumerate_append_eq)
qed

lemma mset_conns_of_lists_update:
  assumes "j < length ls" and "ls ! j = Some l"
  shows "mset (conns_of_lists s t (ls[j := Some (l @ [c])]))
    = add_mset (s, t, j, c) (mset (conns_of_lists s t ls))"
proof -
  have ls: "ls = take j ls @ Some l # drop (Suc j) ls"
    using assms id_take_nth_drop [of j ls] by simp
  have "ls[j := Some (l @ [c])] = take j ls @ Some (l @ [c]) # drop (Suc j) ls"
    using assms(1) by (simp add: upd_conv_take_nth_drop)
  then show ?thesis
    using assms(1) by (subst (2) ls) (simp add: conns_of_lists_def enumerate_append_eq)
qed

text \<open>Replacing one entry of a store changes the connections by those of that entry.\<close>

lemma mset_concat_put:
  assumes "mset ys = add_mset (k, v) (filter_mset (\<lambda>p. fst p \<noteq> k) (mset xs))"
    and "distinct (keys_of xs)"
    and "mset (f (k, v)) = add_mset x (case map_of xs k of None \<Rightarrow> {#} | Some w \<Rightarrow> mset (f (k, w)))"
  shows "mset (concat (map f ys)) = add_mset x (mset (concat (map f xs)))"
proof -
  have split: "mset xs = filter_mset (\<lambda>p. fst p \<noteq> k) (mset xs)
      + (case map_of xs k of None \<Rightarrow> {#} | Some v \<Rightarrow> {#(k, v)#})" (is "_ = ?F + ?K")
    by (rule mset_split_key [OF assms(2)])
  have sum: "mset (concat (map f zs)) = (\<Sum>p \<in># mset zs. mset (f p))" for zs
    by (simp add: mset_concat sum_mset_sum_list [symmetric] image_mset.compositionality comp_def)
  have "mset (concat (map f ys)) = mset (f (k, v)) + (\<Sum>p \<in># ?F. mset (f p))"
    by (simp only: sum assms(1)) simp
  also have "\<dots> = add_mset x ((\<Sum>p \<in># ?F. mset (f p)) + (\<Sum>p \<in># ?K. mset (f p)))"
    using assms(3) by (simp split: option.splits)
  also have "\<dots> = add_mset x (mset (concat (map f xs)))"
    by (simp only: sum) (subst (2) split, simp)
  finally show ?thesis .
qed

text \<open>
  What one step does to a structure without \<open>null\<close>: it replaces one list \<open>ls\<close> of
  inputs, found through \<open>m\<close>, by one that has the new source at the end of one input.
\<close>

lemma add_to_destination_effect:
  assumes "wf_by_destination ret" and "p = (s, t, i, c)"
  obtains m ls l where
    "map_of ret (conn_node c) = Some m \<or> map_of ret (conn_node c) = None \<and> m = []"
    "map_of m (conn_type c) = Some ls \<or> map_of m (conn_type c) = None \<and> ls = []"
    "distinct (keys_of m)" "\<forall>(t, ls) \<in> set m. None \<notin> set ls" "None \<notin> set ls"
    "pad_inputs (conn_index c) ls ! conn_index c = Some l"
    "add_to_destination p ret = obj_set (conn_node c) (AList.update (conn_type c)
       ((pad_inputs (conn_index c) ls)[conn_index c :=
           Some (l @ [\<lparr>conn_node = s, conn_type = t, conn_index = i\<rparr>])]) m) ret"
proof -
  define m where "m = (case map_of ret (conn_node c) of None \<Rightarrow> [] | Some m \<Rightarrow> m)"
  define ls where "ls = (case map_of m (conn_type c) of None \<Rightarrow> [] | Some l \<Rightarrow> l)"
  have m: "distinct (keys_of m)" "\<forall>(t, ls) \<in> set m. None \<notin> set ls"
    using assms(1) by (fastforce simp: m_def wf_by_destination_def wf_connections_def
        split: option.splits dest: map_of_SomeD)+
  then have ls: "None \<notin> set ls"
    by (fastforce simp: ls_def split: option.splits dest: map_of_SomeD)
  then have "None \<notin> set (pad_inputs (conn_index c) ls)" by (auto simp: pad_inputs_def)
  moreover have "conn_index c < length (pad_inputs (conn_index c) ls)" by (simp add: pad_inputs_def)
  ultimately have "pad_inputs (conn_index c) ls ! conn_index c \<noteq> None" by (metis nth_mem)
  then obtain l where l: "pad_inputs (conn_index c) ls ! conn_index c = Some l" by blast
  show thesis
    by (rule that [of m ls l]) (use m ls l in \<open>auto simp: m_def ls_def add_to_destination_def
        assms(2) Let_def split: option.splits\<close>)
qed

lemma mset_add_to_destination:
  assumes "wf_by_destination ret"
  shows "mset (all_connections (add_to_destination p ret))
    = add_mset (invert_connection p) (mset (all_connections ret))"
proof -
  obtain s t i c where p: "p = (s, t, i, c)" by (cases p)
  let ?j = "conn_index c"
  let ?new = "\<lparr>conn_node = s, conn_type = t, conn_index = i\<rparr>"
  obtain m ls l where m: "map_of ret (conn_node c) = Some m \<or> map_of ret (conn_node c) = None \<and> m = []"
    and ls: "map_of m (conn_type c) = Some ls \<or> map_of m (conn_type c) = None \<and> ls = []"
    and dm: "distinct (keys_of m)" and l: "pad_inputs ?j ls ! ?j = Some l"
    and eq: "add_to_destination p ret = obj_set (conn_node c)
      (AList.update (conn_type c) ((pad_inputs ?j ls)[?j := Some (l @ [?new])]) m) ret"
    by (rule add_to_destination_effect [OF assms p])
  have d: "distinct (keys_of ret)" using assms by (simp add: wf_by_destination_def wf_connections_def)
  let ?ls' = "(pad_inputs ?j ls)[?j := Some (l @ [?new])]"
  let ?m' = "AList.update (conn_type c) ?ls' m"
  have "?j < length (pad_inputs ?j ls)" by (simp add: pad_inputs_def)
  from mset_conns_of_lists_update [OF this l]
  have lists: "mset (conns_of_lists n t' ?ls') = add_mset (n, t', ?j, ?new) (mset (conns_of_lists n t' ls))"
    for n t' by (simp add: conn_simps)
  have "mset (conns_of_node (conn_node c) ?m')
      = add_mset (conn_node c, conn_type c, ?j, ?new) (mset (conns_of_node (conn_node c) m))"
    unfolding conns_of_node_def
    by (rule mset_concat_put [OF js_map.mset_put [OF dm] dm])
      (use ls in \<open>auto simp: lists split: option.splits\<close>)
  then have "mset (all_connections (obj_set (conn_node c) ?m' ret))
      = add_mset (conn_node c, conn_type c, ?j, ?new) (mset (all_connections ret))"
    unfolding all_connections_def
    by (intro mset_concat_put [OF js_obj.mset_put [OF d] d])
      (use m in \<open>auto simp: conns_of_node_def split: option.splits\<close>)
  then show ?thesis by (simp add: p eq [unfolded p])
qed

lemma wf_add_to_destination:
  assumes "wf_by_destination ret"
  shows "wf_by_destination (add_to_destination p ret)"
proof -
  obtain s t i c where p: "p = (s, t, i, c)" by (cases p)
  let ?j = "conn_index c"
  obtain m ls l e where m: "distinct (keys_of m)" "\<forall>(t, ls) \<in> set m. None \<notin> set ls"
    and ls: "None \<notin> set ls"
    and eq: "add_to_destination p ret = obj_set (conn_node c)
      (AList.update (conn_type c) ((pad_inputs ?j ls)[?j := Some e]) m) ret"
    by (rule add_to_destination_effect [OF assms p])
  let ?ls' = "(pad_inputs ?j ls)[?j := Some e]"
  have "set ?ls' \<subseteq> insert (Some e) (set (pad_inputs ?j ls))" by (rule set_update_subset_insert)
  then have "None \<notin> set ?ls'" using ls by (auto simp: pad_inputs_def)
  then have "distinct (keys_of (AList.update (conn_type c) ?ls' m))"
    "\<forall>(t, ls) \<in> set (AList.update (conn_type c) ?ls' m). None \<notin> set ls"
    using m by (auto simp: js_map.ok_put js_map.values_put)
  then show ?thesis
    using assms unfolding eq
    by (auto simp: wf_by_destination_def wf_connections_def js_obj.values_put js_obj.ok_put)
qed

lemma fold_add_to_destination:
  "wf_by_destination ret \<Longrightarrow>
     wf_by_destination (fold add_to_destination ps ret) \<and>
     mset (all_connections (fold add_to_destination ps ret))
       = image_mset invert_connection (mset ps) + mset (all_connections ret)"
  by (induction ps arbitrary: ret) (simp_all add: wf_add_to_destination mset_add_to_destination)

lemma wf_getConnectionsByDestination: "wf_connections (getConnectionsByDestination cs)"
proof -
  have "wf_by_destination []" by (simp add: wf_by_destination_def wf_connections_def)
  from fold_add_to_destination [OF this] show ?thesis
    by (simp add: getConnectionsByDestination_def wf_by_destination_def)
qed

lemma mset_getConnectionsByDestination:
  "mset (all_connections (getConnectionsByDestination cs))
     = image_mset invert_connection (mset (all_connections cs))"
proof -
  have "wf_by_destination []" by (simp add: wf_by_destination_def wf_connections_def)
  from fold_add_to_destination [OF this] show ?thesis
    by (simp add: getConnectionsByDestination_def) (simp add: all_connections_def)
qed

lemma in_getConnectionsByDestination:
  "p \<in> set (all_connections (getConnectionsByDestination cs))
     \<longleftrightarrow> invert_connection p \<in> set (all_connections cs)"
proof -
  have "set (all_connections (getConnectionsByDestination cs)) = invert_connection ` set (all_connections cs)"
    using arg_cong [OF mset_getConnectionsByDestination [of cs], of set_mset] by simp
  then show ?thesis by (metis (no_types, lifting) imageE image_eqI invert_invert)
qed

section \<open>Properties\<close>

text \<open>
  C8: turning the connections of a workflow around loses none and invents none: the connections by
  destination are, as a multiset, the connections by source with their two ends exchanged.
\<close>

theorem getConnectionsByDestination_inverts:
  "mset (all_connections (getConnectionsByDestination cs))
     = image_mset invert_connection (mset (all_connections cs))"
  by (rule mset_getConnectionsByDestination)

end
