(* ===== verification/Workflow.thy ===== *)
theory Workflow
  imports Connections
begin

text \<open>
  The class \<open>Workflow\<close> of \<open>packages/workflow/src/workflow.ts\<close>: its state, the
  lookups, and the traversals that collect all nodes connected to a node. The traversals
  of the later sections of the class are in \<open>WorkflowSearch\<close> and \<open>WorkflowRename\<close>.
\<close>

section \<open>State and lookups\<close>

record Workflow =
  wf_nodes :: INodes
  connectionsBySourceNode :: IConnections
  connectionsByDestinationNode :: IConnections
  nodeTypes :: INodeTypes
  executionOrder :: "string option"
  wf_pinData :: "IPinData option"

text \<open>
  The constructor. \<open>defaults\<close> is \<open>NodeHelpers.getNodeParameters\<close>, which fills in the
  default values of a node type's properties and returns \<open>null\<close> when there are none.
\<close>

definition add_node :: "(INodeType \<Rightarrow> INode \<Rightarrow> IDataObject option) \<Rightarrow> INodeTypes \<Rightarrow> INode \<Rightarrow> INodes \<Rightarrow> INodes" where
  "add_node defaults types node ns =
     (case types (node_type node) (node_typeVersion node) of
        None \<Rightarrow> obj_set (node_name node) node ns
      | Some nodeType \<Rightarrow>
          obj_set (node_name node)
            (node\<lparr>parameters := (case defaults nodeType node of None \<Rightarrow> [] | Some ps \<Rightarrow> ps)\<rparr>) ns)"

definition new_workflow ::
    "(INodeType \<Rightarrow> INode \<Rightarrow> IDataObject option) \<Rightarrow> INode list \<Rightarrow> IConnections \<Rightarrow> INodeTypes
       \<Rightarrow> string option \<Rightarrow> IPinData option \<Rightarrow> Workflow" where
  "new_workflow defaults nodes connections types order pin =
     \<lparr>wf_nodes = fold (add_node defaults types) nodes [],
      connectionsBySourceNode = connections,
      connectionsByDestinationNode = getConnectionsByDestination connections,
      nodeTypes = types, executionOrder = order, wf_pinData = pin\<rparr>"

text \<open>
  What the constructor establishes and every later operation relies on: nodes are stored under
  their own names, keys are distinct, and the two forms of the connections agree.
\<close>

definition keyed_by_name :: "INodes \<Rightarrow> bool" where
  "keyed_by_name ns \<longleftrightarrow> distinct (keys_of ns) \<and> (\<forall>(k, node) \<in> set ns. k = node_name node)"

definition wf_workflow :: "Workflow \<Rightarrow> bool" where
  "wf_workflow w \<longleftrightarrow> keyed_by_name (wf_nodes w)
     \<and> wf_connections (connectionsBySourceNode w)
     \<and> connectionsByDestinationNode w = getConnectionsByDestination (connectionsBySourceNode w)"

definition getNode :: "Workflow \<Rightarrow> string \<Rightarrow> INode option" where
  "getNode w nodeName = map_of (wf_nodes w) nodeName"

fun getNodes :: "Workflow \<Rightarrow> string list \<Rightarrow> INode list" where
  "getNodes w [] = []"
| "getNodes w (nm # names) =
     (case getNode w nm of None \<Rightarrow> getNodes w names | Some node \<Rightarrow> node # getNodes w names)"

definition getPinDataOfNode :: "Workflow \<Rightarrow> string \<Rightarrow> INodeExecutionData list option" where
  "getPinDataOfNode w nodeName =
     (case wf_pinData w of None \<Rightarrow> None | Some pin \<Rightarrow> map_of pin nodeName)"

definition node_type_of :: "Workflow \<Rightarrow> INode \<Rightarrow> INodeType option" where
  "node_type_of w node = nodeTypes w (node_type node) (node_typeVersion node)"

definition queryNodes :: "Workflow \<Rightarrow> (INodeType \<Rightarrow> bool) \<Rightarrow> INode list" where
  "queryNodes w checkFunction =
     filter (\<lambda>node. disabled node \<noteq> Some True \<and>
       (case node_type_of w node of None \<Rightarrow> False | Some nodeType \<Rightarrow> checkFunction nodeType))
       (values_of (wf_nodes w))"

definition getTriggerNodes :: "Workflow \<Rightarrow> INode list" where
  "getTriggerNodes w = queryNodes w nt_trigger"

definition getPollNodes :: "Workflow \<Rightarrow> INode list" where
  "getPollNodes w = queryNodes w nt_poll"

lemma keyed_by_name_add_node:
  "keyed_by_name ns \<Longrightarrow> keyed_by_name (add_node defaults types n ns)"
  by (auto simp: keyed_by_name_def add_node_def js_obj.ok_put js_obj.values_put split: option.splits)

lemma wf_new_workflow:
  assumes "wf_connections connections"
  shows "wf_workflow (new_workflow defaults nodes connections types order pin)"
proof -
  have "keyed_by_name (fold (add_node defaults types) nodes ns)" if "keyed_by_name ns" for ns
    using that by (induction nodes arbitrary: ns) (auto intro: keyed_by_name_add_node)
  from this [of "[]"] assms show ?thesis
    by (simp add: wf_workflow_def new_workflow_def keyed_by_name_def)
qed

lemma getNode_name: "wf_workflow w \<Longrightarrow> getNode w nm = Some node \<Longrightarrow> node_name node = nm"
  by (auto simp: wf_workflow_def keyed_by_name_def getNode_def dest!: map_of_SomeD)

section \<open>All connected nodes\<close>

text \<open>
  \<open>getConnectedNodes\<close> walks every path that repeats no node. The list of checked nodes is
  copied for each call, so a node is visited once per path that leads to it.
\<close>

datatype conn_filter = OnlyType NodeConnectionType | AllTypes | AllNonMain

fun filter_types :: "conn_filter \<Rightarrow> INodeConnections \<Rightarrow> NodeConnectionType list" where
  "filter_types (OnlyType t) m = [t]"
| "filter_types AllTypes m = keys_of m"
| "filter_types AllNonMain m = filter (\<lambda>t. t \<noteq> MainType) (keys_of m)"

text \<open>
  The loop that puts the nodes found behind a connection in front of the result: a node that is
  already in the result is moved.
\<close>

fun add_connected :: "string list \<Rightarrow> string list \<Rightarrow> string list" where
  "add_connected [] returnNodes = returnNodes"
| "add_connected (parentNodeName # addNodes) returnNodes =
     parentNodeName # remove1 parentNodeName (add_connected addNodes returnNodes)"

function getConnectedNodes ::
    "IConnections \<Rightarrow> string \<Rightarrow> conn_filter \<Rightarrow> int \<Rightarrow> string list \<Rightarrow> string list" where
  "getConnectedNodes connections nodeName connectionType depth checkedIncoming =
     (let newDepth = (if depth = -1 then depth else depth - 1) in
      if depth = 0 then []
      else case map_of connections nodeName of
        None \<Rightarrow> []
      | Some byType \<Rightarrow>
          fold (\<lambda>type returnNodes. case map_of byType type of
              None \<Rightarrow> returnNodes
            | Some inputs \<Rightarrow>
                (if nodeName \<in> set checkedIncoming then returnNodes
                 else fold (\<lambda>connection returnNodes.
                     if conn_node connection \<in> set (checkedIncoming @ [nodeName]) then returnNodes
                     else add_connected
                       (getConnectedNodes connections (conn_node connection) connectionType newDepth
                          (checkedIncoming @ [nodeName]))
                       (conn_node connection # returnNodes))
                   (concat (map conns_at inputs)) returnNodes))
            (filter_types connectionType byType) [])"
  by pat_completeness auto
termination
proof (relation "measure (\<lambda>(cs, n, ct, d, chk). card (set (keys_of cs) - set chk))", goal_cases)
  case (2 cs n ct d chk nd byType t ret inputs c ret')
  then have "n \<in> set (keys_of cs) - set chk"
    by (auto simp: rev_image_eqI dest: map_of_SomeD)
  then have "set (keys_of cs) - set (chk @ [n]) \<subset> set (keys_of cs) - set chk" by auto
  then show ?case by (simp add: psubset_card_mono)
qed simp

declare getConnectedNodes.simps [simp del]

definition getChildNodes :: "Workflow \<Rightarrow> string \<Rightarrow> conn_filter \<Rightarrow> int \<Rightarrow> string list" where
  "getChildNodes w nodeName type depth =
     getConnectedNodes (connectionsBySourceNode w) nodeName type depth []"

definition getParentNodes :: "Workflow \<Rightarrow> string \<Rightarrow> conn_filter \<Rightarrow> int \<Rightarrow> string list" where
  "getParentNodes w nodeName type depth =
     getConnectedNodes (connectionsByDestinationNode w) nodeName type depth []"

fun filter_set :: "conn_filter \<Rightarrow> NodeConnectionType set" where
  "filter_set (OnlyType t) = {t}"
| "filter_set AllTypes = UNIV"
| "filter_set AllNonMain = - {MainType}"

lemma set_add_connected [simp]: "set (add_connected xs ys) = set xs \<union> set ys"
proof (induction xs)
  case (Cons x xs)
  have "insert x (set (remove1 x zs)) = insert x (set zs)" for zs
    by (induction zs) auto
  with Cons show ?case by auto
qed simp

lemma set_fold_union:
  assumes "\<And>x ret. x \<in> set xs \<Longrightarrow> set (f x ret) = set ret \<union> G x"
  shows "set (fold f xs ret) = set ret \<union> \<Union> (G ` set xs)"
  using assms by (induction xs arbitrary: ret) auto

lemma set_fold_add_connected:
  "set (fold (\<lambda>c ret. if P c then ret else add_connected (f c) (g c # ret)) xs ret)
     = set ret \<union> (\<Union>c \<in> {c \<in> set xs. \<not> P c}. insert (g c) (set (f c)))"
  by (induction xs arbitrary: ret) auto

text \<open>Paths that avoid a set of nodes, and how the node a path starts from can be avoided.\<close>

definition avoiding :: "('a \<times> 'a) set \<Rightarrow> 'a set \<Rightarrow> ('a \<times> 'a) set" where
  "avoiding E C = {(a, b). (a, b) \<in> E \<and> b \<notin> C}"

lemma avoiding_mono: "C \<subseteq> D \<Longrightarrow> (avoiding E D)\<^sup>+ \<subseteq> (avoiding E C)\<^sup>+"
  by (rule trancl_mono_subset) (auto simp: avoiding_def)

lemma avoiding_start:
  "(c, m) \<in> (avoiding E C)\<^sup>* \<Longrightarrow> m = c \<or> (c, m) \<in> (avoiding E (insert c C))\<^sup>+"
proof (induction rule: rtrancl_induct)
  case (step y z)
  show ?case
  proof (cases "z = c")
    case False
    with step.hyps(2) have "(y, z) \<in> avoiding E (insert c C)" by (auto simp: avoiding_def)
    with step.IH show ?thesis by (auto intro: trancl_into_trancl)
  qed simp
qed simp

lemma avoiding_trancl_step:
  "(n, m) \<in> (avoiding E C)\<^sup>+ \<longleftrightarrow>
     (\<exists>c. (n, c) \<in> E \<and> c \<notin> C \<and> (m = c \<or> (c, m) \<in> (avoiding E (insert c C))\<^sup>+))" (is "?L \<longleftrightarrow> ?R")
proof
  assume ?L
  then obtain c where "(n, c) \<in> avoiding E C" "(c, m) \<in> (avoiding E C)\<^sup>*"
    by (meson tranclD)
  then show ?R using avoiding_start by (fastforce simp: avoiding_def)
next
  assume ?R
  then obtain c where c: "(n, c) \<in> avoiding E C" "m = c \<or> (c, m) \<in> (avoiding E (insert c C))\<^sup>+"
    by (auto simp: avoiding_def)
  then have "m = c \<or> (c, m) \<in> (avoiding E C)\<^sup>+"
    using avoiding_mono [of C "insert c C" E] by auto
  with c(1) show ?L by (auto intro: trancl_into_trancl2)
qed

lemma conn_rel_step:
  assumes "wf_connections cs"
  shows "(n, b) \<in> conn_rel cs (filter_set ct) \<longleftrightarrow>
    (\<exists>m t ls c. map_of cs n = Some m \<and> t \<in> set (filter_types ct m) \<and> map_of m t = Some ls
       \<and> c \<in> set (concat (map conns_at ls)) \<and> conn_node c = b)"
proof -
  have types: "t \<in> filter_set ct \<longleftrightarrow> t \<in> set (filter_types ct m)" if "map_of m t = Some ls" for t m ls
    using that by (cases ct) (force dest: map_of_SomeD)+
  have lists: "(\<exists>i < length ls. c \<in> set (conns_at (ls ! i))) \<longleftrightarrow> c \<in> set (concat (map conns_at ls))"
    for c and ls :: NodeInputConnections
    by (simp add: Bex_def in_set_conv_nth [of _ ls]) blast
  show ?thesis
    unfolding conn_rel_def mem_Collect_eq prod.case in_all_connections [OF assms]
    using types lists by (metis (no_types, lifting))
qed

lemma set_getConnectedNodes:
  "wf_connections cs \<Longrightarrow> n \<notin> set chk \<Longrightarrow> set (getConnectedNodes cs n ct (-1) chk)
    = {m. (n, m) \<in> (avoiding (conn_rel cs (filter_set ct)) (insert n (set chk)))\<^sup>+}"
proof (induction cs n ct "-1 :: int" chk rule: getConnectedNodes.induct)
  case (1 cs n ct chk)
  note wf = "1.prems"(1)
  let ?E = "conn_rel cs (filter_set ct)"
  let ?C = "insert n (set chk)"
  let ?succ = "{c. (n, c) \<in> ?E \<and> c \<notin> ?C}"
  show ?case
  proof (cases "map_of cs n")
    case None
    then have "(n, c) \<notin> ?E" for c using conn_rel_step [OF wf, of n c ct] by simp
    then have "(n, m) \<notin> (avoiding ?E ?C)\<^sup>+" for m by (subst avoiding_trancl_step) simp
    with None show ?thesis by (simp add: getConnectedNodes.simps [of cs n])
  next
    case (Some m)
    define chk' where "chk' = chk @ [n]"
    define R where "R c = set (getConnectedNodes cs c ct (-1) chk')" for c
    define G where "G t = (case map_of m t of None \<Rightarrow> {} | Some ls \<Rightarrow>
      \<Union>c \<in> {c \<in> set (concat (map conns_at ls)). conn_node c \<notin> set chk'}. insert (conn_node c) (R (conn_node c)))"
      for t
    have IH: "R (conn_node c) = {x. (conn_node c, x) \<in> (avoiding ?E (insert (conn_node c) ?C))\<^sup>+}"
      if "t \<in> set (filter_types ct m)" "map_of m t = Some ls" "c \<in> set (concat (map conns_at ls))"
        "conn_node c \<notin> set chk'" for t ls c
      using "1.hyps" [OF _ _ Some that(1,2) "1.prems"(2) that(3)] that(4) wf
      by (simp add: R_def chk'_def insert_commute)
    define F where "F t ret = (case map_of m t of None \<Rightarrow> ret | Some inputs \<Rightarrow>
      (if n \<in> set chk then ret else fold (\<lambda>c ret. if conn_node c \<in> set chk' then ret
         else add_connected (getConnectedNodes cs (conn_node c) ct (-1) chk') (conn_node c # ret))
       (concat (map conns_at inputs)) ret))" for t ret
    have "set (getConnectedNodes cs n ct (-1) chk) = set (fold F (filter_types ct m) [])"
      unfolding F_def chk'_def by (subst getConnectedNodes.simps) (simp add: Some)
    also have "\<dots> = \<Union> (G ` set (filter_types ct m))"
      by (subst set_fold_union [where G = G])
        (use "1.prems" in \<open>simp_all add: F_def G_def R_def set_fold_add_connected split: option.split\<close>)
    also have "\<dots> = {x. \<exists>t ls c. t \<in> set (filter_types ct m) \<and> map_of m t = Some ls
        \<and> c \<in> set (concat (map conns_at ls)) \<and> conn_node c \<notin> set chk'
        \<and> (x = conn_node c \<or> x \<in> R (conn_node c))}"
      by (force simp: G_def split: option.splits)
    also have "\<dots> = {x. \<exists>c. (n, c) \<in> ?E \<and> c \<notin> ?C \<and> (x = c \<or> (c, x) \<in> (avoiding ?E (insert c ?C))\<^sup>+)}"
      using IH conn_rel_step [OF wf, of n _ ct] Some by (fastforce simp: chk'_def)
    also have "\<dots> = {x. (n, x) \<in> (avoiding ?E ?C)\<^sup>+}" by (subst (2) avoiding_trancl_step) simp
    finally show ?thesis .
  qed
qed

lemma avoiding_source: "{m. (n, m) \<in> (avoiding E {n})\<^sup>+} = {m. (n, m) \<in> E\<^sup>+} - {n}"
proof -
  have "m \<noteq> n" "(n, m) \<in> E\<^sup>+" if "(n, m) \<in> (avoiding E {n})\<^sup>+" for m
    using that avoiding_mono [of "{}" "{n}" E]
    by (auto simp: avoiding_def elim: tranclE)
  moreover have "(n, m) \<in> (avoiding E {n})\<^sup>+" if "(n, m) \<in> E\<^sup>+" "m \<noteq> n" for m
    using avoiding_start [of n m E "{}"] that by (auto simp: avoiding_def dest: trancl_into_rtrancl)
  ultimately show ?thesis by blast
qed

text \<open>The connections that enter a node through an input with a type in \<open>T\<close>.\<close>

definition into_rel :: "IConnections \<Rightarrow> NodeConnectionType set \<Rightarrow> (string \<times> string) set" where
  "into_rel cs T = {(a, b). \<exists>t i c. (a, t, i, c) \<in> set (all_connections cs) \<and> conn_type c \<in> T \<and> conn_node c = b}"

lemma conn_rel_by_destination: "conn_rel (getConnectionsByDestination cs) T = (into_rel cs T)\<inverse>"
proof -
  have "(\<exists>t i c. (b, t, i, c) \<in> set (all_connections (getConnectionsByDestination cs)) \<and> t \<in> T \<and> conn_node c = a)
     \<longleftrightarrow> (\<exists>t i c. (a, t, i, c) \<in> set (all_connections cs) \<and> conn_type c \<in> T \<and> conn_node c = b)" (is "?L \<longleftrightarrow> ?R")
    for a b
  proof
    assume ?L
    then show ?R by (fastforce simp: in_getConnectionsByDestination)
  next
    assume ?R
    then obtain t i c where c: "(a, t, i, c) \<in> set (all_connections cs)" "conn_type c \<in> T" "conn_node c = b"
      by blast
    then have "(b, conn_type c, conn_index c, \<lparr>conn_node = a, conn_type = t, conn_index = i\<rparr>)
        \<in> set (all_connections (getConnectionsByDestination cs))"
      by (cases c) (simp add: in_getConnectionsByDestination)
    with c(2) show ?L by force
  qed
  then show ?thesis by (auto simp: conn_rel_def into_rel_def)
qed

lemma getChildNodes_reachable:
  assumes "wf_workflow w"
  shows "set (getChildNodes w n ct (-1))
    = {m. (n, m) \<in> (conn_rel (connectionsBySourceNode w) (filter_set ct))\<^sup>+} - {n}"
proof -
  have "wf_connections (connectionsBySourceNode w)" using assms by (simp add: wf_workflow_def)
  from set_getConnectedNodes [OF this, of n "[]" ct] show ?thesis
    by (simp add: getChildNodes_def avoiding_source)
qed

lemma getParentNodes_reachable:
  assumes "wf_workflow w"
  shows "set (getParentNodes w n ct (-1))
    = {m. (m, n) \<in> (into_rel (connectionsBySourceNode w) (filter_set ct))\<^sup>+} - {n}"
proof -
  have cs: "connectionsByDestinationNode w = getConnectionsByDestination (connectionsBySourceNode w)"
    using assms by (simp add: wf_workflow_def)
  have "wf_connections (connectionsByDestinationNode w)"
    by (simp add: cs wf_getConnectionsByDestination)
  from set_getConnectedNodes [OF this, of n "[]" ct] show ?thesis
    by (simp add: getParentNodes_def avoiding_source cs conn_rel_by_destination trancl_converse)
qed

section \<open>An example\<close>

text \<open>
  A trigger \<open>T\<close>, connected to \<open>A\<close>, which is connected to \<open>B\<close>: the workflow the examples
  of the later theories use. Every node type is known; those named \<open>trigger\<close> are triggers.
\<close>

named_theorems example_simps "the values of the examples"

definition example_type :: "string \<Rightarrow> INodeType" where
  "example_type ty = \<lparr>nt_name = ty, nt_group = (if ty = ''trigger'' then [ty] else []),
     nt_inputs = 1, nt_requiredInputs = None, nt_execute = True, nt_poll = False, nt_trigger = (ty = ''trigger''), nt_webhook = False, nt_requestDefaults = False,
     nt_customOperations = None, nt_outputs = Some [PlainOutput MainType]\<rparr>"

definition main_to :: "string \<Rightarrow> INodeConnections" where
  "main_to b = [(MainType, [Some [\<lparr>conn_node = b, conn_type = MainType, conn_index = 0\<rparr>]])]"

definition example_connections :: IConnections where
  "example_connections = [(''T'', main_to ''A''), (''A'', main_to ''B'')]"

definition example_workflow :: Workflow where
  "example_workflow = new_workflow (\<lambda>_ _. Some [])
     [plain_node ''T'' ''trigger'', plain_node ''A'' ''step'', plain_node ''B'' ''step'']
     example_connections (\<lambda>ty _. Some (example_type ty)) (Some ''v1'') None"

lemma wf_example_connections: "wf_connections example_connections"
  by (simp add: wf_connections_def example_connections_def main_to_def)

lemma wf_example_workflow: "wf_workflow example_workflow"
  unfolding example_workflow_def by (rule wf_new_workflow [OF wf_example_connections])

lemma example_connectionsBySourceNode [example_simps]:
  "connectionsBySourceNode example_workflow = example_connections"
  by (simp add: example_workflow_def new_workflow_def)

lemma example_all_connections [example_simps]:
  "all_connections example_connections =
    [(''T'', MainType, 0, \<lparr>conn_node = ''A'', conn_type = MainType, conn_index = 0\<rparr>),
     (''A'', MainType, 0, \<lparr>conn_node = ''B'', conn_type = MainType, conn_index = 0\<rparr>)]"
  by (simp add: example_connections_def main_to_def all_connections_def conns_of_node_def conns_of_lists_def)

lemma example_lookup [example_simps]:
  "map_of example_connections k = (if k = ''T'' then Some (main_to ''A'')
     else if k = ''A'' then Some (main_to ''B'') else None)"
  by (simp add: example_connections_def)

lemma example_nodes [example_simps]:
  "wf_nodes example_workflow =
    [(''T'', plain_node ''T'' ''trigger''), (''A'', plain_node ''A'' ''step''), (''B'', plain_node ''B'' ''step'')]"
  by (simp add: example_workflow_def new_workflow_def add_node_def obj_set_def is_index_key_def
      plain_node_def is_digit_def)

lemma example_getNode [example_simps]:
  "getNode example_workflow k = (if k = ''T'' then Some (plain_node ''T'' ''trigger'')
     else if k = ''A'' then Some (plain_node ''A'' ''step'')
     else if k = ''B'' then Some (plain_node ''B'' ''step'') else None)"
  by (simp add: getNode_def example_nodes)

lemma example_node_type [example_simps]:
  "node_type_of example_workflow node = Some (example_type (node_type node))"
  by (simp add: node_type_of_def example_workflow_def new_workflow_def)

lemma example_by_destination [example_simps]:
  "connectionsByDestinationNode example_workflow = [(''A'', main_to ''T''), (''B'', main_to ''A'')]"
  by (simp add: example_workflow_def new_workflow_def getConnectionsByDestination_def example_all_connections
      add_to_destination_def main_to_def pad_inputs_def obj_set_def is_index_key_def is_digit_def)

section \<open>Properties\<close>

text \<open>
  C9: the child nodes of a node are exactly the nodes reachable from it over connections of the
  asked types, itself excepted, whatever cycles the workflow has.
\<close>

theorem getChildNodes_are_reachable:
  assumes "wf_workflow w"
  shows "set (getChildNodes w nodeName type (-1))
    = {m. (nodeName, m) \<in> (conn_rel (connectionsBySourceNode w) (filter_set type))\<^sup>+} - {nodeName}"
  using assms by (rule getChildNodes_reachable)

theorem getChildNodes_are_reachable_witness:
  "set (getChildNodes example_workflow ''T'' AllTypes (-1))
    = {m. (''T'', m) \<in> (conn_rel example_connections UNIV)\<^sup>+} - {''T''}"
  using getChildNodes_are_reachable [OF wf_example_workflow, of "''T''" AllTypes]
  by (simp add: example_simps)

text \<open>
  the parent nodes of a node, which the code looks up in the inverted connections, are exactly
  the nodes from which the original connections lead to it through inputs of the asked types.
\<close>

theorem getParentNodes_are_ancestors:
  assumes "wf_workflow w"
  shows "set (getParentNodes w nodeName type (-1))
    = {m. (m, nodeName) \<in> (into_rel (connectionsBySourceNode w) (filter_set type))\<^sup>+} - {nodeName}"
  using assms by (rule getParentNodes_reachable)

theorem getParentNodes_are_ancestors_witness:
  "set (getParentNodes example_workflow ''B'' (OnlyType MainType) (-1))
    = {m. (m, ''B'') \<in> (into_rel example_connections {MainType})\<^sup>+} - {''B''}"
  using getParentNodes_are_ancestors [OF wf_example_workflow, of "''B''" "OnlyType MainType"]
  by (simp add: example_simps)

end
