(* ===== verification/GraphUtils.thy ===== *)
theory GraphUtils
  imports Workflow
begin

text \<open>
  The selection of a part of a workflow that can be extracted into a sub-workflow
  (\<open>packages/workflow/src/graph/graph-utils.ts\<close>): the edges into and out of the selection, its
  roots and leaves, the search for a path, and the checks of the selection. The search is shown to
  decide reachability, and the checks to accept exactly the selections the contract describes.
\<close>

section \<open>The adjacency list\<close>

text \<open>
  A \<open>Map\<close> from a node to the \<open>Set\<close> of the connections that leave it. The elements of the set
  are objects of the workflow, compared by identity, so that adding one always makes the set larger.
\<close>

type_synonym IConnectionAdjacencyList = "(string \<times> IConnection list) list"

definition adj_get :: "IConnectionAdjacencyList \<Rightarrow> string \<Rightarrow> IConnection list" where
  "adj_get adjacencyList k = (case map_of adjacencyList k of None \<Rightarrow> [] | Some cs \<Rightarrow> cs)"

definition addOrCreate :: "string \<Rightarrow> IConnection \<Rightarrow> IConnectionAdjacencyList \<Rightarrow> IConnectionAdjacencyList" where
  "addOrCreate k v result = AList.update k (adj_get result k @ [v]) result"

definition buildAdjacencyList :: "IConnections \<Rightarrow> IConnectionAdjacencyList" where
  "buildAdjacencyList connections =
     fold (\<lambda>(sourceNode, type, sourceIndex, connection). addOrCreate sourceNode connection)
       (all_connections connections) []"

text \<open>Sets of names: \<open>union\<close> and \<open>intersection\<close> keep the order of their arguments.\<close>

definition union :: "'a list \<Rightarrow> 'a list \<Rightarrow> 'a list" where
  "union a b = fold set_add b (fold set_add a [])"

definition intersection :: "'a list \<Rightarrow> 'a list \<Rightarrow> 'a list" where
  "intersection a b = set_of (filter (\<lambda>x. x \<in> set b) a)"

definition difference :: "'a list \<Rightarrow> 'a list \<Rightarrow> 'a list" where
  "difference minuend subtrahend = filter (\<lambda>x. x \<notin> set subtrahend) minuend"

section \<open>Edges, roots and leaves of a selection\<close>

definition getInputEdges :: "string list \<Rightarrow> IConnectionAdjacencyList \<Rightarrow> (string \<times> IConnection) list" where
  "getInputEdges graphIds adjacencyList =
     concat (map (\<lambda>(source, tos).
       if source \<in> set graphIds then []
       else map (Pair source) (filter (\<lambda>to. conn_node to \<in> set graphIds) tos)) adjacencyList)"

definition getOutputEdges :: "string list \<Rightarrow> IConnectionAdjacencyList \<Rightarrow> (string \<times> IConnection) list" where
  "getOutputEdges graphIds adjacencyList =
     concat (map (\<lambda>(source, tos).
       if source \<notin> set graphIds then []
       else map (Pair source) (filter (\<lambda>to. conn_node to \<notin> set graphIds) tos)) adjacencyList)"

text \<open>The targets of a node's main connections, with or without the node itself.\<close>

definition main_targets :: "IConnectionAdjacencyList \<Rightarrow> string \<Rightarrow> string list" where
  "main_targets adjacencyList nodeId =
     set_of (map conn_node (filter (\<lambda>x. conn_type x = MainType) (adj_get adjacencyList nodeId)))"

definition other_targets :: "IConnectionAdjacencyList \<Rightarrow> string \<Rightarrow> string list" where
  "other_targets adjacencyList nodeId =
     set_of (map conn_node (filter (\<lambda>x. conn_type x = MainType \<and> conn_node x \<noteq> nodeId)
       (adj_get adjacencyList nodeId)))"

definition getRootNodes :: "string list \<Rightarrow> IConnectionAdjacencyList \<Rightarrow> string list" where
  "getRootNodes graphIds adjacencyList =
     difference graphIds
       (fold (\<lambda>nodeId innerNodes. union innerNodes (other_targets adjacencyList nodeId)) graphIds [])"

definition getLeafNodes :: "string list \<Rightarrow> IConnectionAdjacencyList \<Rightarrow> string list" where
  "getLeafNodes graphIds adjacencyList =
     fold (\<lambda>nodeId result.
       if intersection (other_targets adjacencyList nodeId) graphIds = [] then set_add nodeId result
       else result) graphIds []"

section \<open>The search for a path\<close>

text \<open>
  A stack of nodes to visit, its top first. A node can be on the stack several times and is expanded
  again when it is met again, but only the nodes not seen yet are pushed.
\<close>

lemma filter_nonempty_hd: "filter P xs \<noteq> [] \<Longrightarrow> P (hd (rev (filter P xs)))"
proof -
  assume "filter P xs \<noteq> []"
  then have "hd (rev (filter P xs)) \<in> set (rev (filter P xs))" by (intro hd_in_set) simp
  then show ?thesis by simp
qed

function has_path_loop :: "IConnectionAdjacencyList \<Rightarrow> string \<Rightarrow> string list \<Rightarrow> string list \<Rightarrow> bool" where
  "has_path_loop adjacencyList goal seen [] = False"
| "has_path_loop adjacencyList goal seen (x # paths) =
     (if x = goal then True
      else has_path_loop adjacencyList goal (set_add x seen)
        (rev (difference (main_targets adjacencyList x) (set_add x seen)) @ paths))"
  by pat_completeness auto

definition all_targets :: "IConnectionAdjacencyList \<Rightarrow> string list" where
  "all_targets adj = concat (map (\<lambda>(k, cs). map conn_node cs) adj)"

lemma set_main_targets: "set (main_targets adj x) \<subseteq> set (all_targets adj)"
proof -
  have "conn_node ` set (adj_get adj x) \<subseteq> set (all_targets adj)"
  proof (cases "map_of adj x")
    case (Some cs)
    then have "(x, cs) \<in> set adj" by (rule map_of_SomeD)
    with Some show ?thesis by (force simp: adj_get_def all_targets_def)
  qed (simp add: adj_get_def)
  then show ?thesis by (auto simp: main_targets_def)
qed

termination has_path_loop
proof (relation "inv_image (less_than <*lex*> less_than <*lex*> less_than)
    (\<lambda>(adj, goal, seen, paths). (remaining (paths @ all_targets adj) seen,
       (if paths = [] \<or> hd paths \<notin> set seen then 0 else 1 :: nat), length paths))", goal_cases)
  case (2 adj goal seen x paths)
  let ?new = "rev (difference (main_targets adj x) (set_add x seen))"
  have sub: "set (?new @ paths @ all_targets adj) \<subseteq> set ((x # paths) @ all_targets adj)"
    using set_main_targets [of adj x] by (auto simp: difference_def)
  have le: "remaining ((?new @ paths) @ all_targets adj) (set_add x seen)
      \<le> remaining ((x # paths) @ all_targets adj) seen"
    unfolding remaining_def using sub by (intro card_mono) auto
  show ?case
  proof (cases "x \<in> set seen")
    case False
    then have "remaining ((?new @ paths) @ all_targets adj) (set_add x seen)
        < remaining ((x # paths) @ all_targets adj) seen"
      unfolding remaining_def using sub by (intro psubset_card_mono) auto
    then show ?thesis by simp
  next
    case True
    then have eq: "set_add x seen = seen" by (simp add: set_add_def)
    show ?thesis
    proof (cases "?new = []")
      case True
      with le eq \<open>x \<in> set seen\<close> show ?thesis by auto
    next
      case False
      have "hd ?new \<notin> set (set_add x seen)"
        using False filter_nonempty_hd [of "\<lambda>y. y \<notin> set (set_add x seen)" "main_targets adj x"]
        by (simp add: difference_def)
      then have "hd (?new @ paths) \<notin> set (set_add x seen)" using False by simp
      with le False True show ?thesis by (auto simp: eq)
    qed
  qed
qed auto

definition hasPath :: "string \<Rightarrow> string \<Rightarrow> IConnectionAdjacencyList \<Rightarrow> bool" where
  "hasPath start goal adjacencyList = has_path_loop adjacencyList goal [] [start]"

section \<open>The checks of a selection\<close>

datatype ExtractableErrorResult =
    MultipleInputNodes "string list"
  | MultipleOutputNodes "string list"
  | InputEdgeToNonRootNode string
  | OutputEdgeFromNonLeafNode string
  | NoContinuousPathFromRootToLeaf string string

record ExtractableSubgraphData =
  sub_start :: "string option"
  sub_end :: "string option"

definition input_nodes :: "string list \<Rightarrow> IConnectionAdjacencyList \<Rightarrow> string list" where
  "input_nodes graphIds adj =
     set_of (map (\<lambda>x. conn_node (snd x)) (filter (\<lambda>x. conn_type (snd x) = MainType) (getInputEdges graphIds adj)))"

definition output_nodes :: "string list \<Rightarrow> IConnectionAdjacencyList \<Rightarrow> string list" where
  "output_nodes graphIds adj =
     set_of (map fst (filter (\<lambda>x. conn_type (snd x) = MainType) (getOutputEdges graphIds adj)))"

definition first_of :: "string list \<Rightarrow> string option" where
  "first_of xs = (case xs of [] \<Rightarrow> None | x # _ \<Rightarrow> Some x)"

definition path_errors :: "IConnectionAdjacencyList \<Rightarrow> string option \<Rightarrow> string option \<Rightarrow> ExtractableErrorResult list" where
  "path_errors adj start goal = (case (start, goal) of
       (Some (s # ss), Some (e # es)) \<Rightarrow>
         if hasPath (s # ss) (e # es) adj then [] else [NoContinuousPathFromRootToLeaf (s # ss) (e # es)]
     | _ \<Rightarrow> [])"

definition parseExtractableSubgraphSelection ::
    "string list \<Rightarrow> IConnectionAdjacencyList \<Rightarrow> ExtractableErrorResult list + ExtractableSubgraphData" where
  "parseExtractableSubgraphSelection graphIds adjacencyList =
     (let inputNodes = input_nodes graphIds adjacencyList;
          rootNodes = getRootNodes graphIds adjacencyList;
          rootNodes = (if rootNodes = [] \<and> length inputNodes = 1 then inputNodes else rootNodes);
          errors = map InputEdgeToNonRootNode (difference inputNodes rootNodes);
          rootInputNodes = intersection rootNodes inputNodes;
          errors = errors @ (if length rootInputNodes > 1 then [MultipleInputNodes rootInputNodes] else []);
          outputNodes = output_nodes graphIds adjacencyList;
          leafNodes = getLeafNodes graphIds adjacencyList;
          leafNodes = (if leafNodes = [] \<and> length outputNodes = 1 then outputNodes else leafNodes);
          errors = errors @ map OutputEdgeFromNonLeafNode (difference outputNodes leafNodes);
          leafOutputNodes = intersection leafNodes outputNodes;
          errors = errors @ (if length leafOutputNodes > 1 then [MultipleOutputNodes leafOutputNodes] else []);
          start = first_of rootInputNodes;
          end = first_of leafOutputNodes;
          errors = errors @ path_errors adjacencyList start end
      in if errors \<noteq> [] then Inl errors else Inr \<lparr>sub_start = start, sub_end = end\<rparr>)"

section \<open>The adjacency list holds the connections\<close>

definition adj_edges :: "IConnectionAdjacencyList \<Rightarrow> (string \<times> IConnection) list" where
  "adj_edges adj = concat (map (\<lambda>(k, cs). map (Pair k) cs) adj)"

lemma mset_addOrCreate:
  assumes "distinct (keys_of adj)"
  shows "mset (adj_edges (addOrCreate k v adj)) = add_mset (k, v) (mset (adj_edges adj))"
  unfolding adj_edges_def addOrCreate_def
  by (rule mset_concat_put [OF js_map.mset_put [OF assms] assms])
    (simp add: adj_get_def split: option.splits)

lemma mset_fold_addOrCreate:
  "distinct (keys_of adj) \<Longrightarrow>
     distinct (keys_of (fold (\<lambda>(s, t, i, c). addOrCreate s c) ps adj)) \<and>
     mset (adj_edges (fold (\<lambda>(s, t, i, c). addOrCreate s c) ps adj))
       = image_mset (\<lambda>(s, t, i, c). (s, c)) (mset ps) + mset (adj_edges adj)"
proof (induction ps arbitrary: adj)
  case (Cons p ps)
  obtain s t i c where p: "p = (s, t, i, c)" by (cases p)
  have "distinct (keys_of (addOrCreate s c adj))"
    using Cons.prems by (simp add: addOrCreate_def js_map.ok_put)
  from Cons.IH [OF this] mset_addOrCreate [OF Cons.prems] show ?case by (simp add: p)
qed simp

lemma buildAdjacencyList_edges:
  "distinct (keys_of (buildAdjacencyList cs))"
  "mset (adj_edges (buildAdjacencyList cs)) = image_mset (\<lambda>(s, t, i, c). (s, c)) (mset (all_connections cs))"
  using mset_fold_addOrCreate [of "[]" "all_connections cs"]
  by (simp_all add: buildAdjacencyList_def) (simp add: adj_edges_def)

lemma in_adj_get:
  "distinct (keys_of adj) \<Longrightarrow> c \<in> set (adj_get adj k) \<longleftrightarrow> (k, c) \<in> set (adj_edges adj)"
  by (fastforce simp: adj_get_def adj_edges_def split: option.splits dest: map_of_SomeD)

section \<open>The search decides reachability\<close>

definition adj_rel :: "IConnectionAdjacencyList \<Rightarrow> (string \<times> string) set" where
  "adj_rel adj = {(a, b). b \<in> set (main_targets adj a)}"

text \<open>What has been seen is closed up to the stack, and the goal has not been seen.\<close>

lemma has_path_loop_iff:
  "\<forall>a \<in> set seen. \<forall>b. (a, b) \<in> adj_rel adj \<longrightarrow> b \<in> set seen \<union> set paths \<Longrightarrow> goal \<notin> set seen \<Longrightarrow>
     has_path_loop adj goal seen paths \<longleftrightarrow> (\<exists>x \<in> set seen \<union> set paths. (x, goal) \<in> (adj_rel adj)\<^sup>*)"
proof (induction adj goal seen paths rule: has_path_loop.induct)
  case (1 adj goal seen)
  have "y \<in> set seen" if "(x, y) \<in> (adj_rel adj)\<^sup>*" "x \<in> set seen" for x y
    using that by (induction rule: rtrancl_induct) (use "1.prems"(1) in auto)
  with "1.prems"(2) show ?case by auto
next
  case (2 adj goal seen x paths)
  show ?case
  proof (cases "x = goal")
    case False
    let ?paths = "rev (difference (main_targets adj x) (set_add x seen)) @ paths"
    have closed: "\<forall>a \<in> set (set_add x seen). \<forall>b. (a, b) \<in> adj_rel adj \<longrightarrow> b \<in> set (set_add x seen) \<union> set ?paths"
      using "2.prems"(1) by (auto simp: difference_def adj_rel_def)
    have "(\<exists>y \<in> set (set_add x seen) \<union> set ?paths. (y, goal) \<in> (adj_rel adj)\<^sup>*)
        \<longleftrightarrow> (\<exists>y \<in> set seen \<union> set (x # paths). (y, goal) \<in> (adj_rel adj)\<^sup>*)"
      by (auto simp: difference_def adj_rel_def intro: converse_rtrancl_into_rtrancl)
    with "2.IH" [OF False closed] "2.prems"(2) False show ?thesis by auto
  qed auto
qed

lemma hasPath_iff: "hasPath start goal adj \<longleftrightarrow> (start, goal) \<in> (adj_rel adj)\<^sup>*"
  unfolding hasPath_def by (subst has_path_loop_iff) auto

lemma adj_rel_build: "adj_rel (buildAdjacencyList cs) = into_rel cs {MainType}"
proof -
  have "set (adj_edges (buildAdjacencyList cs)) = (\<lambda>(s, t, i, c). (s, c)) ` set (all_connections cs)"
    using arg_cong [OF buildAdjacencyList_edges(2) [of cs], of set_mset] by simp
  then show ?thesis
    by (force simp: into_rel_def adj_rel_def main_targets_def in_adj_get [OF buildAdjacencyList_edges(1)])
qed

section \<open>The checks accept the selections of the contract\<close>

lemma set_union [simp]: "set (union a b) = set a \<union> set b"
  by (auto simp: union_def)

lemma set_intersection [simp]: "set (intersection a b) = set a \<inter> set b"
  by (auto simp: intersection_def)

lemma set_difference [simp]: "set (difference a b) = set a - set b"
  by (auto simp: difference_def)

lemma set_getRootNodes:
  "set (getRootNodes ids adj) = {n \<in> set ids. \<forall>m \<in> set ids. n = m \<or> (m, n) \<notin> adj_rel adj}"
proof -
  have "set (fold (\<lambda>nodeId innerNodes. union innerNodes (other_targets adj nodeId)) xs acc)
      = set acc \<union> (\<Union>n \<in> set xs. set (other_targets adj n))" for xs acc
    by (induction xs arbitrary: acc) auto
  then show ?thesis
    by (auto simp: getRootNodes_def other_targets_def adj_rel_def main_targets_def)
qed

lemma set_getLeafNodes:
  "set (getLeafNodes ids adj) = {n \<in> set ids. \<forall>m \<in> set ids. n = m \<or> (n, m) \<notin> adj_rel adj}"
proof -
  have leaf: "intersection (other_targets adj n) ids = []
      \<longleftrightarrow> (\<forall>m \<in> set ids. n = m \<or> (n, m) \<notin> adj_rel adj)" for n
    unfolding set_empty [symmetric] set_intersection
    by (auto simp: other_targets_def adj_rel_def main_targets_def)
  have "set (fold (\<lambda>nodeId result. if P nodeId then set_add nodeId result else result) xs acc)
      = set acc \<union> {n \<in> set xs. P n}" for xs acc and P :: "string \<Rightarrow> bool"
    by (induction xs arbitrary: acc) auto
  then show ?thesis unfolding getLeafNodes_def leaf by simp
qed

lemma in_adj_rel:
  "distinct (keys_of adj) \<Longrightarrow> (m, n) \<in> adj_rel adj \<longleftrightarrow>
     (\<exists>c. (m, c) \<in> set (adj_edges adj) \<and> conn_type c = MainType \<and> conn_node c = n)"
  by (auto simp: adj_rel_def main_targets_def in_adj_get image_iff Bex_def)

lemma set_input_nodes:
  assumes "distinct (keys_of adj)"
  shows "set (input_nodes ids adj) = {n \<in> set ids. \<exists>m. m \<notin> set ids \<and> (m, n) \<in> adj_rel adj}"
proof -
  have "(m, c) \<in> set (getInputEdges ids adj) \<longleftrightarrow> (m, c) \<in> set (adj_edges adj) \<and> m \<notin> set ids \<and> conn_node c \<in> set ids"
    for m c
  proof -
    have "getInputEdges ids adj = filter (\<lambda>(m, c). m \<notin> set ids \<and> conn_node c \<in> set ids) (adj_edges adj)"
      by (induction adj) (auto simp: getInputEdges_def adj_edges_def filter_map comp_def)
    then show ?thesis by auto
  qed
  then have "n \<in> set (input_nodes ids adj) \<longleftrightarrow>
      (\<exists>m c. (m, c) \<in> set (adj_edges adj) \<and> m \<notin> set ids \<and> conn_node c \<in> set ids \<and> conn_type c = MainType
         \<and> n = conn_node c)" for n
    by (simp add: input_nodes_def) (auto simp: image_iff Bex_def)
  then show ?thesis unfolding set_eq_iff mem_Collect_eq in_adj_rel [OF assms] by auto
qed

lemma set_output_nodes:
  assumes "distinct (keys_of adj)"
  shows "set (output_nodes ids adj) = {n \<in> set ids. \<exists>m. m \<notin> set ids \<and> (n, m) \<in> adj_rel adj}"
proof -
  have "(m, c) \<in> set (getOutputEdges ids adj) \<longleftrightarrow> (m, c) \<in> set (adj_edges adj) \<and> m \<in> set ids \<and> conn_node c \<notin> set ids"
    for m c
  proof -
    have "getOutputEdges ids adj = filter (\<lambda>(m, c). m \<in> set ids \<and> conn_node c \<notin> set ids) (adj_edges adj)"
      by (induction adj) (auto simp: getOutputEdges_def adj_edges_def filter_map comp_def)
    then show ?thesis by auto
  qed
  then have "n \<in> set (output_nodes ids adj) \<longleftrightarrow>
      (\<exists>m c. (m, c) \<in> set (adj_edges adj) \<and> m \<in> set ids \<and> conn_node c \<notin> set ids \<and> conn_type c = MainType
         \<and> n = m)" for n
    by (simp add: output_nodes_def) (auto simp: image_iff Bex_def)
  then show ?thesis unfolding set_eq_iff mem_Collect_eq in_adj_rel [OF assms] by auto
qed

text \<open>
  The contract: at most one node is entered from outside, and it is a root of the selection (any
  node if the selection has no root); at most one node is left to the outside, and it is a leaf;
  and the one leads to the other if both exist.
\<close>

definition boundary_ok :: "string set \<Rightarrow> string set \<Rightarrow> bool" where
  "boundary_ok border inner \<longleftrightarrow> card border \<le> 1 \<and> (border \<subseteq> inner \<or> inner = {})"

definition extractable :: "string list \<Rightarrow> IConnectionAdjacencyList \<Rightarrow> string set \<Rightarrow> string set \<Rightarrow> bool" where
  "extractable ids adj ins outs \<longleftrightarrow>
     boundary_ok ins {n \<in> set ids. \<forall>m \<in> set ids. n = m \<or> (m, n) \<notin> adj_rel adj}
   \<and> boundary_ok outs {n \<in> set ids. \<forall>m \<in> set ids. n = m \<or> (n, m) \<notin> adj_rel adj}
   \<and> (\<forall>s \<in> ins. \<forall>e \<in> outs. s \<noteq> [] \<longrightarrow> e \<noteq> [] \<longrightarrow> (s, e) \<in> (adj_rel adj)\<^sup>*)"

text \<open>One side of the checks: which errors it adds, and the node it finds.\<close>

lemma distinct_intersection [simp]: "distinct (intersection a b)"
  by (simp add: intersection_def)

lemma distinct_singleton: "set xs = {x} \<Longrightarrow> distinct xs \<Longrightarrow> xs = [x]"
  by (cases xs) (auto simp: subset_singleton_iff)

lemma boundary_check:
  fixes border inner :: "string list"
  assumes "distinct border" and "inner' = (if inner = [] \<and> length border = 1 then border else inner)"
  shows "difference border inner' = [] \<and> \<not> length (intersection inner' border) > 1
      \<longleftrightarrow> boundary_ok (set border) (set inner)"
    and "boundary_ok (set border) (set inner) \<Longrightarrow> first_of (intersection inner' border) = first_of border"
proof -
  have card: "card (set border) = length border" using assms(1) by (rule distinct_card)
  have sub: "difference border inner' = [] \<longleftrightarrow> set border \<subseteq> set inner'"
    unfolding set_empty [symmetric] set_difference by auto
  have int: "set border \<subseteq> set inner' \<Longrightarrow> set (intersection inner' border) = set border" by auto
  then have len: "set border \<subseteq> set inner' \<Longrightarrow> length (intersection inner' border) = length border"
    using assms(1) by (metis distinct_card distinct_intersection)
  show iff: "difference border inner' = [] \<and> \<not> length (intersection inner' border) > 1
      \<longleftrightarrow> boundary_ok (set border) (set inner)"
    unfolding sub boundary_ok_def card using len assms(2)
    by (cases border; cases "inner = []") auto
  assume ok: "boundary_ok (set border) (set inner)"
  with iff sub int have same: "set (intersection inner' border) = set border" by simp
  have "length border \<le> 1" using ok by (simp add: boundary_ok_def card)
  then consider "border = []" | x where "border = [x]" by (cases border) auto
  then show "first_of (intersection inner' border) = first_of border"
  proof cases
    case (2 x)
    with same have "set (intersection inner' border) = {x}" by simp
    moreover have "distinct (intersection inner' border)" by simp
    ultimately have "intersection inner' border = [x]"
      by (rule distinct_singleton)
    with 2 show ?thesis by (simp add: first_of_def)
  next
    case 1
    with same have "intersection inner' border = []" by (simp flip: set_empty)
    with 1 show ?thesis by simp
  qed
qed

lemma set_first_of: "length xs \<le> 1 \<Longrightarrow> set_option (first_of xs) = set xs"
  by (cases xs) (auto simp: first_of_def)

lemma path_errors_empty:
  "path_errors adj start goal = [] \<longleftrightarrow>
     (\<forall>s \<in> set_option start. \<forall>e \<in> set_option goal. s \<noteq> [] \<longrightarrow> e \<noteq> [] \<longrightarrow> (s, e) \<in> (adj_rel adj)\<^sup>*)"
  by (auto simp: path_errors_def hasPath_iff split: option.split list.split)

lemma parse_cases:
  fixes ids adj
  defines "I \<equiv> input_nodes ids adj" and "O' \<equiv> output_nodes ids adj"
  shows "parseExtractableSubgraphSelection ids adj =
     (let R = (if getRootNodes ids adj = [] \<and> length I = 1 then I else getRootNodes ids adj);
          L = (if getLeafNodes ids adj = [] \<and> length O' = 1 then O' else getLeafNodes ids adj);
          start = first_of (intersection R I); goal = first_of (intersection L O');
          errors = map InputEdgeToNonRootNode (difference I R)
            @ (if length (intersection R I) > 1 then [MultipleInputNodes (intersection R I)] else [])
            @ map OutputEdgeFromNonLeafNode (difference O' L)
            @ (if length (intersection L O') > 1 then [MultipleOutputNodes (intersection L O')] else [])
            @ path_errors adj start goal
      in if errors \<noteq> [] then Inl errors else Inr \<lparr>sub_start = start, sub_end = goal\<rparr>)"
  unfolding I_def O'_def parseExtractableSubgraphSelection_def Let_def append_assoc ..

lemma parse_extractable:
  fixes ids :: "string list" and adj :: IConnectionAdjacencyList
  assumes d: "distinct (keys_of adj)"
  defines "I \<equiv> {n \<in> set ids. \<exists>m. m \<notin> set ids \<and> (m, n) \<in> adj_rel adj}"
    and "O' \<equiv> {n \<in> set ids. \<exists>m. m \<notin> set ids \<and> (n, m) \<in> adj_rel adj}"
  shows "if extractable ids adj I O'
    then (\<exists>d. parseExtractableSubgraphSelection ids adj = Inr d
           \<and> set_option (sub_start d) = I \<and> set_option (sub_end d) = O')
    else (\<exists>errors. parseExtractableSubgraphSelection ids adj = Inl errors \<and> errors \<noteq> [])"
proof -
  let ?I = "input_nodes ids adj" and ?O = "output_nodes ids adj"
  define R where "R = (if getRootNodes ids adj = [] \<and> length ?I = 1 then ?I else getRootNodes ids adj)"
  define L where "L = (if getLeafNodes ids adj = [] \<and> length ?O = 1 then ?O else getLeafNodes ids adj)"
  let ?ok = "path_errors adj (first_of (intersection R ?I)) (first_of (intersection L ?O)) = []"
  have dist: "distinct ?I" "distinct ?O" by (simp_all add: input_nodes_def output_nodes_def)
  note sets = set_input_nodes [OF d] set_output_nodes [OF d] set_getRootNodes set_getLeafNodes
  note in_check = boundary_check [OF dist(1) R_def, unfolded sets, folded I_def]
  note out_check = boundary_check [OF dist(2) L_def, unfolded sets, folded O'_def]
  have parse: "parseExtractableSubgraphSelection ids adj =
     (let errors = map InputEdgeToNonRootNode (difference ?I R)
            @ (if length (intersection R ?I) > 1 then [MultipleInputNodes (intersection R ?I)] else [])
            @ map OutputEdgeFromNonLeafNode (difference ?O L)
            @ (if length (intersection L ?O) > 1 then [MultipleOutputNodes (intersection L ?O)] else [])
            @ path_errors adj (first_of (intersection R ?I)) (first_of (intersection L ?O))
      in if errors \<noteq> [] then Inl errors
         else Inr \<lparr>sub_start = first_of (intersection R ?I), sub_end = first_of (intersection L ?O)\<rparr>)"
    unfolding parse_cases R_def L_def Let_def ..
  let ?good = "(difference ?I R = [] \<and> \<not> length (intersection R ?I) > 1)
     \<and> (difference ?O L = [] \<and> \<not> length (intersection L ?O) > 1) \<and> ?ok"
  have result: "if ?good then parseExtractableSubgraphSelection ids adj
        = Inr \<lparr>sub_start = first_of (intersection R ?I), sub_end = first_of (intersection L ?O)\<rparr>
      else (\<exists>errors. parseExtractableSubgraphSelection ids adj = Inl errors \<and> errors \<noteq> [])"
    unfolding parse Let_def by auto
  have first: "set_option (first_of (intersection R ?I)) = I \<and> set_option (first_of (intersection L ?O)) = O'"
    if b: "boundary_ok I {n \<in> set ids. \<forall>m \<in> set ids. n = m \<or> (m, n) \<notin> adj_rel adj}"
      "boundary_ok O' {n \<in> set ids. \<forall>m \<in> set ids. n = m \<or> (n, m) \<notin> adj_rel adj}"
  proof -
    have "set ?I = I" "set ?O = O'" by (simp_all add: sets I_def O'_def)
    moreover from b have "length ?I \<le> 1" "length ?O \<le> 1"
      using distinct_card [OF dist(1)] distinct_card [OF dist(2)] calculation by (simp_all add: boundary_ok_def)
    ultimately show ?thesis using in_check(2) [OF b(1)] out_check(2) [OF b(2)] by (simp add: set_first_of)
  qed
  have good: "?good \<longleftrightarrow> extractable ids adj I O'"
    unfolding in_check(1) out_check(1) extractable_def path_errors_empty using first by auto
  show ?thesis using result first unfolding good extractable_def by (auto split: if_splits)
qed

section \<open>Properties\<close>

text \<open>
  the search for a path ends on every graph and finds a path exactly when there is one over main
  connections.
\<close>

theorem hasPath_decides_reachability:
  "hasPath start goal (buildAdjacencyList connections) \<longleftrightarrow> (start, goal) \<in> (into_rel connections {MainType})\<^sup>*"
  by (simp add: hasPath_iff adj_rel_build)

text \<open>
  C40: a selection is accepted exactly when it has at most one node entered from outside, a root of
  the selection, at most one node left to the outside, a leaf, and a path from the one to the other;
  the answer then names these two nodes. Otherwise a non-empty list of errors is returned.
\<close>

theorem parseExtractableSubgraphSelection_exact:
  assumes "distinct (keys_of adj)"
  shows "if extractable ids adj {n \<in> set ids. \<exists>m. m \<notin> set ids \<and> (m, n) \<in> adj_rel adj}
      {n \<in> set ids. \<exists>m. m \<notin> set ids \<and> (n, m) \<in> adj_rel adj}
    then (\<exists>d. parseExtractableSubgraphSelection ids adj = Inr d
        \<and> set_option (sub_start d) = {n \<in> set ids. \<exists>m. m \<notin> set ids \<and> (m, n) \<in> adj_rel adj}
        \<and> set_option (sub_end d) = {n \<in> set ids. \<exists>m. m \<notin> set ids \<and> (n, m) \<in> adj_rel adj})
    else (\<exists>errors. parseExtractableSubgraphSelection ids adj = Inl errors \<and> errors \<noteq> [])"
  using assms by (rule parse_extractable)

theorem parseExtractableSubgraphSelection_exact_witness:
  "\<exists>d. parseExtractableSubgraphSelection [''A''] (buildAdjacencyList example_connections) = Inr d
    \<and> set_option (sub_start d) = {''A''} \<and> set_option (sub_end d) = {''A''}"
proof -
  let ?adj = "buildAdjacencyList example_connections"
  have adj: "?adj = [(''T'', [\<lparr>conn_node = ''A'', conn_type = MainType, conn_index = 0\<rparr>]),
      (''A'', [\<lparr>conn_node = ''B'', conn_type = MainType, conn_index = 0\<rparr>])]"
    by (simp add: buildAdjacencyList_def example_all_connections addOrCreate_def adj_get_def)
  have rel: "(a, b) \<in> adj_rel ?adj \<longleftrightarrow> (a = ''T'' \<and> b = ''A'') \<or> (a = ''A'' \<and> b = ''B'')" for a b
  proof -
    have "into_rel example_connections {MainType} = {(''T'', ''A''), (''A'', ''B'')}"
      by (auto simp: into_rel_def example_all_connections)
    then show ?thesis by (auto simp: adj_rel_build)
  qed
  have sets: "{n \<in> set [''A'']. \<exists>m. m \<notin> set [''A''] \<and> (m, n) \<in> adj_rel ?adj} = {''A''}"
    "{n \<in> set [''A'']. \<exists>m. m \<notin> set [''A''] \<and> (n, m) \<in> adj_rel ?adj} = {''A''}"
    unfolding set_eq_iff mem_Collect_eq rel by (simp_all add: conj_disj_distribL ex_disj_distrib cong: conj_cong)
  have "extractable [''A''] ?adj {''A''} {''A''}" by (simp add: extractable_def boundary_ok_def)
  moreover have "distinct (keys_of ?adj)" by (simp add: adj)
  ultimately show ?thesis
    using parseExtractableSubgraphSelection_exact [of ?adj "[''A'']", unfolded sets] by simp
qed

end
