(* ===== verification/WorkflowSearch.thy ===== *)
theory WorkflowSearch
  imports Workflow
begin

text \<open>
  The searches of the class \<open>Workflow\<close> that share one list of checked nodes between all
  recursive calls: the highest parents of a node, the breadth-first search with depths, the
  connection through which a node is reached from a parent, and the node a workflow starts from.
  In JavaScript the list is passed by reference and mutated; here every call returns it.
\<close>

section \<open>The highest parents of a node\<close>

abbreviation main_inputs :: "IConnections \<Rightarrow> string \<Rightarrow> NodeInputConnections option" where
  "main_inputs cs nodeName \<equiv>
     (case map_of cs nodeName of None \<Rightarrow> None | Some byType \<Rightarrow> map_of byType MainType)"

text \<open>The inputs the loop looks at: all of them, or the one with the given index.\<close>

definition select_input :: "nat option \<Rightarrow> NodeInputConnections \<Rightarrow> IConnection list" where
  "select_input nodeConnectionIndex inputs =
     (case nodeConnectionIndex of
        None \<Rightarrow> concat (map conns_at inputs)
      | Some i \<Rightarrow> (if i < length inputs then conns_at (inputs ! i) else []))"

function (sequential)
  getHighestNode :: "Workflow \<Rightarrow> string \<Rightarrow> nat option \<Rightarrow> string list \<Rightarrow> (string list \<times> string list) res"
and
  highest_parents :: "Workflow \<Rightarrow> IConnection list \<Rightarrow> string list \<Rightarrow> string list \<Rightarrow> (string list \<times> string list) res"
where
  "getHighestNode w nodeName nodeConnectionIndex checkedNodes =
     (case getNode w nodeName of
        None \<Rightarrow> Inl TypeError
      | Some node \<Rightarrow>
          (let currentHighest = (if disabled node = Some False then [nodeName] else []) in
           case main_inputs (connectionsByDestinationNode w) nodeName of
             None \<Rightarrow> Inr (currentHighest, checkedNodes)
           | Some inputs \<Rightarrow>
               if nodeName \<in> set checkedNodes then Inr (currentHighest, checkedNodes)
               else highest_parents w (select_input nodeConnectionIndex inputs) [] (checkedNodes @ [nodeName])))"
| "highest_parents w [] returnNodes checkedNodes = Inr (returnNodes, checkedNodes)"
| "highest_parents w (connection # conns) returnNodes checkedNodes =
     (if conn_node connection \<in> set checkedNodes then highest_parents w conns returnNodes checkedNodes
      else case getNode w (conn_node connection) of
        None \<Rightarrow> highest_parents w conns returnNodes checkedNodes
      | Some parent \<Rightarrow>
          (case getHighestNode w (conn_node connection) None checkedNodes of
             Inl e \<Rightarrow> Inl e
           | Inr (found, checkedNodes') \<Rightarrow>
               (let addNodes = (if found = [] \<and> disabled parent \<noteq> Some True
                                then [conn_node connection] else found)
                in highest_parents w conns (fold set_add addNodes returnNodes) checkedNodes')))"
  by pat_completeness auto

text \<open>A call never takes a node off the list: needed before termination can be proved.\<close>

lemma getHighestNode_checked:
  "getHighestNode_highest_parents_dom (Inl (w, n, i, chk)) \<Longrightarrow>
     getHighestNode w n i chk = Inr (ret, chk') \<Longrightarrow> set chk \<subseteq> set chk'"
  "getHighestNode_highest_parents_dom (Inr (w, cs, acc, chk)) \<Longrightarrow>
     highest_parents w cs acc chk = Inr (ret, chk') \<Longrightarrow> set chk \<subseteq> set chk'"
proof (induction w n i chk and w cs acc chk arbitrary: ret chk' and ret chk'
    rule: getHighestNode_highest_parents.pinduct)
  case (1 w n i chk)
  from "1.prems" 1(2-) show ?case
    by (fastforce simp: getHighestNode.psimps [OF 1(1)] Let_def split: option.splits if_splits)
next
  case (2 w acc chk)
  then show ?case by (simp add: highest_parents.psimps)
next
  case (3 w c cs acc chk)
  from "3.prems" 3(2-) show ?case
    by (fastforce simp: highest_parents.psimps(2) [OF 3(1)] Let_def split: option.splits if_splits sum.splits prod.splits)
qed


termination getHighestNode
proof (relation "inv_image search_order
    (\<lambda>x. case x of
       Inl (w, n, i, chk) \<Rightarrow> (remaining (keys_of (connectionsByDestinationNode w)) chk, 0)
     | Inr (w, cs, acc, chk) \<Rightarrow>
         (remaining (keys_of (connectionsByDestinationNode w)) chk, Suc (length cs)))", goal_cases)
  case (2 w n i chk node cur inputs)
  then have "n \<in> set (keys_of (connectionsByDestinationNode w))"
    by (auto split: option.splits dest!: map_of_SomeD intro: rev_image_eqI)
  with 2 show ?case by (auto intro!: search_orderI(1) remaining_less)
next
  case (6 w c cs acc chk parent b found chk' addNodes)
  then have "set chk \<subseteq> set chk'" using getHighestNode_checked(1) by metis
  then show ?case by (auto intro!: search_orderI(2) remaining_le)
qed (auto intro: search_orderI wf_search_order)

text \<open>An enabled node of the workflow, and the step from a node to one connected to a main input.\<close>

definition enabled_node :: "Workflow \<Rightarrow> string \<Rightarrow> bool" where
  "enabled_node w nm \<longleftrightarrow> (case getNode w nm of None \<Rightarrow> False | Some node \<Rightarrow> disabled node \<noteq> Some True)"

abbreviation main_parent_rel :: "Workflow \<Rightarrow> (string \<times> string) set" where
  "main_parent_rel w \<equiv> conn_rel (connectionsByDestinationNode w) {MainType}"

lemma in_select_input:
  "c \<in> set (select_input i ls) \<Longrightarrow> c \<in> set (concat (map conns_at ls))"
  by (auto simp: select_input_def split: option.splits if_splits dest: nth_mem)

lemma select_input_rel:
  assumes "wf_connections (connectionsByDestinationNode w)"
    and "main_inputs (connectionsByDestinationNode w) n = Some ls" and "c \<in> set (select_input i ls)"
  shows "(n, conn_node c) \<in> main_parent_rel w"
proof -
  obtain m where "map_of (connectionsByDestinationNode w) n = Some m" "map_of m MainType = Some ls"
    using assms(2) by (auto split: option.splits)
  then show ?thesis
    using conn_rel_step [OF assms(1), of n "conn_node c" "OnlyType MainType"] in_select_input [OF assms(3)]
    by fastforce
qed

lemma getHighestNode_spec:
  assumes "wf_connections (connectionsByDestinationNode w)"
  shows "getNode w n \<noteq> None \<Longrightarrow>
      \<exists>ret chk'. getHighestNode w n i chk = Inr (ret, chk') \<and> distinct ret
        \<and> (\<forall>r \<in> set ret. enabled_node w r \<and> (n, r) \<in> (main_parent_rel w)\<^sup>*)"
    and "\<exists>ret chk'. highest_parents w cs acc chk = Inr (ret, chk')
        \<and> (distinct acc \<longrightarrow> distinct ret)
        \<and> (\<forall>r \<in> set ret - set acc. enabled_node w r
              \<and> (\<exists>c \<in> set cs. (conn_node c, r) \<in> (main_parent_rel w)\<^sup>*))"
  using assms
proof (induction w n i chk and w cs acc chk rule: getHighestNode_highest_parents.induct)
  case (1 w n i chk)
  then obtain node where node: "getNode w n = Some node" by auto
  show ?case
  proof (cases "main_inputs (connectionsByDestinationNode w) n")
    case None
    with node show ?thesis by (simp add: enabled_node_def Let_def)
  next
    case (Some inputs)
    show ?thesis
    proof (cases "n \<in> set chk")
      case True
      with node Some show ?thesis by (simp add: enabled_node_def Let_def)
    next
      case False
      from "1.IH" [OF node refl Some False "1.prems"(2)] select_input_rel [OF "1.prems"(2) Some]
      obtain ret chk' where r: "highest_parents w (select_input i inputs) [] (chk @ [n]) = Inr (ret, chk')"
        "distinct ret" and ok: "\<forall>r \<in> set ret. enabled_node w r
          \<and> (\<exists>c \<in> set (select_input i inputs). (conn_node c, r) \<in> (main_parent_rel w)\<^sup>*)"
        by auto
      have "\<forall>r \<in> set ret. enabled_node w r \<and> (n, r) \<in> (main_parent_rel w)\<^sup>*"
        using ok select_input_rel [OF "1.prems"(2) Some] by (meson converse_rtrancl_into_rtrancl)
      with r node Some False show ?thesis by (simp add: Let_def)
    qed
  qed
next
  case (2 w acc chk)
  show ?case by simp
next
  case (3 w c cs acc chk)
  show ?case
  proof (cases "conn_node c \<in> set chk \<or> getNode w (conn_node c) = None")
    case True
    with "3.IH"(1,2) "3.prems" show ?thesis by fastforce
  next
    case False
    then obtain parent where parent: "getNode w (conn_node c) = Some parent" and nc: "conn_node c \<notin> set chk"
      by auto
    from "3.IH"(3) [OF nc parent] "3.prems" parent obtain found chk1 where
      found: "getHighestNode w (conn_node c) None chk = Inr (found, chk1)"
      and ok: "\<forall>r \<in> set found. enabled_node w r \<and> (conn_node c, r) \<in> (main_parent_rel w)\<^sup>*" by auto
    define addNodes where "addNodes = (if found = [] \<and> disabled parent \<noteq> Some True
        then [conn_node c] else found)"
    have add: "\<forall>r \<in> set addNodes. enabled_node w r \<and> (conn_node c, r) \<in> (main_parent_rel w)\<^sup>*"
      using ok parent by (auto simp: addNodes_def enabled_node_def)
    from "3.IH"(4) [OF nc parent found refl addNodes_def "3.prems"] obtain ret chk' where
      "highest_parents w cs (fold set_add addNodes acc) chk1 = Inr (ret, chk')"
      "distinct acc \<longrightarrow> distinct ret"
      "\<forall>r \<in> set ret - set (fold set_add addNodes acc). enabled_node w r
         \<and> (\<exists>c \<in> set cs. (conn_node c, r) \<in> (main_parent_rel w)\<^sup>*)" by auto
    with nc parent found add show ?thesis by (auto simp: addNodes_def Let_def)
  qed
qed

section \<open>The connection by which a node is reached from a parent\<close>

text \<open>The connections of the inputs of a node in order, with their positions in their input.\<close>

definition indexed_conns :: "NodeInputConnections \<Rightarrow> (nat \<times> IConnection) list" where
  "indexed_conns inputs = concat (map (\<lambda>l. enumerate 0 (conns_at l)) inputs)"

abbreviation typed_inputs :: "IConnections \<Rightarrow> string \<Rightarrow> NodeConnectionType \<Rightarrow> NodeInputConnections option" where
  "typed_inputs cs nodeName t \<equiv>
     (case map_of cs nodeName of None \<Rightarrow> None | Some byType \<Rightarrow> map_of byType t)"

function (sequential)
  getNodeConnectionIndexes ::
    "Workflow \<Rightarrow> string \<Rightarrow> string \<Rightarrow> NodeConnectionType \<Rightarrow> int \<Rightarrow> string list
       \<Rightarrow> INodeConnection option \<times> string list"
and
  scan_connections ::
    "Workflow \<Rightarrow> (nat \<times> IConnection) list \<Rightarrow> string \<Rightarrow> NodeConnectionType \<Rightarrow> int \<Rightarrow> string list
       \<Rightarrow> INodeConnection option \<times> string list"
where
  "getNodeConnectionIndexes w nodeName parentNodeName type depth checkedNodes =
     (if getNode w parentNodeName = None then (None, checkedNodes)
      else let newDepth = (if depth = -1 then depth else depth - 1) in
        if depth = 0 then (None, checkedNodes)
        else case typed_inputs (connectionsByDestinationNode w) nodeName type of
          None \<Rightarrow> (None, checkedNodes)
        | Some inputs \<Rightarrow>
            if nodeName \<in> set checkedNodes then (None, checkedNodes)
            else scan_connections w (indexed_conns inputs) parentNodeName type newDepth
                   (checkedNodes @ [nodeName]))"
| "scan_connections w [] parentNodeName type depth checkedNodes = (None, checkedNodes)"
| "scan_connections w ((i, connection) # conns) parentNodeName type depth checkedNodes =
     (if parentNodeName = conn_node connection
      then (Some \<lparr>sourceIndex = conn_index connection, destinationIndex = i\<rparr>, checkedNodes)
      else if conn_node connection \<in> set checkedNodes
      then scan_connections w conns parentNodeName type depth checkedNodes
      else case getNodeConnectionIndexes w (conn_node connection) parentNodeName type depth checkedNodes of
        (Some outputIndex, checkedNodes') \<Rightarrow> (Some outputIndex, checkedNodes')
      | (None, checkedNodes') \<Rightarrow>
          scan_connections w conns parentNodeName type depth checkedNodes')"
  by pat_completeness auto

lemma getNodeConnectionIndexes_checked:
  "getNodeConnectionIndexes_scan_connections_dom (Inl (w, n, p, t, d, chk)) \<Longrightarrow>
     set chk \<subseteq> set (snd (getNodeConnectionIndexes w n p t d chk))"
  "getNodeConnectionIndexes_scan_connections_dom (Inr (w, cs, p, t, d, chk)) \<Longrightarrow>
     set chk \<subseteq> set (snd (scan_connections w cs p t d chk))"
proof (induction w n p t d chk and w cs p t d chk rule: getNodeConnectionIndexes_scan_connections.pinduct)
  case (1 w n p t d chk)
  from 1(2-) show ?case
    by (fastforce simp: getNodeConnectionIndexes.psimps [OF 1(1)] Let_def split: option.splits)
next
  case (2 w p t d chk)
  then show ?case by (simp add: scan_connections.psimps)
next
  case (3 w i c cs p t d chk)
  show ?case
  proof (cases "p = conn_node c \<or> conn_node c \<in> set chk")
    case True
    with 3 show ?thesis by (auto simp: scan_connections.psimps(2) [OF 3(1)])
  next
    case False
    obtain r chk1 where call: "getNodeConnectionIndexes w (conn_node c) p t d chk = (r, chk1)" by fastforce
    with False 3(3) have "set chk \<subseteq> set chk1" by simp
    with False call 3(4) show ?thesis
      by (cases r) (auto simp: scan_connections.psimps(2) [OF 3(1)])
  qed
qed

termination getNodeConnectionIndexes
proof (relation "inv_image search_order
    (\<lambda>x. case x of
       Inl (w, n, p, t, d, chk) \<Rightarrow> (remaining (keys_of (connectionsByDestinationNode w)) chk, 0)
     | Inr (w, cs, p, t, d, chk) \<Rightarrow>
         (remaining (keys_of (connectionsByDestinationNode w)) chk, Suc (length cs)))", goal_cases)
  case (2 w n p t d chk nd inputs)
  then have "n \<in> set (keys_of (connectionsByDestinationNode w))"
    by (auto split: option.splits dest!: map_of_SomeD intro: rev_image_eqI)
  with 2 show ?case by (auto intro!: search_orderI(1) remaining_less)
next
  case (5 w i c cs p t d chk r chk')
  then have "set chk \<subseteq> set chk'"
    using getNodeConnectionIndexes_checked(1) [of w "conn_node c" p t d chk] by (auto simp flip: 5(3))
  then show ?case by (auto intro!: search_orderI(2) remaining_le)
qed (auto intro: search_orderI wf_search_order)

lemma in_indexed_conns:
  "(i, c) \<in> set (indexed_conns ls) \<longleftrightarrow> (\<exists>l \<in> set ls. i < length (conns_at l) \<and> conns_at l ! i = c)"
  by (auto simp: indexed_conns_def in_set_enumerate_eq)

text \<open>The entry of a node's inputs that an answer points at.\<close>

definition connection_at :: "Workflow \<Rightarrow> string \<Rightarrow> string \<Rightarrow> NodeConnectionType \<Rightarrow> INodeConnection \<Rightarrow> bool" where
  "connection_at w x p t r \<longleftrightarrow> (\<exists>ls l. typed_inputs (connectionsByDestinationNode w) x t = Some ls
     \<and> l \<in> set ls \<and> destinationIndex r < length (conns_at l)
     \<and> conn_node (conns_at l ! destinationIndex r) = p
     \<and> conn_index (conns_at l ! destinationIndex r) = sourceIndex r)"

abbreviation parent_rel :: "Workflow \<Rightarrow> NodeConnectionType \<Rightarrow> (string \<times> string) set" where
  "parent_rel w t \<equiv> conn_rel (connectionsByDestinationNode w) {t}"

lemma parent_rel_iff:
  assumes "wf_connections (connectionsByDestinationNode w)"
  shows "(x, y) \<in> parent_rel w t \<longleftrightarrow> (\<exists>ls i c. typed_inputs (connectionsByDestinationNode w) x t = Some ls
    \<and> (i, c) \<in> set (indexed_conns ls) \<and> conn_node c = y)"
proof -
  have "(\<exists>l \<in> set ls. c \<in> set (conns_at l)) \<longleftrightarrow> (\<exists>i. (i, c) \<in> set (indexed_conns ls))" for c ls
    by (auto simp: in_indexed_conns in_set_conv_nth [of c])
  then show ?thesis
    using conn_rel_step [OF assms, of x y "OnlyType t"] by (auto split: option.splits)
qed

text \<open>
  After a search without success the nodes it checked are closed: no connection leads from them
  to the parent, and what they are connected to has been checked or has no inputs itself.
\<close>

definition searched :: "Workflow \<Rightarrow> NodeConnectionType \<Rightarrow> string \<Rightarrow> string list \<Rightarrow> string \<Rightarrow> bool" where
  "searched w t p chk y \<longleftrightarrow> y \<in> set chk \<or> (\<forall>z. (y, z) \<notin> parent_rel w t)"

lemma searched_mono: "searched w t p chk y \<Longrightarrow> set chk \<subseteq> set chk' \<Longrightarrow> searched w t p chk' y"
  by (auto simp: searched_def)

definition missed :: "Workflow \<Rightarrow> NodeConnectionType \<Rightarrow> string \<Rightarrow> string list \<Rightarrow> string list \<Rightarrow> bool" where
  "missed w t p chk chk' \<longleftrightarrow> set chk \<subseteq> set chk' \<and>
     (\<forall>x \<in> set chk' - set chk. \<forall>y. (x, y) \<in> parent_rel w t \<longrightarrow> y \<noteq> p \<and> searched w t p chk' y)"

lemma missed_refl [simp]: "missed w t p chk chk"
  by (simp add: missed_def)

lemma missed_trans: "missed w t p a b \<Longrightarrow> missed w t p b c \<Longrightarrow> missed w t p a c"
  unfolding missed_def by (metis (no_types, lifting) Diff_iff searched_mono subset_trans)

definition inputs_of :: "Workflow \<Rightarrow> NodeConnectionType \<Rightarrow> string \<Rightarrow> (nat \<times> IConnection) list \<Rightarrow> bool" where
  "inputs_of w t n cs \<longleftrightarrow> (\<exists>ls. typed_inputs (connectionsByDestinationNode w) n t = Some ls
     \<and> set cs \<subseteq> set (indexed_conns ls))"

lemma getNodeConnectionIndexes_search:
  shows "wf_connections (connectionsByDestinationNode w) \<Longrightarrow> getNode w p \<noteq> None \<Longrightarrow> d = -1 \<Longrightarrow>
    (case getNodeConnectionIndexes w n p t d chk of
      (Some r, chk') \<Rightarrow> (\<exists>x. (n, x) \<in> (parent_rel w t)\<^sup>* \<and> connection_at w x p t r)
    | (None, chk') \<Rightarrow> missed w t p chk chk' \<and> searched w t p chk' n)"
    and "wf_connections (connectionsByDestinationNode w) \<Longrightarrow> getNode w p \<noteq> None \<Longrightarrow> d = -1 \<Longrightarrow>
    (\<forall>n. inputs_of w t n cs \<longrightarrow> (case scan_connections w cs p t d chk of
      (Some r, chk') \<Rightarrow> (\<exists>x. (n, x) \<in> (parent_rel w t)\<^sup>* \<and> connection_at w x p t r)
    | (None, chk') \<Rightarrow> missed w t p chk chk'
        \<and> (\<forall>(i, c) \<in> set cs. conn_node c \<noteq> p \<and> searched w t p chk' (conn_node c))))"
proof (induction w n p t d chk and w cs p t d chk
    rule: getNodeConnectionIndexes_scan_connections.induct)
  case (1 w n p t d chk)
  note wf = "1.prems"(1)
  show ?case
  proof (cases "typed_inputs (connectionsByDestinationNode w) n t")
    case None
    then have "(n, z) \<notin> parent_rel w t" for z using parent_rel_iff [OF wf] by simp
    with None "1.prems" show ?thesis by (simp add: searched_def)
  next
    case (Some inputs)
    show ?thesis
    proof (cases "n \<in> set chk")
      case True
      with Some "1.prems" show ?thesis by (simp add: searched_def)
    next
      case False
      have io: "inputs_of w t n (indexed_conns inputs)" using Some by (simp add: inputs_of_def)
      have eq: "getNodeConnectionIndexes w n p t d chk
          = scan_connections w (indexed_conns inputs) p t (-1) (chk @ [n])"
        using Some False "1.prems" by auto
      have scan: "case scan_connections w (indexed_conns inputs) p t (-1) (chk @ [n]) of
          (Some r, chk') \<Rightarrow> (\<exists>x. (n, x) \<in> (parent_rel w t)\<^sup>* \<and> connection_at w x p t r)
        | (None, chk') \<Rightarrow> missed w t p (chk @ [n]) chk'
            \<and> (\<forall>(i, c) \<in> set (indexed_conns inputs). conn_node c \<noteq> p \<and> searched w t p chk' (conn_node c))"
        using "1.IH" [OF _ refl _ Some False] "1.prems" io by simp
      show ?thesis
      proof (cases "scan_connections w (indexed_conns inputs) p t (-1) (chk @ [n])")
        case (Pair r chk')
        show ?thesis
        proof (cases r)
          case None
          with scan Pair have m: "missed w t p (chk @ [n]) chk'"
            and a: "\<forall>(i, c) \<in> set (indexed_conns inputs). conn_node c \<noteq> p \<and> searched w t p chk' (conn_node c)"
            by auto
          have n: "y \<noteq> p \<and> searched w t p chk' y" if "(n, y) \<in> parent_rel w t" for y
            using that a Some unfolding parent_rel_iff [OF wf] by auto
          have "y \<noteq> p \<and> searched w t p chk' y" if "x \<in> set chk' - set chk" "(x, y) \<in> parent_rel w t" for x y
            using that m n by (cases "x = n") (simp, simp add: missed_def, blast)
          with m have "missed w t p chk chk'" "searched w t p chk' n"
            unfolding missed_def searched_def by simp_all
          with Pair None eq show ?thesis by simp
        next
          case (Some r')
          with scan Pair eq show ?thesis by simp
        qed
      qed
    qed
  qed
next
  case (2 w p t d chk)
  show ?case by simp
next
  case (3 w i c cs p t d chk)
  note wf = "3.prems"(1)
  show ?case
  proof (intro allI impI)
    fix n
    assume io: "inputs_of w t n ((i, c) # cs)"
    then have io': "inputs_of w t n cs" by (auto simp: inputs_of_def)
    from io obtain ls where ls: "typed_inputs (connectionsByDestinationNode w) n t = Some ls"
      "(i, c) \<in> set (indexed_conns ls)" by (auto simp: inputs_of_def)
    then have step: "(n, conn_node c) \<in> parent_rel w t" using parent_rel_iff [OF wf] by blast
    consider (hit) "p = conn_node c" | (seen) "p \<noteq> conn_node c" "conn_node c \<in> set chk"
      | (call) "p \<noteq> conn_node c" "conn_node c \<notin> set chk" by blast
    then show "case scan_connections w ((i, c) # cs) p t d chk of
      (Some r, chk') \<Rightarrow> (\<exists>x. (n, x) \<in> (parent_rel w t)\<^sup>* \<and> connection_at w x p t r)
    | (None, chk') \<Rightarrow> missed w t p chk chk'
        \<and> (\<forall>(i, c) \<in> set ((i, c) # cs). conn_node c \<noteq> p \<and> searched w t p chk' (conn_node c))"
    proof cases
      case hit
      with ls have "connection_at w n p t \<lparr>sourceIndex = conn_index c, destinationIndex = i\<rparr>"
        by (auto simp: connection_at_def in_indexed_conns)
      with hit show ?thesis by auto
    next
      case seen
      with "3.IH"(1) "3.prems" io' show ?thesis
        by (fastforce simp: searched_def missed_def split: prod.splits option.splits)
    next
      case call
      obtain r chk1 where g: "getNodeConnectionIndexes w (conn_node c) p t d chk = (r, chk1)" by fastforce
      show ?thesis
      proof (cases r)
        case (Some r')
        with "3.IH"(2) [OF call "3.prems"] g obtain x where
          "(conn_node c, x) \<in> (parent_rel w t)\<^sup>*" "connection_at w x p t r'" by auto
        with step g Some call show ?thesis by (auto intro: converse_rtrancl_into_rtrancl)
      next
        case None
        with "3.IH"(2) [OF call "3.prems"] g have m1: "missed w t p chk chk1"
          and s1: "searched w t p chk1 (conn_node c)" by auto
        from "3.IH"(3) [OF call _ _ "3.prems", of None chk1] None g io'
        have rest: "case scan_connections w cs p t d chk1 of
            (Some r, chk') \<Rightarrow> (\<exists>x. (n, x) \<in> (parent_rel w t)\<^sup>* \<and> connection_at w x p t r)
          | (None, chk') \<Rightarrow> missed w t p chk1 chk'
              \<and> (\<forall>(i, c) \<in> set cs. conn_node c \<noteq> p \<and> searched w t p chk' (conn_node c))" by simp
        obtain r2 chk2 where s: "scan_connections w cs p t d chk1 = (r2, chk2)" by fastforce
        show ?thesis
        proof (cases r2)
          case None2: None
          with rest s have m2: "missed w t p chk1 chk2"
            and "\<forall>(i, c) \<in> set cs. conn_node c \<noteq> p \<and> searched w t p chk2 (conn_node c)" by auto
          moreover from m2 s1 have "searched w t p chk2 (conn_node c)"
            by (auto simp: missed_def intro: searched_mono)
          ultimately show ?thesis
            using call g None s None2 missed_trans [OF m1 m2] by auto
        qed (use call g None s rest in auto)
      qed
    qed
  qed
qed

text \<open>The search finds a connection exactly if the parent is an ancestor of the node.\<close>

lemma getNodeConnectionIndexes_found:
  assumes wf: "wf_connections (connectionsByDestinationNode w)" and "getNode w p \<noteq> None"
  shows "(case fst (getNodeConnectionIndexes w n p t (-1) []) of
      Some r \<Rightarrow> (\<exists>x. (n, x) \<in> (parent_rel w t)\<^sup>* \<and> connection_at w x p t r)
    | None \<Rightarrow> (n, p) \<notin> (parent_rel w t)\<^sup>+)"
proof -
  obtain r chk where g: "getNodeConnectionIndexes w n p t (-1) [] = (r, chk)" by fastforce
  note search = getNodeConnectionIndexes_search(1) [OF assms refl, where n = n and t = t and chk = "[]"]
  show ?thesis
  proof (cases r)
    case None
    with search g have m: "missed w t p [] chk" and s: "searched w t p chk n" by auto
    have "y \<noteq> p \<and> searched w t p chk y" if "(n, y) \<in> (parent_rel w t)\<^sup>+" for y
      using that
    proof (induction rule: trancl_induct)
      case (base y)
      with s m show ?case by (fastforce simp: missed_def searched_def)
    next
      case (step y z)
      then show ?case using m by (fastforce simp: missed_def searched_def)
    qed
    with g None show ?thesis by auto
  qed (use search g in auto)
qed

section \<open>Properties\<close>

lemma wf_by_destination: "wf_workflow w \<Longrightarrow> wf_connections (connectionsByDestinationNode w)"
  by (simp add: wf_workflow_def wf_getConnectionsByDestination)

text \<open>
  the search for the highest parents of a node of the workflow never fails, on any cycle; it
  answers without duplicates with enabled nodes from which main connections lead to the node.
\<close>

theorem getHighestNode_ancestors:
  assumes "wf_workflow w" and "getNode w nodeName \<noteq> None"
  shows "\<exists>ret chk. getHighestNode w nodeName i [] = Inr (ret, chk) \<and> distinct ret
    \<and> (\<forall>r \<in> set ret. enabled_node w r
         \<and> (r, nodeName) \<in> (into_rel (connectionsBySourceNode w) {MainType})\<^sup>*)"
proof -
  have cs: "connectionsByDestinationNode w = getConnectionsByDestination (connectionsBySourceNode w)"
    using assms(1) by (simp add: wf_workflow_def)
  show ?thesis
    using getHighestNode_spec(1) [OF wf_by_destination [OF assms(1)] assms(2), of i "[]"]
    by (simp add: cs conn_rel_by_destination rtrancl_converse)
qed

theorem getHighestNode_ancestors_witness:
  "\<exists>ret chk. getHighestNode example_workflow ''B'' None [] = Inr (ret, chk) \<and> distinct ret"
  using getHighestNode_ancestors [OF wf_example_workflow, of "''B''" None]
  by (auto simp: example_simps)

text \<open>
  the search for the connection to a parent succeeds exactly if the parent is an ancestor of
  the node, and the indices it answers with are those of a connection from the parent into the
  node or one of its ancestors.
\<close>

theorem getNodeConnectionIndexes_finds_parent:
  assumes "wf_workflow w" and "getNode w parent \<noteq> None"
  shows "(case fst (getNodeConnectionIndexes w nodeName parent type (-1) []) of
      Some r \<Rightarrow> (\<exists>x. (nodeName, x) \<in> (parent_rel w type)\<^sup>* \<and> connection_at w x parent type r)
    | None \<Rightarrow> (nodeName, parent) \<notin> (parent_rel w type)\<^sup>+)"
  using getNodeConnectionIndexes_found [OF wf_by_destination] assms by blast

theorem getNodeConnectionIndexes_finds_parent_witness:
  "\<exists>r. fst (getNodeConnectionIndexes example_workflow ''B'' ''T'' MainType (-1) []) = Some r
    \<and> (\<exists>x. (''B'', x) \<in> (parent_rel example_workflow MainType)\<^sup>*
         \<and> connection_at example_workflow x ''T'' MainType r)"
proof -
  have "fst (getNodeConnectionIndexes example_workflow ''B'' ''T'' MainType (-1) [])
      = Some \<lparr>sourceIndex = 0, destinationIndex = 0\<rparr>"
    by (simp add: example_simps main_to_def indexed_conns_def)
  with getNodeConnectionIndexes_finds_parent [OF wf_example_workflow, of "''T''" "''B''" MainType]
  show ?thesis by (simp add: example_simps)
qed

end
