(* ===== verification/WorkflowStart.thy ===== *)
theory WorkflowStart
  imports WorkflowSearch
begin

text \<open>
  The breadth-first search of the class \<open>Workflow\<close>, the node a workflow starts from and
  the connections between two groups of nodes. The search is shown to return the reachable nodes
  with their distances; the start node is shown to be the first enabled trigger when there is one.
\<close>

section \<open>Breadth-first search\<close>

text \<open>
  The objects in \<open>returnConns\<close> are the ones in \<open>visited\<close>, so that an update of the indices of
  a visited node is seen in the result: the list holds the names, which are looked up at the end.
\<close>

type_synonym bfs_state = "string list \<times> (string \<times> IConnectedNode) list \<times> IConnectedNode list"

definition bfs_children :: "IConnections \<Rightarrow> string \<Rightarrow> nat \<Rightarrow> IConnectedNode list" where
  "bfs_children connections nm depth =
     (case typed_inputs connections nm MainType of
        None \<Rightarrow> []
      | Some inputs \<Rightarrow> map (\<lambda>connection. \<lparr>cn_name = conn_node connection,
          cn_indicies = [conn_index connection], cn_depth = depth\<rparr>) (concat (map conns_at inputs)))"

definition bfs_visit :: "IConnections \<Rightarrow> string \<Rightarrow> nat \<Rightarrow> IConnectedNode \<Rightarrow> bfs_state \<Rightarrow> bfs_state" where
  "bfs_visit connections sourceNode depth cur st =
     (case st of (returnConns, visited, queue) \<Rightarrow>
        (case map_of visited (cn_name cur) of
           Some seen \<Rightarrow>
             (returnConns,
              obj_set (cn_name cur) (seen\<lparr>cn_indicies := set_of (cn_indicies seen @ cn_indicies cur)\<rparr>) visited,
              queue)
         | None \<Rightarrow>
             (if cn_name cur \<noteq> sourceNode then returnConns @ [cn_name cur] else returnConns,
              obj_set (cn_name cur) cur visited,
              queue @ bfs_children connections (cn_name cur) depth)))"

text \<open>The entries of \<open>visited\<close> keep their names and depths; nothing leaves it.\<close>

definition bfs_ok :: "string \<Rightarrow> string list \<Rightarrow> (string \<times> IConnectedNode) list \<Rightarrow> bool" where
  "bfs_ok src ret vis \<longleftrightarrow> distinct (keys_of vis) \<and> distinct ret \<and> set ret = set (keys_of vis) - {src}
     \<and> (\<forall>(k, x) \<in> set vis. cn_name x = k)"

lemma bfs_visit_ok:
  assumes "bfs_ok src ret vis" and "bfs_visit cs src d cur (ret, vis, q) = (ret', vis', q')"
  shows "bfs_ok src ret' vis'" and "set (keys_of vis') = insert (cn_name cur) (set (keys_of vis))"
    and "\<forall>(k, x) \<in> set vis'. (\<exists>y. (k, y) \<in> set vis \<and> cn_depth y = cn_depth x)
           \<or> k = cn_name cur \<and> k \<notin> set (keys_of vis) \<and> x = cur"
    and "set q' = set q \<union> (if cn_name cur \<in> set (keys_of vis) then {}
           else set (bfs_children cs (cn_name cur) d))"
proof -
  have d: "distinct (keys_of vis)" using assms(1) by (simp add: bfs_ok_def)
  consider (seen) v where "map_of vis (cn_name cur) = Some v" | (new) "map_of vis (cn_name cur) = None"
    by blast
  then have "bfs_ok src ret' vis' \<and> set (keys_of vis') = insert (cn_name cur) (set (keys_of vis))
    \<and> (\<forall>(k, x) \<in> set vis'. (\<exists>y. (k, y) \<in> set vis \<and> cn_depth y = cn_depth x)
           \<or> k = cn_name cur \<and> k \<notin> set (keys_of vis) \<and> x = cur)
    \<and> set q' = set q \<union> (if cn_name cur \<in> set (keys_of vis) then {}
           else set (bfs_children cs (cn_name cur) d))"
  proof cases
    case (seen v)
    then have v: "(cn_name cur, v) \<in> set vis" by (rule map_of_SomeD)
    then have k: "cn_name cur \<in> set (keys_of vis)" by force
    define v' where "v' = v\<lparr>cn_indicies := set_of (cn_indicies v @ cn_indicies cur)\<rparr>"
    from seen assms(2) have e: "ret' = ret" "q' = q" "vis' = obj_set (cn_name cur) v' vis"
      by (simp_all add: bfs_visit_def v'_def)
    have "cn_name v' = cn_name v" "cn_depth v' = cn_depth v" by (simp_all add: v'_def)
    then show ?thesis
      using assms(1) v k unfolding e bfs_ok_def js_obj.values_put [OF d] js_obj.keys_put [OF d]
      by (auto simp: js_obj.ok_put)
  next
    case new
    then have k: "cn_name cur \<notin> set (keys_of vis)" by (simp add: map_of_eq_None_iff)
    from new assms(2) have e: "vis' = obj_set (cn_name cur) cur vis"
      "ret' = (if cn_name cur \<noteq> src then ret @ [cn_name cur] else ret)"
      "q' = q @ bfs_children cs (cn_name cur) d"
      by (auto simp: bfs_visit_def)
    show ?thesis
      using assms(1) k unfolding e bfs_ok_def js_obj.values_put [OF d] js_obj.keys_put [OF d]
      by (auto simp: js_obj.ok_put simp del: set_map)
  qed
  then show "bfs_ok src ret' vis'" "set (keys_of vis') = insert (cn_name cur) (set (keys_of vis))"
    "\<forall>(k, x) \<in> set vis'. (\<exists>y. (k, y) \<in> set vis \<and> cn_depth y = cn_depth x)
           \<or> k = cn_name cur \<and> k \<notin> set (keys_of vis) \<and> x = cur"
    "set q' = set q \<union> (if cn_name cur \<in> set (keys_of vis) then {}
           else set (bfs_children cs (cn_name cur) d))" by auto
qed

lemma bfs_visit_keys:
  "dom (map_of (fst (snd (bfs_visit cs src d cur (ret, vis, q))))) = insert (cn_name cur) (dom (map_of vis))"
  by (auto simp: bfs_visit_def store_simps split: option.split)

lemma bfs_fold_keys:
  "fold (bfs_visit cs src d) xs (ret, vis, q) = (ret', vis', q')
     \<Longrightarrow> dom (map_of vis') = dom (map_of vis) \<union> cn_name ` set xs"
proof (induction xs arbitrary: ret vis q)
  case (Cons x xs)
  obtain ret1 vis1 q1 where s: "bfs_visit cs src d x (ret, vis, q) = (ret1, vis1, q1)"
    by (cases "bfs_visit cs src d x (ret, vis, q)")
  with Cons.prems have "fold (bfs_visit cs src d) xs (ret1, vis1, q1) = (ret', vis', q')" by simp
  from Cons.IH [OF this] bfs_visit_keys [of cs src d x ret vis q] s show ?case by auto
qed simp

lemma bfs_fold_queue:
  "fold (bfs_visit cs src d) xs (ret, vis, q) = (ret', vis', q') \<Longrightarrow> q' \<noteq> q
     \<Longrightarrow> \<exists>x \<in> set xs. cn_name x \<notin> dom (map_of vis) \<and> bfs_children cs (cn_name x) d \<noteq> []"
proof (induction xs arbitrary: ret vis q)
  case (Cons x xs)
  obtain ret1 vis1 q1 where s: "bfs_visit cs src d x (ret, vis, q) = (ret1, vis1, q1)"
    by (cases "bfs_visit cs src d x (ret, vis, q)")
  with Cons.prems have fold: "fold (bfs_visit cs src d) xs (ret1, vis1, q1) = (ret', vis', q')" by simp
  show ?case
  proof (cases "q1 = q")
    case True
    from Cons.IH [OF fold] Cons.prems(2) True bfs_visit_keys [of cs src d x ret vis q] s show ?thesis
      by auto
  next
    case False
    with s show ?thesis by (auto simp: bfs_visit_def split: option.splits)
  qed
qed simp

function bfs_loop ::
    "IConnections \<Rightarrow> string \<Rightarrow> int \<Rightarrow> nat \<Rightarrow> bfs_state \<Rightarrow> string list \<times> (string \<times> IConnectedNode) list" where
  "bfs_loop connections sourceNode maxDepth depth (returnConns, visited, queue) =
     (if queue = [] then (returnConns, visited)
      else if maxDepth \<noteq> -1 \<and> int depth > maxDepth then (returnConns, visited)
      else bfs_loop connections sourceNode maxDepth (Suc depth)
        (fold (bfs_visit connections sourceNode (Suc depth)) queue (returnConns, visited, [])))"
  by pat_completeness auto
termination
proof (relation "inv_image search_order (\<lambda>(cs, src, m, d, ret, vis, q).
    (remaining (keys_of cs) (keys_of vis), length q))", goal_cases)
  case (2 cs src m d ret vis q)
  obtain ret' vis' q' where f: "fold (bfs_visit cs src (Suc d)) q (ret, vis, []) = (ret', vis', q')"
    by (cases "fold (bfs_visit cs src (Suc d)) q (ret, vis, [])")
  from bfs_fold_keys [OF f] have keys: "set (keys_of vis') = set (keys_of vis) \<union> cn_name ` set q"
    by (simp add: dom_map_of_conv_image_fst)
  have "((remaining (keys_of cs) (keys_of vis'), length q'), remaining (keys_of cs) (keys_of vis), length q)
      \<in> search_order"
  proof (cases "q' = []")
    case True
    moreover have "remaining (keys_of cs) (keys_of vis') \<le> remaining (keys_of cs) (keys_of vis)"
      by (rule remaining_le) (simp only: keys, blast)
    ultimately show ?thesis using 2(1) by (intro search_orderI(2)) simp_all
  next
    case False
    from bfs_fold_queue [OF f False] obtain x where x: "x \<in> set q" "cn_name x \<notin> dom (map_of vis)"
      "bfs_children cs (cn_name x) (Suc d) \<noteq> []" by blast
    then have "cn_name x \<in> dom (map_of cs)" by (auto simp: bfs_children_def split: option.splits)
    then have "cn_name x \<in> set (keys_of cs)" "cn_name x \<notin> set (keys_of vis)"
      using x(2) by (auto simp: dom_map_of_conv_image_fst)
    moreover have "insert (cn_name x) (set (keys_of vis)) \<subseteq> set (keys_of vis')"
      unfolding keys using x(1) by auto
    ultimately have "remaining (keys_of cs) (keys_of vis') < remaining (keys_of cs) (keys_of vis)"
      by (rule remaining_less)
    then show ?thesis by (rule search_orderI(1))
  qed
  then show ?case by (simp only: in_inv_image prod.case f)
qed (simp add: wf_search_order)

declare bfs_loop.simps [simp del]

definition searchNodesBFS :: "IConnections \<Rightarrow> string \<Rightarrow> int \<Rightarrow> IConnectedNode list" where
  "searchNodesBFS connections sourceNode maxDepth =
     (let (returnConns, visited) = bfs_loop connections sourceNode maxDepth 0
            ([], [], [\<lparr>cn_name = sourceNode, cn_indicies = [], cn_depth = 0\<rparr>])
      in map (\<lambda>nm. the (map_of visited nm)) returnConns)"

definition getParentNodesByDepth :: "Workflow \<Rightarrow> string \<Rightarrow> int \<Rightarrow> IConnectedNode list" where
  "getParentNodesByDepth w nodeName maxDepth =
     searchNodesBFS (connectionsByDestinationNode w) nodeName maxDepth"

text \<open>The nodes at most, and exactly, so many steps away.\<close>

definition nearer :: "('a \<times> 'a) set \<Rightarrow> 'a \<Rightarrow> nat \<Rightarrow> 'a set" where
  "nearer R a d = {b. \<exists>k < d. (a, b) \<in> R ^^ k}"

lemma nearer_Suc: "nearer R a (Suc d) = nearer R a d \<union> {b. (a, b) \<in> R ^^ d}"
  by (auto simp: nearer_def less_Suc_eq)

lemma nearer_step: "nearer R a (Suc d) = insert a (R `` nearer R a d)"
proof (intro set_eqI iffI)
  fix b assume "b \<in> nearer R a (Suc d)"
  then obtain k where "k < Suc d" "(a, b) \<in> R ^^ k" by (auto simp: nearer_def)
  then show "b \<in> insert a (R `` nearer R a d)"
    by (cases k) (auto simp: nearer_def)
next
  fix b assume "b \<in> insert a (R `` nearer R a d)"
  then consider "b = a" | c k where "(a, c) \<in> R ^^ k" "k < d" "(c, b) \<in> R"
    by (auto simp: nearer_def)
  then show "b \<in> nearer R a (Suc d)"
  proof cases
    case (2 c k)
    then have "(a, b) \<in> R ^^ Suc k" "Suc k < Suc d" by auto
    then show ?thesis unfolding nearer_def by blast
  qed (auto simp: nearer_def intro: exI [of _ 0])
qed

definition shortest :: "('a \<times> 'a) set \<Rightarrow> 'a \<Rightarrow> 'a \<Rightarrow> nat \<Rightarrow> bool" where
  "shortest R a b d \<longleftrightarrow> (a, b) \<in> R ^^ d \<and> (\<forall>k < d. (a, b) \<notin> R ^^ k)"

text \<open>The state between two levels: the visited nodes are those nearer than \<open>depth\<close>.\<close>

definition bfs_inv :: "(string \<times> string) set \<Rightarrow> string \<Rightarrow> nat \<Rightarrow> bfs_state \<Rightarrow> bool" where
  "bfs_inv R src d st = (case st of (ret, vis, q) \<Rightarrow> bfs_ok src ret vis
     \<and> set (keys_of vis) = nearer R src d
     \<and> set (keys_of vis) \<union> cn_name ` set q = nearer R src (Suc d)
     \<and> (\<forall>x \<in> set q. cn_depth x = d)
     \<and> (\<forall>(k, x) \<in> set vis. shortest R src k (cn_depth x)))"

lemma bfs_children_rel:
  assumes "wf_connections cs"
  shows "cn_name ` set (bfs_children cs nm d) = conn_rel cs {MainType} `` {nm}"
proof -
  have "(nm, b) \<in> conn_rel cs {MainType} \<longleftrightarrow> (\<exists>ls. typed_inputs cs nm MainType = Some ls
      \<and> b \<in> conn_node ` set (concat (map conns_at ls)))" for b
    using conn_rel_step [OF assms, of nm b "OnlyType MainType"]
    by (auto split: option.splits simp del: set_concat)
  then show ?thesis
    by (cases "typed_inputs cs nm MainType") (auto simp: bfs_children_def image_image Image_def simp del: set_concat)
qed

lemma bfs_children_depth: "x \<in> set (bfs_children cs nm d) \<Longrightarrow> cn_depth x = d"
  by (auto simp: bfs_children_def split: option.splits)

lemma bfs_fold_level:
  assumes "fold (bfs_visit cs src d) xs (ret, vis, q) = (ret', vis', q')" and "bfs_ok src ret vis"
  shows "bfs_ok src ret' vis' \<and> set (keys_of vis') = set (keys_of vis) \<union> cn_name ` set xs
    \<and> (\<forall>(k, x) \<in> set vis'. (\<exists>y. (k, y) \<in> set vis \<and> cn_depth y = cn_depth x)
           \<or> k \<in> cn_name ` set xs \<and> k \<notin> set (keys_of vis) \<and> (\<exists>y \<in> set xs. cn_depth y = cn_depth x))
    \<and> set q' = set q \<union> (\<Union>n \<in> cn_name ` set xs - set (keys_of vis). set (bfs_children cs n d))"
  using assms
proof (induction xs arbitrary: ret vis q)
  case (Cons x xs)
  obtain ret1 vis1 q1 where s: "bfs_visit cs src d x (ret, vis, q) = (ret1, vis1, q1)"
    by (cases "bfs_visit cs src d x (ret, vis, q)")
  with Cons.prems have fold: "fold (bfs_visit cs src d) xs (ret1, vis1, q1) = (ret', vis', q')" by simp
  note v = bfs_visit_ok [OF Cons.prems(2) s]
  note IH = Cons.IH [OF fold v(1)]
  show ?case
  proof (intro conjI)
    show "\<forall>(k, y) \<in> set vis'. (\<exists>z. (k, z) \<in> set vis \<and> cn_depth z = cn_depth y)
        \<or> k \<in> cn_name ` set (x # xs) \<and> k \<notin> set (keys_of vis) \<and> (\<exists>z \<in> set (x # xs). cn_depth z = cn_depth y)"
    proof (intro ballI)
      fix p assume p: "p \<in> set vis'"
      obtain k y where ky: "p = (k, y)" by (cases p)
      from p ky IH consider z where "(k, z) \<in> set vis1" "cn_depth z = cn_depth y"
        | "k \<in> cn_name ` set xs" "k \<notin> set (keys_of vis1)" "\<exists>z \<in> set xs. cn_depth z = cn_depth y"
        by fastforce
      then have "(\<exists>z. (k, z) \<in> set vis \<and> cn_depth z = cn_depth y)
        \<or> k \<in> cn_name ` set (x # xs) \<and> k \<notin> set (keys_of vis) \<and> (\<exists>z \<in> set (x # xs). cn_depth z = cn_depth y)"
      proof cases
        case (1 z)
        with v(3) show ?thesis by fastforce
      next
        case 2
        with v(2) have "k \<notin> set (keys_of vis)" by blast
        with 2 show ?thesis by auto
      qed
      then show "case p of (k, y) \<Rightarrow> (\<exists>z. (k, z) \<in> set vis \<and> cn_depth z = cn_depth y)
        \<or> k \<in> cn_name ` set (x # xs) \<and> k \<notin> set (keys_of vis) \<and> (\<exists>z \<in> set (x # xs). cn_depth z = cn_depth y)"
        by (simp add: ky)
    qed
    show "set q' = set q \<union> (\<Union>n \<in> cn_name ` set (x # xs) - set (keys_of vis). set (bfs_children cs n d))"
      using IH v(2,4)
      by (cases "cn_name x \<in> set (keys_of vis)") (auto simp del: set_map simp: insert_Diff_if)
  qed (use IH v in auto)
qed auto

lemma bfs_level_inv:
  assumes wf: "wf_connections cs" and inv: "bfs_inv (conn_rel cs {MainType}) src d (ret, vis, q)"
    and fold: "fold (bfs_visit cs src (Suc d)) q (ret, vis, []) = (ret', vis', q')"
  shows "bfs_inv (conn_rel cs {MainType}) src (Suc d) (ret', vis', q')"
proof -
  let ?R = "conn_rel cs {MainType}"
  from inv have ok: "bfs_ok src ret vis" and vis: "set (keys_of vis) = nearer ?R src d"
    and q: "set (keys_of vis) \<union> cn_name ` set q = nearer ?R src (Suc d)"
    and dq: "\<forall>x \<in> set q. cn_depth x = d" and dv: "\<forall>(k, x) \<in> set vis. shortest ?R src k (cn_depth x)"
    by (auto simp: bfs_inv_def)
  note level = bfs_fold_level [OF fold ok]
  note okl = level [THEN conjunct1] and keysl = level [THEN conjunct2, THEN conjunct1]
    and depthl = level [THEN conjunct2, THEN conjunct2, THEN conjunct1]
    and queuel = level [THEN conjunct2, THEN conjunct2, THEN conjunct2]
  have keys: "set (keys_of vis') = nearer ?R src (Suc d)" using keysl q by simp
  have q': "cn_name ` set q' = ?R `` (cn_name ` set q - nearer ?R src d)"
  proof -
    have "cn_name ` set q' = (\<Union>n \<in> cn_name ` set q - set (keys_of vis).
        cn_name ` set (bfs_children cs n (Suc d)))" using queuel by (simp only: image_UN) auto
    then show ?thesis unfolding bfs_children_rel [OF wf] vis by blast
  qed
  have "nearer ?R src (Suc d) = nearer ?R src d \<union> (cn_name ` set q - nearer ?R src d)"
    using q vis by blast
  from arg_cong [OF this, of "Image ?R"]
  have "?R `` nearer ?R src (Suc d) = ?R `` nearer ?R src d \<union> cn_name ` set q'"
    unfolding q' by (rule trans) (rule Image_Un)
  then have "insert src (?R `` nearer ?R src (Suc d)) = insert src (?R `` nearer ?R src d) \<union> cn_name ` set q'"
    by simp
  then have queue: "nearer ?R src (Suc d) \<union> cn_name ` set q' = nearer ?R src (Suc (Suc d))"
    using nearer_step [of ?R src d] nearer_step [of ?R src "Suc d"] by metis
  have depths: "\<forall>x \<in> set q'. cn_depth x = Suc d"
    using bfs_children_depth unfolding queuel by auto
  have sh: "shortest ?R src k (cn_depth x)" if "(k, x) \<in> set vis'" for k x
  proof -
    from bspec [OF depthl that] dq consider y where "(k, y) \<in> set vis" "cn_depth y = cn_depth x"
      | "k \<in> cn_name ` set q" "k \<notin> set (keys_of vis)" "cn_depth x = d"
      by auto
    then show ?thesis
    proof cases
      case (1 y)
      with dv show ?thesis by fastforce
    next
      case 2
      then have "k \<in> nearer ?R src (Suc d)" "k \<notin> nearer ?R src d" using q vis by auto
      with 2 show ?thesis by (auto simp: shortest_def nearer_def less_Suc_eq)
    qed
  qed
  show ?thesis
    unfolding bfs_inv_def prod.case keys using okl queue depths sh by blast
qed

text \<open>Where the search stops, every node it could still find is among the visited ones.\<close>

lemma nearer_closed:
  assumes "nearer R a (Suc d) = nearer R a d"
  shows "nearer R a d = {b. (a, b) \<in> R\<^sup>*}"
proof -
  have closed: "R `` nearer R a d \<subseteq> nearer R a d" "a \<in> nearer R a d"
    using assms nearer_step [of R a d] by auto
  have "b \<in> nearer R a d" if "(a, b) \<in> R\<^sup>*" for b
    using that closed by (induction rule: rtrancl_induct) auto
  then show ?thesis by (auto simp: nearer_def relpow_imp_rtrancl)
qed

lemma bfs_loop_spec:
  assumes "wf_connections cs"
  shows "bfs_inv (conn_rel cs {MainType}) src d st \<Longrightarrow> bfs_loop cs src m d st = (ret, vis)
    \<Longrightarrow> m = -1 \<or> int d \<le> m + 1
    \<Longrightarrow> bfs_ok src ret vis \<and> (\<forall>(k, x) \<in> set vis. shortest (conn_rel cs {MainType}) src k (cn_depth x))
      \<and> set (keys_of vis) = {n. \<exists>k. (src, n) \<in> conn_rel cs {MainType} ^^ k \<and> (m = -1 \<or> int k \<le> m)}"
  using assms
proof (induction cs src m d st rule: bfs_loop.induct)
  case (1 cs src m d ret0 vis0 q)
  let ?R = "conn_rel cs {MainType}"
  from "1.prems"(1) have base: "bfs_ok src ret0 vis0" "set (keys_of vis0) = nearer ?R src d"
    "\<forall>(k, x) \<in> set vis0. shortest ?R src k (cn_depth x)" by (simp_all add: bfs_inv_def)
  consider (empty) "q = []" | (max) "q \<noteq> []" "m \<noteq> -1 \<and> int d > m" | (more) "q \<noteq> []" "\<not> (m \<noteq> -1 \<and> int d > m)"
    by blast
  then show ?case
  proof cases
    case empty
    then have "nearer ?R src (Suc d) = nearer ?R src d" using "1.prems"(1) by (auto simp: bfs_inv_def)
    from nearer_closed [OF this] have all: "nearer ?R src d = {b. \<exists>k. (src, b) \<in> ?R ^^ k}"
      by (simp add: rtrancl_power)
    moreover have "{n. \<exists>k. (src, n) \<in> ?R ^^ k \<and> (m = -1 \<or> int k \<le> m)} = nearer ?R src d"
    proof (cases "m = -1")
      case False
      then have "nearer ?R src d \<subseteq> {n. \<exists>k. (src, n) \<in> ?R ^^ k \<and> int k \<le> m}"
        using "1.prems"(3) by (force simp: nearer_def)
      with all False show ?thesis by auto
    qed (use all in simp)
    ultimately show ?thesis using base "1.prems"(2) empty by (simp add: bfs_loop.simps)
  next
    case max
    then have "int k \<le> m \<longleftrightarrow> k < d" for k using "1.prems"(3) by auto
    then show ?thesis using base "1.prems"(2) max by (auto simp: bfs_loop.simps nearer_def)
  next
    case more
    obtain ret1 vis1 q1 where f: "fold (bfs_visit cs src (Suc d)) q (ret0, vis0, []) = (ret1, vis1, q1)"
      by (cases "fold (bfs_visit cs src (Suc d)) q (ret0, vis0, [])")
    have "bfs_inv ?R src (Suc d) (ret1, vis1, q1)"
      by (rule bfs_level_inv [OF "1.prems"(4,1) f])
    moreover have "m = -1 \<or> int (Suc d) \<le> m + 1" using more(2) by auto
    ultimately show ?thesis
      using "1.IH" [OF more, unfolded f] "1.prems"(2,4) more f
      by (simp add: bfs_loop.simps [of cs src m d])
  qed
qed

lemma searchNodesBFS_distances:
  assumes "wf_connections cs" and "-1 \<le> m"
  shows "distinct (map cn_name (searchNodesBFS cs src m))
    \<and> set (map cn_name (searchNodesBFS cs src m))
        = {n. n \<noteq> src \<and> (\<exists>k. (src, n) \<in> conn_rel cs {MainType} ^^ k \<and> (m = -1 \<or> int k \<le> m))}
    \<and> (\<forall>x \<in> set (searchNodesBFS cs src m). shortest (conn_rel cs {MainType}) src (cn_name x) (cn_depth x))"
proof -
  let ?R = "conn_rel cs {MainType}"
  let ?st = "([], [], [\<lparr>cn_name = src, cn_indicies = [], cn_depth = 0\<rparr>])"
  obtain ret vis where l: "bfs_loop cs src m 0 ?st = (ret, vis)" by fastforce
  have "bfs_inv ?R src 0 ?st"
    by (simp add: bfs_inv_def bfs_ok_def nearer_def)
  from bfs_loop_spec [OF assms(1) this l] assms(2) have ok: "bfs_ok src ret vis"
    and sh: "\<forall>(k, x) \<in> set vis. shortest ?R src k (cn_depth x)"
    and keys: "set (keys_of vis) = {n. \<exists>k. (src, n) \<in> ?R ^^ k \<and> (m = -1 \<or> int k \<le> m)}" by auto
  have look: "(k, the (map_of vis k)) \<in> set vis" if "k \<in> set ret" for k
    using that ok by (auto simp: bfs_ok_def)
  then have names: "map (\<lambda>k. cn_name (the (map_of vis k))) ret = ret"
    using ok by (intro map_idI) (fastforce simp: bfs_ok_def)
  have "searchNodesBFS cs src m = map (\<lambda>k. the (map_of vis k)) ret" by (simp add: searchNodesBFS_def l)
  moreover from look ok sh have "\<forall>k \<in> set ret. shortest ?R src (cn_name (the (map_of vis k)))
      (cn_depth (the (map_of vis k)))" by (fastforce simp: bfs_ok_def)
  ultimately show ?thesis using ok keys names by (auto simp: bfs_ok_def comp_def)
qed

section \<open>The node a workflow starts from\<close>

definition STARTING_NODE_TYPES :: "string list" where
  "STARTING_NODE_TYPES =
     [''n8n-nodes-base.manualTrigger'', ''n8n-nodes-base.executeWorkflowTrigger'',
      ''n8n-nodes-base.errorTrigger'', ''n8n-nodes-base.start'', ''n8n-nodes-base.evaluationTrigger'']"

definition MANUAL_CHAT_TRIGGER_LANGCHAIN_NODE_TYPE :: string where
  "MANUAL_CHAT_TRIGGER_LANGCHAIN_NODE_TYPE = ''@n8n/n8n-nodes-langchain.manualChatTrigger''"

definition indexOf :: "string list \<Rightarrow> string \<Rightarrow> int" where
  "indexOf xs x = (case find_index ((=) x) xs of None \<Rightarrow> -1 | Some i \<Rightarrow> int i)"

text \<open>
  The first loop over the given names. A name without node and a node whose type is unknown raise
  a \<open>TypeError\<close>; the flag says that the list of names has length one.
\<close>

fun first_trigger :: "Workflow \<Rightarrow> bool \<Rightarrow> string list \<Rightarrow> INode option res" where
  "first_trigger w single [] = Inr None"
| "first_trigger w single (nodeName # nodeNames) =
     (case getNode w nodeName of
        None \<Rightarrow> Inl TypeError
      | Some node \<Rightarrow>
          if single \<and> disabled node \<noteq> Some True then Inr (Some node)
          else case node_type_of w node of
            None \<Rightarrow> Inl TypeError
          | Some nodeType \<Rightarrow>
              if nt_name nodeType = MANUAL_CHAT_TRIGGER_LANGCHAIN_NODE_TYPE
              then first_trigger w single nodeNames
              else if nt_trigger nodeType \<or> nt_poll nodeType then
                (if disabled node = Some True then first_trigger w single nodeNames
                 else Inr (Some node))
              else first_trigger w single nodeNames)"

text \<open>The second loop, over all nodes of the workflow, in the order of the start types.\<close>

definition first_starting_node :: "Workflow \<Rightarrow> INode option" where
  "first_starting_node w =
     find (\<lambda>node. node_type node \<in> set STARTING_NODE_TYPES \<and> disabled node \<noteq> Some True)
       (sort_key (\<lambda>node. indexOf STARTING_NODE_TYPES (node_type node)) (values_of (wf_nodes w)))"

definition getStartNode_among :: "Workflow \<Rightarrow> string list \<Rightarrow> INode option res" where
  "getStartNode_among w nodeNames =
     bind_res (first_trigger w (length nodeNames = 1) nodeNames) (\<lambda>found.
       case found of
         Some node \<Rightarrow> Inr (Some node)
       | None \<Rightarrow> Inr (first_starting_node w))"

definition getStartNode :: "Workflow \<Rightarrow> string option \<Rightarrow> INode option res" where
  "getStartNode w destinationNode =
     (case destinationNode of
        Some (c # cs) \<Rightarrow>
          bind_res (getHighestNode w (c # cs) None []) (\<lambda>(highest, _).
            let nodeNames = (if highest = [] then [c # cs] else highest) in
            bind_res (getStartNode_among w nodeNames) (\<lambda>found.
              case found of
                Some node \<Rightarrow> Inr (Some node)
              | None \<Rightarrow> Inr (getNode w (hd nodeNames))))
      | _ \<Rightarrow> getStartNode_among w (keys_of (wf_nodes w)))"

text \<open>A node the first loop can return: an enabled trigger or poll node but the manual chat.\<close>

definition is_start_trigger :: "Workflow \<Rightarrow> string \<Rightarrow> bool" where
  "is_start_trigger w nm \<longleftrightarrow> (case getNode w nm of
       None \<Rightarrow> False
     | Some node \<Rightarrow> disabled node \<noteq> Some True \<and>
         (case node_type_of w node of
            None \<Rightarrow> False
          | Some ty \<Rightarrow> nt_name ty \<noteq> MANUAL_CHAT_TRIGGER_LANGCHAIN_NODE_TYPE \<and> (nt_trigger ty \<or> nt_poll ty)))"

definition known_node :: "Workflow \<Rightarrow> string \<Rightarrow> bool" where
  "known_node w nm \<longleftrightarrow> (case getNode w nm of None \<Rightarrow> False | Some node \<Rightarrow> node_type_of w node \<noteq> None)"

lemma first_trigger_many:
  "\<forall>nm \<in> set nms. known_node w nm \<Longrightarrow>
     first_trigger w False nms = Inr (case find (is_start_trigger w) nms of None \<Rightarrow> None | Some nm \<Rightarrow> getNode w nm)"
proof (induction nms)
  case (Cons nm nms)
  then obtain node ty where "getNode w nm = Some node" "node_type_of w node = Some ty"
    by (auto simp: known_node_def split: option.splits)
  with Cons show ?case by (simp add: is_start_trigger_def)
qed simp

lemma first_trigger_result:
  "first_trigger w single nms = Inr (Some node) \<Longrightarrow>
     disabled node \<noteq> Some True \<and> (\<exists>nm \<in> set nms. getNode w nm = Some node)"
  by (induction nms) (auto split: option.splits if_splits)

lemma indexOf_neg: "indexOf xs x < 0 \<longleftrightarrow> x \<notin> set xs"
  by (auto simp: indexOf_def find_index_None split: option.split dest!: find_index_Some)

text \<open>
  Of the nodes with a start type, one with the type listed first is taken: all enabled start
  nodes have the same or a later type.
\<close>

lemma find_sorted_min:
  "sorted (map f xs) \<Longrightarrow> find P xs = Some x \<Longrightarrow> y \<in> set xs \<Longrightarrow> P y \<Longrightarrow> f x \<le> f y"
  by (induction xs) (auto split: if_splits)

lemma first_starting_node_spec:
  "case first_starting_node w of
     None \<Rightarrow> \<forall>node \<in> set (values_of (wf_nodes w)). node_type node \<in> set STARTING_NODE_TYPES \<longrightarrow> disabled node = Some True
   | Some node \<Rightarrow> node \<in> set (values_of (wf_nodes w)) \<and> node_type node \<in> set STARTING_NODE_TYPES
       \<and> disabled node \<noteq> Some True
       \<and> (\<forall>other \<in> set (values_of (wf_nodes w)). node_type other \<in> set STARTING_NODE_TYPES \<longrightarrow>
            disabled other \<noteq> Some True \<longrightarrow>
            indexOf STARTING_NODE_TYPES (node_type node) \<le> indexOf STARTING_NODE_TYPES (node_type other))"
proof (cases "first_starting_node w")
  case None
  then have "\<forall>node \<in> set (values_of (wf_nodes w)).
      node_type node \<in> set STARTING_NODE_TYPES \<longrightarrow> disabled node = Some True"
    by (simp add: first_starting_node_def find_None_iff)
  with None show ?thesis by simp
next
  case (Some node)
  let ?key = "\<lambda>node. indexOf STARTING_NODE_TYPES (node_type node)"
  from Some have "node \<in> set (values_of (wf_nodes w))" "node_type node \<in> set STARTING_NODE_TYPES"
    "disabled node \<noteq> Some True"
    unfolding first_starting_node_def find_Some_iff by (metis nth_mem set_sort)+
  moreover have "?key node \<le> ?key other" if "other \<in> set (values_of (wf_nodes w))"
    "node_type other \<in> set STARTING_NODE_TYPES" "disabled other \<noteq> Some True" for other
    using find_sorted_min [OF _ Some [unfolded first_starting_node_def], of ?key other] that by simp
  ultimately show ?thesis using Some by auto
qed

text \<open>Without a destination, and with several nodes, the first enabled trigger is the start.\<close>

lemma getStartNode_trigger:
  assumes "wf_workflow w" and "\<forall>nm \<in> set (keys_of (wf_nodes w)). known_node w nm"
    and "length (wf_nodes w) \<noteq> 1"
  shows "getStartNode w None = Inr (case find (is_start_trigger w) (keys_of (wf_nodes w)) of
      Some nm \<Rightarrow> getNode w nm
    | None \<Rightarrow> first_starting_node w)"
proof (cases "find (is_start_trigger w) (keys_of (wf_nodes w))")
  case (Some nm)
  then have "is_start_trigger w nm" unfolding find_Some_iff by blast
  then obtain node where "getNode w nm = Some node" by (auto simp: is_start_trigger_def split: option.splits)
  with Some first_trigger_many [OF assms(2)] assms(3) show ?thesis
    by (simp add: getStartNode_def getStartNode_among_def)
qed (use first_trigger_many [OF assms(2)] assms(3) in \<open>simp add: getStartNode_def getStartNode_among_def\<close>)

text \<open>
  With a destination the search never fails when the types of the nodes are known, and answers
  with an enabled node or with the destination itself.
\<close>

lemma first_trigger_total:
  assumes "\<forall>nm \<in> set nms. known_node w nm"
  shows "\<exists>r. first_trigger w single nms = Inr r"
  using assms
proof (induction nms)
  case (Cons nm nms)
  then obtain node ty where "getNode w nm = Some node" "node_type_of w node = Some ty"
    by (auto simp: known_node_def split: option.splits)
  with Cons show ?case by simp
qed simp

lemma getStartNode_destination:
  assumes wf: "wf_workflow w" and known: "\<forall>nm. getNode w nm \<noteq> None \<longrightarrow> known_node w nm"
    and dest: "getNode w dest \<noteq> None" "dest \<noteq> []"
  shows "\<exists>node. getStartNode w (Some dest) = Inr (Some node)
    \<and> (disabled node \<noteq> Some True \<or> node_name node = dest)
    \<and> ((node_name node, dest) \<in> (into_rel (connectionsBySourceNode w) {MainType})\<^sup>*
       \<or> node_type node \<in> set STARTING_NODE_TYPES)"
proof -
  have cs: "connectionsByDestinationNode w = getConnectionsByDestination (connectionsBySourceNode w)"
    using wf by (simp add: wf_workflow_def)
  have wfc: "wf_connections (connectionsByDestinationNode w)" by (simp add: cs wf_getConnectionsByDestination)
  from getHighestNode_spec(1) [OF wfc dest(1)] obtain highest chk where
    h: "getHighestNode w dest None [] = Inr (highest, chk)"
    and hs: "\<forall>r \<in> set highest. enabled_node w r \<and> (dest, r) \<in> (main_parent_rel w)\<^sup>*" by blast
  define nms where "nms = (if highest = [] then [dest] else highest)"
  have anc: "(nm, dest) \<in> (into_rel (connectionsBySourceNode w) {MainType})\<^sup>*
      \<and> known_node w nm \<and> (enabled_node w nm \<or> nm = dest)" if "nm \<in> set nms" for nm
  proof -
    have "(dest, nm) \<in> (main_parent_rel w)\<^sup>* \<and> getNode w nm \<noteq> None \<and> (enabled_node w nm \<or> nm = dest)"
      using that hs dest by (auto simp: nms_def enabled_node_def split: if_splits option.splits)
    then show ?thesis
      using known by (simp add: cs conn_rel_by_destination rtrancl_converse)
  qed
  then obtain found where t: "first_trigger w (length nms = 1) nms = Inr found"
    using first_trigger_total by blast
  have "nms \<noteq> []" by (simp add: nms_def)
  then have hd: "hd nms \<in> set nms" by simp
  obtain c cs' where d: "dest = c # cs'" using dest(2) by (cases dest) auto
  have start: "getStartNode w (Some dest) = Inr (case found of Some node \<Rightarrow> Some node
      | None \<Rightarrow> (case first_starting_node w of Some node \<Rightarrow> Some node | None \<Rightarrow> getNode w (hd nms)))"
    using h t unfolding nms_def d
    by (auto simp: getStartNode_def getStartNode_among_def Let_def split: option.splits)
  show ?thesis
  proof (cases found)
    case (Some node)
    with first_trigger_result t obtain nm where "disabled node \<noteq> Some True" "nm \<in> set nms"
      "getNode w nm = Some node" by blast
    with Some start anc getNode_name [OF wf] show ?thesis by auto
  next
    case None
    show ?thesis
    proof (cases "first_starting_node w")
      case (Some node)
      with first_starting_node_spec [of w] None start show ?thesis by simp
    next
      case none: None
      from anc [OF hd] obtain node where n: "getNode w (hd nms) = Some node"
        by (auto simp: known_node_def split: option.splits)
      with anc [OF hd] None none start getNode_name [OF wf n] show ?thesis
        by (auto simp: enabled_node_def)
    qed
  qed
qed

section \<open>The connections between two groups of nodes\<close>

definition getConnectionsBetweenNodes ::
    "Workflow \<Rightarrow> string list \<Rightarrow> string list \<Rightarrow> (IConnection \<times> IConnection) list" where
  "getConnectionsBetweenNodes w sources targets =
     concat (map (\<lambda>source.
       map (\<lambda>(s, type, sourceIndex, targetConnectionData).
           (\<lparr>conn_node = s, conn_type = type, conn_index = sourceIndex\<rparr>, targetConnectionData))
         (filter (\<lambda>(s, type, sourceIndex, targetConnectionData). conn_node targetConnectionData \<in> set targets)
           (case map_of (connectionsBySourceNode w) source of
              None \<Rightarrow> []
            | Some byType \<Rightarrow> conns_of_node source byType)))
       sources)"

lemma in_getConnectionsBetweenNodes:
  assumes "wf_workflow w"
  shows "(a, b) \<in> set (getConnectionsBetweenNodes w sources targets) \<longleftrightarrow>
    conn_node a \<in> set sources \<and> conn_node b \<in> set targets
    \<and> (conn_node a, conn_type a, conn_index a, b) \<in> set (all_connections (connectionsBySourceNode w))"
proof -
  let ?cs = "connectionsBySourceNode w"
  have wf: "wf_connections ?cs" using assms by (simp add: wf_workflow_def)
  define L where "L x = (case map_of ?cs x of None \<Rightarrow> [] | Some m \<Rightarrow> conns_of_node x m)" for x
  have node: "(s, t, i, c) \<in> set (L x) \<longleftrightarrow> s = x \<and> (s, t, i, c) \<in> set (all_connections ?cs)" for s t i c x
  proof (cases "map_of ?cs x")
    case (Some m)
    then have "distinct (keys_of m)" by (rule wf_connectionsD [OF wf])
    then have "(s, t, i, c) \<in> set (conns_of_node x m) \<longleftrightarrow>
      s = x \<and> (\<exists>ls. map_of m t = Some ls \<and> i < length ls \<and> c \<in> set (conns_at (ls ! i)))"
      by (fastforce simp: conns_of_node_def in_conns_of_lists)
    with Some show ?thesis unfolding in_all_connections [OF wf] by (auto simp: L_def)
  qed (auto simp: in_all_connections [OF wf] L_def)
  have "(a, b) \<in> set (getConnectionsBetweenNodes w sources targets) \<longleftrightarrow>
    (\<exists>x \<in> set sources. \<exists>s t i. (s, t, i, b) \<in> set (L x) \<and> conn_node b \<in> set targets
       \<and> a = \<lparr>conn_node = s, conn_type = t, conn_index = i\<rparr>)"
    unfolding getConnectionsBetweenNodes_def L_def [symmetric] by force
  then show ?thesis unfolding node by (cases a) auto
qed

section \<open>Properties\<close>

text \<open>
  C38: the breadth-first search returns every node within the given distance once (all reachable
  nodes when no maximum is given), except the node it starts from, and the depth it records for a
  node is the length of a shortest path to it.
\<close>

theorem searchNodesBFS_shortest:
  assumes "wf_connections connections" and "-1 \<le> maxDepth"
  shows "distinct (map cn_name (searchNodesBFS connections source maxDepth))
    \<and> set (map cn_name (searchNodesBFS connections source maxDepth))
        = {n. n \<noteq> source \<and> (\<exists>k. (source, n) \<in> conn_rel connections {MainType} ^^ k
               \<and> (maxDepth = -1 \<or> int k \<le> maxDepth))}
    \<and> (\<forall>x \<in> set (searchNodesBFS connections source maxDepth).
         shortest (conn_rel connections {MainType}) source (cn_name x) (cn_depth x))"
  using assms by (rule searchNodesBFS_distances)

theorem searchNodesBFS_shortest_witness:
  "map (\<lambda>x. (cn_name x, cn_depth x)) (searchNodesBFS example_connections ''T'' 2) = [(''A'', 1), (''B'', 2)]
    \<and> shortest (conn_rel example_connections {MainType}) ''T'' ''B'' 2"
proof -
  have found: "map (\<lambda>x. (cn_name x, cn_depth x)) (searchNodesBFS example_connections ''T'' 2) = [(''A'', 1), (''B'', 2)]"
    by (simp add: searchNodesBFS_def bfs_loop.simps bfs_visit_def bfs_children_def example_connections_def
        main_to_def obj_set_def is_index_key_def is_digit_def)
  have "(''B'', 2) \<in> set (map (\<lambda>x. (cn_name x, cn_depth x)) (searchNodesBFS example_connections ''T'' 2))"
    unfolding found by simp
  then obtain x where x: "x \<in> set (searchNodesBFS example_connections ''T'' 2)" "cn_name x = ''B''" "cn_depth x = 2"
    by auto
  have "\<forall>x \<in> set (searchNodesBFS example_connections ''T'' 2).
      shortest (conn_rel example_connections {MainType}) ''T'' (cn_name x) (cn_depth x)"
    using searchNodesBFS_shortest [OF wf_example_connections, of 2 "''T''"] by simp
  from bspec [OF this x(1)] x(2,3) found show ?thesis by simp
qed

text \<open>
  without a destination a workflow with several nodes starts from the first enabled trigger or
  poll node in the order of its nodes, the manual chat trigger excepted, and only when there is none
  from an enabled node with one of the start types.
\<close>

theorem getStartNode_prefers_triggers:
  assumes "wf_workflow w" and "\<forall>nm \<in> set (keys_of (wf_nodes w)). known_node w nm"
    and "length (wf_nodes w) \<noteq> 1"
  shows "getStartNode w None = Inr (case find (is_start_trigger w) (keys_of (wf_nodes w)) of
      Some nm \<Rightarrow> getNode w nm
    | None \<Rightarrow> first_starting_node w)"
  using assms by (rule getStartNode_trigger)

theorem getStartNode_prefers_triggers_witness:
  "getStartNode example_workflow None = Inr (Some (plain_node ''T'' ''trigger''))"
  using getStartNode_prefers_triggers [OF wf_example_workflow]
  by (simp add: example_simps known_node_def is_start_trigger_def example_type_def
      MANUAL_CHAT_TRIGGER_LANGCHAIN_NODE_TYPE_def)

text \<open>
  with a destination the search for the start node never fails and always answers with a node:
  an enabled one or the destination itself, which leads to the destination or is one of the nodes
  with a start type.
\<close>

theorem getStartNode_reaches_destination:
  assumes "wf_workflow w" and "\<forall>nm. getNode w nm \<noteq> None \<longrightarrow> known_node w nm"
    and "getNode w dest \<noteq> None" and "dest \<noteq> []"
  shows "\<exists>node. getStartNode w (Some dest) = Inr (Some node)
    \<and> (disabled node \<noteq> Some True \<or> node_name node = dest)
    \<and> ((node_name node, dest) \<in> (into_rel (connectionsBySourceNode w) {MainType})\<^sup>*
       \<or> node_type node \<in> set STARTING_NODE_TYPES)"
  using assms by (rule getStartNode_destination)

theorem getStartNode_reaches_destination_witness:
  "\<exists>node. getStartNode example_workflow (Some ''B'') = Inr (Some node)
    \<and> (disabled node \<noteq> Some True \<or> node_name node = ''B'')"
proof -
  have "\<forall>nm. getNode example_workflow nm \<noteq> None \<longrightarrow> known_node example_workflow nm"
    by (simp add: known_node_def example_simps)
  from getStartNode_reaches_destination [OF wf_example_workflow this, of "''B''"]
  show ?thesis by (auto simp: example_simps)
qed

text \<open>
  the connections between two groups of nodes are exactly the connections of the workflow that
  start in the first group and end in the second.
\<close>

theorem getConnectionsBetweenNodes_exact:
  assumes "wf_workflow w"
  shows "(a, b) \<in> set (getConnectionsBetweenNodes w sources targets) \<longleftrightarrow>
    conn_node a \<in> set sources \<and> conn_node b \<in> set targets
    \<and> (conn_node a, conn_type a, conn_index a, b) \<in> set (all_connections (connectionsBySourceNode w))"
  using assms by (rule in_getConnectionsBetweenNodes)

theorem getConnectionsBetweenNodes_exact_witness:
  "(\<lparr>conn_node = ''T'', conn_type = MainType, conn_index = 0\<rparr>,
    \<lparr>conn_node = ''A'', conn_type = MainType, conn_index = 0\<rparr>)
     \<in> set (getConnectionsBetweenNodes example_workflow [''T''] [''A'', ''B''])"
  using getConnectionsBetweenNodes_exact [OF wf_example_workflow] by (simp add: example_simps)

end
