(* ===== verification/WorkflowRename.thy ===== *)
theory WorkflowRename
  imports WorkflowStart
begin

text \<open>
  Renaming a node: \<open>Workflow.renameNode\<close>, the rewriting of references to the node in
  parameters, and \<open>renameFormFields\<close>. The rewriting of one expression
  (\<open>applyAccessPatterns\<close>, a set of regular expressions) is an argument. The main results:
  a rename to a fresh name keeps the workflow well formed, renames every connection and loses
  none, and renaming back restores the connections.
\<close>

section \<open>References in parameters\<close>

type_synonym access_patterns = "string \<Rightarrow> string \<Rightarrow> string \<Rightarrow> string"

text \<open>
  \<open>null\<close> has type \<open>object\<close>, so that it takes the last branch and becomes an empty object.
  The flag is handed on to the properties of an object but not to the elements of an array.
\<close>

fun renameNodeInParameterValue ::
    "access_patterns \<Rightarrow> string \<Rightarrow> string \<Rightarrow> bool \<Rightarrow> json \<Rightarrow> json" where
  "renameNodeInParameterValue patterns currentName newName hasRenamableContent (JStr s) =
     (if (s \<noteq> [] \<and> hd s = CHR ''='') \<or> hasRenamableContent then JStr (patterns s currentName newName)
      else JStr s)"
| "renameNodeInParameterValue patterns currentName newName hasRenamableContent (JBool b) = JBool b"
| "renameNodeInParameterValue patterns currentName newName hasRenamableContent (JNum n) = JNum n"
| "renameNodeInParameterValue patterns currentName newName hasRenamableContent (JArr vs) =
     JArr (map (\<lambda>v. renameNodeInParameterValue patterns currentName newName False v) vs)"
| "renameNodeInParameterValue patterns currentName newName hasRenamableContent JNull = JObj []"
| "renameNodeInParameterValue patterns currentName newName hasRenamableContent (JObj ps) =
     JObj (map (\<lambda>(k, v). (k, renameNodeInParameterValue patterns currentName newName hasRenamableContent v)) ps)"

fun rename_form_field :: "(json \<Rightarrow> json) \<Rightarrow> json \<Rightarrow> json" where
  "rename_form_field renameField (JObj ps) =
     (if map_of ps ''fieldType'' = Some (JStr ''html'') then
        (case map_of ps ''html'' of
           None \<Rightarrow> JObj ps
         | Some html \<Rightarrow> JObj (obj_set ''html'' (renameField html) ps))
      else JObj ps)"
| "rename_form_field renameField v = v"

definition renameFormFields :: "(json \<Rightarrow> json) \<Rightarrow> IDataObject \<Rightarrow> IDataObject" where
  "renameFormFields renameField params =
     (case map_of params ''formFields'' of
        Some (JObj formFields) \<Rightarrow>
          (case map_of formFields ''values'' of
             Some (JArr vs) \<Rightarrow>
               obj_set ''formFields''
                 (JObj (obj_set ''values'' (JArr (map (rename_form_field renameField) vs)) formFields)) params
           | _ \<Rightarrow> params)
      | _ \<Rightarrow> params)"

definition NODES_WITH_RENAMABLE_CONTENT :: "string list" where
  "NODES_WITH_RENAMABLE_CONTENT =
     [''n8n-nodes-base.code'', ''n8n-nodes-base.function'', ''n8n-nodes-base.functionItem'',
      ''n8n-nodes-base.aiTransform'']"

definition NODES_WITH_RENAMABLE_FORM_HTML_CONTENT :: "string list" where
  "NODES_WITH_RENAMABLE_FORM_HTML_CONTENT = [''n8n-nodes-base.form'']"

definition NODES_WITH_RENAMEABLE_TOPLEVEL_HTML_CONTENT :: "string list" where
  "NODES_WITH_RENAMEABLE_TOPLEVEL_HTML_CONTENT = [''n8n-nodes-base.mailgun'', ''n8n-nodes-base.html'']"

text \<open>
  One property that is rewritten with renamable content. A missing one stays missing (the code
  stores \<open>undefined\<close>, which reads the same).
\<close>

definition rename_property :: "(json \<Rightarrow> json) \<Rightarrow> string \<Rightarrow> IDataObject \<Rightarrow> IDataObject" where
  "rename_property f key params =
     (case map_of params key of None \<Rightarrow> params | Some v \<Rightarrow> obj_set key (f v) params)"

definition rename_in_parameters :: "access_patterns \<Rightarrow> string \<Rightarrow> string \<Rightarrow> INode \<Rightarrow> INode" where
  "rename_in_parameters patterns currentName newName node =
     (let content = renameNodeInParameterValue patterns currentName newName True;
          params = map (\<lambda>(k, v). (k, renameNodeInParameterValue patterns currentName newName False v))
            (parameters node);
          params = (if node_type node \<in> set NODES_WITH_RENAMABLE_CONTENT
                    then rename_property content ''jsCode'' params else params);
          params = (if node_type node \<in> set NODES_WITH_RENAMEABLE_TOPLEVEL_HTML_CONTENT
                    then rename_property content ''html'' params else params);
          params = (if node_type node \<in> set NODES_WITH_RENAMABLE_FORM_HTML_CONTENT
                    then renameFormFields content params else params)
      in node\<lparr>parameters := params\<rparr>)"

section \<open>Renaming a node\<close>

definition restrictedKeys :: "string list" where
  "restrictedKeys =
     [''hasOwnProperty'', ''isPrototypeOf'', ''propertyIsEnumerable'', ''toLocaleString'', ''toString'',
      ''valueOf'', ''constructor'', ''prototype'', ''__proto__'', ''__defineGetter__'',
      ''__defineSetter__'', ''__lookupGetter__'', ''__lookupSetter__'']"

definition to_lower :: "string \<Rightarrow> string" where
  "to_lower = map (\<lambda>c. let n = (of_char c :: nat) in if 65 \<le> n \<and> n \<le> 90 then char_of (n + 32) else c)"

definition restricted_name :: "string \<Rightarrow> bool" where
  "restricted_name newName \<longleftrightarrow> to_lower newName \<in> set (map to_lower restrictedKeys)"

text \<open>
  Moving the value of a key to another key: first the new key is set, then the old one is deleted.
\<close>

definition move_key :: "string \<Rightarrow> string \<Rightarrow> ('v \<Rightarrow> 'v) \<Rightarrow> (string \<times> 'v) list \<Rightarrow> (string \<times> 'v) list" where
  "move_key currentName newName f xs =
     (case map_of xs currentName of
        None \<Rightarrow> xs
      | Some v \<Rightarrow> AList.delete currentName (obj_set newName (f v) xs))"

definition rename_destination :: "string \<Rightarrow> string \<Rightarrow> IConnection \<Rightarrow> IConnection" where
  "rename_destination currentName newName c =
     (if conn_node c = currentName then c\<lparr>conn_node := newName\<rparr> else c)"

definition rename_destinations :: "string \<Rightarrow> string \<Rightarrow> IConnections \<Rightarrow> IConnections" where
  "rename_destinations currentName newName =
     map (\<lambda>(s, m). (s, map (\<lambda>(t, ls).
       (t, map (map_option (map (rename_destination currentName newName))) ls)) m))"

definition renameNode :: "access_patterns \<Rightarrow> Workflow \<Rightarrow> string \<Rightarrow> string \<Rightarrow> Workflow res" where
  "renameNode patterns w currentName newName =
     (if restricted_name newName
      then Inl (UserError (''Node name \"'' @ newName @ ''\" is a restricted name.''))
      else
        (let nodes = move_key currentName newName (\<lambda>node. node\<lparr>node_name := newName\<rparr>) (wf_nodes w);
             nodes = map (\<lambda>(k, node). (k, rename_in_parameters patterns currentName newName node)) nodes;
             connections = rename_destinations currentName newName
               (move_key currentName newName id (connectionsBySourceNode w))
         in Inr (w\<lparr>wf_nodes := nodes, connectionsBySourceNode := connections,
              connectionsByDestinationNode := getConnectionsByDestination connections\<rparr>)))"

section \<open>What a rename does to the connections\<close>

definition rename_name :: "string \<Rightarrow> string \<Rightarrow> string \<Rightarrow> string" where
  "rename_name currentName newName x = (if x = currentName then newName else x)"

fun rename_tuple :: "string \<Rightarrow> string \<Rightarrow> conn_tuple \<Rightarrow> conn_tuple" where
  "rename_tuple currentName newName (s, t, i, c) =
     (rename_name currentName newName s, t, i, c\<lparr>conn_node := rename_name currentName newName (conn_node c)\<rparr>)"

lemma map_of_move_key:
  "a \<noteq> b \<Longrightarrow> map_of (move_key a b f xs) k =
     (if map_of xs a = None then map_of xs k
      else if k = a then None else if k = b then map_option f (map_of xs a) else map_of xs k)"
  by (auto simp: move_key_def store_simps split: option.splits)

lemma distinct_move_key: "distinct (keys_of xs) \<Longrightarrow> distinct (keys_of (move_key a b f xs))"
  by (auto simp: move_key_def js_obj.ok_put distinct_delete split: option.splits)

lemma mset_move_key:
  assumes "distinct (keys_of xs)" and "a \<noteq> b" and "map_of xs b = None"
  shows "mset (move_key a b f xs)
    = image_mset (\<lambda>(k, v). if k = a then (b, f v) else (k, v)) (mset xs)"
proof (cases "map_of xs a")
  case None
  then have "\<forall>p \<in># mset xs. fst p \<noteq> a" by (auto simp: map_of_eq_None_iff)
  then have "image_mset (\<lambda>(k, v). if k = a then (b, f v) else (k, v)) (mset xs) = image_mset id (mset xs)"
    by (intro image_mset_cong) auto
  with None show ?thesis by (simp add: move_key_def)
next
  case (Some v)
  let ?rest = "filter_mset (\<lambda>p. fst p \<noteq> a) (mset xs)"
  have xs: "mset xs = add_mset (a, v) ?rest"
    using mset_split_key [OF assms(1), of a] Some by simp
  have "filter_mset (\<lambda>p. fst p \<noteq> b) (mset xs) = mset xs"
    using assms(3) by (auto simp: map_of_eq_None_iff filter_mset_eq_conv) 
  then have "mset (move_key a b f xs) = filter_mset (\<lambda>p. fst p \<noteq> a) (add_mset (b, f v) (mset xs))"
    using Some js_obj.mset_put [OF assms(1), of b "f v"]
    by (simp add: move_key_def AList.delete_eq case_prod_unfold eq_commute [of a])
  also have "\<dots> = add_mset (b, f v) ?rest" using assms(2) by simp
  also have "?rest = image_mset (\<lambda>(k, v). if k = a then (b, f v) else (k, v)) ?rest"
  proof -
    have "image_mset (\<lambda>(k, v). if k = a then (b, f v) else (k, v)) ?rest = image_mset id ?rest"
      by (intro image_mset_cong) auto
    then show ?thesis by simp
  qed
  finally show ?thesis using arg_cong [OF xs, of "image_mset (\<lambda>(k, v). if k = a then (b, f v) else (k, v))"]
    by simp
qed

lemma conns_of_lists_rename:
  "conns_of_lists s t (map (map_option (map f)) ls)
     = map (\<lambda>(s, t, i, c). (s, t, i, f c)) (conns_of_lists s t ls)"
proof -
  have at: "conns_at (map_option (map f) l) = map f (conns_at l)" for l by (cases l) simp_all
  show ?thesis
    by (simp add: conns_of_lists_def enumerate_map_upt [symmetric] map_concat comp_def at
        case_prod_unfold enumerate_eq_zip zip_map2)
qed

lemma all_connections_rename:
  "all_connections (rename_destinations a b cs)
     = map (\<lambda>(s, t, i, c). (s, t, i, rename_destination a b c)) (all_connections cs)"
  by (simp add: all_connections_def rename_destinations_def conns_of_node_def map_concat comp_def
      case_prod_unfold conns_of_lists_rename [unfolded case_prod_unfold])

lemma conns_of_node_source: "conns_of_node b m = map (\<lambda>(s, t, i, c). (b, t, i, c)) (conns_of_node a m)"
  by (simp add: conns_of_node_def conns_of_lists_def map_concat comp_def case_prod_unfold)

lemma image_mset_concat:
  "image_mset F (mset (concat (map G xs))) = (\<Sum>p \<in># mset xs. image_mset F (mset (G p)))"
  by (induction xs) simp_all

lemma all_connections_concat: "all_connections cs = concat (map (\<lambda>p. conns_of_node (fst p) (snd p)) cs)"
  by (simp add: all_connections_def case_prod_unfold)

lemma mset_all_connections: "mset (all_connections cs) = (\<Sum>p \<in># mset cs. mset (conns_of_node (fst p) (snd p)))"
  using image_mset_concat [of id "\<lambda>p. conns_of_node (fst p) (snd p)" cs] by (simp add: all_connections_concat)

lemma conns_of_node_name: "(s, t, i, c) \<in> set (conns_of_node a m) \<Longrightarrow> s = a"
  by (auto simp: conns_of_node_def in_conns_of_lists)

lemma rename_connections:
  assumes "wf_connections cs" and "a \<noteq> b" and "map_of cs b = None"
  shows "mset (all_connections (rename_destinations a b (move_key a b id cs)))
    = image_mset (rename_tuple a b) (mset (all_connections cs))"
proof -
  have "mset (all_connections (move_key a b id cs))
      = (\<Sum>p \<in># mset cs. mset (conns_of_node (rename_name a b (fst p)) (snd p)))"
    using assms
    by (simp add: mset_all_connections mset_move_key wf_connections_def image_mset.compositionality
        comp_def rename_name_def case_prod_unfold if_distrib cong: if_cong)
  also have "\<dots> = (\<Sum>p \<in># mset cs. image_mset (\<lambda>(s, t, i, c). (rename_name a b s, t, i, c))
        (mset (conns_of_node (fst p) (snd p))))"
  proof (intro arg_cong [of _ _ sum_mset] image_mset_cong)
    fix p
    have "conns_of_node (rename_name a b (fst p)) (snd p)
        = map (\<lambda>(s, t, i, c). (rename_name a b s, t, i, c)) (conns_of_node (fst p) (snd p))"
      by (subst conns_of_node_source [of _ _ "fst p"]) (auto dest: conns_of_node_name)
    then show "mset (conns_of_node (rename_name a b (fst p)) (snd p))
        = image_mset (\<lambda>(s, t, i, c). (rename_name a b s, t, i, c)) (mset (conns_of_node (fst p) (snd p)))"
      by simp
  qed
  also have "\<dots> = image_mset (\<lambda>(s, t, i, c). (rename_name a b s, t, i, c)) (mset (all_connections cs))"
    by (simp only: all_connections_concat image_mset_concat)
  finally have "mset (all_connections (move_key a b id cs))
      = image_mset (\<lambda>(s, t, i, c). (rename_name a b s, t, i, c)) (mset (all_connections cs))" .
  then have "mset (all_connections (rename_destinations a b (move_key a b id cs)))
      = image_mset (\<lambda>(s, t, i, c). (rename_name a b s, t, i, rename_destination a b c)) (mset (all_connections cs))"
    by (simp add: all_connections_rename image_mset.compositionality comp_def case_prod_unfold)
  moreover have "(\<lambda>(s, t, i, c). (rename_name a b s, t, i, rename_destination a b c)) = rename_tuple a b"
    by (auto simp: fun_eq_iff rename_destination_def rename_name_def)
  ultimately show ?thesis by simp
qed

lemma keys_rename_destinations [simp]: "keys_of (rename_destinations a b cs) = keys_of cs"
  by (simp add: rename_destinations_def comp_def case_prod_unfold)

lemma wf_rename_destinations: "wf_connections cs \<Longrightarrow> wf_connections (rename_destinations a b cs)"
  by (fastforce simp: wf_connections_def rename_destinations_def comp_def case_prod_unfold)

lemma set_move_key:
  "distinct (keys_of xs) \<Longrightarrow> (k, v) \<in> set (move_key a b f xs) \<Longrightarrow>
     (k, v) \<in> set xs \<or> k = b \<and> (\<exists>u. (a, u) \<in> set xs \<and> v = f u)"
  by (auto simp: move_key_def js_obj.values_put AList.delete_eq split: option.splits dest: map_of_SomeD)

lemma wf_move_key: "wf_connections cs \<Longrightarrow> wf_connections (move_key a b id cs)"
  unfolding wf_connections_def by (auto simp: distinct_move_key dest!: set_move_key)

lemma rename_in_parameters_name [simp]: "node_name (rename_in_parameters patterns a b node) = node_name node"
  by (simp add: rename_in_parameters_def Let_def)

section \<open>The properties of a rename\<close>

text \<open>What a rename that is not refused returns.\<close>

lemma renameNode_result:
  assumes "renameNode patterns w a b = Inr w'"
  shows "wf_nodes w' = map (\<lambda>(k, node). (k, rename_in_parameters patterns a b node))
       (move_key a b (\<lambda>node. node\<lparr>node_name := b\<rparr>) (wf_nodes w))"
    and "connectionsBySourceNode w' = rename_destinations a b (move_key a b id (connectionsBySourceNode w))"
    and "connectionsByDestinationNode w' = getConnectionsByDestination (connectionsBySourceNode w')"
  using assms by (auto simp: renameNode_def Let_def split: if_splits)

lemma wf_renameNode:
  assumes "wf_workflow w" and "renameNode patterns w a b = Inr w'"
  shows "wf_workflow w'"
proof -
  have "keyed_by_name (map (\<lambda>(k, node). (k, rename_in_parameters patterns a b node))
      (move_key a b (\<lambda>node. node\<lparr>node_name := b\<rparr>) (wf_nodes w)))"
    using assms(1)
    by (fastforce simp: wf_workflow_def keyed_by_name_def distinct_move_key comp_def case_prod_unfold
        dest: set_move_key)
  with assms(1) show ?thesis
    unfolding wf_workflow_def renameNode_result [OF assms(2)]
    by (simp add: wf_rename_destinations wf_move_key)
qed

lemma renameNode_lookup:
  assumes "renameNode patterns w a b = Inr w'" and "a \<noteq> b"
  shows "getNode w' a = None"
    and "getNode w a = Some node \<Longrightarrow>
      getNode w' b = Some (rename_in_parameters patterns a b (node\<lparr>node_name := b\<rparr>))"
    and "k \<noteq> a \<Longrightarrow> k \<noteq> b \<Longrightarrow>
      getNode w' k = map_option (rename_in_parameters patterns a b) (getNode w k)"
proof -
  have map: "map_of (map (\<lambda>(k, node). (k, f node)) xs) k = map_option f (map_of xs k)"
    for f :: "INode \<Rightarrow> INode" and xs k by (induction xs) auto
  have look: "getNode w' k = map_option (rename_in_parameters patterns a b)
      (map_of (move_key a b (\<lambda>node. node\<lparr>node_name := b\<rparr>) (wf_nodes w)) k)" for k
    by (simp add: getNode_def map renameNode_result(1) [OF assms(1)])
  show "getNode w' a = None"
    "getNode w a = Some node \<Longrightarrow> getNode w' b = Some (rename_in_parameters patterns a b (node\<lparr>node_name := b\<rparr>))"
    "k \<noteq> a \<Longrightarrow> k \<noteq> b \<Longrightarrow> getNode w' k = map_option (rename_in_parameters patterns a b) (getNode w k)"
    using assms(2) unfolding look map_of_move_key [OF assms(2)] by (auto simp: getNode_def)
qed

lemma renameNode_connections:
  assumes "wf_workflow w" and "renameNode patterns w a b = Inr w'" and "a \<noteq> b"
    and "map_of (connectionsBySourceNode w) b = None"
  shows "mset (all_connections (connectionsBySourceNode w'))
    = image_mset (rename_tuple a b) (mset (all_connections (connectionsBySourceNode w)))"
  using assms by (simp add: wf_workflow_def rename_connections renameNode_result(2) [OF assms(2)])

text \<open>A name no connection and no node uses.\<close>

definition fresh_name :: "Workflow \<Rightarrow> string \<Rightarrow> bool" where
  "fresh_name w b \<longleftrightarrow> getNode w b = None \<and> map_of (connectionsBySourceNode w) b = None
     \<and> (\<forall>(s, t, i, c) \<in> set (all_connections (connectionsBySourceNode w)). s \<noteq> b \<and> conn_node c \<noteq> b)"

lemma rename_tuple_back:
  "s \<noteq> b \<Longrightarrow> conn_node c \<noteq> b \<Longrightarrow> rename_tuple b a (rename_tuple a b (s, t, i, c)) = (s, t, i, c)"
  by (cases c) (auto simp: rename_name_def)

lemma map_of_rename_destinations: "map_of (rename_destinations a b cs) k = None \<longleftrightarrow> map_of cs k = None"
  by (simp add: map_of_eq_None_iff flip: set_map)

lemma renameNode_back:
  assumes wf: "wf_workflow w" and fresh: "fresh_name w b" and neq: "a \<noteq> b"
    and there: "renameNode patterns w a b = Inr w1" and again: "renameNode patterns w1 b a = Inr w2"
  shows "mset (all_connections (connectionsBySourceNode w2)) = mset (all_connections (connectionsBySourceNode w))"
proof -
  note renameNode_result(2) [OF there]
  then have "map_of (connectionsBySourceNode w1) a = None"
    using neq by (simp add: map_of_rename_destinations map_of_move_key)
  from renameNode_connections [OF wf_renameNode [OF wf there] again neq [symmetric] this]
    renameNode_connections [OF wf there neq] fresh
  have "mset (all_connections (connectionsBySourceNode w2))
      = image_mset (\<lambda>p. rename_tuple b a (rename_tuple a b p)) (mset (all_connections (connectionsBySourceNode w)))"
    by (simp add: fresh_name_def image_mset.compositionality comp_def)
  also have "\<dots> = image_mset id (mset (all_connections (connectionsBySourceNode w)))"
    using fresh by (intro image_mset_cong) (auto simp: fresh_name_def rename_tuple_back simp del: rename_tuple.simps)
  finally show ?thesis by simp
qed

text \<open>
  Renaming a node to the name it has deletes it: the key is set first and then deleted.
\<close>

lemma renameNode_same_name:
  assumes "\<not> restricted_name a"
  shows "\<exists>w'. renameNode patterns w a a = Inr w' \<and> getNode w' a = None"
proof -
  have "map_of (move_key a a f xs) a = None" for f and xs :: INodes
    by (auto simp: move_key_def store_simps split: option.splits)
  then show ?thesis
    using assms by (auto simp: renameNode_def getNode_def Let_def map_of_eq_None_iff image_image case_prod_unfold)
qed

text \<open>
  A parameter without expressions, renamable content and \<open>null\<close> is left as it is.
\<close>

fun plain_value :: "json \<Rightarrow> bool" where
  "plain_value JNull = False"
| "plain_value (JBool _) = True"
| "plain_value (JNum _) = True"
| "plain_value (JStr s) = (s = [] \<or> hd s \<noteq> CHR ''='')"
| "plain_value (JArr vs) = list_all plain_value vs"
| "plain_value (JObj ps) = list_all (\<lambda>(_, v). plain_value v) ps"

lemma renameNodeInParameterValue_plain:
  "plain_value v \<Longrightarrow> renameNodeInParameterValue patterns a b False v = v"
proof (induction v)
  case (JArr vs)
  then show ?case by (simp add: list_all_iff map_idI)
next
  case (JObj ps)
  have "map (\<lambda>(k, v). (k, renameNodeInParameterValue patterns a b False v)) ps = ps"
  proof (rule map_idI)
    fix p assume p: "p \<in> set ps"
    obtain k v where kv: "p = (k, v)" by (cases p)
    with p JObj.prems have "plain_value v" by (auto simp: list_all_iff)
    with p kv JObj.IH show "(case p of (k, v) \<Rightarrow> (k, renameNodeInParameterValue patterns a b False v)) = p"
      by fastforce
  qed
  then show ?case by simp
qed auto

section \<open>Properties\<close>

text \<open>
  a rename that is not refused keeps the workflow well formed: the nodes are stored under
  their own names without duplicates, and both forms of the connections agree.
\<close>

theorem renameNode_keeps_workflow:
  assumes "wf_workflow w" and "renameNode patterns w currentName newName = Inr w'"
  shows "wf_workflow w'"
  using assms by (rule wf_renameNode)

theorem renameNode_keeps_workflow_witness:
  "wf_workflow (projr (renameNode (\<lambda>e _ _. e) example_workflow ''A'' ''Z''))"
proof -
  have "renameNode (\<lambda>e _ _. e) example_workflow ''A'' ''Z''
      = Inr (projr (renameNode (\<lambda>e _ _. e) example_workflow ''A'' ''Z''))"
    by (simp add: renameNode_def restricted_name_def restrictedKeys_def to_lower_def Let_def)
  from renameNode_keeps_workflow [OF wf_example_workflow this] show ?thesis .
qed

text \<open>
  C36: after a rename to a new name the connections of the workflow are exactly the old ones, as a
  multiset, with the old name replaced by the new one at both ends.
\<close>

theorem renameNode_renames_connections:
  assumes "wf_workflow w" and "renameNode patterns w currentName newName = Inr w'"
    and "currentName \<noteq> newName" and "map_of (connectionsBySourceNode w) newName = None"
  shows "mset (all_connections (connectionsBySourceNode w'))
    = image_mset (rename_tuple currentName newName) (mset (all_connections (connectionsBySourceNode w)))"
  using assms by (rule renameNode_connections)

theorem renameNode_renames_connections_witness:
  "mset (all_connections (connectionsBySourceNode
      (projr (renameNode (\<lambda>e _ _. e) example_workflow ''A'' ''Z''))))
    = {#(''T'', MainType, 0, \<lparr>conn_node = ''Z'', conn_type = MainType, conn_index = 0\<rparr>),
        (''Z'', MainType, 0, \<lparr>conn_node = ''B'', conn_type = MainType, conn_index = 0\<rparr>)#}"
proof -
  have "renameNode (\<lambda>e _ _. e) example_workflow ''A'' ''Z''
      = Inr (projr (renameNode (\<lambda>e _ _. e) example_workflow ''A'' ''Z''))"
    by (simp add: renameNode_def restricted_name_def restrictedKeys_def to_lower_def Let_def)
  from renameNode_renames_connections [OF wf_example_workflow this] show ?thesis
    by (simp add: example_simps rename_name_def)
qed

text \<open>
  C37: renaming a node to a name nothing uses and back again restores every connection of the
  workflow.
\<close>

theorem renameNode_roundtrip:
  assumes "wf_workflow w" and "fresh_name w newName" and "currentName \<noteq> newName"
    and "renameNode patterns w currentName newName = Inr w1"
    and "renameNode patterns w1 newName currentName = Inr w2"
  shows "mset (all_connections (connectionsBySourceNode w2)) = mset (all_connections (connectionsBySourceNode w))"
  using assms by (rule renameNode_back)

theorem renameNode_roundtrip_witness:
  "\<exists>w1 w2. renameNode (\<lambda>e _ _. e) example_workflow ''A'' ''Z'' = Inr w1
    \<and> renameNode (\<lambda>e _ _. e) w1 ''Z'' ''A'' = Inr w2
    \<and> mset (all_connections (connectionsBySourceNode w2))
        = mset (all_connections (connectionsBySourceNode example_workflow))"
proof -
  obtain w1 where w1: "renameNode (\<lambda>e _ _. e) example_workflow ''A'' ''Z'' = Inr w1"
    by (simp add: renameNode_def restricted_name_def restrictedKeys_def to_lower_def Let_def)
  obtain w2 where w2: "renameNode (\<lambda>e _ _. e) w1 ''Z'' ''A'' = Inr w2"
    by (simp add: renameNode_def restricted_name_def restrictedKeys_def to_lower_def Let_def)
  have "fresh_name example_workflow ''Z''" by (simp add: fresh_name_def example_simps)
  from renameNode_roundtrip [OF wf_example_workflow this _ w1 w2] w1 w2 show ?thesis by auto
qed

text \<open>
  renaming a node to the name it already has is not a no-op: the node is deleted from the
  workflow, whichever workflow it is (unless the name is a refused one).
\<close>

theorem renameNode_same_name_deletes:
  assumes "\<not> restricted_name nodeName"
  shows "\<exists>w'. renameNode patterns w nodeName nodeName = Inr w' \<and> getNode w' nodeName = None"
  using assms by (rule renameNode_same_name)

theorem renameNode_same_name_deletes_witness:
  "getNode example_workflow ''A'' \<noteq> None
    \<and> (\<exists>w'. renameNode (\<lambda>e _ _. e) example_workflow ''A'' ''A'' = Inr w' \<and> getNode w' ''A'' = None)"
proof -
  have "\<not> restricted_name ''A''" by (simp add: restricted_name_def restrictedKeys_def to_lower_def Let_def)
  from renameNode_same_name_deletes [OF this] show ?thesis by (simp add: example_simps)
qed

text \<open>
  a parameter that holds no expression and no \<open>null\<close> is left unchanged by the rewriting of
  references.
\<close>

theorem renameNodeInParameterValue_keeps_plain:
  assumes "plain_value v"
  shows "renameNodeInParameterValue patterns currentName newName False v = v"
  using assms by (rule renameNodeInParameterValue_plain)

theorem renameNodeInParameterValue_keeps_plain_witness:
  "renameNodeInParameterValue (\<lambda>_ _ _. ''changed'') ''A'' ''Z'' False
      (JObj [(''a'', JArr [JStr ''A'', JNum 3]), (''b'', JBool True)])
    = JObj [(''a'', JArr [JStr ''A'', JNum 3]), (''b'', JBool True)]"
  by (rule renameNodeInParameterValue_keeps_plain) simp

end
