(* ===== verification/DirectedGraph.thy ===== *)
theory DirectedGraph
  imports Workflow
begin

text \<open>
  The class \<open>DirectedGraph\<close> of the partial execution
  (\<open>packages/core/src/execution-engine/partial-execution-utils/directed-graph.ts\<close>): a graph as a
  map of nodes and a map of connections, and the operations that build, edit and search it.
  A failed \<open>assert.ok\<close> is the error \<open>AssertionError\<close>. Nodes are compared by identity in the
  code and by value here: a graph stores its nodes under their names, so that two nodes of a graph
  are the same object exactly if they are equal.
\<close>

named_theorems dg_simps "lookups and edges of an edited graph"

section \<open>State\<close>

record GraphConnection =
  gc_from :: INode
  gc_to :: INode
  gc_type :: NodeConnectionType
  gc_outputIndex :: nat
  gc_inputIndex :: nat

record DirectedGraph =
  dg_nodes :: "(string \<times> INode) list"
  dg_connections :: "(string \<times> GraphConnection) list"

definition makeKey :: "GraphConnection \<Rightarrow> string" where
  "makeKey connection =
     node_name (gc_from connection) @ ''-'' @ conn_type_str (gc_type connection) @ ''-''
       @ dec_str (gc_outputIndex connection) @ ''-'' @ dec_str (gc_inputIndex connection) @ ''-''
       @ node_name (gc_to connection)"

definition empty_graph :: DirectedGraph where
  "empty_graph = \<lparr>dg_nodes = [], dg_connections = []\<rparr>"

section \<open>Operations\<close>

definition hasNode :: "DirectedGraph \<Rightarrow> string \<Rightarrow> bool" where
  "hasNode g nodeName \<longleftrightarrow> map_of (dg_nodes g) nodeName \<noteq> None"

text \<open>The node is in the graph, as the object itself and not only by its name.\<close>

definition node_in :: "DirectedGraph \<Rightarrow> INode \<Rightarrow> bool" where
  "node_in g node \<longleftrightarrow> map_of (dg_nodes g) (node_name node) = Some node"

fun getNodesByNames :: "DirectedGraph \<Rightarrow> string list \<Rightarrow> INode list" where
  "getNodesByNames g names =
     fold (\<lambda>nm nodes. case map_of (dg_nodes g) nm of None \<Rightarrow> nodes | Some node \<Rightarrow> set_add node nodes) names []"

definition getConnections :: "DirectedGraph \<Rightarrow> INode option \<Rightarrow> GraphConnection list" where
  "getConnections g filter_to =
     filter (\<lambda>connection. case filter_to of None \<Rightarrow> True | Some to \<Rightarrow> gc_to connection = to)
       (values_of (dg_connections g))"

definition addNode :: "INode \<Rightarrow> DirectedGraph \<Rightarrow> DirectedGraph" where
  "addNode node g = g\<lparr>dg_nodes := AList.update (node_name node) node (dg_nodes g)\<rparr>"

definition addNodes :: "INode list \<Rightarrow> DirectedGraph \<Rightarrow> DirectedGraph" where
  "addNodes nodes g = fold addNode nodes g"

definition set_connection :: "GraphConnection \<Rightarrow> DirectedGraph \<Rightarrow> DirectedGraph" where
  "set_connection c g = g\<lparr>dg_connections := AList.update (makeKey c) c (dg_connections g)\<rparr>"

definition addConnection :: "GraphConnection \<Rightarrow> DirectedGraph \<Rightarrow> DirectedGraph res" where
  "addConnection c g =
     (if \<not> node_in g (gc_from c) then Inl AssertionError
      else if \<not> node_in g (gc_to c) then Inl AssertionError
      else Inr (set_connection c g))"

definition addConnections :: "GraphConnection list \<Rightarrow> DirectedGraph \<Rightarrow> DirectedGraph res" where
  "addConnections cs g = fold_res addConnection cs g"

definition getDirectChildConnections :: "DirectedGraph \<Rightarrow> INode \<Rightarrow> GraphConnection list res" where
  "getDirectChildConnections g node =
     (if node_in g node then Inr (filter (\<lambda>c. gc_from c = node) (values_of (dg_connections g)))
      else Inl AssertionError)"

definition getDirectParentConnections :: "DirectedGraph \<Rightarrow> INode \<Rightarrow> GraphConnection list res" where
  "getDirectParentConnections g node =
     (if node_in g node then Inr (filter (\<lambda>c. gc_to c = node) (values_of (dg_connections g)))
      else Inl AssertionError)"

definition getConnection ::
    "DirectedGraph \<Rightarrow> INode \<Rightarrow> nat \<Rightarrow> NodeConnectionType \<Rightarrow> nat \<Rightarrow> INode \<Rightarrow> GraphConnection option" where
  "getConnection g from outputIndex type inputIndex to =
     map_of (dg_connections g) (makeKey \<lparr>gc_from = from, gc_to = to, gc_type = type,
       gc_outputIndex = outputIndex, gc_inputIndex = inputIndex\<rparr>)"

text \<open>
  \<open>removeNode\<close>. The connections that bypass the node are made from every pair of an incoming and an
  outgoing connection that is not skipped; then all connections of the node are deleted, the new
  ones are set, and the node is deleted. The result carries the graph and the new connections.
\<close>

definition bypass :: "GraphConnection \<Rightarrow> GraphConnection \<Rightarrow> GraphConnection" where
  "bypass incomingConnection outgoingConnection =
     incomingConnection\<lparr>gc_to := gc_to outgoingConnection, gc_inputIndex := gc_inputIndex outgoingConnection\<rparr>"

definition delete_connections_of :: "INode \<Rightarrow> DirectedGraph \<Rightarrow> DirectedGraph" where
  "delete_connections_of node g =
     g\<lparr>dg_connections := filter (\<lambda>(key, c). \<not> (gc_to c = node \<or> gc_from c = node)) (dg_connections g)\<rparr>"

definition delete_node :: "INode \<Rightarrow> DirectedGraph \<Rightarrow> DirectedGraph" where
  "delete_node node g = g\<lparr>dg_nodes := AList.delete (node_name node) (dg_nodes g)\<rparr>"

definition removeNode :: "INode \<Rightarrow> DirectedGraph \<Rightarrow> DirectedGraph" where
  "removeNode node g = delete_node node (delete_connections_of node g)"

definition removeNode_reconnect ::
    "(GraphConnection \<Rightarrow> bool) \<Rightarrow> INode \<Rightarrow> DirectedGraph \<Rightarrow> (DirectedGraph \<times> GraphConnection list) res" where
  "removeNode_reconnect skipConnectionFn node g =
     bind_res (getDirectParentConnections g node) (\<lambda>incomingConnections.
     bind_res (getDirectChildConnections g node) (\<lambda>outgoingConnections.
       let newConnections = concat (map (\<lambda>incoming.
             if skipConnectionFn incoming then []
             else map (bypass incoming) (filter (\<lambda>out. \<not> skipConnectionFn out) outgoingConnections))
             incomingConnections)
       in Inr (delete_node node (fold set_connection newConnections (delete_connections_of node g)),
            newConnections)))"

section \<open>Well-formed graphs\<close>

text \<open>
  Nodes and connections are stored under their own keys, and the ends of every connection are nodes
  of the graph.
\<close>

definition wf_graph :: "DirectedGraph \<Rightarrow> bool" where
  "wf_graph g \<longleftrightarrow> keyed_by_name (dg_nodes g)
     \<and> distinct (keys_of (dg_connections g)) \<and> (\<forall>(k, c) \<in> set (dg_connections g). k = makeKey c)
     \<and> (\<forall>c \<in> set (values_of (dg_connections g)). node_in g (gc_from c) \<and> node_in g (gc_to c))"

abbreviation edges :: "DirectedGraph \<Rightarrow> GraphConnection set" where
  "edges g \<equiv> set (values_of (dg_connections g))"

definition dg_rel :: "DirectedGraph \<Rightarrow> (INode \<times> INode) set" where
  "dg_rel g = {(gc_from c, gc_to c) | c. c \<in> edges g}"

lemma node_in_values: "wf_graph g \<Longrightarrow> node_in g n \<longleftrightarrow> n \<in> set (values_of (dg_nodes g))"
proof -
  assume wf: "wf_graph g"
  then have d: "distinct (keys_of (dg_nodes g))" and k: "\<forall>(k, n) \<in> set (dg_nodes g). k = node_name n"
    by (simp_all add: wf_graph_def keyed_by_name_def)
  have "node_in g n \<longleftrightarrow> (node_name n, n) \<in> set (dg_nodes g)"
    using d by (simp add: node_in_def)
  also have "\<dots> \<longleftrightarrow> n \<in> set (values_of (dg_nodes g))" using k by force
  finally show ?thesis .
qed

lemma wf_graphD:
  assumes "wf_graph g"
  shows "c \<in> edges g \<Longrightarrow> node_in g (gc_from c)" "c \<in> edges g \<Longrightarrow> node_in g (gc_to c)"
    and "distinct (keys_of (dg_connections g))" "keyed_by_name (dg_nodes g)"
    and "(k, c) \<in> set (dg_connections g) \<Longrightarrow> k = makeKey c"
  using assms unfolding wf_graph_def by blast+

lemma wf_empty_graph [simp]: "wf_graph empty_graph"
  by (simp add: wf_graph_def empty_graph_def keyed_by_name_def)

lemma node_in_addNode [dg_simps]:
  "node_in (addNode node g) n \<longleftrightarrow> (if node_name n = node_name node then n = node else node_in g n)"
  by (auto simp: node_in_def addNode_def update_conv')

lemma keyed_by_name_update:
  "keyed_by_name ns \<Longrightarrow> keyed_by_name (AList.update (node_name node) node ns)"
  by (auto simp: keyed_by_name_def js_map.ok_put js_map.values_put)

text \<open>
  Adding a node under a name the graph does not use, or adding it again, keeps the graph well formed.
  (Replacing the object stored under a name would leave connections to the old object.)
\<close>

lemma wf_addNode:
  assumes "wf_graph g" and "node_in g node \<or> \<not> hasNode g (node_name node)"
  shows "wf_graph (addNode node g)"
proof -
  have "node_in (addNode node g) n" if "node_in g n" for n
    using that assms(2) unfolding node_in_addNode by (auto simp: hasNode_def node_in_def)
  with assms(1) show ?thesis
    by (auto simp: wf_graph_def addNode_def keyed_by_name_update)
qed

lemma edges_set_connection:
  assumes "distinct (keys_of (dg_connections g))"
  shows "edges (set_connection c g) \<subseteq> insert c (edges g)" and "c \<in> edges (set_connection c g)"
  using js_map.values_put [OF assms, of "makeKey c" c] by (force simp: set_connection_def)+

lemma node_in_set_connection [dg_simps]: "node_in (set_connection c g) = node_in g"
  by (simp add: fun_eq_iff node_in_def set_connection_def)

lemma dg_nodes_set_connection [simp]: "dg_nodes (set_connection c g) = dg_nodes g"
  by (simp add: set_connection_def)

lemma keyed_set_connection:
  assumes "distinct (keys_of (dg_connections g))" and "\<forall>(k, c) \<in> set (dg_connections g). k = makeKey c"
  shows "distinct (keys_of (dg_connections (set_connection c g)))
    \<and> (\<forall>(k, c) \<in> set (dg_connections (set_connection c g)). k = makeKey c)"
  using assms by (auto simp: set_connection_def js_map.ok_put js_map.values_put)

lemma wf_set_connection:
  assumes "wf_graph g" and "node_in g (gc_from c)" and "node_in g (gc_to c)"
  shows "wf_graph (set_connection c g)"
proof -
  have d: "distinct (keys_of (dg_connections g))" "\<forall>(k, c) \<in> set (dg_connections g). k = makeKey c"
    using assms(1) by (simp_all add: wf_graph_def)
  show ?thesis
    using assms keyed_set_connection [OF d, of c] edges_set_connection(1) [OF d(1), of c]
    unfolding wf_graph_def dg_nodes_set_connection node_in_set_connection by blast
qed

lemma addConnection_Inr:
  "addConnection c g = Inr g' \<longleftrightarrow> node_in g (gc_from c) \<and> node_in g (gc_to c) \<and> g' = set_connection c g"
  by (auto simp: addConnection_def)

text \<open>Adding connections between nodes of the graph does not fail.\<close>

lemma addConnections_fold:
  "\<forall>c \<in> set cs. node_in g (gc_from c) \<and> node_in g (gc_to c) \<Longrightarrow>
     addConnections cs g = Inr (fold set_connection cs g)"
  unfolding addConnections_def
  by (induction cs arbitrary: g) (auto simp: addConnection_def dg_simps)

lemma wf_fold_set_connection:
  "wf_graph g \<Longrightarrow> \<forall>c \<in> set cs. node_in g (gc_from c) \<and> node_in g (gc_to c) \<Longrightarrow>
     wf_graph (fold set_connection cs g)"
  by (induction cs arbitrary: g) (auto simp: wf_set_connection dg_simps)

lemma node_in_fold_set_connection [dg_simps]: "node_in (fold set_connection cs g) = node_in g"
  by (induction cs arbitrary: g) (simp_all add: dg_simps)

lemma dg_nodes_fold_set_connection [simp]: "dg_nodes (fold set_connection cs g) = dg_nodes g"
  by (induction cs arbitrary: g) simp_all

section \<open>Keys\<close>

text \<open>
  A key identifies its connection when the name of the source has no dash: the type and the
  decimal indices have none, and the rest of the key is the name of the target.
\<close>

lemma split_at_dash:
  assumes "CHR ''-'' \<notin> set xs" and "CHR ''-'' \<notin> set ys" and "xs @ ''-'' @ as = ys @ ''-'' @ bs"
  shows "xs = ys \<and> as = bs"
  using assms
proof (induction xs arbitrary: ys)
  case Nil
  then show ?case by (cases ys) auto
next
  case (Cons x xs)
  then show ?case by (cases ys) auto
qed

lemma no_dash_dec: "CHR ''-'' \<notin> set (dec_str n)"
proof
  assume "CHR ''-'' \<in> set (dec_str n)"
  from dec_str_digits [OF this] show False by (simp add: is_digit_def)
qed

lemma no_dash_type: "CHR ''-'' \<notin> set (conn_type_str t)"
  by (cases t) simp_all

definition dashless :: "INode \<Rightarrow> bool" where
  "dashless n \<longleftrightarrow> CHR ''-'' \<notin> set (node_name n)"

lemma makeKey_inject:
  assumes "dashless (gc_from c)" and "dashless (gc_from d)" and "makeKey c = makeKey d"
  shows "node_name (gc_from c) = node_name (gc_from d) \<and> gc_type c = gc_type d
    \<and> gc_outputIndex c = gc_outputIndex d \<and> gc_inputIndex c = gc_inputIndex d
    \<and> node_name (gc_to c) = node_name (gc_to d)"
proof -
  from assms(3) have key: "node_name (gc_from c) @ ''-'' @ conn_type_str (gc_type c) @ ''-''
       @ dec_str (gc_outputIndex c) @ ''-'' @ dec_str (gc_inputIndex c) @ ''-'' @ node_name (gc_to c)
    = node_name (gc_from d) @ ''-'' @ conn_type_str (gc_type d) @ ''-''
       @ dec_str (gc_outputIndex d) @ ''-'' @ dec_str (gc_inputIndex d) @ ''-'' @ node_name (gc_to d)"
    by (simp only: makeKey_def)
  note s1 = split_at_dash [OF _ _ key] 
  have "node_name (gc_from c) = node_name (gc_from d)" and k1: "conn_type_str (gc_type c) @ ''-''
       @ dec_str (gc_outputIndex c) @ ''-'' @ dec_str (gc_inputIndex c) @ ''-'' @ node_name (gc_to c)
    = conn_type_str (gc_type d) @ ''-''
       @ dec_str (gc_outputIndex d) @ ''-'' @ dec_str (gc_inputIndex d) @ ''-'' @ node_name (gc_to d)"
    using s1 assms(1,2) unfolding dashless_def by blast+
  moreover note s2 = split_at_dash [OF no_dash_type no_dash_type k1]
  moreover note s3 = split_at_dash [OF no_dash_dec no_dash_dec s2 [THEN conjunct2]]
  moreover note s4 = split_at_dash [OF no_dash_dec no_dash_dec s3 [THEN conjunct2]]
  ultimately show ?thesis by simp
qed

text \<open>So a graph with dashless names keeps all connections it is given.\<close>

lemma edges_set_connection_dashless:
  assumes "wf_graph g" and "node_in g (gc_from c)" "node_in g (gc_to c)"
    and "\<forall>n. node_in g n \<longrightarrow> dashless n"
  shows "edges (set_connection c g) = insert c (edges g)"
proof -
  have d: "distinct (keys_of (dg_connections g))" using assms(1) by (simp add: wf_graph_def)
  have keep: "e \<in> edges (set_connection c g)" if e: "e \<in> edges g" for e
  proof (cases "makeKey e = makeKey c")
    case True
    have in_e: "node_in g (gc_from e)" "node_in g (gc_to e)" using wf_graphD [OF assms(1)] e by blast+
    with assms(2-4) makeKey_inject [OF _ _ True] have
      "node_name (gc_from e) = node_name (gc_from c)" "node_name (gc_to e) = node_name (gc_to c)"
      and rest: "gc_type e = gc_type c" "gc_outputIndex e = gc_outputIndex c" "gc_inputIndex e = gc_inputIndex c"
      by blast+
    with in_e assms(2,3) have "gc_from e = gc_from c" "gc_to e = gc_to c" by (simp_all add: node_in_def)
    with rest have "e = c" by simp
    then show ?thesis using edges_set_connection(2) [OF d] by simp
  next
    case False
    from e obtain k where "(k, e) \<in> set (dg_connections g)" by auto
    moreover from this assms(1) have "k = makeKey e" by (auto simp: wf_graph_def)
    ultimately show ?thesis using False js_map.values_put [OF d, of "makeKey c" c]
      by (force simp: set_connection_def)
  qed
  then show ?thesis using edges_set_connection [OF d, of c] by blast
qed

section \<open>Examples\<close>

text \<open>A graph of nodes and connections, and the graph of the example workflow.\<close>

definition edge :: "INode \<Rightarrow> INode \<Rightarrow> GraphConnection" where
  "edge a b = \<lparr>gc_from = a, gc_to = b, gc_type = MainType, gc_outputIndex = 0, gc_inputIndex = 0\<rparr>"

definition graph_of :: "INode list \<Rightarrow> GraphConnection list \<Rightarrow> DirectedGraph" where
  "graph_of ns cs = \<lparr>dg_nodes = map (\<lambda>n. (node_name n, n)) ns, dg_connections = map (\<lambda>c. (makeKey c, c)) cs\<rparr>"

definition node_T :: INode where "node_T = plain_node ''T'' ''trigger''"
definition node_A :: INode where "node_A = plain_node ''A'' ''step''"
definition node_B :: INode where "node_B = plain_node ''B'' ''step''"

definition example_graph :: DirectedGraph where
  "example_graph = graph_of [node_T, node_A, node_B] [edge node_T node_A, edge node_A node_B]"

lemmas example_nodes_defs = node_T_def node_A_def node_B_def

lemma dec_str_0 [simp]: "dec_str 0 = ''0''"
proof -
  have "digit_char 0 = CHR ''0''" by code_simp
  then show ?thesis by (simp add: dec_str.simps)
qed

lemma edge_simps [simp]:
  "gc_from (edge a b) = a" "gc_to (edge a b) = b" "gc_type (edge a b) = MainType"
  "gc_outputIndex (edge a b) = 0" "gc_inputIndex (edge a b) = 0"
  by (simp_all add: edge_def)

lemma makeKey_edge [simp]: "makeKey (edge a b) = node_name a @ ''-main-0-0-'' @ node_name b"
  by (simp add: makeKey_def)

lemma edges_graph_of [simp]: "edges (graph_of ns cs) = set cs"
  by (simp add: graph_of_def comp_def)

lemma dg_rel_graph_of [simp]: "dg_rel (graph_of ns cs) = (\<lambda>c. (gc_from c, gc_to c)) ` set cs"
  unfolding dg_rel_def edges_graph_of by blast

lemma node_in_graph_of:
  "distinct (map node_name ns) \<Longrightarrow> node_in (graph_of ns cs) n \<longleftrightarrow> n \<in> set ns"
proof -
  assume d: "distinct (map node_name ns)"
  then have "distinct (keys_of (map (\<lambda>n. (node_name n, n)) ns))" by (simp add: comp_def)
  then show ?thesis by (auto simp: node_in_def graph_of_def)
qed

lemma wf_graph_of:
  assumes "distinct (map node_name ns)" and "distinct (map makeKey cs)"
    and "\<forall>c \<in> set cs. gc_from c \<in> set ns \<and> gc_to c \<in> set ns"
  shows "wf_graph (graph_of ns cs)"
proof -
  have "keyed_by_name (dg_nodes (graph_of ns cs))" "distinct (keys_of (dg_connections (graph_of ns cs)))"
    "\<forall>(k, c) \<in> set (dg_connections (graph_of ns cs)). k = makeKey c"
    using assms(1,2) by (auto simp: graph_of_def keyed_by_name_def comp_def)
  then show ?thesis
    using assms(3) unfolding wf_graph_def edges_graph_of node_in_graph_of [OF assms(1)] by blast
qed

lemma wf_example_graph: "wf_graph example_graph"
  unfolding example_graph_def by (rule wf_graph_of) (simp_all add: example_nodes_defs)

lemma node_in_example_graph [simp]: "node_in example_graph n \<longleftrightarrow> n \<in> {node_T, node_A, node_B}"
  unfolding example_graph_def by (subst node_in_graph_of) (simp_all add: example_nodes_defs)

lemma example_graph_rel [simp]: "dg_rel example_graph = {(node_T, node_A), (node_A, node_B)}"
  by (simp add: example_graph_def)

lemma edges_example_graph: "edges example_graph = {edge node_T node_A, edge node_A node_B}"
  unfolding example_graph_def edges_graph_of by simp

section \<open>Properties\<close>

text \<open>
  the key of a connection identifies it when the name of its source has no dash: two connections
  with the same key have the same ends, type and indices, so that none is overwritten by another.
\<close>

theorem makeKey_identifies:
  assumes "dashless (gc_from c)" and "dashless (gc_from d)" and "makeKey c = makeKey d"
  shows "node_name (gc_from c) = node_name (gc_from d) \<and> gc_type c = gc_type d
    \<and> gc_outputIndex c = gc_outputIndex d \<and> gc_inputIndex c = gc_inputIndex d
    \<and> node_name (gc_to c) = node_name (gc_to d)"
  using assms by (rule makeKey_inject)

theorem makeKey_identifies_witness: "\<exists>d. makeKey (edge node_T node_A) = makeKey d \<and> gc_type d = MainType"
proof -
  have "dashless (gc_from (edge node_T node_A))" by (simp add: dashless_def node_T_def)
  from makeKey_identifies [OF this this refl] show ?thesis by (intro exI [of _ "edge node_T node_A"]) simp
qed

text \<open>
  without that condition it does not: two different connections of one graph, from the node
  \<open>x\<close> to \<open>y-main-0-0-z\<close> and from \<open>x-main-0-0-y\<close> to \<open>z\<close>, have the same key, so that adding
  the second to the graph silently replaces the first.
\<close>

theorem makeKey_collides:
  "\<exists>x y x' y'. node_name x \<noteq> node_name x' \<and> makeKey (edge x y) = makeKey (edge x' y')
    \<and> edges (set_connection (edge x' y') (graph_of [x, y, x', y'] [edge x y])) = {edge x' y'}"
proof -
  let ?x = "plain_node ''x'' ''step''" and ?y = "plain_node ''y-main-0-0-z'' ''step''"
  let ?x' = "plain_node ''x-main-0-0-y'' ''step''" and ?y' = "plain_node ''z'' ''step''"
  have "makeKey (edge ?x ?y) = makeKey (edge ?x' ?y')" by simp
  then show ?thesis
    by (intro exI [of _ ?x] exI [of _ ?y] exI [of _ ?x'] exI [of _ ?y'])
      (simp add: set_connection_def graph_of_def)
qed

end
