(* ===== verification/GraphSearch.thy ===== *)
theory GraphSearch
  imports DirectedGraph
begin

text \<open>
  The searches of \<open>DirectedGraph\<close>: the children of a node, the connections that lead to a node and
  the depth-first search for a node. Each call adds to a set that all calls share; here it is
  returned. They are shown to end on every graph, cycles included, and to find exactly what is
  reachable.
\<close>

section \<open>Children\<close>

function (sequential)
  getChildrenRecursive :: "DirectedGraph \<Rightarrow> INode \<Rightarrow> INode list \<Rightarrow> INode list res"
and
  children_loop :: "DirectedGraph \<Rightarrow> GraphConnection list \<Rightarrow> INode list \<Rightarrow> INode list res"
where
  "getChildrenRecursive g node children =
     bind_res (getDirectChildConnections g node) (\<lambda>directChildren. children_loop g directChildren children)"
| "children_loop g [] children = Inr children"
| "children_loop g (directChild # rest) children =
     (if gc_to directChild \<in> set children then children_loop g rest children
      else bind_res (getChildrenRecursive g (gc_to directChild) (children @ [gc_to directChild]))
        (\<lambda>children'. children_loop g rest children'))"
  by pat_completeness auto

lemma getChildrenRecursive_grows:
  "getChildrenRecursive_children_loop_dom (Inl (g, n, ch)) \<Longrightarrow>
     getChildrenRecursive g n ch = Inr ch' \<Longrightarrow> set ch \<subseteq> set ch'"
  "getChildrenRecursive_children_loop_dom (Inr (g, cs, ch)) \<Longrightarrow>
     children_loop g cs ch = Inr ch' \<Longrightarrow> set ch \<subseteq> set ch'"
proof (induction g n ch and g cs ch arbitrary: ch' and ch'
    rule: getChildrenRecursive_children_loop.pinduct)
  case (1 g n ch)
  then show ?case by (auto simp: getChildrenRecursive.psimps bind_res_Inr_iff)
next
  case (2 g ch)
  then show ?case by (simp add: children_loop.psimps)
next
  case (3 g c cs ch)
  show ?case
  proof (cases "gc_to c \<in> set ch")
    case True
    with 3 show ?thesis by (simp add: children_loop.psimps)
  next
    case False
    with "3.prems" 3(1) obtain ch1 where "getChildrenRecursive g (gc_to c) (ch @ [gc_to c]) = Inr ch1"
      "children_loop g cs ch1 = Inr ch'" by (auto simp: children_loop.psimps bind_res_Inr_iff)
    with 3(3,4) False show ?thesis by fastforce
  qed
qed

definition target_nodes :: "DirectedGraph \<Rightarrow> GraphConnection list \<Rightarrow> INode list" where
  "target_nodes g cs = map gc_to (values_of (dg_connections g) @ cs)"

termination getChildrenRecursive
proof (relation "inv_image search_order
    (\<lambda>x. case x of
       Inl (g, n, ch) \<Rightarrow> (remaining (target_nodes g []) ch, Suc (length (dg_connections g)))
     | Inr (g, cs, ch) \<Rightarrow> (remaining (target_nodes g cs) ch, length cs))", goal_cases)
  case (2 g n ch cs)
  then have "length cs \<le> length (dg_connections g)" "set cs \<subseteq> edges g"
    by (auto simp: getDirectChildConnections_def length_filter_le [THEN le_trans] split: if_splits)
  moreover have "remaining (target_nodes g cs) ch = remaining (target_nodes g []) ch"
  proof -
    have "set (target_nodes g cs) = set (target_nodes g [])" using calculation(2) by (auto simp: target_nodes_def)
    then show ?thesis by (simp add: remaining_def)
  qed
  ultimately show ?case by (auto intro!: search_orderI(2))
next
  case (3 g c cs ch)
  have "remaining (target_nodes g cs) ch \<le> remaining (target_nodes g (c # cs)) ch"
    unfolding remaining_def by (rule card_mono) (auto simp: target_nodes_def)
  then show ?case by (auto intro!: search_orderI(2))
next
  case (4 g c cs ch)
  then have "remaining (target_nodes g []) (ch @ [gc_to c]) < remaining (target_nodes g (c # cs)) ch"
    unfolding remaining_def by (intro psubset_card_mono) (auto simp: target_nodes_def)
  then show ?case by (auto intro!: search_orderI(1))
next
  case (5 g c cs ch ch')
  then have "set (ch @ [gc_to c]) \<subseteq> set ch'" using getChildrenRecursive_grows(1) by metis
  then have "remaining (target_nodes g cs) ch' \<le> remaining (target_nodes g (c # cs)) ch"
    unfolding remaining_def by (intro card_mono) (auto simp: target_nodes_def)
  then show ?case by (auto intro!: search_orderI(2))
qed (simp add: wf_search_order)

definition getChildren :: "DirectedGraph \<Rightarrow> INode \<Rightarrow> INode list res" where
  "getChildren g node = getChildrenRecursive g node []"

section \<open>Parent connections\<close>

function (sequential)
  getParentConnectionsRecursive :: "DirectedGraph \<Rightarrow> INode \<Rightarrow> GraphConnection list \<Rightarrow> GraphConnection list res"
and
  parents_loop :: "DirectedGraph \<Rightarrow> GraphConnection list \<Rightarrow> GraphConnection list \<Rightarrow> GraphConnection list res"
where
  "getParentConnectionsRecursive g node connections =
     bind_res (getDirectParentConnections g node) (\<lambda>parentConnections. parents_loop g parentConnections connections)"
| "parents_loop g [] connections = Inr connections"
| "parents_loop g (connection # rest) connections =
     (if connection \<in> set connections then parents_loop g rest connections
      else bind_res (getParentConnectionsRecursive g (gc_from connection) (connections @ [connection]))
        (\<lambda>connections'. parents_loop g rest connections'))"
  by pat_completeness auto

lemma getParentConnectionsRecursive_grows:
  "getParentConnectionsRecursive_parents_loop_dom (Inl (g, n, ks)) \<Longrightarrow>
     getParentConnectionsRecursive g n ks = Inr ks' \<Longrightarrow> set ks \<subseteq> set ks'"
  "getParentConnectionsRecursive_parents_loop_dom (Inr (g, cs, ks)) \<Longrightarrow>
     parents_loop g cs ks = Inr ks' \<Longrightarrow> set ks \<subseteq> set ks'"
proof (induction g n ks and g cs ks arbitrary: ks' and ks'
    rule: getParentConnectionsRecursive_parents_loop.pinduct)
  case (1 g n ks)
  then show ?case by (auto simp: getParentConnectionsRecursive.psimps bind_res_Inr_iff)
next
  case (2 g ks)
  then show ?case by (simp add: parents_loop.psimps)
next
  case (3 g c cs ks)
  show ?case
  proof (cases "c \<in> set ks")
    case True
    with 3 show ?thesis by (simp add: parents_loop.psimps)
  next
    case False
    with "3.prems" 3(1) obtain ks1 where "getParentConnectionsRecursive g (gc_from c) (ks @ [c]) = Inr ks1"
      "parents_loop g cs ks1 = Inr ks'" by (auto simp: parents_loop.psimps bind_res_Inr_iff)
    with 3(3,4) False show ?thesis by fastforce
  qed
qed

termination getParentConnectionsRecursive
proof (relation "inv_image search_order
    (\<lambda>x. case x of
       Inl (g, n, ks) \<Rightarrow> (remaining (values_of (dg_connections g)) ks, Suc (length (dg_connections g)))
     | Inr (g, cs, ks) \<Rightarrow> (remaining (values_of (dg_connections g) @ cs) ks, length cs))", goal_cases)
  case (2 g n ks cs)
  then have "length cs \<le> length (dg_connections g)" "set cs \<subseteq> edges g"
    by (auto simp: getDirectParentConnections_def length_filter_le [THEN le_trans] split: if_splits)
  moreover have "remaining (values_of (dg_connections g) @ cs) ks = remaining (values_of (dg_connections g)) ks"
    using calculation(2) by (simp add: remaining_def Un_absorb2)
  ultimately show ?case by (auto intro!: search_orderI(2))
next
  case (3 g c cs ks)
  have "remaining (values_of (dg_connections g) @ cs) ks \<le> remaining (values_of (dg_connections g) @ c # cs) ks"
    unfolding remaining_def by (rule card_mono) auto
  then show ?case by (auto intro!: search_orderI(2))
next
  case (4 g c cs ks)
  then have "remaining (values_of (dg_connections g)) (ks @ [c]) < remaining (values_of (dg_connections g) @ c # cs) ks"
    unfolding remaining_def by (intro psubset_card_mono) auto
  then show ?case by (auto intro!: search_orderI(1))
next
  case (5 g c cs ks ks')
  then have "set (ks @ [c]) \<subseteq> set ks'" using getParentConnectionsRecursive_grows(1) by metis
  then have "remaining (values_of (dg_connections g) @ cs) ks' \<le> remaining (values_of (dg_connections g) @ c # cs) ks"
    unfolding remaining_def by (intro card_mono) auto
  then show ?case by (auto intro!: search_orderI(2))
qed (simp add: wf_search_order)

definition getParentConnections :: "DirectedGraph \<Rightarrow> INode \<Rightarrow> GraphConnection list res" where
  "getParentConnections g node = getParentConnectionsRecursive g node []"

section \<open>Depth-first search\<close>

function (sequential)
  depthFirstSearchRecursive ::
    "DirectedGraph \<Rightarrow> (INode \<Rightarrow> bool) \<Rightarrow> INode \<Rightarrow> INode list \<Rightarrow> (INode option \<times> INode list) res"
and
  dfs_children ::
    "DirectedGraph \<Rightarrow> (INode \<Rightarrow> bool) \<Rightarrow> GraphConnection list \<Rightarrow> INode list \<Rightarrow> (INode option \<times> INode list) res"
where
  "depthFirstSearchRecursive g fn from seen =
     (if from \<in> set seen then Inr (None, seen)
      else if fn from then Inr (Some from, seen @ [from])
      else bind_res (getDirectChildConnections g from) (\<lambda>cs. dfs_children g fn cs (seen @ [from])))"
| "dfs_children g fn [] seen = Inr (None, seen)"
| "dfs_children g fn (childConnection # rest) seen =
     bind_res (depthFirstSearchRecursive g fn (gc_to childConnection) seen) (\<lambda>(found, seen').
       case found of
         Some node \<Rightarrow> Inr (Some node, seen')
       | None \<Rightarrow> dfs_children g fn rest seen')"
  by pat_completeness auto

lemma depthFirstSearchRecursive_grows:
  "depthFirstSearchRecursive_dfs_children_dom (Inl (g, fn, n, seen)) \<Longrightarrow>
     depthFirstSearchRecursive g fn n seen = Inr (r, seen') \<Longrightarrow> set seen \<subseteq> set seen'"
  "depthFirstSearchRecursive_dfs_children_dom (Inr (g, fn, cs, seen)) \<Longrightarrow>
     dfs_children g fn cs seen = Inr (r, seen') \<Longrightarrow> set seen \<subseteq> set seen'"
proof (induction g fn n seen and g fn cs seen arbitrary: r seen' and r seen'
    rule: depthFirstSearchRecursive_dfs_children.pinduct)
  case (1 g fn n seen)
  from "1.prems" show ?case
    using 1(2) unfolding depthFirstSearchRecursive.psimps [OF 1(1)]
    by (fastforce simp: bind_res_Inr_iff split: if_splits)
next
  case (2 g fn seen)
  then show ?case by (simp add: dfs_children.psimps)
next
  case (3 g fn c cs seen)
  from "3.prems" obtain found seen1 where d: "depthFirstSearchRecursive g fn (gc_to c) seen = Inr (found, seen1)"
    and rest: "(case found of Some node \<Rightarrow> Inr (Some node, seen1) | None \<Rightarrow> dfs_children g fn cs seen1) = Inr (r, seen')"
    unfolding dfs_children.psimps(2) [OF 3(1)] by (auto simp: bind_res_Inr_iff)
  from 3(2) [OF d] have "set seen \<subseteq> set seen1" .
  with rest 3(3) d show ?case by (cases found) fastforce+
qed

termination depthFirstSearchRecursive
proof (relation "inv_image search_order
    (\<lambda>x. case x of
       Inl (g, fn, n, seen) \<Rightarrow> (remaining (values_of (dg_nodes g)) seen, 0)
     | Inr (g, fn, cs, seen) \<Rightarrow> (remaining (values_of (dg_nodes g)) seen, Suc (length cs)))", goal_cases)
  case (2 g fn n seen cs)
  then have "n \<in> set (values_of (dg_nodes g))"
    by (force simp: getDirectChildConnections_def node_in_def split: if_splits dest: map_of_SomeD)
  with 2 show ?case by (auto intro!: search_orderI(1) remaining_less)
next
  case (4 g fn c cs seen p found seen')
  then have "set seen \<subseteq> set seen'" using depthFirstSearchRecursive_grows(1) by (metis surj_pair)
  then show ?case by (auto intro!: search_orderI(2) remaining_le)
qed (auto intro: search_orderI wf_search_order)

definition depthFirstSearch :: "DirectedGraph \<Rightarrow> INode \<Rightarrow> (INode \<Rightarrow> bool) \<Rightarrow> INode option res" where
  "depthFirstSearch g from fn =
     bind_res (depthFirstSearchRecursive g fn from []) (\<lambda>(found, seen). Inr found)"

section \<open>What the searches find\<close>

text \<open>
  The argument all of them share: a set that holds the successors of the start and is closed under
  successors, and holds nothing that is not reachable, is the set of reachable elements.
\<close>

lemma closed_search:
  assumes "R `` {a} \<subseteq> S" and "R `` S \<subseteq> S" and "S \<subseteq> {b. (a, b) \<in> R\<^sup>+}"
  shows "S = {b. (a, b) \<in> R\<^sup>+}"
proof -
  have "b \<in> S" if "(a, b) \<in> R\<^sup>+" for b
    using that assms(1,2) by (induction rule: trancl_induct) auto
  with assms(3) show ?thesis by blast
qed

text \<open>
  What a call adds to the shared set: it stays a superset of what was there, everything new is
  reachable, and the successors of everything new are in it.
\<close>

definition extends_search :: "('a \<times> 'a) set \<Rightarrow> 'a set \<Rightarrow> 'a set \<Rightarrow> 'a set \<Rightarrow> bool" where
  "extends_search R from S S' \<longleftrightarrow> S \<subseteq> S' \<and> S' \<subseteq> S \<union> R\<^sup>* `` from \<and> R `` (S' - S) \<subseteq> S'"

lemma extends_search_refl: "extends_search R F S S"
  by (auto simp: extends_search_def)

lemma extends_search_trans:
  "extends_search R F S S' \<Longrightarrow> extends_search R G S' S'' \<Longrightarrow> extends_search R (F \<union> G) S S''"
  unfolding extends_search_def by blast

lemma extends_search_node:
  "extends_search R F (insert n S) S' \<Longrightarrow> F \<subseteq> R\<^sup>* `` {n} \<Longrightarrow> R `` {n} \<subseteq> S' \<Longrightarrow> extends_search R {n} S S'"
  unfolding extends_search_def by (blast intro: rtrancl_trans)

lemma extends_search_mono:
  "extends_search R F S S' \<Longrightarrow> F \<subseteq> R\<^sup>* `` G \<Longrightarrow> extends_search R G S S'"
  unfolding extends_search_def by (blast intro: rtrancl_trans)

lemma dg_rel_image: "dg_rel g `` {n} = gc_to ` {c \<in> edges g. gc_from c = n}"
  by (auto simp: dg_rel_def)

lemma dg_relE:
  assumes "(a, b) \<in> dg_rel g"
  obtains c where "c \<in> edges g" "gc_from c = a" "gc_to c = b"
  using assms unfolding dg_rel_def by blast

lemma dg_relI: "c \<in> edges g \<Longrightarrow> (gc_from c, gc_to c) \<in> dg_rel g"
  unfolding dg_rel_def by blast

lemma dg_rel_node_in: "wf_graph g \<Longrightarrow> (a, b) \<in> dg_rel g \<Longrightarrow> node_in g a \<and> node_in g b"
  using wf_graphD(1,2) by (metis dg_relE)

lemma getChildrenRecursive_extends:
  "wf_graph g \<Longrightarrow> node_in g n \<Longrightarrow>
     \<exists>ch'. getChildrenRecursive g n ch = Inr ch' \<and> (distinct ch \<longrightarrow> distinct ch')
       \<and> extends_search (dg_rel g) (dg_rel g `` {n}) (set ch) (set ch') \<and> dg_rel g `` {n} \<subseteq> set ch'"
  "wf_graph g \<Longrightarrow> set cs \<subseteq> edges g \<Longrightarrow>
     \<exists>ch'. children_loop g cs ch = Inr ch' \<and> (distinct ch \<longrightarrow> distinct ch')
       \<and> extends_search (dg_rel g) (gc_to ` set cs) (set ch) (set ch') \<and> gc_to ` set cs \<subseteq> set ch'"
proof (induction g n ch and g cs ch rule: getChildrenRecursive_children_loop.induct)
  case (1 g n ch)
  let ?cs = "filter (\<lambda>c. gc_from c = n) (values_of (dg_connections g))"
  have "getDirectChildConnections g n = Inr ?cs" using "1.prems"(2) by (simp add: getDirectChildConnections_def)
  moreover have "gc_to ` set ?cs = dg_rel g `` {n}" unfolding dg_rel_image by auto
  moreover have "set ?cs \<subseteq> edges g" by auto
  ultimately show ?case using "1.IH" [OF _ "1.prems"(1)] by simp
next
  case (2 g ch)
  show ?case by (simp add: extends_search_refl)
next
  case (3 g c cs ch)
  let ?R = "dg_rel g"
  have c: "c \<in> edges g" and cs: "set cs \<subseteq> edges g" using "3.prems" by auto
  show ?case
  proof (cases "gc_to c \<in> set ch")
    case True
    from "3.IH"(1) [OF True "3.prems"(1) cs] obtain ch' where
      "children_loop g cs ch = Inr ch'" "distinct ch \<longrightarrow> distinct ch'"
      and e: "extends_search ?R (gc_to ` set cs) (set ch) (set ch')" "gc_to ` set cs \<subseteq> set ch'" by blast
    moreover have "extends_search ?R (gc_to ` set (c # cs)) (set ch) (set ch')"
      by (rule extends_search_mono [OF e(1)]) auto
    moreover have "gc_to c \<in> set ch'" using e(1) True by (auto simp: extends_search_def)
    ultimately show ?thesis using True by auto
  next
    case False
    have "node_in g (gc_to c)" using wf_graphD(2) [OF "3.prems"(1) c] .
    from "3.IH"(2) [OF False "3.prems"(1) this] obtain ch1 where
      call: "getChildrenRecursive g (gc_to c) (ch @ [gc_to c]) = Inr ch1" "distinct ch \<longrightarrow> distinct ch1"
      and e1: "extends_search ?R (?R `` {gc_to c}) (insert (gc_to c) (set ch)) (set ch1)" "?R `` {gc_to c} \<subseteq> set ch1"
      using False by auto
    from "3.IH"(3) [OF False call(1) "3.prems"(1) cs] obtain ch' where
      rest: "children_loop g cs ch1 = Inr ch'" "distinct ch1 \<longrightarrow> distinct ch'"
      and e2: "extends_search ?R (gc_to ` set cs) (set ch1) (set ch')" "gc_to ` set cs \<subseteq> set ch'" by blast
    have "extends_search ?R {gc_to c} (set ch) (set ch1)"
      by (rule extends_search_node [OF e1(1) _ e1(2)]) auto
    from extends_search_trans [OF this e2(1)]
    have "extends_search ?R (gc_to ` set (c # cs)) (set ch) (set ch')" by simp
    moreover have "gc_to c \<in> set ch'" using e1(1) e2(1) by (auto simp: extends_search_def)
    ultimately show ?thesis using False call rest e2(2) by auto
  qed
qed

lemma getChildren_spec:
  assumes "wf_graph g" and "node_in g n"
  shows "\<exists>ch. getChildren g n = Inr ch \<and> distinct ch \<and> set ch = {m. (n, m) \<in> (dg_rel g)\<^sup>+}"
proof -
  from getChildrenRecursive_extends(1) [OF assms, of "[]"] obtain ch where
    ch: "getChildren g n = Inr ch" "distinct ch"
    and e: "extends_search (dg_rel g) (dg_rel g `` {n}) {} (set ch)" "dg_rel g `` {n} \<subseteq> set ch"
    by (auto simp: getChildren_def)
  have "set ch = {m. (n, m) \<in> (dg_rel g)\<^sup>+}"
    by (rule closed_search) (use e in \<open>auto simp: extends_search_def dest: rtrancl_into_trancl2\<close>)
  with ch show ?thesis by blast
qed

text \<open>The connections that come before a connection: those that end where it starts.\<close>

definition before_rel :: "DirectedGraph \<Rightarrow> (GraphConnection \<times> GraphConnection) set" where
  "before_rel g = {(c, d). d \<in> edges g \<and> gc_to d = gc_from c}"

lemma getParentConnectionsRecursive_extends:
  "wf_graph g \<Longrightarrow> node_in g n \<Longrightarrow>
     \<exists>ks'. getParentConnectionsRecursive g n ks = Inr ks' \<and> (distinct ks \<longrightarrow> distinct ks')
       \<and> extends_search (before_rel g) {c \<in> edges g. gc_to c = n} (set ks) (set ks')
       \<and> {c \<in> edges g. gc_to c = n} \<subseteq> set ks'"
  "wf_graph g \<Longrightarrow> set cs \<subseteq> edges g \<Longrightarrow>
     \<exists>ks'. parents_loop g cs ks = Inr ks' \<and> (distinct ks \<longrightarrow> distinct ks')
       \<and> extends_search (before_rel g) (set cs) (set ks) (set ks') \<and> set cs \<subseteq> set ks'"
proof (induction g n ks and g cs ks rule: getParentConnectionsRecursive_parents_loop.induct)
  case (1 g n ks)
  let ?cs = "filter (\<lambda>c. gc_to c = n) (values_of (dg_connections g))"
  have "getDirectParentConnections g n = Inr ?cs" using "1.prems"(2) by (simp add: getDirectParentConnections_def)
  moreover have "set ?cs = {c \<in> edges g. gc_to c = n}" by auto
  ultimately show ?case using "1.IH" [OF _ "1.prems"(1)] by simp
next
  case (2 g ks)
  show ?case by (simp add: extends_search_refl)
next
  case (3 g c cs ks)
  let ?R = "before_rel g"
  have c: "c \<in> edges g" and cs: "set cs \<subseteq> edges g" using "3.prems" by auto
  show ?case
  proof (cases "c \<in> set ks")
    case True
    from "3.IH"(1) [OF True "3.prems"(1) cs] obtain ks' where
      "parents_loop g cs ks = Inr ks'" "distinct ks \<longrightarrow> distinct ks'"
      and e: "extends_search ?R (set cs) (set ks) (set ks')" "set cs \<subseteq> set ks'" by blast
    moreover have "extends_search ?R (set (c # cs)) (set ks) (set ks')"
      by (rule extends_search_mono [OF e(1)]) auto
    moreover have "c \<in> set ks'" using e(1) True by (auto simp: extends_search_def)
    ultimately show ?thesis using True by auto
  next
    case False
    have R: "{d \<in> edges g. gc_to d = gc_from c} = ?R `` {c}" by (auto simp: before_rel_def)
    have "node_in g (gc_from c)" using wf_graphD(1) [OF "3.prems"(1) c] .
    from "3.IH"(2) [OF False "3.prems"(1) this] obtain ks1 where
      call: "getParentConnectionsRecursive g (gc_from c) (ks @ [c]) = Inr ks1" "distinct ks \<longrightarrow> distinct ks1"
      and e1: "extends_search ?R (?R `` {c}) (insert c (set ks)) (set ks1)" "?R `` {c} \<subseteq> set ks1"
      using False unfolding R by auto
    from "3.IH"(3) [OF False call(1) "3.prems"(1) cs] obtain ks' where
      rest: "parents_loop g cs ks1 = Inr ks'" "distinct ks1 \<longrightarrow> distinct ks'"
      and e2: "extends_search ?R (set cs) (set ks1) (set ks')" "set cs \<subseteq> set ks'" by blast
    have "extends_search ?R {c} (set ks) (set ks1)"
      by (rule extends_search_node [OF e1(1) _ e1(2)]) auto
    from extends_search_trans [OF this e2(1)]
    have "extends_search ?R (set (c # cs)) (set ks) (set ks')" by simp
    moreover have "c \<in> set ks'" using e1(1) e2(1) by (auto simp: extends_search_def)
    ultimately show ?thesis using False call rest e2(2) by auto
  qed
qed

lemma before_rel_path:
  "(d, c) \<in> (before_rel g)\<^sup>* \<Longrightarrow> d \<in> edges g \<Longrightarrow> (gc_to c, gc_from d) \<in> (dg_rel g)\<^sup>* \<or> c = d"
proof (induction rule: converse_rtrancl_induct)
  case (step d e)
  then have e: "e \<in> edges g" "gc_to e = gc_from d" by (simp_all add: before_rel_def)
  with step consider "(gc_to c, gc_from e) \<in> (dg_rel g)\<^sup>*" | "c = e" by blast
  then show ?case
  proof cases
    case 1
    moreover have "(gc_from e, gc_from d) \<in> dg_rel g" using e by (force simp: dg_rel_def)
    ultimately show ?thesis by (blast intro: rtrancl_into_rtrancl)
  qed (use e in auto)
qed simp

lemma path_before_rel:
  "(gc_to c, n) \<in> (dg_rel g)\<^sup>* \<Longrightarrow> c \<in> edges g \<Longrightarrow> \<exists>d \<in> edges g. gc_to d = n \<and> (d, c) \<in> (before_rel g)\<^sup>*"
proof (induction rule: rtrancl_induct)
  case (step m n)
  from step.IH [OF step.prems] obtain d where d: "d \<in> edges g" "gc_to d = m" "(d, c) \<in> (before_rel g)\<^sup>*"
    by blast
  from step.hyps(2) obtain e where e: "e \<in> edges g" "gc_from e = m" "gc_to e = n" by (rule dg_relE)
  from d e have "(e, d) \<in> before_rel g" by (simp add: before_rel_def)
  with d(3) e show ?case by (blast intro: converse_rtrancl_into_rtrancl)
qed blast

lemma getParentConnections_spec:
  assumes "wf_graph g" and "node_in g n"
  shows "\<exists>ks. getParentConnections g n = Inr ks \<and> distinct ks
    \<and> set ks = {c \<in> edges g. (gc_to c, n) \<in> (dg_rel g)\<^sup>*}"
proof -
  let ?F = "{c \<in> edges g. gc_to c = n}"
  from getParentConnectionsRecursive_extends(1) [OF assms, of "[]"] obtain ks where
    ks: "getParentConnections g n = Inr ks" "distinct ks"
    and e: "extends_search (before_rel g) ?F {} (set ks)" "?F \<subseteq> set ks"
    by (auto simp: getParentConnections_def)
  have closed: "c \<in> set ks" if "(d, c) \<in> (before_rel g)\<^sup>*" "d \<in> set ks" for c d
    using that by (induction rule: rtrancl_induct) (use e(1) in \<open>auto simp: extends_search_def\<close>)
  have "c \<in> set ks" if c: "c \<in> edges g" and "(gc_to c, n) \<in> (dg_rel g)\<^sup>*" for c
    using path_before_rel [OF that(2,1)] e(2) closed by blast
  moreover have "c \<in> edges g \<and> (gc_to c, n) \<in> (dg_rel g)\<^sup>*" if "c \<in> set ks" for c
  proof -
    from that e(1) obtain d where d: "d \<in> edges g" "gc_to d = n" "(d, c) \<in> (before_rel g)\<^sup>*"
      unfolding extends_search_def by blast
    from d(3,1) have c: "c \<in> edges g"
      by (induction rule: rtrancl_induct) (auto simp: before_rel_def)
    from before_rel_path [OF d(3,1)] show ?thesis
    proof
      assume "(gc_to c, gc_from d) \<in> (dg_rel g)\<^sup>*"
      moreover have "(gc_from d, n) \<in> dg_rel g" using d by (force simp: dg_rel_def)
      ultimately show ?thesis using c by (blast intro: rtrancl_into_rtrancl)
    qed (use c d in auto)
  qed
  ultimately have "set ks = {c \<in> edges g. (gc_to c, n) \<in> (dg_rel g)\<^sup>*}" by blast
  with ks show ?thesis by blast
qed

lemma depthFirstSearchRecursive_search:
  "wf_graph g \<Longrightarrow> node_in g n \<Longrightarrow>
     \<exists>r seen'. depthFirstSearchRecursive g fn n seen = Inr (r, seen') \<and> (case r of
         Some x \<Rightarrow> fn x \<and> (n, x) \<in> (dg_rel g)\<^sup>*
       | None \<Rightarrow> extends_search (dg_rel g) {n} (set seen) (set seen') \<and> n \<in> set seen'
           \<and> (\<forall>x \<in> set seen' - set seen. \<not> fn x))"
  "wf_graph g \<Longrightarrow> set cs \<subseteq> edges g \<Longrightarrow>
     \<exists>r seen'. dfs_children g fn cs seen = Inr (r, seen') \<and> (case r of
         Some x \<Rightarrow> fn x \<and> (\<exists>c \<in> set cs. (gc_to c, x) \<in> (dg_rel g)\<^sup>*)
       | None \<Rightarrow> extends_search (dg_rel g) (gc_to ` set cs) (set seen) (set seen') \<and> gc_to ` set cs \<subseteq> set seen'
           \<and> (\<forall>x \<in> set seen' - set seen. \<not> fn x))"
proof (induction g fn n seen and g fn cs seen rule: depthFirstSearchRecursive_dfs_children.induct)
  case (1 g fn n seen)
  let ?R = "dg_rel g"
  let ?cs = "filter (\<lambda>c. gc_from c = n) (values_of (dg_connections g))"
  consider (seen) "n \<in> set seen" | (hit) "n \<notin> set seen" "fn n" | (go) "n \<notin> set seen" "\<not> fn n" by blast
  then show ?case
  proof cases
    case go
    have d: "getDirectChildConnections g n = Inr ?cs" using "1.prems"(2) by (simp add: getDirectChildConnections_def)
    have cs: "set ?cs \<subseteq> edges g" "gc_to ` set ?cs = ?R `` {n}" unfolding dg_rel_image by auto
    from "1.IH" [OF go d "1.prems"(1) cs(1)] obtain r seen' where
      call: "dfs_children g fn ?cs (seen @ [n]) = Inr (r, seen')"
      and res: "case r of Some x \<Rightarrow> fn x \<and> (\<exists>c \<in> set ?cs. (gc_to c, x) \<in> ?R\<^sup>*)
       | None \<Rightarrow> extends_search ?R (gc_to ` set ?cs) (set (seen @ [n])) (set seen') \<and> gc_to ` set ?cs \<subseteq> set seen'
           \<and> (\<forall>x \<in> set seen' - set (seen @ [n]). \<not> fn x)" by blast
    show ?thesis
    proof (cases r)
      case None
      with res have e: "extends_search ?R (?R `` {n}) (insert n (set seen)) (set seen')" "?R `` {n} \<subseteq> set seen'"
        "\<forall>x \<in> set seen' - insert n (set seen). \<not> fn x" unfolding cs(2) by auto
      have "extends_search ?R {n} (set seen) (set seen')" by (rule extends_search_node [OF e(1) _ e(2)]) auto
      moreover have "n \<in> set seen'" using e(1) by (auto simp: extends_search_def)
      moreover have "\<forall>x \<in> set seen' - set seen. \<not> fn x" using e(3) go(2) by blast
      ultimately show ?thesis using go d call None by simp
    next
      case (Some x)
      with res cs(2) have "fn x" "(n, x) \<in> ?R\<^sup>*"
        by (auto intro: converse_rtrancl_into_rtrancl dest: dg_relI)
      with Some go d call show ?thesis by simp
    qed
  qed (auto simp: extends_search_refl)
next
  case (2 g fn seen)
  show ?case by (simp add: extends_search_refl)
next
  case (3 g fn c cs seen)
  let ?R = "dg_rel g"
  have c: "node_in g (gc_to c)" and cs: "set cs \<subseteq> edges g" using "3.prems" wf_graphD(2) by auto
  from "3.IH"(1) [OF "3.prems"(1) c] obtain r1 seen1 where
    call: "depthFirstSearchRecursive g fn (gc_to c) seen = Inr (r1, seen1)"
    and res1: "case r1 of Some x \<Rightarrow> fn x \<and> (gc_to c, x) \<in> ?R\<^sup>*
       | None \<Rightarrow> extends_search ?R {gc_to c} (set seen) (set seen1) \<and> gc_to c \<in> set seen1
           \<and> (\<forall>x \<in> set seen1 - set seen. \<not> fn x)" by blast
  show ?case
  proof (cases r1)
    case None
    with res1 have e1: "extends_search ?R {gc_to c} (set seen) (set seen1)" "gc_to c \<in> set seen1"
      "\<forall>x \<in> set seen1 - set seen. \<not> fn x" by auto
    from "3.IH"(2) [OF call refl None "3.prems"(1) cs] obtain r seen' where
      rest: "dfs_children g fn cs seen1 = Inr (r, seen')"
      and res: "case r of Some x \<Rightarrow> fn x \<and> (\<exists>c \<in> set cs. (gc_to c, x) \<in> ?R\<^sup>*)
       | None \<Rightarrow> extends_search ?R (gc_to ` set cs) (set seen1) (set seen') \<and> gc_to ` set cs \<subseteq> set seen'
           \<and> (\<forall>x \<in> set seen' - set seen1. \<not> fn x)" by blast
    show ?thesis
    proof (cases r)
      case None2: None
      with res have e2: "extends_search ?R (gc_to ` set cs) (set seen1) (set seen')" "gc_to ` set cs \<subseteq> set seen'"
        "\<forall>x \<in> set seen' - set seen1. \<not> fn x" by auto
      have "extends_search ?R (gc_to ` set (c # cs)) (set seen) (set seen')"
        using extends_search_trans [OF e1(1) e2(1)] by simp
      moreover have "gc_to c \<in> set seen'" using e1(2) e2(1) by (auto simp: extends_search_def)
      moreover have "\<forall>x \<in> set seen' - set seen. \<not> fn x" using e1(3) e2(3) by blast
      ultimately show ?thesis using call None rest None2 e2(2) by simp
    qed (use call None rest res in auto)
  qed (use call res1 in auto)
qed

lemma depthFirstSearch_spec:
  assumes "wf_graph g" and "node_in g n"
  shows "\<exists>r. depthFirstSearch g n fn = Inr r \<and> (case r of
      Some x \<Rightarrow> fn x \<and> (n, x) \<in> (dg_rel g)\<^sup>*
    | None \<Rightarrow> \<forall>x. (n, x) \<in> (dg_rel g)\<^sup>* \<longrightarrow> \<not> fn x)"
proof -
  let ?R = "dg_rel g"
  from depthFirstSearchRecursive_search(1) [OF assms, of fn "[]"] obtain r seen where
    call: "depthFirstSearchRecursive g fn n [] = Inr (r, seen)"
    and res: "case r of Some x \<Rightarrow> fn x \<and> (n, x) \<in> ?R\<^sup>*
      | None \<Rightarrow> extends_search ?R {n} (set []) (set seen) \<and> n \<in> set seen \<and> (\<forall>x \<in> set seen - set []. \<not> fn x)"
    by blast
  show ?thesis
  proof (cases r)
    case None
    with res have e: "?R `` set seen \<subseteq> set seen" "n \<in> set seen" "\<forall>x \<in> set seen. \<not> fn x"
      by (auto simp: extends_search_def)
    have "x \<in> set seen" if "(n, x) \<in> ?R\<^sup>*" for x
      using that e(1,2) by (induction rule: rtrancl_induct) auto
    with e(3) call None show ?thesis by (auto simp: depthFirstSearch_def)
  qed (use call res in \<open>auto simp: depthFirstSearch_def\<close>)
qed

section \<open>Properties\<close>

text \<open>
  the children of a node of a well-formed graph are found on any graph, cycles included: each
  node reachable over one or more connections once, and nothing else.
\<close>

theorem getChildren_reachable:
  assumes "wf_graph g" and "node_in g node"
  shows "\<exists>children. getChildren g node = Inr children \<and> distinct children
    \<and> set children = {m. (node, m) \<in> (dg_rel g)\<^sup>+}"
  using assms by (rule getChildren_spec)

theorem getChildren_reachable_witness:
  "\<exists>children. getChildren example_graph node_T = Inr children \<and> distinct children
    \<and> set children = {m. (node_T, m) \<in> {(node_T, node_A), (node_A, node_B)}\<^sup>+}"
  using getChildren_reachable [OF wf_example_graph, of node_T] by simp

text \<open>
  the parent connections of a node are exactly the connections from whose target the node can be
  reached, each of them once.
\<close>

theorem getParentConnections_exact:
  assumes "wf_graph g" and "node_in g node"
  shows "\<exists>connections. getParentConnections g node = Inr connections \<and> distinct connections
    \<and> set connections = {c \<in> edges g. (gc_to c, node) \<in> (dg_rel g)\<^sup>*}"
  using assms by (rule getParentConnections_spec)

theorem getParentConnections_exact_witness:
  "\<exists>connections. getParentConnections example_graph node_B = Inr connections
    \<and> edge node_A node_B \<in> set connections"
  using getParentConnections_exact [OF wf_example_graph, of node_B] unfolding edges_example_graph by auto

text \<open>
  the depth-first search answers with a node that satisfies the predicate and is reachable, or
  with nothing, and then no reachable node satisfies it.
\<close>

theorem depthFirstSearch_complete:
  assumes "wf_graph g" and "node_in g start"
  shows "\<exists>r. depthFirstSearch g start fn = Inr r \<and> (case r of
      Some x \<Rightarrow> fn x \<and> (start, x) \<in> (dg_rel g)\<^sup>*
    | None \<Rightarrow> \<forall>x. (start, x) \<in> (dg_rel g)\<^sup>* \<longrightarrow> \<not> fn x)"
  using assms by (rule depthFirstSearch_spec)

theorem depthFirstSearch_complete_witness:
  "\<exists>r. depthFirstSearch example_graph node_T (\<lambda>n. node_name n = ''A'') = Inr r \<and> r \<noteq> None"
proof -
  have "(node_T, node_A) \<in> (dg_rel example_graph)\<^sup>*" by auto
  moreover obtain r where "depthFirstSearch example_graph node_T (\<lambda>n. node_name n = ''A'') = Inr r"
    "case r of Some x \<Rightarrow> node_name x = ''A'' \<and> (node_T, x) \<in> (dg_rel example_graph)\<^sup>*
      | None \<Rightarrow> \<forall>x. (node_T, x) \<in> (dg_rel example_graph)\<^sup>* \<longrightarrow> node_name x \<noteq> ''A''"
    using depthFirstSearch_complete [OF wf_example_graph, of node_T "\<lambda>n. node_name n = ''A''"] by auto
  ultimately show ?thesis by (cases r) (auto simp: node_A_def)
qed

end
