(* ===== verification/GraphEdit.thy ===== *)
theory GraphEdit
  imports GraphSearch WorkflowRename
begin

text \<open>
  Editing a \<open>DirectedGraph\<close> and moving between it and a workflow: what the removal of a node does
  to the connections, copying a graph, and the conversions \<open>fromWorkflow\<close>, \<open>toWorkflow\<close> and
  \<open>toIConnections\<close>.
\<close>

section \<open>Conversions\<close>

text \<open>One source node of the workflow: it must exist, and so must the targets of its connections.\<close>

definition add_workflow_connection ::
    "Workflow \<Rightarrow> INode \<Rightarrow> conn_tuple \<Rightarrow> DirectedGraph \<Rightarrow> DirectedGraph res" where
  "add_workflow_connection w from p g =
     (case p of (s, outputType, outputIndex, conn) \<Rightarrow>
        (case getNode w (conn_node conn) of
           None \<Rightarrow> Inl AssertionError
         | Some to \<Rightarrow> addConnection \<lparr>gc_from = from, gc_to = to, gc_type = outputType,
             gc_outputIndex = outputIndex, gc_inputIndex = conn_index conn\<rparr> g))"

definition add_workflow_source ::
    "Workflow \<Rightarrow> string \<times> INodeConnections \<Rightarrow> DirectedGraph \<Rightarrow> DirectedGraph res" where
  "add_workflow_source w p g =
     (case getNode w (fst p) of
        None \<Rightarrow> Inl AssertionError
      | Some from \<Rightarrow> fold_res (add_workflow_connection w from) (conns_of_node (fst p) (snd p)) g)"

definition fromWorkflow :: "Workflow \<Rightarrow> DirectedGraph res" where
  "fromWorkflow w =
     fold_res (add_workflow_source w) (connectionsBySourceNode w)
       (addNodes (values_of (wf_nodes w)) empty_graph)"

text \<open>
  The object of a source node is created with the type of its first connection; a connection of
  another type then writes into \<open>undefined\<close>. Writing past the end of the outputs leaves holes.
\<close>

definition add_iconnection :: "GraphConnection \<Rightarrow> IConnections \<Rightarrow> IConnections res" where
  "add_iconnection c result =
     (let byType = (case map_of result (node_name (gc_from c)) of None \<Rightarrow> [(gc_type c, [])] | Some m \<Rightarrow> m)
      in case map_of byType (gc_type c) of
           None \<Rightarrow> Inl TypeError
         | Some outputs \<Rightarrow>
             (let group = (case arr_get outputs (gc_outputIndex c) of Some (Some l) \<Rightarrow> l | _ \<Rightarrow> []);
                  conn = \<lparr>conn_node = node_name (gc_to c), conn_type = gc_type c, conn_index = gc_inputIndex c\<rparr>
              in Inr (obj_set (node_name (gc_from c))
                   (AList.update (gc_type c)
                     (arr_set None outputs (gc_outputIndex c) (Some (group @ [conn]))) byType) result)))"

definition toIConnections :: "DirectedGraph \<Rightarrow> IConnections res" where
  "toIConnections g = fold_res add_iconnection (values_of (dg_connections g)) []"

definition toWorkflow ::
    "(INodeType \<Rightarrow> INode \<Rightarrow> IDataObject option) \<Rightarrow> INodeTypes \<Rightarrow> string option \<Rightarrow> IPinData option
       \<Rightarrow> DirectedGraph \<Rightarrow> Workflow res" where
  "toWorkflow defaults types order pin g =
     bind_res (toIConnections g) (\<lambda>connections.
       Inr (new_workflow defaults (values_of (dg_nodes g)) connections types order pin))"

definition clone :: "DirectedGraph \<Rightarrow> DirectedGraph res" where
  "clone g = addConnections (getConnections g None) (addNodes (values_of (dg_nodes g)) empty_graph)"

section \<open>Copies\<close>

lemma fold_update_fresh:
  "distinct (map f xs) \<Longrightarrow> set (map f xs) \<inter> set (keys_of ys) = {} \<Longrightarrow>
     fold (\<lambda>x. AList.update (f x) x) xs ys = ys @ map (\<lambda>x. (f x, x)) xs"
proof (induction xs arbitrary: ys)
  case (Cons x xs)
  have "AList.update (f x) x zs = zs @ [(f x, x)]" if "f x \<notin> fst ` set zs" for zs
    using that by (induction zs) auto
  with Cons show ?case by auto
qed simp

lemma keyed_list:
  assumes "\<forall>(k, x) \<in> set xs. k = f x" and "distinct (keys_of xs)"
  shows "map (\<lambda>x. (f x, x)) (values_of xs) = xs" and "distinct (map f (values_of xs))"
proof -
  show "map (\<lambda>x. (f x, x)) (values_of xs) = xs" using assms(1) by (induction xs) auto
  have "map f (values_of xs) = keys_of xs" using assms(1) by (induction xs) auto
  with assms(2) show "distinct (map f (values_of xs))" by (simp only:)
qed

lemma dg_nodes_addNodes: "dg_nodes (addNodes ns g) = fold (\<lambda>n. AList.update (node_name n) n) ns (dg_nodes g)"
  unfolding addNodes_def by (induction ns arbitrary: g) (simp_all add: addNode_def)

lemma dg_connections_addNodes: "dg_connections (addNodes ns g) = dg_connections g"
  unfolding addNodes_def by (induction ns arbitrary: g) (simp_all add: addNode_def)

lemma addNodes_keyed:
  assumes "keyed_by_name ns"
  shows "addNodes (values_of ns) empty_graph = \<lparr>dg_nodes = ns, dg_connections = []\<rparr>"
proof -
  have "\<forall>(k, x) \<in> set ns. k = node_name x" "distinct (keys_of ns)" using assms by (auto simp: keyed_by_name_def)
  note k = keyed_list [OF this]
  have "dg_nodes (addNodes (values_of ns) empty_graph) = ns"
    using fold_update_fresh [of node_name "values_of ns" "[]"] k
    by (simp add: dg_nodes_addNodes empty_graph_def del: map_map)
  moreover have "dg_connections (addNodes (values_of ns) empty_graph) = []"
    by (simp add: dg_connections_addNodes empty_graph_def)
  ultimately show ?thesis by (metis DirectedGraph.surjective old.unit.exhaust)
qed

lemma dg_connections_fold_set_connection:
  "dg_connections (fold set_connection cs g) = fold (\<lambda>c. AList.update (makeKey c) c) cs (dg_connections g)"
  by (induction cs arbitrary: g) (simp_all add: set_connection_def)

lemma clone_same:
  assumes "wf_graph g"
  shows "clone g = Inr g"
proof -
  note k = keyed_by_name_def wf_graph_def
  have ks: "\<forall>(k, c) \<in> set (dg_connections g). k = makeKey c" "distinct (keys_of (dg_connections g))"
    using assms by (auto simp: wf_graph_def)
  note keyed = keyed_list [OF ks]
  let ?g = "\<lparr>dg_nodes = dg_nodes g, dg_connections = []\<rparr>"
  have nodes: "addNodes (values_of (dg_nodes g)) empty_graph = ?g"
    using wf_graphD(4) [OF assms] by (rule addNodes_keyed)
  have cs: "getConnections g None = values_of (dg_connections g)" by (simp add: getConnections_def)
  have "addConnections (values_of (dg_connections g)) ?g = Inr (fold set_connection (values_of (dg_connections g)) ?g)"
    using wf_graphD(1,2) [OF assms] by (intro addConnections_fold) (simp add: node_in_def)
  moreover have "dg_connections (fold set_connection (values_of (dg_connections g)) ?g) = dg_connections g"
    using fold_update_fresh [of makeKey "values_of (dg_connections g)" "[]"] keyed
    by (simp add: dg_connections_fold_set_connection del: map_map)
  moreover have "dg_nodes (fold set_connection (values_of (dg_connections g)) ?g) = dg_nodes g" by simp
  ultimately show ?thesis
    unfolding clone_def nodes cs by (metis DirectedGraph.surjective old.unit.exhaust)
qed

section \<open>Removing a node\<close>

lemma edges_delete_connections [dg_simps]:
  "edges (delete_connections_of n g) = {c \<in> edges g. gc_to c \<noteq> n \<and> gc_from c \<noteq> n}"
  by (force simp: delete_connections_of_def)

lemma dg_nodes_delete_connections [simp]: "dg_nodes (delete_connections_of n g) = dg_nodes g"
  by (simp add: delete_connections_of_def)

lemma dg_connections_delete_node [simp]: "dg_connections (delete_node n g) = dg_connections g"
  by (simp add: delete_node_def)

lemma node_in_delete_node [dg_simps]: "node_in (delete_node n g) m \<longleftrightarrow> node_name m \<noteq> node_name n \<and> node_in g m"
  by (simp add: node_in_def delete_node_def store_simps)

lemma node_in_delete_connections [dg_simps]: "node_in (delete_connections_of n g) = node_in g"
  by (simp add: fun_eq_iff node_in_def)

lemma distinct_keys_filter: "distinct (keys_of xs) \<Longrightarrow> distinct (keys_of (filter P xs))"
  by (simp add: distinct_map_filter)

lemma wf_delete_connections:
  assumes "wf_graph g"
  shows "wf_graph (delete_connections_of n g)"
proof -
  have "distinct (keys_of (dg_connections (delete_connections_of n g)))"
    using wf_graphD(3) [OF assms] by (simp add: delete_connections_of_def distinct_keys_filter)
  moreover have "k = makeKey c" if "(k, c) \<in> set (dg_connections (delete_connections_of n g))" for k c
    using that wf_graphD(5) [OF assms] by (simp add: delete_connections_of_def)
  ultimately show ?thesis
    using wf_graphD(1,2,4) [OF assms]
    unfolding wf_graph_def node_in_delete_connections edges_delete_connections dg_nodes_delete_connections by blast
qed

lemma wf_delete_node:
  assumes "wf_graph g" and "\<forall>c \<in> edges g. node_name (gc_from c) \<noteq> node_name n \<and> node_name (gc_to c) \<noteq> node_name n"
  shows "wf_graph (delete_node n g)"
proof -
  have "keyed_by_name (dg_nodes (delete_node n g))"
    using wf_graphD(4) [OF assms(1)]
    by (auto simp: keyed_by_name_def delete_node_def AList.delete_eq distinct_keys_filter)
  with assms show ?thesis
    unfolding wf_graph_def dg_connections_delete_node node_in_delete_node by blast
qed

lemma node_in_same_name: "node_in g a \<Longrightarrow> node_in g b \<Longrightarrow> node_name a = node_name b \<Longrightarrow> a = b"
  by (simp add: node_in_def)

lemma removeNode_graph:
  assumes "wf_graph g" and "node_in g n"
  shows "wf_graph (removeNode n g)"
    and "edges (removeNode n g) = {c \<in> edges g. gc_to c \<noteq> n \<and> gc_from c \<noteq> n}"
    and "node_in (removeNode n g) m \<longleftrightarrow> m \<noteq> n \<and> node_in g m"
proof -
  show e: "edges (removeNode n g) = {c \<in> edges g. gc_to c \<noteq> n \<and> gc_from c \<noteq> n}"
    by (simp only: removeNode_def dg_connections_delete_node edges_delete_connections)
  show "node_in (removeNode n g) m \<longleftrightarrow> m \<noteq> n \<and> node_in g m"
    using node_in_same_name [OF _ assms(2), of m] by (auto simp: removeNode_def dg_simps)
  have "node_name (gc_from c) \<noteq> node_name n \<and> node_name (gc_to c) \<noteq> node_name n"
    if "c \<in> edges (delete_connections_of n g)" for c
  proof -
    from that have c: "c \<in> edges g" "gc_to c \<noteq> n" "gc_from c \<noteq> n" unfolding edges_delete_connections by auto
    with wf_graphD(1,2) [OF assms(1)] node_in_same_name [OF _ assms(2)] show ?thesis by blast
  qed
  then show "wf_graph (removeNode n g)"
    unfolding removeNode_def by (intro wf_delete_node wf_delete_connections assms(1)) blast
qed

text \<open>The connections made for a removed node.\<close>

definition bypasses :: "DirectedGraph \<Rightarrow> (GraphConnection \<Rightarrow> bool) \<Rightarrow> INode \<Rightarrow> GraphConnection set" where
  "bypasses g skip n = {bypass i out | i out. i \<in> edges g \<and> gc_to i = n \<and> \<not> skip i
     \<and> out \<in> edges g \<and> gc_from out = n \<and> \<not> skip out}"

lemma bypass_simps [simp]:
  "gc_from (bypass i out) = gc_from i" "gc_to (bypass i out) = gc_to out" "gc_type (bypass i out) = gc_type i"
  by (simp_all add: bypass_def)

lemma removeNode_reconnect_result:
  assumes "node_in g n"
  obtains new where "removeNode_reconnect skip n g =
      Inr (delete_node n (fold set_connection new (delete_connections_of n g)), new)"
    "set new = bypasses g skip n"
proof -
  let ?ins = "filter (\<lambda>c. gc_to c = n) (values_of (dg_connections g))"
  let ?outs = "filter (\<lambda>c. gc_from c = n) (values_of (dg_connections g))"
  let ?new = "concat (map (\<lambda>i. if skip i then [] else map (bypass i) (filter (\<lambda>out. \<not> skip out) ?outs)) ?ins)"
  have "removeNode_reconnect skip n g =
      Inr (delete_node n (fold set_connection ?new (delete_connections_of n g)), ?new)"
    using assms by (simp add: removeNode_reconnect_def getDirectParentConnections_def getDirectChildConnections_def Let_def)
  moreover have "c \<in> set ?new \<longleftrightarrow> c \<in> bypasses g skip n" for c
  proof -
    have "c \<in> set ?new \<longleftrightarrow> (\<exists>i \<in> set ?ins. \<not> skip i \<and> (\<exists>out \<in> set ?outs. \<not> skip out \<and> c = bypass i out))"
      by auto
    then show ?thesis unfolding bypasses_def by auto
  qed
  then have "set ?new = bypasses g skip n" by blast
  ultimately show thesis by (rule that)
qed

lemma edges_fold_set_connection:
  "distinct (keys_of (dg_connections g)) \<Longrightarrow> edges (fold set_connection cs g) \<subseteq> set cs \<union> edges g"
proof (induction cs arbitrary: g)
  case (Cons c cs)
  have "distinct (keys_of (dg_connections (set_connection c g)))"
    using Cons.prems by (simp add: set_connection_def js_map.ok_put)
  from Cons.IH [OF this] edges_set_connection(1) [OF Cons.prems, of c] show ?case by auto
qed simp

lemma edges_fold_set_connection_dashless:
  "wf_graph g \<Longrightarrow> \<forall>c \<in> set cs. node_in g (gc_from c) \<and> node_in g (gc_to c) \<Longrightarrow>
     \<forall>n. node_in g n \<longrightarrow> dashless n \<Longrightarrow> edges (fold set_connection cs g) = set cs \<union> edges g"
proof (induction cs arbitrary: g)
  case (Cons c cs)
  have "wf_graph (set_connection c g)" using Cons.prems by (simp add: wf_set_connection)
  moreover have "edges (set_connection c g) = insert c (edges g)"
    using Cons.prems by (intro edges_set_connection_dashless) simp_all
  ultimately show ?case using Cons.IH [of "set_connection c g"] Cons.prems by (simp add: dg_simps)
qed simp

text \<open>Without a connection from the node to itself the graph stays well formed.\<close>

definition self_loop :: "DirectedGraph \<Rightarrow> INode \<Rightarrow> bool" where
  "self_loop g n \<longleftrightarrow> (n, n) \<in> dg_rel g"

lemma bypasses_ends:
  assumes "wf_graph g" and "\<not> self_loop g n" and "c \<in> bypasses g skip n"
  shows "gc_from c \<noteq> n" "gc_to c \<noteq> n" "node_in g (gc_from c)" "node_in g (gc_to c)"
    "(gc_from c, n) \<in> dg_rel g" "(n, gc_to c) \<in> dg_rel g"
proof -
  from assms(3) obtain i out where c: "c = bypass i out" "i \<in> edges g" "gc_to i = n" "out \<in> edges g" "gc_from out = n"
    unfolding bypasses_def by blast
  show rel: "(gc_from c, n) \<in> dg_rel g" "(n, gc_to c) \<in> dg_rel g"
    using c dg_relI [of i g] dg_relI [of out g] by auto
  show "gc_from c \<noteq> n" "gc_to c \<noteq> n" using rel assms(2) by (auto simp: self_loop_def)
  show "node_in g (gc_from c)" "node_in g (gc_to c)" using rel dg_rel_node_in [OF assms(1)] by blast+
qed

lemma removeNode_reconnect_graph:
  assumes wf: "wf_graph g" and n: "node_in g n" and loop: "\<not> self_loop g n"
    and r: "removeNode_reconnect skip n g = Inr (g', new)"
  shows "wf_graph g'" and "node_in g' m \<longleftrightarrow> m \<noteq> n \<and> node_in g m"
    and "(\<forall>m. node_in g m \<longrightarrow> dashless m) \<Longrightarrow>
      edges g' = bypasses g skip n \<union> {c \<in> edges g. gc_to c \<noteq> n \<and> gc_from c \<noteq> n}"
proof -
  let ?g = "delete_connections_of n g"
  obtain new' where r': "removeNode_reconnect skip n g = Inr (delete_node n (fold set_connection new' ?g), new')"
    and new': "set new' = bypasses g skip n" by (rule removeNode_reconnect_result [OF n])
  from r [unfolded r'] have g': "g' = delete_node n (fold set_connection new' ?g)"
    by blast
  have wf1: "wf_graph ?g" by (rule wf_delete_connections [OF wf])
  have ends: "\<forall>c \<in> set new'. node_in ?g (gc_from c) \<and> node_in ?g (gc_to c)"
    using bypasses_ends [OF wf loop] by (simp add: new' dg_simps)
  have wf2: "wf_graph (fold set_connection new' ?g)" by (rule wf_fold_set_connection [OF wf1 ends])
  have "node_name (gc_from c) \<noteq> node_name n \<and> node_name (gc_to c) \<noteq> node_name n"
    if "c \<in> edges (fold set_connection new' ?g)" for c
  proof -
    have "c \<in> bypasses g skip n \<or> c \<in> edges ?g"
      using that edges_fold_set_connection [OF wf_graphD(3) [OF wf1], of new'] new' by blast
    then have "gc_from c \<noteq> n \<and> gc_to c \<noteq> n \<and> node_in g (gc_from c) \<and> node_in g (gc_to c)"
      using bypasses_ends [OF wf loop] wf_graphD(1,2) [OF wf] unfolding edges_delete_connections by blast
    then show ?thesis using node_in_same_name [OF _ n] by blast
  qed
  then show "wf_graph g'" unfolding g' by (intro wf_delete_node wf2) blast
  show "node_in g' m \<longleftrightarrow> m \<noteq> n \<and> node_in g m"
    using node_in_same_name [OF _ n, of m] by (auto simp: g' dg_simps)
  assume "\<forall>m. node_in g m \<longrightarrow> dashless m"
  then have "edges (fold set_connection new' ?g) = set new' \<union> edges ?g"
    by (intro edges_fold_set_connection_dashless wf1 ends) (simp add: dg_simps)
  then show "edges g' = bypasses g skip n \<union> {c \<in> edges g. gc_to c \<noteq> n \<and> gc_from c \<noteq> n}"
    unfolding g' dg_connections_delete_node edges_delete_connections new' .
qed

text \<open>Reachability between the nodes that stay is that of the graph before.\<close>

lemma bypass_reachable:
  assumes R': "R' = {(a, b). (a, b) \<in> R \<and> a \<noteq> n \<and> b \<noteq> n} \<union> {(a, b). (a, n) \<in> R \<and> (n, b) \<in> R}"
    and loop: "(n, n) \<notin> R" and "a \<noteq> n" and "b \<noteq> n"
  shows "(a, b) \<in> R'\<^sup>+ \<longleftrightarrow> (a, b) \<in> R\<^sup>+"
proof
  have "R' \<subseteq> R\<^sup>+" unfolding R' by auto
  moreover assume "(a, b) \<in> R'\<^sup>+"
  ultimately have "(a, b) \<in> (R\<^sup>+)\<^sup>+" by (rule trancl_mono [rotated])
  then show "(a, b) \<in> R\<^sup>+" by (simp add: trancl_id)
next
  assume "(a, b) \<in> R\<^sup>+"
  then have "(b \<noteq> n \<longrightarrow> (a, b) \<in> R'\<^sup>+) \<and> (b = n \<longrightarrow> (\<exists>p. (p, n) \<in> R \<and> p \<noteq> n \<and> (a, p) \<in> R'\<^sup>*))"
  proof (induction rule: trancl_induct)
    case (base b)
    then show ?case using \<open>a \<noteq> n\<close> by (auto simp: R')
  next
    case (step b c)
    consider "b \<noteq> n" "c \<noteq> n" | "b \<noteq> n" "c = n" | "b = n" "c \<noteq> n" using step.hyps(2) loop by blast
    then show ?case
    proof cases
      case 1
      with step have "(a, b) \<in> R'\<^sup>+" "(b, c) \<in> R'" by (auto simp: R')
      with 1 show ?thesis by (auto intro: trancl_into_trancl)
    next
      case 2
      with step show ?thesis by (auto intro: trancl_into_rtrancl)
    next
      case 3
      with step obtain p where p: "(p, n) \<in> R" "(a, p) \<in> R'\<^sup>*" by blast
      with 3 step.hyps(2) have "(p, c) \<in> R'" by (auto simp: R')
      with p(2) 3 show ?thesis by (auto intro: rtrancl_into_trancl1)
    qed
  qed
  with \<open>b \<noteq> n\<close> show "(a, b) \<in> R'\<^sup>+" by blast
qed

lemma removeNode_reconnect_reachable:
  assumes wf: "wf_graph g" and n: "node_in g n" and loop: "\<not> self_loop g n"
    and names: "\<forall>m. node_in g m \<longrightarrow> dashless m"
    and r: "removeNode_reconnect (\<lambda>_. False) n g = Inr (g', new)" and "a \<noteq> n" and "b \<noteq> n"
  shows "(a, b) \<in> (dg_rel g')\<^sup>+ \<longleftrightarrow> (a, b) \<in> (dg_rel g)\<^sup>+"
proof (rule bypass_reachable)
  have e: "edges g' = bypasses g (\<lambda>_. False) n \<union> {c \<in> edges g. gc_to c \<noteq> n \<and> gc_from c \<noteq> n}"
    by (rule removeNode_reconnect_graph(3) [OF wf n loop r names])
  have b: "(a, b) \<in> (\<lambda>c. (gc_from c, gc_to c)) ` bypasses g (\<lambda>_. False) n \<longleftrightarrow> (a, n) \<in> dg_rel g \<and> (n, b) \<in> dg_rel g" for a b
  proof
    assume "(a, b) \<in> (\<lambda>c. (gc_from c, gc_to c)) ` bypasses g (\<lambda>_. False) n"
    then show "(a, n) \<in> dg_rel g \<and> (n, b) \<in> dg_rel g" using bypasses_ends(5,6) [OF wf loop] by auto
  next
    assume "(a, n) \<in> dg_rel g \<and> (n, b) \<in> dg_rel g"
    then obtain i out where "i \<in> edges g" "gc_from i = a" "gc_to i = n" "out \<in> edges g" "gc_from out = n" "gc_to out = b"
      by (metis dg_relE)
    then have "bypass i out \<in> bypasses g (\<lambda>_. False) n" "(a, b) = (gc_from (bypass i out), gc_to (bypass i out))"
      unfolding bypasses_def by auto
    then show "(a, b) \<in> (\<lambda>c. (gc_from c, gc_to c)) ` bypasses g (\<lambda>_. False) n" by blast
  qed
  have stay: "(\<lambda>c. (gc_from c, gc_to c)) ` {c \<in> edges g. gc_to c \<noteq> n \<and> gc_from c \<noteq> n}
      = {(a, b). (a, b) \<in> dg_rel g \<and> a \<noteq> n \<and> b \<noteq> n}" unfolding dg_rel_def by blast
  have new: "(\<lambda>c. (gc_from c, gc_to c)) ` bypasses g (\<lambda>_. False) n
      = {(a, b). (a, n) \<in> dg_rel g \<and> (n, b) \<in> dg_rel g}"
    using b by (intro set_eqI) (simp only: split_paired_all mem_Collect_eq prod.case)
  have all: "dg_rel g' = (\<lambda>c. (gc_from c, gc_to c)) ` edges g'" unfolding dg_rel_def by blast
  show "dg_rel g' = {(a, b). (a, b) \<in> dg_rel g \<and> a \<noteq> n \<and> b \<noteq> n}
      \<union> {(a, b). (a, n) \<in> dg_rel g \<and> (n, b) \<in> dg_rel g}"
    unfolding all e image_Un stay new by (rule Un_commute)
qed (use loop assms in \<open>simp_all add: self_loop_def\<close>)

section \<open>From a graph to connections\<close>

fun tuple_of :: "GraphConnection \<Rightarrow> conn_tuple" where
  "tuple_of c = (node_name (gc_from c), gc_type c, gc_outputIndex c,
     \<lparr>conn_node = node_name (gc_to c), conn_type = gc_type c, conn_index = gc_inputIndex c\<rparr>)"

lemma conns_of_lists_holes: "conns_of_lists s t (ls @ replicate k None) = conns_of_lists s t ls"
proof -
  have "concat (map (\<lambda>(i, l). map (\<lambda>c. (s, t, i, c)) (conns_at l)) (enumerate n (replicate k None))) = []" for n k
    by (auto simp: in_set_enumerate_eq)
  then show ?thesis by (simp add: conns_of_lists_def enumerate_append_eq)
qed

lemma mset_conns_of_lists_set:
  "mset (conns_of_lists s t (arr_set None ls j
      (Some ((case arr_get ls j of Some (Some l) \<Rightarrow> l | _ \<Rightarrow> []) @ [c]))))
    = add_mset (s, t, j, c) (mset (conns_of_lists s t ls))"
proof -
  define ps where "ps = ls @ replicate (Suc j - length ls) None"
  have j: "j < length ps" by (simp add: ps_def)
  have at: "(case arr_get ls j of Some (Some l) \<Rightarrow> l | _ \<Rightarrow> []) = conns_at (ps ! j)"
    by (auto simp: arr_get_def ps_def nth_append split: option.split)
  have ps: "ps = take j ps @ ps ! j # drop (Suc j) ps" using id_take_nth_drop [OF j] by simp
  have "mset (conns_of_lists s t (ps[j := Some (conns_at (ps ! j) @ [c])]))
      = add_mset (s, t, j, c) (mset (conns_of_lists s t ps))"
    using j by (subst (2) ps) (simp add: conns_of_lists_def enumerate_append_eq upd_conv_take_nth_drop)
  then show ?thesis
    unfolding arr_set_def at ps_def [symmetric] by (simp add: ps_def conns_of_lists_holes)
qed

lemma add_iconnection_effect:
  assumes wf: "wf_connections result" and add: "add_iconnection c result = Inr result'"
  shows "wf_connections result'"
    and "mset (all_connections result') = add_mset (tuple_of c) (mset (all_connections result))"
proof -
  let ?s = "node_name (gc_from c)" and ?t = "gc_type c" and ?i = "gc_outputIndex c"
  let ?new = "\<lparr>conn_node = node_name (gc_to c), conn_type = ?t, conn_index = gc_inputIndex c\<rparr>"
  define m where "m = (case map_of result ?s of None \<Rightarrow> [(?t, [])] | Some m \<Rightarrow> m)"
  from add obtain ls where ls: "map_of m ?t = Some ls"
    and r: "result' = obj_set ?s (AList.update ?t (arr_set None ls ?i
       (Some ((case arr_get ls ?i of Some (Some l) \<Rightarrow> l | _ \<Rightarrow> []) @ [?new]))) m) result"
    by (auto simp: add_iconnection_def Let_def m_def [symmetric] split: option.splits)
  have d: "distinct (keys_of result)" using wf by (simp add: wf_connections_def)
  have dm: "distinct (keys_of m)"
    using wf_connectionsD [OF wf] by (simp add: m_def split: option.split)
  let ?ls' = "arr_set None ls ?i (Some ((case arr_get ls ?i of Some (Some l) \<Rightarrow> l | _ \<Rightarrow> []) @ [?new]))"
  let ?m' = "AList.update ?t ?ls' m"
  show "wf_connections result'"
    using wf dm unfolding r wf_connections_def
    by (auto simp: js_obj.values_put js_obj.ok_put js_map.ok_put)
  have "mset (conns_of_node ?s ?m') = add_mset (tuple_of c) (mset (conns_of_node ?s m))"
    unfolding conns_of_node_def
    by (rule mset_concat_put [OF js_map.mset_put [OF dm] dm]) (simp add: ls mset_conns_of_lists_set)
  then show "mset (all_connections result') = add_mset (tuple_of c) (mset (all_connections result))"
    unfolding all_connections_def r
    by (intro mset_concat_put [OF js_obj.mset_put [OF d] d])
      (simp add: m_def conns_of_node_def split: option.splits)
qed

lemma fold_add_iconnection:
  "wf_connections result \<Longrightarrow> fold_res add_iconnection cs result = Inr result' \<Longrightarrow>
     wf_connections result' \<and>
     mset (all_connections result') = image_mset tuple_of (mset cs) + mset (all_connections result)"
proof (induction cs arbitrary: result)
  case (Cons c cs)
  then obtain r1 where r1: "add_iconnection c result = Inr r1" "fold_res add_iconnection cs r1 = Inr result'"
    by (auto simp: bind_res_Inr_iff)
  note e = add_iconnection_effect [OF Cons.prems(1) r1(1)]
  from Cons.IH [OF e(1) r1(2)] e(2) show ?case by simp
qed simp

text \<open>All connections of a source have one type.\<close>

definition single_typed :: "GraphConnection list \<Rightarrow> bool" where
  "single_typed cs \<longleftrightarrow> (\<forall>c \<in> set cs. \<forall>d \<in> set cs.
     node_name (gc_from c) = node_name (gc_from d) \<longrightarrow> gc_type c = gc_type d)"

definition typed_by :: "GraphConnection list \<Rightarrow> IConnections \<Rightarrow> bool" where
  "typed_by cs result \<longleftrightarrow> (\<forall>s. case map_of result s of
       None \<Rightarrow> (\<forall>c \<in> set cs. node_name (gc_from c) \<noteq> s)
     | Some m \<Rightarrow> (\<exists>c \<in> set cs. node_name (gc_from c) = s \<and> keys_of m = [gc_type c]))"

lemma typed_by_set:
  assumes "typed_by cs result"
  shows "typed_by (cs @ [c]) (obj_set (node_name (gc_from c)) [(gc_type c, v)] result)"
  unfolding typed_by_def obj_set_lookup
proof
  fix s
  show "case ((map_of result)(node_name (gc_from c) \<mapsto> [(gc_type c, v)])) s of
      None \<Rightarrow> \<forall>d \<in> set (cs @ [c]). node_name (gc_from d) \<noteq> s
    | Some m \<Rightarrow> \<exists>d \<in> set (cs @ [c]). node_name (gc_from d) = s \<and> keys_of m = [gc_type d]"
  proof (cases "s = node_name (gc_from c)")
    case False
    with spec [OF assms [unfolded typed_by_def], of s] show ?thesis by (cases "map_of result s") auto
  qed simp
qed

lemma single_typed_snoc:
  "single_typed (cs @ [c]) \<longleftrightarrow> single_typed cs \<and>
     (\<forall>d \<in> set cs. node_name (gc_from d) = node_name (gc_from c) \<longrightarrow> gc_type d = gc_type c)"
  (is "?L \<longleftrightarrow> ?R")
proof
  show "?L \<Longrightarrow> ?R" unfolding single_typed_def set_append list.set by blast
next
  assume R [unfolded single_typed_def]: ?R
  show ?L unfolding single_typed_def
  proof (intro ballI impI)
    fix a b assume a: "a \<in> set (cs @ [c])" and b: "b \<in> set (cs @ [c])"
      and n: "node_name (gc_from a) = node_name (gc_from b)"
    consider "a \<in> set cs" "b \<in> set cs" | "a \<in> set cs" "b = c" | "a = c" "b \<in> set cs" | "a = b"
      using a b by auto
    then show "gc_type a = gc_type b"
      by cases (use R n in metis)+
  qed
qed

lemma add_iconnection_typed:
  assumes typed: "typed_by cs result" and single: "single_typed cs"
  shows "if single_typed (cs @ [c]) then (\<exists>r. add_iconnection c result = Inr r \<and> typed_by (cs @ [c]) r)
    else add_iconnection c result = Inl TypeError"
proof -
  let ?s = "node_name (gc_from c)" and ?t = "gc_type c"
  show ?thesis
  proof (cases "map_of result ?s")
    case None
    with spec [OF typed [unfolded typed_by_def], of ?s] have "\<forall>d \<in> set cs. node_name (gc_from d) \<noteq> ?s"
      by simp
    with single have "single_typed (cs @ [c])" by (simp add: single_typed_snoc)
    moreover obtain v where "add_iconnection c result = Inr (obj_set ?s [(?t, v)] result)"
      by (simp add: add_iconnection_def Let_def None)
    ultimately show ?thesis using typed_by_set [OF typed, of c v] by simp
  next
    case (Some m)
    with spec [OF typed [unfolded typed_by_def], of ?s]
    obtain d where d: "d \<in> set cs" "node_name (gc_from d) = ?s" "keys_of m = [gc_type d]" by auto
    then obtain ls where m: "m = [(gc_type d, ls)]" by (cases m) auto
    have iff: "single_typed (cs @ [c]) \<longleftrightarrow> gc_type d = ?t"
      using single d(1,2) unfolding single_typed_snoc by (metis single_typed_def)
    show ?thesis
    proof (cases "gc_type d = ?t")
      case True
      then obtain v where "add_iconnection c result = Inr (obj_set ?s [(?t, v)] result)"
        by (simp add: add_iconnection_def Let_def Some m)
      with True iff typed_by_set [OF typed, of c v] show ?thesis by simp
    qed (simp add: iff add_iconnection_def Let_def Some m)
  qed
qed

lemma fold_add_iconnection_typed:
  "typed_by done result \<Longrightarrow> single_typed done \<Longrightarrow>
     if single_typed (done @ cs) then (\<exists>r. fold_res add_iconnection cs result = Inr r)
     else fold_res add_iconnection cs result = Inl TypeError"
proof (induction cs arbitrary: "done" result)
  case (Cons c cs)
  note step = add_iconnection_typed [OF Cons.prems, of c]
  show ?case
  proof (cases "single_typed (done @ [c])")
    case True
    with step obtain r where r: "add_iconnection c result = Inr r" "typed_by (done @ [c]) r" by auto
    from Cons.IH [OF r(2) True] r(1) show ?thesis by simp
  next
    case False
    then have "\<not> single_typed (done @ c # cs)" by (auto simp: single_typed_def)
    with False step show ?thesis by simp
  qed
qed simp

lemma toIConnections_spec:
  "if single_typed (values_of (dg_connections g))
   then (\<exists>cs. toIConnections g = Inr cs \<and> wf_connections cs
          \<and> mset (all_connections cs) = image_mset tuple_of (mset (values_of (dg_connections g))))
   else toIConnections g = Inl TypeError"
proof -
  let ?cs = "values_of (dg_connections g)"
  have "typed_by [] []" "single_typed []" by (simp_all add: typed_by_def single_typed_def)
  from fold_add_iconnection_typed [OF this, of ?cs]
  have t: "if single_typed ?cs then (\<exists>r. toIConnections g = Inr r) else toIConnections g = Inl TypeError"
    by (simp add: toIConnections_def)
  moreover have "wf_connections r \<and> mset (all_connections r) = image_mset tuple_of (mset ?cs)"
    if "toIConnections g = Inr r" for r
    using fold_add_iconnection [of "[]" ?cs r] that
    by (simp add: toIConnections_def wf_connections_def all_connections_def)
  ultimately show ?thesis by (auto split: if_splits)
qed

section \<open>From a workflow to a graph\<close>

definition graph_connection :: "Workflow \<Rightarrow> conn_tuple \<Rightarrow> GraphConnection" where
  "graph_connection w p = (case p of (s, t, i, c) \<Rightarrow>
     \<lparr>gc_from = the (getNode w s), gc_to = the (getNode w (conn_node c)), gc_type = t,
      gc_outputIndex = i, gc_inputIndex = conn_index c\<rparr>)"

text \<open>The sources and targets of the connections are nodes of the workflow.\<close>

definition closed_workflow :: "Workflow \<Rightarrow> bool" where
  "closed_workflow w \<longleftrightarrow> (\<forall>(s, m) \<in> set (connectionsBySourceNode w).
     getNode w s \<noteq> None \<and> (\<forall>(s', t, i, c) \<in> set (conns_of_node s m). getNode w (conn_node c) \<noteq> None))"

lemma node_in_getNode:
  assumes "wf_workflow w" and "dg_nodes g = wf_nodes w" and "getNode w k = Some node"
  shows "node_in g node"
  using assms getNode_name [OF assms(1,3)] by (simp add: node_in_def getNode_def)

lemma fold_add_workflow_connection:
  assumes wf: "wf_workflow w" and src: "getNode w s = Some source"
  shows "dg_nodes g = wf_nodes w \<Longrightarrow> \<forall>(s', t, i, c) \<in> set ps. s' = s \<and> getNode w (conn_node c) \<noteq> None \<Longrightarrow>
    fold_res (add_workflow_connection w source) ps g = Inr (fold set_connection (map (graph_connection w) ps) g)"
proof (induction ps arbitrary: g)
  case (Cons p ps)
  obtain t i c where p: "p = (s, t, i, c)" using Cons.prems(2) by (cases p) auto
  then obtain to where to: "getNode w (conn_node c) = Some to" using Cons.prems(2) by auto
  have "add_workflow_connection w source p g = Inr (set_connection (graph_connection w p) g)"
    using node_in_getNode [OF wf Cons.prems(1)] src to
    by (simp add: p add_workflow_connection_def graph_connection_def addConnection_def)
  with Cons show ?case by simp
qed simp

lemma fold_add_workflow_source:
  assumes wf: "wf_workflow w"
  shows "dg_nodes g = wf_nodes w \<Longrightarrow> \<forall>(s, m) \<in> set cs. getNode w s \<noteq> None
      \<and> (\<forall>(s', t, i, c) \<in> set (conns_of_node s m). getNode w (conn_node c) \<noteq> None) \<Longrightarrow>
    fold_res (add_workflow_source w) cs g
      = Inr (fold set_connection (map (graph_connection w) (all_connections cs)) g)"
proof (induction cs arbitrary: g)
  case (Cons p cs)
  obtain s m where p: "p = (s, m)" by (cases p)
  with Cons.prems obtain source where src: "getNode w s = Some source" by auto
  have "\<forall>(s', t, i, c) \<in> set (conns_of_node s m). s' = s \<and> getNode w (conn_node c) \<noteq> None"
    using Cons.prems(2) p by (auto dest: conns_of_node_name)
  from fold_add_workflow_connection [OF wf src Cons.prems(1) this]
  have "add_workflow_source w p g
      = Inr (fold set_connection (map (graph_connection w) (conns_of_node s m)) g)"
    by (simp add: add_workflow_source_def p src)
  with Cons p show ?case by (simp add: all_connections_def)
qed (simp add: all_connections_def)

lemma in_all_connectionsE:
  assumes "(s, t, i, c) \<in> set (all_connections cs)"
  obtains m where "(s, m) \<in> set cs" "(s, t, i, c) \<in> set (conns_of_node s m)"
proof -
  from assms obtain s' m where "(s', m) \<in> set cs" "(s, t, i, c) \<in> set (conns_of_node s' m)"
    unfolding all_connections_concat by auto
  with conns_of_node_name show thesis using that by blast
qed

lemma closed_workflowD:
  assumes "closed_workflow w" and "(s, t, i, c) \<in> set (all_connections (connectionsBySourceNode w))"
  shows "getNode w s \<noteq> None" "getNode w (conn_node c) \<noteq> None"
proof -
  from assms(2) obtain m where "(s, m) \<in> set (connectionsBySourceNode w)" "(s, t, i, c) \<in> set (conns_of_node s m)"
    by (rule in_all_connectionsE)
  with assms(1) show "getNode w s \<noteq> None" "getNode w (conn_node c) \<noteq> None"
    unfolding closed_workflow_def by blast+
qed

lemma fromWorkflow_spec:
  assumes wf: "wf_workflow w" and closed: "closed_workflow w"
  shows "\<exists>g. fromWorkflow w = Inr g \<and> wf_graph g \<and> dg_nodes g = wf_nodes w
    \<and> ((\<forall>k node. getNode w k = Some node \<longrightarrow> dashless node) \<longrightarrow>
        edges g = graph_connection w ` set (all_connections (connectionsBySourceNode w)))"
proof -
  let ?g = "\<lparr>dg_nodes = wf_nodes w, dg_connections = []\<rparr>"
  let ?cs = "map (graph_connection w) (all_connections (connectionsBySourceNode w))"
  have keyed: "keyed_by_name (wf_nodes w)" using wf by (simp add: wf_workflow_def)
  have "fromWorkflow w = Inr (fold set_connection ?cs ?g)"
    using fold_add_workflow_source [OF wf, of ?g "connectionsBySourceNode w"] closed
    by (simp add: fromWorkflow_def addNodes_keyed [OF keyed] closed_workflow_def)
  moreover have wfg: "wf_graph ?g" using keyed by (simp add: wf_graph_def)
  moreover have ends: "node_in ?g (gc_from c) \<and> node_in ?g (gc_to c)" if "c \<in> set ?cs" for c
  proof -
    from that obtain s t i k where c: "c = graph_connection w (s, t, i, k)"
      and k: "(s, t, i, k) \<in> set (all_connections (connectionsBySourceNode w))" by auto
    from closed_workflowD [OF closed k] obtain a b where "getNode w s = Some a" "getNode w (conn_node k) = Some b"
      by auto
    then show ?thesis using node_in_getNode [OF wf, of ?g] by (simp add: c graph_connection_def)
  qed
  moreover have "wf_graph (fold set_connection ?cs ?g)"
    by (rule wf_fold_set_connection [OF wfg]) (use ends in blast)
  moreover have "edges (fold set_connection ?cs ?g) = graph_connection w ` set (all_connections (connectionsBySourceNode w))"
    if "\<forall>k node. getNode w k = Some node \<longrightarrow> dashless node"
  proof -
    have "\<forall>n. node_in ?g n \<longrightarrow> dashless n" using that by (auto simp: node_in_def getNode_def)
    from edges_fold_set_connection_dashless [OF wfg _ this, of ?cs] ends show ?thesis by simp
  qed
  ultimately show ?thesis by auto
qed

text \<open>
  There and back: the connections survive, their type now being that of the output (the type of the
  input is dropped by \<open>fromWorkflow\<close>).
\<close>

fun output_typed :: "conn_tuple \<Rightarrow> conn_tuple" where
  "output_typed (s, t, i, c) = (s, t, i, c\<lparr>conn_type := t\<rparr>)"

lemma tuple_of_graph_connection:
  assumes "wf_workflow w" and "getNode w s \<noteq> None" and "getNode w (conn_node c) \<noteq> None"
  shows "tuple_of (graph_connection w (s, t, i, c)) = output_typed (s, t, i, c)"
  using assms getNode_name [OF assms(1)] by (cases c) (auto simp: graph_connection_def)

lemma fromWorkflow_toIConnections:
  assumes wf: "wf_workflow w" and closed: "closed_workflow w"
    and names: "\<forall>k node. getNode w k = Some node \<longrightarrow> dashless node"
    and g: "fromWorkflow w = Inr g" and cs: "toIConnections g = Inr cs"
  shows "set (all_connections cs) = output_typed ` set (all_connections (connectionsBySourceNode w))"
proof -
  from fromWorkflow_spec [OF wf closed] g names
  have e: "edges g = graph_connection w ` set (all_connections (connectionsBySourceNode w))" by auto
  from toIConnections_spec [of g] cs
  have "mset (all_connections cs) = image_mset tuple_of (mset (values_of (dg_connections g)))"
    by (auto split: if_splits)
  from arg_cong [OF this, of set_mset] have "set (all_connections cs) = tuple_of ` edges g" by simp
  also have "\<dots> = (\<lambda>p. tuple_of (graph_connection w p)) ` set (all_connections (connectionsBySourceNode w))"
    unfolding e image_image ..
  also have "\<dots> = output_typed ` set (all_connections (connectionsBySourceNode w))"
  proof (rule image_cong [OF refl])
    fix p assume p: "p \<in> set (all_connections (connectionsBySourceNode w))"
    obtain s t i c where q: "p = (s, t, i, c)" by (cases p)
    from closed_workflowD [OF closed p [unfolded q]]
    have "getNode w s \<noteq> None" "getNode w (conn_node c) \<noteq> None" .
    from tuple_of_graph_connection [OF wf this] q show "tuple_of (graph_connection w p) = output_typed p"
      by (simp only:)
  qed
  finally show ?thesis .
qed

section \<open>Properties\<close>

lemma example_dashless: "node_in example_graph m \<Longrightarrow> dashless m"
  by (auto simp: dashless_def example_nodes_defs)

text \<open>
  a copy of a well-formed graph never fails and is the same graph, with its nodes and
  connections in the same order.
\<close>

theorem clone_is_equal:
  assumes "wf_graph g"
  shows "clone g = Inr g"
  using assms by (rule clone_same)

theorem clone_is_equal_witness: "clone example_graph = Inr example_graph"
  by (rule clone_is_equal [OF wf_example_graph])

text \<open>
  removing a node keeps the graph well formed, and leaves all other nodes and exactly the
  connections that do not touch the node.
\<close>

theorem removeNode_exact:
  assumes "wf_graph g" and "node_in g node"
  shows "wf_graph (removeNode node g)
    \<and> edges (removeNode node g) = {c \<in> edges g. gc_to c \<noteq> node \<and> gc_from c \<noteq> node}
    \<and> (\<forall>m. node_in (removeNode node g) m \<longleftrightarrow> m \<noteq> node \<and> node_in g m)"
  using removeNode_graph [OF assms] by blast

theorem removeNode_exact_witness:
  "wf_graph (removeNode node_A example_graph) \<and> edges (removeNode node_A example_graph) = {}"
  using removeNode_exact [OF wf_example_graph, of node_A] unfolding edges_example_graph by auto

text \<open>
  removing a node that has no connection to itself while reconnecting keeps the graph well formed
  and keeps, for all other nodes, which can be reached from which.
\<close>

theorem removeNode_reconnect_keeps_reachability:
  assumes "wf_graph g" and "node_in g node" and "\<not> self_loop g node"
    and "\<forall>m. node_in g m \<longrightarrow> dashless m"
  shows "\<exists>g' new. removeNode_reconnect (\<lambda>_. False) node g = Inr (g', new) \<and> wf_graph g'
    \<and> (\<forall>a b. a \<noteq> node \<and> b \<noteq> node \<longrightarrow> (a, b) \<in> (dg_rel g')\<^sup>+ \<longleftrightarrow> (a, b) \<in> (dg_rel g)\<^sup>+)"
proof -
  obtain g' new where r: "removeNode_reconnect (\<lambda>_. False) node g = Inr (g', new)"
    using removeNode_reconnect_result [OF assms(2)] by metis
  from removeNode_reconnect_graph(1) [OF assms(1-3) r] removeNode_reconnect_reachable [OF assms r] r
  show ?thesis by blast
qed

theorem removeNode_reconnect_keeps_reachability_witness:
  "\<exists>g' new. removeNode_reconnect (\<lambda>_. False) node_A example_graph = Inr (g', new)
    \<and> (node_T, node_B) \<in> (dg_rel g')\<^sup>+"
proof -
  have "\<not> self_loop example_graph node_A" by (auto simp: self_loop_def example_nodes_defs)
  from removeNode_reconnect_keeps_reachability [OF wf_example_graph _ this] example_dashless
  obtain g' new where "removeNode_reconnect (\<lambda>_. False) node_A example_graph = Inr (g', new)"
    "\<forall>a b. a \<noteq> node_A \<and> b \<noteq> node_A \<longrightarrow> (a, b) \<in> (dg_rel g')\<^sup>+ \<longleftrightarrow> (a, b) \<in> (dg_rel example_graph)\<^sup>+"
    by auto
  moreover have "(node_T, node_B) \<in> (dg_rel example_graph)\<^sup>+"
    by (rule trancl_into_trancl [of _ node_A]) auto
  moreover have "node_T \<noteq> node_A" "node_B \<noteq> node_A" by (simp_all add: example_nodes_defs)
  ultimately show ?thesis by blast
qed

text \<open>
  removing a node that is connected to itself while reconnecting can leave a connection that
  starts at the removed node, so that the graph is not well formed any more.
\<close>

theorem removeNode_reconnect_dangling:
  "\<exists>g node g' new. wf_graph g \<and> node_in g node
    \<and> removeNode_reconnect (\<lambda>_. False) node g = Inr (g', new) \<and> \<not> wf_graph g'"
proof -
  let ?g = "graph_of [node_A, node_B] [edge node_A node_A, edge node_A node_B]"
  have wf: "wf_graph ?g" by (rule wf_graph_of) (simp_all add: example_nodes_defs)
  have n: "node_in ?g node_A" by (subst node_in_graph_of) (simp_all add: example_nodes_defs)
  obtain new where new: "removeNode_reconnect (\<lambda>_. False) node_A ?g
      = Inr (delete_node node_A (fold set_connection new (delete_connections_of node_A ?g)), new)"
    "set new = bypasses ?g (\<lambda>_. False) node_A" by (rule removeNode_reconnect_result [OF n])
  let ?g' = "delete_node node_A (fold set_connection new (delete_connections_of node_A ?g))"
  have "bypass (edge node_A node_A) (edge node_A node_B) \<in> set new"
    unfolding new(2) bypasses_def edges_graph_of by force
  then obtain c cs where "new = cs @ [c]" using rev_exhaust by (metis empty_iff list.set(1))
  moreover from this new(2) have "c \<in> bypasses ?g (\<lambda>_. False) node_A" by auto
  then have "gc_from c = node_A" unfolding bypasses_def edges_graph_of by auto
  moreover have "v \<in> set (values_of (AList.update k v xs))" for k v and xs :: "(string \<times> GraphConnection) list"
    by (induction xs) auto
  ultimately have "c \<in> edges ?g'" "gc_from c = node_A" by (simp_all add: set_connection_def del: set_map)
  moreover have "\<not> node_in ?g' node_A" by (simp add: node_in_delete_node)
  ultimately have "\<not> wf_graph ?g'" using wf_graphD(1) [of ?g' c] by auto
  with wf n new(1) show ?thesis by blast
qed

text \<open>
  the conversion of a graph to connections loses nothing: if the connections of each source have
  one type it succeeds with exactly the connections of the graph. Otherwise it stops with a
  \<open>TypeError\<close>.
\<close>

theorem toIConnections_exact:
  "if single_typed (values_of (dg_connections g))
   then (\<exists>cs. toIConnections g = Inr cs \<and> wf_connections cs
          \<and> mset (all_connections cs) = image_mset tuple_of (mset (values_of (dg_connections g))))
   else toIConnections g = Inl TypeError"
  by (rule toIConnections_spec)

text \<open>
  the conversion of a workflow whose connections join existing nodes never fails and gives a
  well-formed graph with the nodes of the workflow; with dashless names it has exactly the
  connections of the workflow.
\<close>

theorem fromWorkflow_exact:
  assumes "wf_workflow w" and "closed_workflow w"
  shows "\<exists>g. fromWorkflow w = Inr g \<and> wf_graph g \<and> dg_nodes g = wf_nodes w
    \<and> ((\<forall>k node. getNode w k = Some node \<longrightarrow> dashless node) \<longrightarrow>
        edges g = graph_connection w ` set (all_connections (connectionsBySourceNode w)))"
  using assms by (rule fromWorkflow_spec)

lemma closed_example_workflow: "closed_workflow example_workflow"
  by (simp add: closed_workflow_def example_simps example_connections_def main_to_def conns_of_node_def
      conns_of_lists_def)

theorem fromWorkflow_exact_witness:
  "\<exists>g. fromWorkflow example_workflow = Inr g \<and> wf_graph g \<and> dg_nodes g = wf_nodes example_workflow"
  using fromWorkflow_exact [OF wf_example_workflow closed_example_workflow] by blast

text \<open>
  a workflow converted to a graph and back has the same connections, except that each has the
  type of its output on both ends.
\<close>

theorem fromWorkflow_toIConnections_roundtrip:
  assumes "wf_workflow w" and "closed_workflow w"
    and "\<forall>k node. getNode w k = Some node \<longrightarrow> dashless node"
    and "fromWorkflow w = Inr g" and "toIConnections g = Inr cs"
  shows "set (all_connections cs) = output_typed ` set (all_connections (connectionsBySourceNode w))"
  using assms by (rule fromWorkflow_toIConnections)

theorem fromWorkflow_toIConnections_roundtrip_witness:
  "\<exists>g cs. fromWorkflow example_workflow = Inr g \<and> toIConnections g = Inr cs
    \<and> set (all_connections cs) = set (all_connections example_connections)"
proof -
  from fromWorkflow_spec [OF wf_example_workflow closed_example_workflow] obtain g where
    g: "fromWorkflow example_workflow = Inr g" "(\<forall>k node. getNode example_workflow k = Some node \<longrightarrow> dashless node) \<longrightarrow>
        edges g = graph_connection example_workflow ` set (all_connections example_connections)"
    by (auto simp: example_connectionsBySourceNode)
  have names: "\<forall>k node. getNode example_workflow k = Some node \<longrightarrow> dashless node"
    by (auto simp: example_simps dashless_def split: if_splits)
  with g(2) have "single_typed (values_of (dg_connections g))"
    unfolding single_typed_def by (simp add: example_simps graph_connection_def del: set_map)
  with toIConnections_spec [of g] obtain cs where cs: "toIConnections g = Inr cs" by auto
  from fromWorkflow_toIConnections_roundtrip [OF wf_example_workflow closed_example_workflow names g(1) cs]
  have "set (all_connections cs) = set (all_connections example_connections)"
    by (simp add: example_simps)
  with g(1) cs show ?thesis by blast
qed

end
