(* ===== verification/StronglyConnected.thy ===== *)
theory StronglyConnected
  imports GraphEdit
begin

text \<open>
  \<open>DirectedGraph.getStronglyConnectedComponents\<close>: the code's version of Tarjan's algorithm. It is
  shown to end without a failed assertion, and to return disjoint sets each of which lies within one
  strongly connected component. It does not find all components: an example at the end shows a cycle
  it misses.
\<close>

section \<open>The algorithm\<close>

text \<open>The variables the closure \<open>followNode\<close> shares. The stack has its top first.\<close>

record tarjan =
  tj_id :: nat
  tj_visited :: "INode list"
  tj_ids :: "(INode \<times> nat) list"
  tj_low :: "(INode \<times> nat) list"
  tj_stack :: "INode list"
  tj_sccs :: "INode list list"

definition enter_node :: "INode \<Rightarrow> tarjan \<Rightarrow> tarjan" where
  "enter_node node st = st\<lparr>
     tj_visited := tj_visited st @ [node],
     tj_low := AList.update node (tj_id st) (tj_low st),
     tj_ids := AList.update node (tj_id st) (tj_ids st),
     tj_id := tj_id st + 1,
     tj_stack := node # tj_stack st\<rparr>"

text \<open>After a child has been followed: the smaller low link, if the child is on the stack.\<close>

definition lower_link :: "INode \<Rightarrow> INode \<Rightarrow> tarjan \<Rightarrow> tarjan res" where
  "lower_link node child st =
     (if child \<in> set (tj_stack st) then
        (case map_of (tj_low st) child of
           None \<Rightarrow> Inl AssertionError
         | Some childLowLinkValue \<Rightarrow>
             (case map_of (tj_low st) node of
                None \<Rightarrow> Inl AssertionError
              | Some ownLowLinkValue \<Rightarrow>
                  Inr (st\<lparr>tj_low := AList.update node (min childLowLinkValue ownLowLinkValue) (tj_low st)\<rparr>)))
      else Inr st)"

text \<open>Popping: until the stack is empty or its top has another low link.\<close>

fun pop_component :: "(INode \<times> nat) list \<Rightarrow> nat \<Rightarrow> INode list \<Rightarrow> INode list \<Rightarrow> INode list \<times> INode list" where
  "pop_component low ownId [] scc = (scc, [])"
| "pop_component low ownId (x # stack) scc =
     (if map_of low x = Some ownId then pop_component low ownId stack (set_add x scc)
      else (scc, x # stack))"

definition close_component :: "INode \<Rightarrow> tarjan \<Rightarrow> tarjan res" where
  "close_component node st =
     (case map_of (tj_ids st) node of
        None \<Rightarrow> Inl AssertionError
      | Some ownId \<Rightarrow>
          (case map_of (tj_low st) node of
             None \<Rightarrow> Inl AssertionError
           | Some ownLowLinkValue \<Rightarrow>
               if ownId = ownLowLinkValue then
                 (let (scc, stack) = pop_component (tj_low st) ownId (tj_stack st) []
                  in Inr (st\<lparr>tj_stack := stack,
                       tj_sccs := (if length scc > 0 then tj_sccs st @ [scc] else tj_sccs st)\<rparr>))
               else Inr st))"

function (sequential)
  followNode :: "DirectedGraph \<Rightarrow> INode \<Rightarrow> tarjan \<Rightarrow> tarjan res"
and
  follow_children :: "DirectedGraph \<Rightarrow> INode \<Rightarrow> INode list \<Rightarrow> tarjan \<Rightarrow> tarjan res"
where
  "followNode g node st =
     (if node \<in> set (tj_visited st) then Inr st
      else bind_res (getDirectChildConnections g node) (\<lambda>cs.
        bind_res (follow_children g node (map gc_to cs) (enter_node node st)) (\<lambda>st'.
          close_component node st')))"
| "follow_children g node [] st = Inr st"
| "follow_children g node (child # rest) st =
     bind_res (followNode g child st) (\<lambda>st1.
       bind_res (lower_link node child st1) (\<lambda>st2.
         follow_children g node rest st2))"
  by pat_completeness auto

lemma lower_link_visited: "lower_link node child st = Inr st' \<Longrightarrow> tj_visited st' = tj_visited st"
  by (auto simp: lower_link_def split: if_splits option.splits)

lemma close_component_visited: "close_component node st = Inr st' \<Longrightarrow> tj_visited st' = tj_visited st"
  by (auto simp: close_component_def Let_def split: if_splits option.splits prod.splits)

lemma followNode_grows:
  "followNode_follow_children_dom (Inl (g, n, st)) \<Longrightarrow>
     followNode g n st = Inr st' \<Longrightarrow> set (tj_visited st) \<subseteq> set (tj_visited st')"
  "followNode_follow_children_dom (Inr (g, n, cs, st)) \<Longrightarrow>
     follow_children g n cs st = Inr st' \<Longrightarrow> set (tj_visited st) \<subseteq> set (tj_visited st')"
proof (induction g n st and g n cs st arbitrary: st' and st' rule: followNode_follow_children.pinduct)
  case (1 g n st)
  show ?case
  proof (cases "n \<in> set (tj_visited st)")
    case False
    with "1.prems" obtain cs st1 where cs: "getDirectChildConnections g n = Inr cs"
      and st1: "follow_children g n (map gc_to cs) (enter_node n st) = Inr st1" "close_component n st1 = Inr st'"
      unfolding followNode.psimps [OF 1(1)] by (auto simp: bind_res_Inr_iff)
    from 1(2) [OF False cs st1(1)] close_component_visited [OF st1(2)] show ?thesis
      by (simp add: enter_node_def)
  qed (use "1.prems" followNode.psimps [OF 1(1)] in auto)
next
  case (2 g n st)
  then show ?case by (simp add: follow_children.psimps)
next
  case (3 g n child rest st)
  from "3.prems" obtain st1 st2 where s: "followNode g child st = Inr st1" "lower_link n child st1 = Inr st2"
    "follow_children g n rest st2 = Inr st'"
    unfolding follow_children.psimps(2) [OF 3(1)] by (auto simp: bind_res_Inr_iff)
  from 3(2) [OF s(1)] lower_link_visited [OF s(2)] 3(3) [OF s] show ?case by simp
qed

termination followNode
proof (relation "inv_image search_order
    (\<lambda>x. case x of
       Inl (g, n, st) \<Rightarrow> (remaining (values_of (dg_nodes g)) (tj_visited st), 0)
     | Inr (g, n, cs, st) \<Rightarrow> (remaining (values_of (dg_nodes g)) (tj_visited st), Suc (length cs)))", goal_cases)
  case (2 g n st cs)
  then have "n \<in> set (values_of (dg_nodes g))"
    by (force simp: getDirectChildConnections_def node_in_def split: if_splits dest: map_of_SomeD)
  with 2 show ?case by (auto simp: enter_node_def intro!: search_orderI(1) remaining_less)
next
  case (4 g n child rest st st1 st2)
  then have "set (tj_visited st) \<subseteq> set (tj_visited st2)"
    using followNode_grows(1) lower_link_visited by metis
  then show ?case by (auto intro!: search_orderI(2) remaining_le)
qed (auto intro: search_orderI wf_search_order)

definition initial_tarjan :: tarjan where
  "initial_tarjan = \<lparr>tj_id = 0, tj_visited = [], tj_ids = [], tj_low = [], tj_stack = [], tj_sccs = []\<rparr>"

definition getStronglyConnectedComponents :: "DirectedGraph \<Rightarrow> INode list list res" where
  "getStronglyConnectedComponents g =
     bind_res (fold_res (followNode g) (values_of (dg_nodes g)) initial_tarjan) (\<lambda>st. Inr (tj_sccs st))"

section \<open>The invariant\<close>

text \<open>
  Every visited node has an id of its own and a low link that is the id of a node it leads to, not
  greater than its own; the components found are disjoint and strongly connected.
\<close>

definition mutually_reachable :: "DirectedGraph \<Rightarrow> INode set \<Rightarrow> bool" where
  "mutually_reachable g S \<longleftrightarrow> (\<forall>a \<in> S. \<forall>b \<in> S. (a, b) \<in> (dg_rel g)\<^sup>*)"

definition ids_ok :: "tarjan \<Rightarrow> bool" where
  "ids_ok st \<longleftrightarrow> (\<forall>x \<in> set (tj_visited st). \<exists>i. map_of (tj_ids st) x = Some i \<and> i < tj_id st)
     \<and> (\<forall>x \<in> set (tj_visited st). \<forall>y \<in> set (tj_visited st).
          map_of (tj_ids st) x = map_of (tj_ids st) y \<longrightarrow> x = y)"

definition low_ok :: "DirectedGraph \<Rightarrow> tarjan \<Rightarrow> bool" where
  "low_ok g st \<longleftrightarrow> (\<forall>x \<in> set (tj_visited st). \<exists>i l y. map_of (tj_ids st) x = Some i
     \<and> map_of (tj_low st) x = Some l \<and> l \<le> i
     \<and> y \<in> set (tj_visited st) \<and> map_of (tj_ids st) y = Some l \<and> (x, y) \<in> (dg_rel g)\<^sup>*)"

definition sccs_ok :: "DirectedGraph \<Rightarrow> tarjan \<Rightarrow> bool" where
  "sccs_ok g st \<longleftrightarrow> distinct (tj_stack st @ concat (tj_sccs st))
     \<and> set (tj_stack st @ concat (tj_sccs st)) \<subseteq> set (tj_visited st)
     \<and> (\<forall>S \<in> set (tj_sccs st). S \<noteq> [] \<and> mutually_reachable g (set S))"

definition tarjan_inv :: "DirectedGraph \<Rightarrow> tarjan \<Rightarrow> bool" where
  "tarjan_inv g st \<longleftrightarrow> ids_ok st \<and> low_ok g st \<and> sccs_ok g st
     \<and> (\<forall>x \<in> set (tj_visited st). node_in g x)"

text \<open>What following nodes changes: only new nodes are added, on top of the stack.\<close>

definition follows :: "DirectedGraph \<Rightarrow> INode set \<Rightarrow> INode set \<Rightarrow> tarjan \<Rightarrow> tarjan \<Rightarrow> bool" where
  "follows g from own st st' \<longleftrightarrow> set (tj_visited st) \<subseteq> set (tj_visited st')
     \<and> set (tj_visited st') - set (tj_visited st) \<subseteq> (dg_rel g)\<^sup>* `` from
     \<and> (\<exists>new. tj_stack st' = new @ tj_stack st \<and> set new \<inter> set (tj_visited st) = {})
     \<and> (\<forall>x \<in> set (tj_visited st). map_of (tj_ids st') x = map_of (tj_ids st) x)
     \<and> (\<forall>x \<in> set (tj_visited st) - own. map_of (tj_low st') x = map_of (tj_low st) x)"

lemma follows_refl: "follows g F own st st"
  by (auto simp: follows_def)

lemma follows_trans:
  assumes "follows g F own st st'" and "follows g G own st' st''"
  shows "follows g (F \<union> G) own st st''"
proof -
  from assms obtain new new' where "tj_stack st' = new @ tj_stack st" "set new \<inter> set (tj_visited st) = {}"
    "tj_stack st'' = new' @ tj_stack st'" "set new' \<inter> set (tj_visited st') = {}"
    and sub: "set (tj_visited st) \<subseteq> set (tj_visited st')"
    unfolding follows_def by blast
  then have "tj_stack st'' = (new' @ new) @ tj_stack st" "set (new' @ new) \<inter> set (tj_visited st) = {}"
    by auto
  then have "\<exists>n. tj_stack st'' = n @ tj_stack st \<and> set n \<inter> set (tj_visited st) = {}" by blast
  moreover have "set (tj_visited st'') - set (tj_visited st) \<subseteq> (dg_rel g)\<^sup>* `` (F \<union> G)"
    using assms unfolding follows_def by blast
  moreover have "map_of (tj_ids st'') x = map_of (tj_ids st) x
      \<and> (x \<notin> own \<longrightarrow> map_of (tj_low st'') x = map_of (tj_low st) x)" if "x \<in> set (tj_visited st)" for x
  proof -
    from that sub have "x \<in> set (tj_visited st')" by blast
    with that assms show ?thesis unfolding follows_def by simp
  qed
  moreover have "set (tj_visited st) \<subseteq> set (tj_visited st'')" using assms unfolding follows_def by blast
  ultimately show ?thesis unfolding follows_def by blast
qed

lemma follows_mono:
  "follows g F own st st' \<Longrightarrow> F \<subseteq> (dg_rel g)\<^sup>* `` G \<Longrightarrow> own \<subseteq> own' \<Longrightarrow> follows g G own' st st'"
  unfolding follows_def by (blast intro: rtrancl_trans)

lemma enter_node_inv:
  assumes inv: "tarjan_inv g st" and n: "n \<notin> set (tj_visited st)" "node_in g n"
  shows "tarjan_inv g (enter_node n st)"
proof -
  let ?st = "enter_node n st"
  have ids: "map_of (tj_ids ?st) x = (if x = n then Some (tj_id st) else map_of (tj_ids st) x)"
    and low: "map_of (tj_low ?st) x = (if x = n then Some (tj_id st) else map_of (tj_low st) x)" for x
    by (simp_all add: enter_node_def update_conv')
  have vis: "set (tj_visited ?st) = insert n (set (tj_visited st))"
    and [simp]: "tj_id ?st = Suc (tj_id st)" "tj_stack ?st = n # tj_stack st" "tj_sccs ?st = tj_sccs st"
    by (auto simp: enter_node_def)
  have io: "ids_ok st" and lo: "low_ok g st" and so: "sccs_ok g st" using inv by (simp_all add: tarjan_inv_def)
  have "ids_ok ?st"
  proof -
    have "\<exists>i. map_of (tj_ids ?st) x = Some i \<and> i < tj_id ?st" if "x \<in> set (tj_visited ?st)" for x
      using that io n unfolding ids vis ids_ok_def by (auto intro: less_SucI)
    moreover have "x = y" if "x \<in> set (tj_visited ?st)" "y \<in> set (tj_visited ?st)"
      "map_of (tj_ids ?st) x = map_of (tj_ids ?st) y" for x y
    proof (cases "x = n \<or> y = n")
      case True
      have "map_of (tj_ids st) z \<noteq> Some (tj_id st)" if "z \<in> set (tj_visited st)" for z
        using io that unfolding ids_ok_def by fastforce
      with True \<open>x \<in> _\<close> \<open>y \<in> _\<close> that(3) show ?thesis unfolding ids vis by (metis insertE)
    next
      case False
      with that io show ?thesis unfolding ids vis ids_ok_def by auto
    qed
    ultimately show ?thesis unfolding ids_ok_def by blast
  qed
  moreover have "low_ok g ?st"
    unfolding low_ok_def
  proof
    fix x assume x: "x \<in> set (tj_visited ?st)"
    show "\<exists>i l y. map_of (tj_ids ?st) x = Some i \<and> map_of (tj_low ?st) x = Some l \<and> l \<le> i
      \<and> y \<in> set (tj_visited ?st) \<and> map_of (tj_ids ?st) y = Some l \<and> (x, y) \<in> (dg_rel g)\<^sup>*"
    proof (cases "x = n")
      case True
      then show ?thesis unfolding ids low vis by auto
    next
      case False
      with x have "x \<in> set (tj_visited st)" by (simp add: vis)
      with lo obtain i l y where "map_of (tj_ids st) x = Some i" "map_of (tj_low st) x = Some l" "l \<le> i"
        "y \<in> set (tj_visited st)" "map_of (tj_ids st) y = Some l" "(x, y) \<in> (dg_rel g)\<^sup>*"
        unfolding low_ok_def by blast
      moreover from this n have "y \<noteq> n" by auto
      ultimately show ?thesis unfolding ids low vis using False by auto
    qed
  qed
  moreover have "sccs_ok g ?st" using so n by (auto simp: sccs_ok_def vis)
  ultimately show ?thesis using inv n by (simp add: tarjan_inv_def vis)
qed

lemma lower_link_inv:
  assumes inv: "tarjan_inv g st" and vis: "node \<in> set (tj_visited st)" "child \<in> set (tj_visited st)"
    and rel: "(node, child) \<in> dg_rel g"
  shows "\<exists>st'. lower_link node child st = Inr st' \<and> tarjan_inv g st' \<and> follows g {} {node} st st'"
proof (cases "child \<in> set (tj_stack st)")
  case False
  then show ?thesis using inv by (auto simp: lower_link_def follows_refl)
next
  case True
  have lo: "low_ok g st" using inv by (simp add: tarjan_inv_def)
  from lo vis(2) obtain ic lc yc where c: "map_of (tj_low st) child = Some lc"
    "yc \<in> set (tj_visited st)" "map_of (tj_ids st) yc = Some lc" "(child, yc) \<in> (dg_rel g)\<^sup>*"
    unfolding low_ok_def by blast
  from lo vis(1) obtain i l y where o: "map_of (tj_ids st) node = Some i" "map_of (tj_low st) node = Some l" "l \<le> i"
    "y \<in> set (tj_visited st)" "map_of (tj_ids st) y = Some l" "(node, y) \<in> (dg_rel g)\<^sup>*"
    unfolding low_ok_def by blast
  let ?st = "st\<lparr>tj_low := AList.update node (min lc l) (tj_low st)\<rparr>"
  have call: "lower_link node child st = Inr ?st" using True c(1) o(2) by (simp add: lower_link_def)
  have low: "map_of (tj_low ?st) x = (if x = node then Some (min lc l) else map_of (tj_low st) x)" for x
    by (simp add: update_conv')
  have "\<exists>z \<in> set (tj_visited st). map_of (tj_ids st) z = Some (min lc l) \<and> (node, z) \<in> (dg_rel g)\<^sup>*"
  proof (cases "lc \<le> l")
    case True
    then show ?thesis using c rel by (auto simp: min_def intro: converse_rtrancl_into_rtrancl)
  next
    case False
    then show ?thesis using o by (auto simp: min_def)
  qed
  then obtain z where z: "z \<in> set (tj_visited st)" "map_of (tj_ids st) z = Some (min lc l)"
    "(node, z) \<in> (dg_rel g)\<^sup>*" by blast
  have le: "min lc l \<le> i" using o(3) by simp
  have "low_ok g ?st"
    unfolding low_ok_def low
  proof
    fix x assume x: "x \<in> set (tj_visited ?st)"
    show "\<exists>j m y. map_of (tj_ids ?st) x = Some j
      \<and> (if x = node then Some (min lc l) else map_of (tj_low st) x) = Some m \<and> m \<le> j
      \<and> y \<in> set (tj_visited ?st) \<and> map_of (tj_ids ?st) y = Some m \<and> (x, y) \<in> (dg_rel g)\<^sup>*"
    proof (cases "x = node")
      case True
      with o(1) le z show ?thesis by auto
    next
      case False
      with lo x show ?thesis unfolding low_ok_def by simp
    qed
  qed
  with inv have "tarjan_inv g ?st" by (simp add: tarjan_inv_def ids_ok_def sccs_ok_def)
  moreover have "follows g {} {node} st ?st" by (auto simp: follows_def update_conv')
  ultimately show ?thesis using call by blast
qed

lemma pop_component_split:
  "pop_component low k xs acc = (acc', ys) \<Longrightarrow>
     \<exists>ps. xs = ps @ ys \<and> set acc' = set acc \<union> set ps \<and> (\<forall>x \<in> set ps. map_of low x = Some k)
       \<and> (distinct acc \<longrightarrow> distinct acc')"
proof (induction low k xs acc rule: pop_component.induct)
  case (2 low k x stack scc)
  show ?case
  proof (cases "map_of low x = Some k")
    case True
    with 2 obtain ps where "stack = ps @ ys" "set acc' = set (set_add x scc) \<union> set ps"
      "\<forall>x \<in> set ps. map_of low x = Some k" "distinct (set_add x scc) \<longrightarrow> distinct acc'" by auto
    with True show ?thesis by (intro exI [of _ "x # ps"]) auto
  qed (use 2 in auto)
qed simp

lemma close_component_inv:
  assumes inv: "tarjan_inv g st" and node: "node \<in> set (tj_visited st)" "map_of (tj_ids st) node = Some k"
    and stack: "tj_stack st = S @ node # rest"
    and S: "\<forall>x \<in> set S. (node, x) \<in> (dg_rel g)\<^sup>*"
    and rest: "\<forall>x \<in> set rest. \<exists>l < k. map_of (tj_low st) x = Some l"
  shows "\<exists>st' S'. close_component node st = Inr st' \<and> tarjan_inv g st' \<and> tj_visited st' = tj_visited st
    \<and> tj_ids st' = tj_ids st \<and> tj_low st' = tj_low st
    \<and> tj_stack st' = S' @ rest \<and> set S' \<subseteq> insert node (set S)"
proof -
  have io: "ids_ok st" and lo: "low_ok g st" and so: "sccs_ok g st" using inv by (simp_all add: tarjan_inv_def)
  from lo node obtain l where l: "map_of (tj_low st) node = Some l" unfolding low_ok_def by blast
  show ?thesis
  proof (cases "l = k")
    case False
    with l node(2) have "close_component node st = Inr st" by (simp add: close_component_def)
    with inv stack show ?thesis by (intro exI [of _ st] exI [of _ "S @ [node]"]) simp
  next
    case True
    obtain scc ys where pop: "pop_component (tj_low st) k (tj_stack st) [] = (scc, ys)" by fastforce
    from pop_component_split [OF this] obtain ps where ps: "tj_stack st = ps @ ys" "set scc = set ps"
      "\<forall>x \<in> set ps. map_of (tj_low st) x = Some k" "distinct scc" by auto
    have "\<exists>us. S @ [node] = ps @ us \<and> ys = us @ rest"
    proof -
      have "(S @ [node]) @ rest = ps @ ys" using stack ps(1) by simp
      then obtain us where us: "S @ [node] = ps @ us \<and> us @ rest = ys \<or> (S @ [node]) @ us = ps \<and> rest = us @ ys"
        unfolding append_eq_append_conv2 by blast
      show ?thesis
      proof (cases "S @ [node] = ps @ us \<and> us @ rest = ys")
        case False
        with us have "(S @ [node]) @ us = ps" "rest = us @ ys" by auto
        moreover have "us = []"
        proof (rule ccontr)
          assume "us \<noteq> []"
          then have "hd us \<in> set us" by simp
          with calculation have "hd us \<in> set ps" "hd us \<in> set rest" by auto
          with ps(3) rest show False by fastforce
        qed
        ultimately show ?thesis by auto
      qed auto
    qed
    then obtain us where us: "S @ [node] = ps @ us" "ys = us @ rest" by blast
    let ?st = "st\<lparr>tj_stack := ys, tj_sccs := (if length scc > 0 then tj_sccs st @ [scc] else tj_sccs st)\<rparr>"
    have call: "close_component node st = Inr ?st" using l node(2) True pop by (simp add: close_component_def)
    have "set ps \<subseteq> set (S @ [node])" unfolding us(1) by auto
    then have to: "(node, x) \<in> (dg_rel g)\<^sup>*" if "x \<in> set scc" for x using that S ps(2) by auto
    have "(x, node) \<in> (dg_rel g)\<^sup>*" if x: "x \<in> set scc" for x
    proof -
      from x ps so have xv: "x \<in> set (tj_visited st)" by (auto simp: sccs_ok_def)
      with lo ps(2,3) x obtain y where y: "y \<in> set (tj_visited st)" "map_of (tj_ids st) y = Some k"
        "(x, y) \<in> (dg_rel g)\<^sup>*" unfolding low_ok_def by (metis option.inject)
      with io node have "y = node" unfolding ids_ok_def by metis
      with y(3) show ?thesis by simp
    qed
    with to have mutual: "mutually_reachable g (set scc)"
      unfolding mutually_reachable_def by (blast intro: rtrancl_trans)
    have "sccs_ok g ?st"
    proof -
      have d: "distinct (ps @ ys @ concat (tj_sccs st))" "set (ps @ ys @ concat (tj_sccs st)) \<subseteq> set (tj_visited st)"
        using so ps(1) by (auto simp: sccs_ok_def)
      then have "distinct (ys @ concat (tj_sccs st) @ scc)" using ps(2,4) by auto
      moreover have "set (ys @ concat (tj_sccs st) @ scc) \<subseteq> set (tj_visited st)" using d(2) ps(2) by auto
      ultimately show ?thesis using so mutual by (auto simp: sccs_ok_def)
    qed
    with inv have "tarjan_inv g ?st" by (simp add: tarjan_inv_def ids_ok_def low_ok_def)
    moreover have "set us \<subseteq> set (S @ [node])" unfolding us(1) by auto
    ultimately show ?thesis using call us(2) by (intro exI [of _ ?st] exI [of _ us]) auto
  qed
qed

lemma followNode_inv:
  "wf_graph g \<Longrightarrow> node_in g n \<Longrightarrow> tarjan_inv g st \<Longrightarrow>
     \<exists>st'. followNode g n st = Inr st' \<and> tarjan_inv g st' \<and> follows g {n} {} st st' \<and> n \<in> set (tj_visited st')"
  "wf_graph g \<Longrightarrow> tarjan_inv g st \<Longrightarrow> n \<in> set (tj_visited st) \<Longrightarrow> set cs \<subseteq> dg_rel g `` {n} \<Longrightarrow>
     \<exists>st'. follow_children g n cs st = Inr st' \<and> tarjan_inv g st' \<and> follows g (set cs) {n} st st'"
proof (induction g n st and g n cs st rule: followNode_follow_children.induct)
  case (1 g n st)
  show ?case
  proof (cases "n \<in> set (tj_visited st)")
    case True
    with "1.prems" show ?thesis by (auto simp: follows_refl)
  next
    case False
    let ?cs = "filter (\<lambda>c. gc_from c = n) (values_of (dg_connections g))"
    let ?st1 = "enter_node n st"
    have cs: "getDirectChildConnections g n = Inr ?cs" using "1.prems"(2) by (simp add: getDirectChildConnections_def)
    have inv1: "tarjan_inv g ?st1" by (rule enter_node_inv [OF "1.prems"(3) False "1.prems"(2)])
    have vis1: "set (tj_visited ?st1) = insert n (set (tj_visited st))" by (simp add: enter_node_def)
    have R: "set (map gc_to ?cs) = dg_rel g `` {n}" unfolding dg_rel_image by simp
    from "1.IH" [OF False cs "1.prems"(1) inv1 _ eq_refl [OF R]] vis1 obtain st2 where
      st2: "follow_children g n (map gc_to ?cs) ?st1 = Inr st2" "tarjan_inv g st2"
      and f: "follows g (dg_rel g `` {n}) {n} ?st1 st2" unfolding R by auto
    from f obtain S where stack: "tj_stack st2 = S @ n # tj_stack st" and
      S: "set S \<inter> insert n (set (tj_visited st)) = {}"
      unfolding follows_def vis1 by (auto simp: enter_node_def)
    have sub: "insert n (set (tj_visited st)) \<subseteq> set (tj_visited st2)" using f unfolding follows_def vis1 by blast
    have new: "set (tj_visited st2) - insert n (set (tj_visited st)) \<subseteq> (dg_rel g)\<^sup>* `` {n}"
      using f unfolding follows_def vis1 by (blast intro: converse_rtrancl_into_rtrancl)
    have same: "map_of (tj_ids st2) x = map_of (tj_ids ?st1) x" "x \<noteq> n \<Longrightarrow> map_of (tj_low st2) x = map_of (tj_low ?st1) x"
      if "x \<in> insert n (set (tj_visited st))" for x
      using f that unfolding follows_def vis1 by auto
    have old: "map_of (tj_ids ?st1) x = map_of (tj_ids st) x" "map_of (tj_low ?st1) x = map_of (tj_low st) x"
      if "x \<in> set (tj_visited st)" for x
      using that False by (auto simp: enter_node_def update_conv')
    have "set S \<subseteq> set (tj_visited st2)" using st2(2) stack by (auto simp: tarjan_inv_def sccs_ok_def)
    with S new have Sn: "\<forall>x \<in> set S. (n, x) \<in> (dg_rel g)\<^sup>*" by blast
    have id: "map_of (tj_ids st2) n = Some (tj_id st)" using same(1) [of n] by (simp add: enter_node_def update_conv')
    have "\<exists>l < tj_id st. map_of (tj_low st2) x = Some l" if x: "x \<in> set (tj_stack st)" for x
    proof -
      from x "1.prems"(3) have v: "x \<in> set (tj_visited st)" by (auto simp: tarjan_inv_def sccs_ok_def)
      with "1.prems"(3) obtain i l where "map_of (tj_ids st) x = Some i" "i < tj_id st"
        "map_of (tj_low st) x = Some l" "l \<le> i"
        unfolding tarjan_inv_def ids_ok_def low_ok_def by (metis option.inject)
      moreover have "x \<noteq> n" using v False by auto
      ultimately show ?thesis using same(2) [of x] old(2) [OF v] v by auto
    qed
    with close_component_inv [OF st2(2) _ id stack Sn] sub obtain st' S' where
      close: "close_component n st2 = Inr st'" "tarjan_inv g st'" and e: "tj_visited st' = tj_visited st2"
      "tj_ids st' = tj_ids st2" "tj_low st' = tj_low st2" "tj_stack st' = S' @ tj_stack st"
      "set S' \<subseteq> insert n (set S)" by blast
    have "follows g {n} {} st st'"
      unfolding follows_def e
    proof (intro conjI ballI)
      show "set (tj_visited st) \<subseteq> set (tj_visited st2)" using sub by blast
      show "set (tj_visited st2) - set (tj_visited st) \<subseteq> (dg_rel g)\<^sup>* `` {n}" using new by blast
      show "\<exists>new. S' @ tj_stack st = new @ tj_stack st \<and> set new \<inter> set (tj_visited st) = {}"
        using e(5) S False by (intro exI [of _ S']) auto
    qed (use same old False in auto)
    moreover have "followNode g n st = Inr st'" using False cs st2(1) close(1) by simp
    ultimately show ?thesis using close(2) sub e(1) by auto
  qed
next
  case (2 g n st)
  then show ?case by (auto simp: follows_refl)
next
  case (3 g n child rest st)
  have rel: "(n, child) \<in> dg_rel g" using "3.prems"(4) by auto
  then have "node_in g child" using dg_rel_node_in [OF "3.prems"(1)] by blast
  from "3.IH"(1) [OF "3.prems"(1) this "3.prems"(2)] obtain st1 where
    st1: "followNode g child st = Inr st1" "tarjan_inv g st1" "follows g {child} {} st st1" "child \<in> set (tj_visited st1)"
    by blast
  then have n1: "n \<in> set (tj_visited st1)" using "3.prems"(3) unfolding follows_def by blast
  from lower_link_inv [OF st1(2) n1 st1(4) rel] obtain st2 where
    st2: "lower_link n child st1 = Inr st2" "tarjan_inv g st2" "follows g {} {n} st1 st2" by blast
  have n2: "n \<in> set (tj_visited st2)" using n1 st2(3) unfolding follows_def by blast
  from "3.IH"(2) [OF st1(1) st2(1) "3.prems"(1) st2(2) n2] "3.prems"(4) obtain st3 where
    st3: "follow_children g n rest st2 = Inr st3" "tarjan_inv g st3" "follows g (set rest) {n} st2 st3" by auto
  have "follows g {child} {n} st st1" by (rule follows_mono [OF st1(3)]) auto
  from follows_trans [OF follows_trans [OF this st2(3)] st3(3)]
  have "follows g (set (child # rest)) {n} st st3" by simp
  with st1(1) st2(1) st3(1,2) show ?case by auto
qed

lemma getStronglyConnectedComponents_sound:
  assumes "wf_graph g"
  shows "\<exists>sccs. getStronglyConnectedComponents g = Inr sccs \<and> distinct (concat sccs)
    \<and> (\<forall>S \<in> set sccs. S \<noteq> [] \<and> (\<forall>n \<in> set S. node_in g n) \<and> mutually_reachable g (set S))"
proof -
  have init: "tarjan_inv g initial_tarjan"
    by (simp add: initial_tarjan_def tarjan_inv_def ids_ok_def low_ok_def sccs_ok_def)
  have "\<exists>st'. followNode g n st = Inr st' \<and> tarjan_inv g st'"
    if "n \<in> set (values_of (dg_nodes g))" "tarjan_inv g st" for n st
    using followNode_inv(1) [OF assms _ that(2), of n] that(1) node_in_values [OF assms] by blast
  from fold_res_inv [of "tarjan_inv g" initial_tarjan "values_of (dg_nodes g)" "followNode g", OF init this]
  obtain st where st: "fold_res (followNode g) (values_of (dg_nodes g)) initial_tarjan = Inr st" "tarjan_inv g st"
    by blast
  then have "getStronglyConnectedComponents g = Inr (tj_sccs st)"
    by (simp add: getStronglyConnectedComponents_def)
  moreover have "distinct (concat (tj_sccs st))" "\<forall>S \<in> set (tj_sccs st). S \<noteq> [] \<and> mutually_reachable g (set S)"
    "\<forall>S \<in> set (tj_sccs st). \<forall>n \<in> set S. node_in g n"
    using st(2) by (auto simp: tarjan_inv_def sccs_ok_def)
  ultimately show ?thesis by blast
qed

text \<open>A graph of three nodes that all reach each other.\<close>

definition missed_graph :: DirectedGraph where
  "missed_graph = graph_of [node_T, node_A, node_B]
     [edge node_T node_A, edge node_A node_B, edge node_B node_A, edge node_A node_T]"

section \<open>Properties\<close>

text \<open>
  C39: the search for components ends on every well-formed graph without a failed assertion; the
  components it returns are non-empty and disjoint sets of nodes of the graph, and all nodes of a
  component can reach each other.
\<close>

theorem components_are_strongly_connected:
  assumes "wf_graph g"
  shows "\<exists>sccs. getStronglyConnectedComponents g = Inr sccs \<and> distinct (concat sccs)
    \<and> (\<forall>S \<in> set sccs. S \<noteq> [] \<and> (\<forall>n \<in> set S. node_in g n) \<and> mutually_reachable g (set S))"
  using assms by (rule getStronglyConnectedComponents_sound)

theorem components_are_strongly_connected_witness:
  "\<exists>sccs. getStronglyConnectedComponents example_graph = Inr sccs \<and> distinct (concat sccs)"
  using components_are_strongly_connected [OF wf_example_graph] by blast

text \<open>
  but it does not find all components: in a graph of three nodes that all reach each other it
  finds none at all, because the node on top of the stack has a low link between that of the root
  and its own.
\<close>

theorem components_missed:
  "wf_graph missed_graph \<and> mutually_reachable missed_graph {node_T, node_A, node_B}
    \<and> getStronglyConnectedComponents missed_graph = Inr []"
proof (intro conjI)
  show "wf_graph missed_graph"
    unfolding missed_graph_def by (rule wf_graph_of) (simp_all add: example_nodes_defs)
  have "(node_T, node_A) \<in> dg_rel missed_graph" "(node_A, node_B) \<in> dg_rel missed_graph"
    "(node_B, node_A) \<in> dg_rel missed_graph" "(node_A, node_T) \<in> dg_rel missed_graph"
    by (simp_all add: missed_graph_def)
  then show "mutually_reachable missed_graph {node_T, node_A, node_B}"
    unfolding mutually_reachable_def by (simp; meson rtrancl.simps)
  have n: "node_T \<noteq> node_A" "node_T \<noteq> node_B" "node_A \<noteq> node_B" "node_A \<noteq> node_T" "node_B \<noteq> node_T" "node_B \<noteq> node_A"
    by (simp_all add: example_nodes_defs)
  have d: "getDirectChildConnections missed_graph node_T = Inr [edge node_T node_A]"
    "getDirectChildConnections missed_graph node_A = Inr [edge node_A node_B, edge node_A node_T]"
    "getDirectChildConnections missed_graph node_B = Inr [edge node_B node_A]"
    using n by (simp_all add: getDirectChildConnections_def missed_graph_def node_in_def graph_of_def example_nodes_defs)
  have nodes: "values_of (dg_nodes missed_graph) = [node_T, node_A, node_B]"
    by (simp add: missed_graph_def graph_of_def)
  show "getStronglyConnectedComponents missed_graph = Inr []"
    using n by (simp add: getStronglyConnectedComponents_def nodes d initial_tarjan_def enter_node_def
        lower_link_def close_component_def)
qed

end
