(* ===== verification/EngineState.thy ===== *)
theory EngineState
  imports WorkflowSearch
begin

text \<open>
  The state of an execution (\<open>IRunExecutionData\<close>) and the parts of \<open>WorkflowExecute\<close>
  (\<open>packages/core/src/execution-engine/workflow-execute.ts\<close>) that read or prepare it: the
  metadata that is moved into the run data at the end, the test whether the connections into a node
  brought no data, and the entry of the waiting store of a node that waits for its inputs.
\<close>

section \<open>The state of an execution\<close>

record exec_error =
  err_name :: string
  err_message :: string

text \<open>
  \<open>startData\<close>, \<open>resultData\<close> and \<open>executionData\<close> with their fields, and the time
  a waiting execution goes on. The context data belongs to the nodes and is left out.
\<close>

record RunExecutionData =
  rx_destinationNode :: "string option"
  rx_originalDestinationNode :: "string option"
  rx_runNodeFilter :: "string list option"
  rx_runData :: IRunData
  rx_pinData :: IPinData
  rx_lastNodeExecuted :: "string option"
  rx_error :: "exec_error option"
  rx_stack :: "IExecuteData list"
  rx_metadata :: "(string \<times> IDataObject option list) list"
  rx_waiting :: IWaitingForExecution
  rx_waitingSource :: IWaitingForExecutionSource
  rx_waitTill :: "int option"

text \<open>The run data the constructor starts from.\<close>

definition no_run :: RunExecutionData where
  "no_run = \<lparr>rx_destinationNode = None, rx_originalDestinationNode = None, rx_runNodeFilter = None,
     rx_runData = [], rx_pinData = [], rx_lastNodeExecuted = None, rx_error = None, rx_stack = [],
     rx_metadata = [], rx_waiting = [], rx_waitingSource = [], rx_waitTill = None\<rparr>"

section \<open>Metadata\<close>

text \<open>The object spread \<open>{...a, ...b}\<close>.\<close>

definition spread :: "IDataObject \<Rightarrow> IDataObject \<Rightarrow> IDataObject" where
  "spread a b = fold (\<lambda>(k, v). obj_set k v) b a"

definition merge_metadata :: "IDataObject option \<Rightarrow> ITaskData \<Rightarrow> ITaskData" where
  "merge_metadata meta task = task\<lparr>td_metadata := Some (spread
     (case td_metadata task of None \<Rightarrow> [] | Some m \<Rightarrow> m) (case meta of None \<Rightarrow> [] | Some m \<Rightarrow> m))\<rparr>"

text \<open>One entry of a node's metadata; the second component lists the entries without task data, which are reported.\<close>

definition move_one :: "string \<Rightarrow> nat \<times> IDataObject option \<Rightarrow> IRunData \<times> (string \<times> nat) list \<Rightarrow> IRunData \<times> (string \<times> nat) list" where
  "move_one nodeName entry acc =
     (case (entry, acc) of ((index, meta), (rd, missing)) \<Rightarrow>
       case Option.bind (map_of rd nodeName) (\<lambda>tasks. arr_get tasks index) of
         Some task \<Rightarrow> (obj_set nodeName ((the (map_of rd nodeName))[index := merge_metadata meta task]) rd, missing)
       | None \<Rightarrow> (rd, missing @ [(nodeName, index)]))"

definition move_all :: "(string \<times> IDataObject option list) list \<Rightarrow> IRunData \<Rightarrow> IRunData \<times> (string \<times> nat) list" where
  "move_all metadata rd =
     fold (\<lambda>(nodeName, metas). fold (move_one nodeName) (enumerate 0 metas)) metadata (rd, [])"

definition moveNodeMetadata :: "RunExecutionData \<Rightarrow> RunExecutionData \<times> (string \<times> nat) list" where
  "moveNodeMetadata s = (case move_all (rx_metadata s) (rx_runData s) of
     (rd, missing) \<Rightarrow> (s\<lparr>rx_runData := rd\<rparr>, missing))"

section \<open>Data of the incoming connections\<close>

text \<open>The value at a node, run, and main output: absent, \<open>null\<close> or a list of items.\<close>

definition main_output :: "IRunData \<Rightarrow> string \<Rightarrow> nat \<Rightarrow> nat \<Rightarrow> INodeExecutionData list option option" where
  "main_output rd nodeName runIndex outputIndex =
     Option.bind (map_of rd nodeName) (\<lambda>tasks.
     Option.bind (arr_get tasks runIndex) (\<lambda>task.
     Option.bind (td_data task) (\<lambda>outputs.
     Option.bind (map_of outputs MainType) (\<lambda>main. arr_get main outputIndex))))"

fun incomingConnectionIsEmpty :: "IRunData \<Rightarrow> IConnection list \<Rightarrow> nat \<Rightarrow> bool res" where
  "incomingConnectionIsEmpty rd [] runIndex = Inr True"
| "incomingConnectionIsEmpty rd (inputConnection # inputConnections) runIndex =
     (case main_output rd (conn_node inputConnection) runIndex (conn_index inputConnection) of
        None \<Rightarrow> incomingConnectionIsEmpty rd inputConnections runIndex
      | Some None \<Rightarrow> Inl TypeError
      | Some (Some items) \<Rightarrow>
          if items \<noteq> [] then Inr False else incomingConnectionIsEmpty rd inputConnections runIndex)"

section \<open>The waiting stores\<close>

type_synonym 'v waiting_store = "(string \<times> (nat \<times> (NodeConnectionType \<times> 'v option list) list) list) list"

text \<open>The runs of a node that wait, and the main inputs of one of them.\<close>

definition runs_of :: "'v waiting_store \<Rightarrow> string \<Rightarrow> (nat \<times> (NodeConnectionType \<times> 'v option list) list) list" where
  "runs_of st nodeName = (case map_of st nodeName of None \<Rightarrow> [] | Some runs \<Rightarrow> runs)"

definition entry_of :: "'v waiting_store \<Rightarrow> string \<Rightarrow> nat \<Rightarrow> (NodeConnectionType \<times> 'v option list) list option" where
  "entry_of st nodeName runIndex = map_of (runs_of st nodeName) runIndex"

definition main_of :: "'v waiting_store \<Rightarrow> string \<Rightarrow> nat \<Rightarrow> 'v option list option" where
  "main_of st nodeName runIndex = Option.bind (entry_of st nodeName runIndex) (\<lambda>entry. map_of entry MainType)"

definition put_entry ::
    "string \<Rightarrow> nat \<Rightarrow> (NodeConnectionType \<times> 'v option list) list \<Rightarrow> 'v waiting_store \<Rightarrow> 'v waiting_store" where
  "put_entry nodeName runIndex entry st = obj_set nodeName (idx_set runIndex entry (runs_of st nodeName)) st"

definition set_main :: "string \<Rightarrow> nat \<Rightarrow> 'v option list \<Rightarrow> 'v waiting_store \<Rightarrow> 'v waiting_store" where
  "set_main nodeName runIndex main st =
     put_entry nodeName runIndex
       (AList.update MainType main (case entry_of st nodeName runIndex of None \<Rightarrow> [] | Some entry \<Rightarrow> entry)) st"

text \<open>Removing a run, and the node when it has none left.\<close>

definition drop_entry :: "string \<Rightarrow> nat \<Rightarrow> 'v waiting_store \<Rightarrow> 'v waiting_store" where
  "drop_entry nodeName runIndex st = obj_set nodeName (AList.delete runIndex (runs_of st nodeName)) st"

definition drop_if_empty :: "string \<Rightarrow> RunExecutionData \<Rightarrow> RunExecutionData" where
  "drop_if_empty nodeName s =
     (if runs_of (rx_waiting s) nodeName = []
      then s\<lparr>rx_waiting := AList.delete nodeName (rx_waiting s),
             rx_waitingSource := AList.delete nodeName (rx_waitingSource s)\<rparr>
      else s)"

definition remove_waiting :: "string \<Rightarrow> nat \<Rightarrow> RunExecutionData \<Rightarrow> RunExecutionData" where
  "remove_waiting nodeName runIndex s =
     drop_if_empty nodeName
       (s\<lparr>rx_waiting := drop_entry nodeName runIndex (rx_waiting s),
          rx_waitingSource := drop_entry nodeName runIndex (rx_waitingSource s)\<rparr>)"

definition prepareWaitingToExecution :: "string \<Rightarrow> nat \<Rightarrow> nat \<Rightarrow> RunExecutionData \<Rightarrow> RunExecutionData" where
  "prepareWaitingToExecution nodeName numberOfConnections runIndex s =
     s\<lparr>rx_waiting := put_entry nodeName runIndex [(MainType, replicate numberOfConnections None)] (rx_waiting s),
       rx_waitingSource := put_entry nodeName runIndex [(MainType, replicate numberOfConnections None)] (rx_waitingSource s)\<rparr>"

end
