(* ===== verification/EngineEnqueue.thy ===== *)
theory EngineEnqueue
  imports EngineState
begin

text \<open>
  How the engine hands the output of a node on (\<open>WorkflowExecute.addNodeToBeExecuted\<close>): a
  node with one input goes to the execution stack at once; for a node with several inputs the data
  join a run that waits for that input, or open a new one, and the run goes to the stack when every
  input has data. Workflows without the \<open>v1\<close> order also force the other inputs to execute.
\<close>

section \<open>Entering the stack\<close>

definition is_v1 :: "Workflow \<Rightarrow> bool" where
  "is_v1 w \<longleftrightarrow> executionOrder w = Some ''v1''"

definition forceInputNodeExecution :: "Workflow \<Rightarrow> bool" where
  "forceInputNodeExecution w \<longleftrightarrow> \<not> is_v1 w"

definition enqueue_data :: "Workflow \<Rightarrow> IExecuteData \<Rightarrow> RunExecutionData \<Rightarrow> RunExecutionData" where
  "enqueue_data w x s = s\<lparr>rx_stack := (if is_v1 w then x # rx_stack s else rx_stack s @ [x])\<rparr>"

text \<open>\<open>x || undefined\<close> for a number: zero is not written.\<close>

definition or_undefined :: "nat \<Rightarrow> nat option" where
  "or_undefined n = (if n = 0 then None else Some n)"

definition parent_source :: "string \<Rightarrow> nat \<Rightarrow> nat \<Rightarrow> ISourceData" where
  "parent_source parentNodeName outputIndex runIndex = \<lparr>previousNode = parentNodeName,
     previousNodeOutput = or_undefined outputIndex, previousNodeRun = or_undefined runIndex\<rparr>"

text \<open>
  The output data of a node; \<open>null\<close> when there are none. The caller only passes outputs
  that exist; an output past the end is read as \<open>null\<close>.
\<close>

type_synonym node_output = "INodeExecutionData list option list"

definition output_data :: "node_output option \<Rightarrow> nat \<Rightarrow> INodeExecutionData list option" where
  "output_data nodeSuccessData outputIndex =
     (case nodeSuccessData of None \<Rightarrow> None | Some outputs \<Rightarrow>
        (case arr_get outputs outputIndex of None \<Rightarrow> None | Some d \<Rightarrow> d))"

definition input_source :: "node_output option \<Rightarrow> string \<Rightarrow> nat \<Rightarrow> nat \<Rightarrow> ISourceData option" where
  "input_source nodeSuccessData parentNodeName outputIndex runIndex =
     (if nodeSuccessData = None then None else Some (parent_source parentNodeName outputIndex runIndex))"

text \<open>The connections into the main inputs of a node; \<open>TypeError\<close> when the node has no incoming connections.\<close>

definition incoming_main :: "Workflow \<Rightarrow> string \<Rightarrow> NodeInputConnections res" where
  "incoming_main w nodeName =
     (case typed_inputs (connectionsByDestinationNode w) nodeName MainType of
        None \<Rightarrow> Inl TypeError | Some inputs \<Rightarrow> Inr inputs)"

definition first_input :: "NodeInputConnections \<Rightarrow> IConnection list" where
  "first_input inputs = (case inputs of [] \<Rightarrow> [] | l # _ \<Rightarrow> conns_at l)"

section \<open>Joining a waiting run\<close>

text \<open>The first waiting run that has no data for an input.\<close>

fun run_missing_input :: "nat \<Rightarrow> (nat \<times> ITaskDataConnections) list \<Rightarrow> nat option res" where
  "run_missing_input inputIndex [] = Inr None"
| "run_missing_input inputIndex ((index, entry) # runs) =
     (case map_of entry MainType of
        None \<Rightarrow> Inl TypeError
      | Some main \<Rightarrow>
          (case arr_get main inputIndex of
             Some (Some _) \<Rightarrow> run_missing_input inputIndex runs
           | _ \<Rightarrow> Inr (Some index)))"

definition open_waiting :: "string \<Rightarrow> RunExecutionData \<Rightarrow> RunExecutionData" where
  "open_waiting nodeName s =
     (if map_of (rx_waiting s) nodeName = None
      then s\<lparr>rx_waiting := obj_set nodeName [] (rx_waiting s),
             rx_waitingSource := obj_set nodeName [] (rx_waitingSource s)\<rparr>
      else s)"

text \<open>The run the data go to; a new one gets the number of waiting runs as its index.\<close>

definition select_run :: "nat \<Rightarrow> string \<Rightarrow> nat \<Rightarrow> RunExecutionData \<Rightarrow> (nat \<times> RunExecutionData) res" where
  "select_run numberOfInputs nodeName inputIndex s =
     (let s1 = open_waiting nodeName s; runs = runs_of (rx_waiting s1) nodeName in
      bind_res (run_missing_input inputIndex runs) (\<lambda>found.
        case found of
          Some index \<Rightarrow> Inr (index, s1)
        | None \<Rightarrow> Inr (length runs, prepareWaitingToExecution nodeName numberOfInputs (length runs) s1)))"

definition set_input ::
    "string \<Rightarrow> nat \<Rightarrow> nat \<Rightarrow> INodeExecutionData list option \<Rightarrow> ISourceData option \<Rightarrow> RunExecutionData \<Rightarrow> RunExecutionData res" where
  "set_input nodeName index inputIndex d source s =
     (case (main_of (rx_waiting s) nodeName index, main_of (rx_waitingSource s) nodeName index) of
        (Some main, Some sources) \<Rightarrow>
          Inr (s\<lparr>rx_waiting := set_main nodeName index (arr_set None main inputIndex d) (rx_waiting s),
                 rx_waitingSource := set_main nodeName index (arr_set None sources inputIndex source) (rx_waitingSource s)\<rparr>)
      | _ \<Rightarrow> Inl TypeError)"

definition all_data_found :: "string \<Rightarrow> nat \<Rightarrow> RunExecutionData \<Rightarrow> bool" where
  "all_data_found nodeName index s \<longleftrightarrow>
     (case main_of (rx_waiting s) nodeName index of None \<Rightarrow> False | Some main \<Rightarrow> None \<notin> set main)"

text \<open>A run whose inputs all have data goes to the stack.\<close>

definition release_run :: "Workflow \<Rightarrow> string \<Rightarrow> nat \<Rightarrow> RunExecutionData \<Rightarrow> RunExecutionData res" where
  "release_run w nodeName index s =
     (case (getNode w nodeName, entry_of (rx_waiting s) nodeName index) of
        (Some node, Some entry) \<Rightarrow>
          Inr (remove_waiting nodeName index (enqueue_data w
            \<lparr>ex_node = node, ex_data = entry, ex_source = entry_of (rx_waitingSource s) nodeName index,
             ex_metadata = None\<rparr> s))
      | _ \<Rightarrow> Inl TypeError)"

section \<open>Forcing the other inputs\<close>

text \<open>The nodes the parent has an output connection to.\<close>

definition output_nodes :: "Workflow \<Rightarrow> string \<Rightarrow> string list res" where
  "output_nodes w parentNodeName =
     (case map_of (connectionsBySourceNode w) parentNodeName of
        None \<Rightarrow> Inl TypeError
      | Some byType \<Rightarrow> Inr (case map_of byType MainType of
          None \<Rightarrow> [] | Some outputs \<Rightarrow> map conn_node (concat (map conns_at outputs))))"

text \<open>The walk over the ancestors of an input: the last node before one that is already there.\<close>

fun node_to_add :: "string \<Rightarrow> string list \<Rightarrow> string list \<Rightarrow> IRunData \<Rightarrow> string list \<Rightarrow> string \<Rightarrow> string option" where
  "node_to_add inputNode checkOutputNodes stackNodes rd [] nodeToAdd = Some nodeToAdd"
| "node_to_add inputNode checkOutputNodes stackNodes rd (parentNode # parentNodes) nodeToAdd =
     (if inputNode \<noteq> parentNode \<and> parentNode \<in> set checkOutputNodes then None
      else if parentNode \<in> set stackNodes then None
      else if has_key rd parentNode then Some nodeToAdd
      else node_to_add inputNode checkOutputNodes stackNodes rd parentNodes parentNode)"

definition forced_entry :: "INode \<Rightarrow> ISourceData \<Rightarrow> IExecuteData" where
  "forced_entry node source = \<lparr>ex_node = node, ex_data = [(MainType, [Some [empty_item]])],
     ex_source = Some [(MainType, [Some source])], ex_metadata = None\<rparr>"

text \<open>Whether an input needs nothing: it comes from the parent, will be processed, or is done.\<close>

definition input_settled ::
    "Workflow \<Rightarrow> string \<Rightarrow> string list \<Rightarrow> nat \<Rightarrow> RunExecutionData \<Rightarrow> string \<Rightarrow> bool res" where
  "input_settled w parentNodeName checkOutputNodes runIndex s inputNode =
     bind_res (if inputNode \<in> set checkOutputNodes
         then bind_res (incoming_main w inputNode) (\<lambda>inputs.
           incomingConnectionIsEmpty (rx_runData s) (first_input inputs) runIndex)
         else Inr True) (\<lambda>unprocessed.
       Inr (\<not> unprocessed \<or> inputNode \<in> node_name ` ex_node ` set (rx_stack s) \<or> has_key (rx_runData s) inputNode
         \<or> \<not> forceInputNodeExecution w))"

definition needs_empty_item :: "Workflow \<Rightarrow> nat \<Rightarrow> RunExecutionData \<Rightarrow> string \<Rightarrow> bool res" where
  "needs_empty_item w runIndex s nodeName =
     (if map_of (connectionsByDestinationNode w) nodeName = None then Inr True
      else bind_res (incoming_main w nodeName) (\<lambda>inputs.
        incomingConnectionIsEmpty (rx_runData s) (first_input inputs) runIndex))"

definition force_input ::
    "Workflow \<Rightarrow> string \<Rightarrow> nat \<Rightarrow> node_output option \<Rightarrow> nat \<Rightarrow> string list \<Rightarrow> string
      \<Rightarrow> RunExecutionData \<Rightarrow> RunExecutionData res" where
  "force_input w parentNodeName outputIndex nodeSuccessData runIndex checkOutputNodes inputNode s =
     (if inputNode = parentNodeName then Inr s
      else bind_res (input_settled w parentNodeName checkOutputNodes runIndex s inputNode) (\<lambda>settled.
        if settled then Inr s
        else let candidate = node_to_add inputNode checkOutputNodes (map (\<lambda>x. node_name (ex_node x)) (rx_stack s))
                 (rx_runData s) (rev (getParentNodes w inputNode (OnlyType MainType) (-1) @ [inputNode])) inputNode
        in case candidate of
            None \<Rightarrow> Inr s
          | Some nodeToAdd \<Rightarrow>
              if parentNodeName \<in> set (getParentNodes w nodeToAdd (OnlyType MainType) (-1))
                \<and> output_data nodeSuccessData outputIndex = None then Inl TypeError
              else if parentNodeName \<in> set (getParentNodes w nodeToAdd (OnlyType MainType) (-1))
                \<and> output_data nodeSuccessData outputIndex = Some [] then Inr s
              else bind_res (needs_empty_item w runIndex s nodeToAdd) (\<lambda>addEmptyItem.
                if \<not> addEmptyItem then Inr s
                else case getNode w nodeToAdd of
                    None \<Rightarrow> Inl TypeError
                  | Some node \<Rightarrow> Inr (enqueue_data w
                      (forced_entry node (parent_source parentNodeName outputIndex runIndex)) s))))"

definition force_inputs ::
    "Workflow \<Rightarrow> NodeInputConnections \<Rightarrow> string \<Rightarrow> nat \<Rightarrow> node_output option \<Rightarrow> nat
      \<Rightarrow> RunExecutionData \<Rightarrow> RunExecutionData res" where
  "force_inputs w inputs parentNodeName outputIndex nodeSuccessData runIndex s =
     bind_res (output_nodes w parentNodeName) (\<lambda>checkOutputNodes.
       fold_res (\<lambda>c. force_input w parentNodeName outputIndex nodeSuccessData runIndex checkOutputNodes (conn_node c))
         (concat (map conns_at inputs)) s)"

section \<open>Adding a node\<close>

text \<open>
  A node with several inputs that still misses data: when it was not waiting before, its other
  inputs are looked at, then the data are written into the waiting run once more.
\<close>

definition keep_waiting ::
    "Workflow \<Rightarrow> NodeInputConnections \<Rightarrow> bool \<Rightarrow> IConnection \<Rightarrow> nat \<Rightarrow> string \<Rightarrow> node_output option \<Rightarrow> nat \<Rightarrow> nat
      \<Rightarrow> RunExecutionData \<Rightarrow> RunExecutionData res" where
  "keep_waiting w inputs nodeWasWaiting c outputIndex parentNodeName nodeSuccessData runIndex index s =
     bind_res (if nodeWasWaiting then Inr s
         else force_inputs w inputs parentNodeName outputIndex nodeSuccessData runIndex s) (\<lambda>s1.
       case (main_of (rx_waiting s1) (conn_node c) index, main_of (rx_waitingSource s1) (conn_node c) index) of
         (Some main, Some sources) \<Rightarrow>
           let connectionDataArray = arr_set None main (conn_index c) (output_data nodeSuccessData outputIndex);
               s2 = prepareWaitingToExecution (conn_node c) (length inputs) index s1
           in Inr (s2\<lparr>rx_waiting := put_entry (conn_node c) index [(MainType, connectionDataArray)] (rx_waiting s2),
                      rx_waitingSource := set_main (conn_node c) index sources (rx_waitingSource s2)\<rparr>)
       | _ \<Rightarrow> Inl TypeError)"

definition join_inputs ::
    "Workflow \<Rightarrow> NodeInputConnections \<Rightarrow> IConnection \<Rightarrow> nat \<Rightarrow> string \<Rightarrow> node_output option \<Rightarrow> nat
      \<Rightarrow> RunExecutionData \<Rightarrow> RunExecutionData res" where
  "join_inputs w inputs c outputIndex parentNodeName nodeSuccessData runIndex s =
     (let nodeWasWaiting = has_key (rx_waiting s) (conn_node c) in
      bind_res (select_run (length inputs) (conn_node c) (conn_index c) s) (\<lambda>(index, s1).
      bind_res (set_input (conn_node c) index (conn_index c) (output_data nodeSuccessData outputIndex)
          (input_source nodeSuccessData parentNodeName outputIndex runIndex) s1) (\<lambda>s2.
        if all_data_found (conn_node c) index s2 then release_run w (conn_node c) index s2
        else keep_waiting w inputs nodeWasWaiting c outputIndex parentNodeName nodeSuccessData runIndex index s2)))"

definition single_entry :: "INode \<Rightarrow> nat \<Rightarrow> INodeExecutionData list option \<Rightarrow> ISourceData \<Rightarrow> IExecuteData" where
  "single_entry node inputIndex d source = \<lparr>ex_node = node,
     ex_data = [(MainType, (replicate (Suc inputIndex) None)[inputIndex := d])],
     ex_source = Some [(MainType, [Some source])], ex_metadata = None\<rparr>"

definition addNodeToBeExecuted ::
    "Workflow \<Rightarrow> IConnection \<Rightarrow> nat \<Rightarrow> string \<Rightarrow> node_output option \<Rightarrow> nat \<Rightarrow> RunExecutionData \<Rightarrow> RunExecutionData res" where
  "addNodeToBeExecuted w c outputIndex parentNodeName nodeSuccessData runIndex s =
     bind_res (incoming_main w (conn_node c)) (\<lambda>inputs.
       if 1 < length inputs then join_inputs w inputs c outputIndex parentNodeName nodeSuccessData runIndex s
       else case getNode w (conn_node c) of
           None \<Rightarrow> Inl TypeError
         | Some node \<Rightarrow> Inr (enqueue_data w
             (single_entry node (conn_index c) (output_data nodeSuccessData outputIndex)
               (parent_source parentNodeName outputIndex runIndex)) s))"

section \<open>Looking up and writing waiting runs\<close>

text \<open>The runs of every node are kept in the order of their indexes.\<close>

definition ordered_runs :: "'v waiting_store \<Rightarrow> bool" where
  "ordered_runs st \<longleftrightarrow> (\<forall>nodeName. sorted_wrt (<) (keys_of (runs_of st nodeName)))"

lemma runs_of_put_entry [simp]:
  "runs_of (put_entry n r e st) m = (if m = n then idx_set r e (runs_of st n) else runs_of st m)"
  by (simp add: runs_of_def put_entry_def obj_set_lookup)

lemma runs_of_obj_set [simp]: "runs_of (obj_set n runs st) m = (if m = n then runs else runs_of st m)"
  by (simp add: runs_of_def obj_set_lookup)

lemma runs_of_delete [simp]: "runs_of (AList.delete n st) m = (if m = n then [] else runs_of st m)"
  by (simp add: runs_of_def delete_conv')

lemma ordered_put_entry [simp]: "ordered_runs st \<Longrightarrow> ordered_runs (put_entry n r e st)"
  by (simp add: ordered_runs_def idx_set_sorted)

lemma ordered_drop_entry [simp]: "ordered_runs st \<Longrightarrow> ordered_runs (drop_entry n r st)"
  by (simp add: ordered_runs_def drop_entry_def keys_delete sorted_wrt_filter)

lemma ordered_delete [simp]: "ordered_runs st \<Longrightarrow> ordered_runs (AList.delete n st)"
  by (simp add: ordered_runs_def)

lemma ordered_set_main [simp]: "ordered_runs st \<Longrightarrow> ordered_runs (set_main n r l st)"
  by (simp add: set_main_def)

lemma entry_of_put_entry:
  "ordered_runs st \<Longrightarrow> entry_of (put_entry n r e st) m r' = (if m = n \<and> r' = r then Some e else entry_of st m r')"
  by (auto simp: entry_of_def ordered_runs_def idx_set_lookup)

lemma main_of_put_entry:
  "ordered_runs st \<Longrightarrow>
    main_of (put_entry n r e st) m r' = (if m = n \<and> r' = r then map_of e MainType else main_of st m r')"
  by (simp add: main_of_def entry_of_put_entry)

lemma main_of_set_main:
  "ordered_runs st \<Longrightarrow>
    main_of (set_main n r l st) m r' = (if m = n \<and> r' = r then Some l else main_of st m r')"
  by (simp add: set_main_def main_of_put_entry update_conv')

section \<open>What joining promises\<close>

text \<open>
  The specification: the runs that wait are a list of inputs, filled in order. Data for an input
  join the first run that misses it, or a new one; a complete run is given back.
\<close>

definition close_run :: "'d option list \<Rightarrow> 'd option list list \<Rightarrow> 'd option list list \<times> 'd option list option" where
  "close_run v vs = (if None \<in> set v then (v # vs, None) else (vs, Some v))"

fun join_add :: "nat \<Rightarrow> nat \<Rightarrow> 'd \<Rightarrow> 'd option list list \<Rightarrow> 'd option list list \<times> 'd option list option" where
  "join_add n i d [] = close_run ((replicate n None)[i := Some d]) []"
| "join_add n i d (v # vs) =
     (if v ! i = None then close_run (v[i := Some d]) vs
      else (case join_add n i d vs of (vs', released) \<Rightarrow> (v # vs', released)))"

definition full :: "nat \<Rightarrow> 'd option list list \<Rightarrow> bool" where
  "full n vs \<longleftrightarrow> (\<forall>v \<in> set vs. length v = n)"

text \<open>The data of the inputs that have some, with the number of the input.\<close>

definition filled :: "'d option list \<Rightarrow> (nat \<times> 'd) multiset" where
  "filled v = mset (List.map_filter (\<lambda>(i, x). map_option (Pair i) x) (enumerate 0 v))"

lemma filled_update:
  "i < length v \<Longrightarrow> v ! i = None \<Longrightarrow> filled (v[i := Some d]) = add_mset (i, d) (filled v)"
proof -
  have "i < length v \<Longrightarrow> v ! i = None \<Longrightarrow>
      mset (List.map_filter (\<lambda>(i, x). map_option (Pair i) x) (enumerate k (v[i := Some d])))
      = add_mset (k + i, d) (mset (List.map_filter (\<lambda>(i, x). map_option (Pair i) x) (enumerate k v)))" for k
  proof (induction v arbitrary: i k)
    case (Cons x v)
    then show ?case by (cases i) (auto simp: List.map_filter_simps split: option.splits)
  qed simp
  from this [of 0] show "i < length v \<Longrightarrow> v ! i = None \<Longrightarrow> ?thesis" by (simp add: filled_def)
qed

lemma filled_replicate [simp]: "filled (replicate n None) = {#}"
proof -
  have "List.map_filter (\<lambda>(i, x). map_option (Pair i) x) (enumerate k (replicate n None)) = []" for k
    by (induction n arbitrary: k) (simp_all add: List.map_filter_simps)
  then show ?thesis by (simp add: filled_def)
qed

lemma close_run_data:
  "close_run v vs = (vs', released) \<Longrightarrow>
    sum_list (map filled vs') + (case released of None \<Rightarrow> {#} | Some r \<Rightarrow> filled r) = filled v + sum_list (map filled vs)"
  by (auto simp: close_run_def add.commute split: if_splits)

text \<open>Nothing is lost: what waits and what is released are the data that waited and the new ones.\<close>

lemma join_add_data:
  "i < n \<Longrightarrow> full n vs \<Longrightarrow> join_add n i d vs = (vs', released) \<Longrightarrow>
    sum_list (map filled vs') + (case released of None \<Rightarrow> {#} | Some r \<Rightarrow> filled r)
      = add_mset (i, d) (sum_list (map filled vs))"
proof (induction vs arbitrary: vs')
  case Nil
  then show ?case by (auto simp: filled_update dest!: close_run_data)
next
  case (Cons v vs)
  show ?case
  proof (cases "v ! i = None")
    case True
    with Cons.prems show ?thesis by (auto simp: filled_update full_def dest!: close_run_data)
  next
    case False
    obtain vs1 where vs1: "join_add n i d vs = (vs1, released)" and vs': "vs' = v # vs1"
      using Cons.prems False by (auto split: prod.splits)
    have "full n vs" using Cons.prems by (simp add: full_def)
    from Cons.IH [OF Cons.prems(1) this vs1] show ?thesis unfolding vs' by (simp add: add.assoc)
  qed
qed

lemma close_run_Some: "close_run v vs = (vs', Some r) \<Longrightarrow> r = v \<and> vs' = vs \<and> None \<notin> set v"
  by (cases "None \<in> set v") (simp_all add: close_run_def)

lemma close_run_None: "close_run v vs = (vs', None) \<Longrightarrow> vs' = v # vs \<and> None \<in> set v"
  by (cases "None \<in> set v") (simp_all add: close_run_def)

lemma join_add_ConsD:
  assumes "join_add n i d (v # vs) = (vs', released)"
  obtains (joined) "v ! i = None" "close_run (v[i := Some d]) vs = (vs', released)"
  | (later) vs1 where "v ! i \<noteq> None" "join_add n i d vs = (vs1, released)" "vs' = v # vs1"
proof (cases "v ! i = None")
  case True
  with assms show ?thesis by (intro joined) simp_all
next
  case False
  with assms show ?thesis by (cases "join_add n i d vs") (auto intro: later)
qed

lemma join_add_released: "join_add n i d vs = (vs', Some r) \<Longrightarrow> None \<notin> set r"
proof (induction vs arbitrary: vs')
  case Nil
  then show ?case unfolding join_add.simps by (blast dest: close_run_Some)
next
  case (Cons v vs)
  from Cons.prems show ?case by (cases rule: join_add_ConsD) (blast dest: close_run_Some Cons.IH)+
qed

lemma close_run_full:
  "full n (v # vs) \<Longrightarrow> close_run v vs = (vs', rel) \<Longrightarrow> full n vs' \<and> (\<forall>r. rel = Some r \<longrightarrow> length r = n)"
  by (cases "None \<in> set v") (auto simp: close_run_def full_def)

lemma join_add_full:
  assumes "i < n" and "full n vs" and "join_add n i d vs = (vs', rel)"
  shows "full n vs' \<and> (\<forall>r. rel = Some r \<longrightarrow> length r = n)"
  using assms(2,3)
proof (induction vs arbitrary: vs')
  case Nil
  have "full n [(replicate n None)[i := Some d]]" by (simp add: full_def)
  with Nil.prems(2) show ?case unfolding join_add.simps by (intro close_run_full)
next
  case (Cons v vs)
  from Cons.prems(2) show ?case
  proof (cases rule: join_add_ConsD)
    case joined
    have "full n (v[i := Some d] # vs)" using Cons.prems(1) by (simp add: full_def)
    then show ?thesis using joined(2) by (rule close_run_full)
  next
    case (later vs1)
    have "full n vs" and "length v = n" using Cons.prems(1) by (simp_all add: full_def)
    from Cons.IH [OF this(1) later(2)] this(2) show ?thesis unfolding later(3) by (simp add: full_def)
  qed
qed

text \<open>The same by position: the first run that misses the input.\<close>

lemma join_add_find:
  "join_add n i d vs = (case find_index (\<lambda>v. v ! i = None) vs of
      None \<Rightarrow> (let v = (replicate n None)[i := Some d] in if None \<in> set v then (vs @ [v], None) else (vs, Some v))
    | Some k \<Rightarrow> (let v = (vs ! k)[i := Some d] in if None \<in> set v then (vs[k := v], None) else (arr_remove vs k, Some v)))"
proof (induction vs)
  case Nil
  show ?case by (simp add: close_run_def Let_def)
next
  case (Cons v vs)
  show ?case
  proof (cases "v ! i = None")
    case True
    then show ?thesis by (simp add: close_run_def Let_def arr_remove_def)
  next
    case False
    then obtain x where "v ! i = Some x" by blast
    then show ?thesis
      by (cases "find_index (\<lambda>v. v ! i = None) vs") (simp_all add: Cons Let_def arr_remove_def)
  qed
qed

section \<open>The waiting store implements it\<close>

definition main_inputs_of :: "(NodeConnectionType \<times> 'v option list) list \<Rightarrow> 'v option list" where
  "main_inputs_of entry = (case map_of entry MainType of None \<Rightarrow> [] | Some main \<Rightarrow> main)"

definition pending :: "'v waiting_store \<Rightarrow> string \<Rightarrow> 'v option list list" where
  "pending st nodeName = map (\<lambda>(r, entry). main_inputs_of entry) (runs_of st nodeName)"

text \<open>Every waiting run of the node has a slot for each of its \<open>n\<close> inputs.\<close>

definition slots_ok :: "nat \<Rightarrow> (nat \<times> (NodeConnectionType \<times> 'v option list) list) list \<Rightarrow> bool" where
  "slots_ok n runs \<longleftrightarrow> (\<forall>(r, entry) \<in> set runs. \<exists>main. map_of entry MainType = Some main \<and> length main = n)"

definition join_ok :: "nat \<Rightarrow> string \<Rightarrow> RunExecutionData \<Rightarrow> bool" where
  "join_ok n nodeName s \<longleftrightarrow> ordered_runs (rx_waiting s) \<and> ordered_runs (rx_waitingSource s)
     \<and> slots_ok n (runs_of (rx_waiting s) nodeName) \<and> slots_ok n (runs_of (rx_waitingSource s) nodeName)
     \<and> keys_of (runs_of (rx_waitingSource s) nodeName) = keys_of (runs_of (rx_waiting s) nodeName)"

text \<open>The run indexes have no gap, so that the number of runs is a fresh index.\<close>

definition no_gap :: "RunExecutionData \<Rightarrow> string \<Rightarrow> bool" where
  "no_gap s nodeName \<longleftrightarrow> (\<forall>r \<in> fst ` set (runs_of (rx_waiting s) nodeName). r < length (runs_of (rx_waiting s) nodeName))"

lemma slots_ok_main: "slots_ok n runs \<Longrightarrow> (r, entry) \<in> set runs \<Longrightarrow>
    map_of entry MainType = Some (main_inputs_of entry) \<and> length (main_inputs_of entry) = n"
  by (auto simp: slots_ok_def main_inputs_of_def)

lemma run_missing_input_find:
  assumes "slots_ok n runs" and "i < n"
  shows "run_missing_input i runs
    = Inr (map_option (\<lambda>k. fst (runs ! k)) (find_index (\<lambda>v. v ! i = None) (map (\<lambda>(r, e). main_inputs_of e) runs)))"
  using assms(1)
proof (induction runs)
  case (Cons x runs)
  obtain r entry where x: "x = (r, entry)" by (cases x)
  with Cons.prems have m: "map_of entry MainType = Some (main_inputs_of entry)" "length (main_inputs_of entry) = n"
    by (auto dest!: slots_ok_main)
  have "slots_ok n runs" using Cons.prems by (simp add: slots_ok_def)
  from Cons.IH [OF this] show ?case
    using assms(2) m by (cases "main_inputs_of entry ! i") (auto simp: x arr_get_def option.map_comp comp_def)
qed simp

lemma slots_ok_update:
  "slots_ok n runs \<Longrightarrow> map_of e MainType = Some m \<Longrightarrow> length m = n \<Longrightarrow> slots_ok n (runs[k := (r, e)])"
  unfolding slots_ok_def by (auto dest!: set_update_subset_insert [THEN subsetD])

lemma slots_ok_append:
  "slots_ok n runs \<Longrightarrow> map_of e MainType = Some m \<Longrightarrow> length m = n \<Longrightarrow> slots_ok n (runs @ [(r, e)])"
  unfolding slots_ok_def by auto

lemma slots_ok_remove: "slots_ok n runs \<Longrightarrow> slots_ok n (arr_remove runs k)"
  using set_arr_remove [of runs k] unfolding slots_ok_def by blast

lemma runs_of_none: "map_of st n = None \<Longrightarrow> runs_of st n = []"
  by (simp add: runs_of_def)

lemma open_waiting_runs:
  assumes "join_ok n nm s"
  shows "runs_of (rx_waiting (open_waiting nm s)) m = runs_of (rx_waiting s) m"
    and "runs_of (rx_waitingSource (open_waiting nm s)) m = runs_of (rx_waitingSource s) m"
proof -
  have "map_of (rx_waiting s) nm = None \<Longrightarrow> runs_of (rx_waiting s) nm = [] \<and> runs_of (rx_waitingSource s) nm = []"
    using assms by (simp add: join_ok_def runs_of_none)
  then show "runs_of (rx_waiting (open_waiting nm s)) m = runs_of (rx_waiting s) m"
    and "runs_of (rx_waitingSource (open_waiting nm s)) m = runs_of (rx_waitingSource s) m"
    by (auto simp: open_waiting_def)
qed

definition only_waiting :: "RunExecutionData \<Rightarrow> RunExecutionData \<Rightarrow> bool" where
  "only_waiting s s' \<longleftrightarrow> s' = s\<lparr>rx_waiting := rx_waiting s', rx_waitingSource := rx_waitingSource s'\<rparr>"

lemma only_waiting_stack: "only_waiting s s' \<Longrightarrow> rx_stack s' = rx_stack s"
proof -
  assume "only_waiting s s'"
  then have "rx_stack s' = rx_stack (s\<lparr>rx_waiting := rx_waiting s', rx_waitingSource := rx_waitingSource s'\<rparr>)"
    unfolding only_waiting_def by (rule arg_cong)
  also have "\<dots> = rx_stack s" by simp
  finally show ?thesis .
qed

lemma join_ok_open: "join_ok n nm s \<Longrightarrow> join_ok n nm (open_waiting nm s)"
  by (simp add: join_ok_def ordered_runs_def open_waiting_runs [of n nm s, unfolded join_ok_def ordered_runs_def])

lemma no_gap_put: "no_gap s nm \<Longrightarrow> length (runs_of (rx_waiting s) nm) = r \<Longrightarrow>
    idx_set r e (runs_of (rx_waiting s) nm) = runs_of (rx_waiting s) nm @ [(r, e)]"
  unfolding no_gap_def by (intro idx_set_append) simp

lemma select_run_ok:
  fixes s :: RunExecutionData and nm :: string
  defines "runs \<equiv> runs_of (rx_waiting s) nm"
  assumes ok: "join_ok n nm s" and gap: "no_gap s nm" and i: "i < n"
  shows "\<exists>s1 k. select_run n nm i s = Inr (fst (runs_of (rx_waiting s1) nm ! k), s1)
    \<and> join_ok n nm s1 \<and> only_waiting s s1 \<and> k < length (runs_of (rx_waiting s1) nm)
    \<and> (\<forall>m. m \<noteq> nm \<longrightarrow> runs_of (rx_waiting s1) m = runs_of (rx_waiting s) m)
    \<and> (case find_index (\<lambda>v. v ! i = None) (pending (rx_waiting s) nm) of
        None \<Rightarrow> pending (rx_waiting s1) nm = pending (rx_waiting s) nm @ [replicate n None] \<and> k = length runs
      | Some k' \<Rightarrow> pending (rx_waiting s1) nm = pending (rx_waiting s) nm \<and> k = k')"
proof -
  let ?o = "open_waiting nm s"
  have ow: "runs_of (rx_waiting ?o) = runs_of (rx_waiting s)" "runs_of (rx_waitingSource ?o) = runs_of (rx_waitingSource s)"
    using open_waiting_runs [OF ok] by blast+
  have slots: "slots_ok n runs" using ok by (simp add: join_ok_def runs_def)
  have only: "only_waiting s ?o" by (simp add: open_waiting_def only_waiting_def)
  note missing = run_missing_input_find [OF slots i]
  show ?thesis
  proof (cases "find_index (\<lambda>v. v ! i = None) (pending (rx_waiting s) nm)")
    case (Some k)
    have "k < length runs" using find_index_Some [OF Some] by (simp add: pending_def runs_def)
    moreover have "select_run n nm i s = Inr (fst (runs_of (rx_waiting ?o) nm ! k), ?o)"
      using missing Some by (simp add: select_run_def Let_def ow runs_def pending_def)
    ultimately show ?thesis
      using Some join_ok_open [OF ok] only by (intro exI [of _ ?o] exI [of _ k]) (simp add: ow pending_def runs_def)
  next
    case None
    let ?s = "prepareWaitingToExecution nm n (length runs) ?o"
    let ?e = "[(MainType, replicate n None)]"
    have len: "length (runs_of (rx_waitingSource s) nm) = length runs"
      using ok unfolding join_ok_def runs_def by (metis length_map)
    have gap2: "\<forall>r \<in> fst ` set (runs_of (rx_waitingSource s) nm). r < length runs"
      using ok gap unfolding join_ok_def no_gap_def runs_def by (metis list.set_map)
    have w: "runs_of (rx_waiting ?s) nm = runs @ [(length runs, ?e)]"
      using gap by (simp add: prepareWaitingToExecution_def ow runs_def no_gap_put)
    have ws: "runs_of (rx_waitingSource ?s) nm = runs_of (rx_waitingSource s) nm @ [(length runs, ?e)]"
      using gap2 by (simp add: prepareWaitingToExecution_def ow idx_set_append)
    have "join_ok n nm ?s"
      using ok join_ok_open [OF ok] slots_ok_append [of n runs ?e] slots_ok_append [of n "runs_of (rx_waitingSource s) nm" ?e]
      unfolding join_ok_def w ws by (simp add: prepareWaitingToExecution_def runs_def)
    moreover have "select_run n nm i s = Inr (fst (runs_of (rx_waiting ?s) nm ! length runs), ?s)"
      using missing None unfolding w by (simp add: select_run_def Let_def ow runs_def pending_def)
    moreover have "pending (rx_waiting ?s) nm = pending (rx_waiting s) nm @ [replicate n None]"
      unfolding pending_def w by (simp add: runs_def main_inputs_of_def)
    moreover have "only_waiting s ?s" using only by (simp add: only_waiting_def prepareWaitingToExecution_def open_waiting_def)
    moreover have "\<forall>m. m \<noteq> nm \<longrightarrow> runs_of (rx_waiting ?s) m = runs_of (rx_waiting s) m"
      by (simp add: prepareWaitingToExecution_def ow)
    ultimately show ?thesis
      using None w by (intro exI [of _ ?s] exI [of _ "length runs"]) simp
  qed
qed

lemma arr_set_inside: "i < length xs \<Longrightarrow> arr_set hole xs i v = xs[i := v]"
  by (simp add: arr_set_def)

lemma entry_at:
  assumes "ordered_runs st" and "k < length (runs_of st nm)"
  shows "entry_of st nm (fst (runs_of st nm ! k)) = Some (snd (runs_of st nm ! k))"
  using assms unfolding entry_of_def ordered_runs_def
  by (intro map_of_is_SomeI) (auto intro: sorted_less_distinct)

lemma main_at:
  assumes "ordered_runs st" and "slots_ok n (runs_of st nm)" and "k < length (runs_of st nm)"
  shows "main_of st nm (fst (runs_of st nm ! k)) = Some (pending st nm ! k)" and "length (pending st nm ! k) = n"
proof -
  have "runs_of st nm ! k \<in> set (runs_of st nm)" using assms(3) by simp
  from slots_ok_main [OF assms(2), of "fst (runs_of st nm ! k)" "snd (runs_of st nm ! k)"] this
  show "main_of st nm (fst (runs_of st nm ! k)) = Some (pending st nm ! k)" and "length (pending st nm ! k) = n"
    using assms(3) by (simp_all add: main_of_def entry_at [OF assms(1,3)] pending_def case_prod_unfold)
qed

lemma set_main_at:
  assumes "ordered_runs st" and "k < length (runs_of st nm)"
  shows "runs_of (set_main nm (fst (runs_of st nm ! k)) l st) nm
    = (runs_of st nm)[k := (fst (runs_of st nm ! k), AList.update MainType l (snd (runs_of st nm ! k)))]"
  using assms idx_set_at [of "runs_of st nm" k] by (simp add: set_main_def entry_at ordered_runs_def)

lemma pending_set_main:
  assumes "ordered_runs st" and "k < length (runs_of st nm)"
  shows "pending (set_main nm (fst (runs_of st nm ! k)) l st) nm = (pending st nm)[k := l]"
  unfolding pending_def set_main_at [OF assms] by (simp add: map_update main_inputs_of_def update_conv')

lemma runs_of_set_main_other: "m \<noteq> nm \<Longrightarrow> runs_of (set_main nm r l st) m = runs_of st m"
  by (simp add: set_main_def)

lemma slots_set_main:
  assumes "ordered_runs st" and "k < length (runs_of st nm)" and "slots_ok n (runs_of st nm)" and "length l = n"
  shows "slots_ok n (runs_of (set_main nm (fst (runs_of st nm ! k)) l st) nm)"
  unfolding set_main_at [OF assms(1,2)] using assms(3,4)
  by (intro slots_ok_update [where m = l]) (simp_all add: update_conv')

lemma keys_set_main:
  assumes "ordered_runs st" and "k < length (runs_of st nm)"
  shows "keys_of (runs_of (set_main nm (fst (runs_of st nm ! k)) l st) nm) = keys_of (runs_of st nm)"
proof -
  have "keys_of (runs_of st nm) ! k = fst (runs_of st nm ! k)" using assms(2) by simp
  then show ?thesis unfolding set_main_at [OF assms] map_update fst_conv by (metis list_update_id)
qed

lemma set_input_ok:
  assumes ok: "join_ok n nm s" and k: "k < length (runs_of (rx_waiting s) nm)" and i: "i < n"
  shows "\<exists>s'. set_input nm (fst (runs_of (rx_waiting s) nm ! k)) i d src s = Inr s'
    \<and> join_ok n nm s' \<and> only_waiting s s'
    \<and> keys_of (runs_of (rx_waiting s') nm) = keys_of (runs_of (rx_waiting s) nm)
    \<and> pending (rx_waiting s') nm = (pending (rx_waiting s) nm)[k := (pending (rx_waiting s) nm ! k)[i := d]]
    \<and> (\<forall>m. m \<noteq> nm \<longrightarrow> runs_of (rx_waiting s') m = runs_of (rx_waiting s) m)"
proof -
  let ?w = "rx_waiting s" and ?ws = "rx_waitingSource s"
  let ?r = "fst (runs_of ?w nm ! k)"
  have ord: "ordered_runs ?w" "ordered_runs ?ws" and slots: "slots_ok n (runs_of ?w nm)" "slots_ok n (runs_of ?ws nm)"
    and keys: "keys_of (runs_of ?ws nm) = keys_of (runs_of ?w nm)"
    using ok by (simp_all add: join_ok_def)
  have ks: "k < length (runs_of ?ws nm)" using keys k by (metis length_map)
  have r: "fst (runs_of ?ws nm ! k) = ?r" using keys k ks by (metis nth_map)
  note w = main_at [OF ord(1) slots(1) k] and ws = main_at [OF ord(2) slots(2) ks, unfolded r]
  let ?l = "(pending ?w nm ! k)[i := d]" and ?ls = "(pending ?ws nm ! k)[i := src]"
  let ?s = "s\<lparr>rx_waiting := set_main nm ?r ?l ?w, rx_waitingSource := set_main nm ?r ?ls ?ws\<rparr>"
  have "set_input nm ?r i d src s = Inr ?s"
    using i w ws by (simp add: set_input_def arr_set_inside)
  moreover have "join_ok n nm ?s"
    using ord slots keys w(2) ws(2) slots_set_main [OF ord(1) k slots(1), of ?l] slots_set_main [OF ord(2) ks slots(2), of ?ls]
      keys_set_main [OF ord(1) k, of ?l] keys_set_main [OF ord(2) ks, of ?ls]
    unfolding join_ok_def r by simp
  moreover have "keys_of (runs_of (rx_waiting ?s) nm) = keys_of (runs_of ?w nm)"
    using keys_set_main [OF ord(1) k, of ?l] by simp
  moreover have "pending (rx_waiting ?s) nm = (pending ?w nm)[k := ?l]"
    using pending_set_main [OF ord(1) k, of ?l] by simp
  ultimately show ?thesis
    by (intro exI [of _ ?s]) (simp add: only_waiting_def runs_of_set_main_other)
qed

text \<open>Forcing inputs only adds to the stack, and nothing with the order \<open>v1\<close>.\<close>

lemma force_input_stack:
  assumes "force_input w p o' out ri outs x s = Inr s'"
  shows "\<exists>xs. s' = s\<lparr>rx_stack := xs\<rparr>" and "is_v1 w \<Longrightarrow> s' = s"
proof -
  have "s' = s \<or> \<not> is_v1 w \<and> (\<exists>y. s' = enqueue_data w y s)"
  proof (cases "x = p")
    case True
    with assms show ?thesis by (simp add: force_input_def)
  next
    case False
    with assms obtain settled where settled: "input_settled w p outs ri s x = Inr settled"
      by (auto simp: force_input_def bind_res_Inr_iff)
    then have v1: "is_v1 w \<Longrightarrow> settled"
      by (auto simp: input_settled_def bind_res_Inr_iff forceInputNodeExecution_def)
    show ?thesis
    proof (cases settled)
      case True
      with assms settled False show ?thesis by (simp add: force_input_def)
    next
      case not_settled: False
      with assms settled False have "s' = s \<or> (\<exists>y. s' = enqueue_data w y s)"
        by (auto simp: force_input_def Let_def bind_res_Inr_iff split: option.splits if_splits)
      with v1 not_settled show ?thesis by blast
    qed
  qed
  then show "\<exists>xs. s' = s\<lparr>rx_stack := xs\<rparr>" and "is_v1 w \<Longrightarrow> s' = s"
    by (auto simp: enqueue_data_def intro: exI [of _ "rx_stack s"])
qed

lemma force_inputs_stack:
  assumes "force_inputs w inputs p o' out ri s = Inr s'"
  shows "\<exists>xs. s' = s\<lparr>rx_stack := xs\<rparr>" and "is_v1 w \<Longrightarrow> s' = s"
proof -
  from assms obtain outs where
    l: "fold_res (\<lambda>c. force_input w p o' out ri outs (conn_node c)) (concat (map conns_at inputs)) s = Inr s'"
    by (auto simp: force_inputs_def bind_res_Inr_iff)
  show "\<exists>xs. s' = s\<lparr>rx_stack := xs\<rparr>"
  proof (rule fold_res_keeps [OF l, where I = "\<lambda>s'. \<exists>xs. s' = s\<lparr>rx_stack := xs\<rparr>"])
    show "\<exists>xs. s = s\<lparr>rx_stack := xs\<rparr>" by (rule exI [of _ "rx_stack s"]) simp
  qed (use force_input_stack(1) in fastforce)
  show "s' = s" if "is_v1 w"
    by (rule fold_res_keeps [OF l, where I = "\<lambda>s'. s' = s"]) (use force_input_stack(2) that in blast)+
qed

text \<open>A complete run: its entry is on the stack, and no longer waits.\<close>

lemma release_run_pending:
  assumes ok: "join_ok n nm s" and k: "k < length (runs_of (rx_waiting s) nm)"
    and s': "release_run w nm (fst (runs_of (rx_waiting s) nm ! k)) s = Inr s'"
  shows "pending (rx_waiting s') nm = arr_remove (pending (rx_waiting s) nm) k"
    and "\<forall>m. m \<noteq> nm \<longrightarrow> runs_of (rx_waiting s') m = runs_of (rx_waiting s) m"
    and "join_ok n nm s'"
    and "\<exists>x node. getNode w nm = Some node \<and> ex_node x = node \<and> map_of (ex_data x) MainType = Some (pending (rx_waiting s) nm ! k)
      \<and> rx_stack s' = rx_stack (enqueue_data w x s)"
proof -
  let ?w = "rx_waiting s" and ?ws = "rx_waitingSource s"
  let ?r = "fst (runs_of ?w nm ! k)"
  have ord: "ordered_runs ?w" "ordered_runs ?ws" and slots: "slots_ok n (runs_of ?w nm)" "slots_ok n (runs_of ?ws nm)"
    and keys: "keys_of (runs_of ?ws nm) = keys_of (runs_of ?w nm)"
    using ok by (simp_all add: join_ok_def)
  have ks: "k < length (runs_of ?ws nm)" and r: "fst (runs_of ?ws nm ! k) = ?r"
    using keys k by (metis length_map, metis keys k length_map nth_map)
  from s' entry_at [OF ord(1) k] obtain node where node: "getNode w nm = Some node"
    and eq: "s' = remove_waiting nm ?r (enqueue_data w
      \<lparr>ex_node = node, ex_data = snd (runs_of ?w nm ! k), ex_source = entry_of ?ws nm ?r, ex_metadata = None\<rparr> s)"
    by (auto simp: release_run_def split: option.splits)
  have d: "AList.delete ?r (runs_of ?w nm) = arr_remove (runs_of ?w nm) k"
    using delete_at [OF _ k] ord(1) by (simp add: ordered_runs_def sorted_less_distinct)
  have ds: "AList.delete ?r (runs_of ?ws nm) = arr_remove (runs_of ?ws nm) k"
    using delete_at [OF _ ks] ord(2) by (simp add: ordered_runs_def sorted_less_distinct r)
  have w: "runs_of (rx_waiting s') m = (if m = nm then arr_remove (runs_of ?w nm) k else runs_of ?w m)" for m
    unfolding eq by (simp add: remove_waiting_def drop_if_empty_def enqueue_data_def drop_entry_def d)
  have emp: "arr_remove (runs_of ?w nm) k = [] \<Longrightarrow> arr_remove (runs_of ?ws nm) k = []"
    using keys by (metis map_arr_remove map_is_Nil_conv)
  have ws: "runs_of (rx_waitingSource s') m = (if m = nm then arr_remove (runs_of ?ws nm) k else runs_of ?ws m)" for m
    unfolding eq using emp by (simp add: remove_waiting_def drop_if_empty_def enqueue_data_def drop_entry_def d ds)
  show "pending (rx_waiting s') nm = arr_remove (pending ?w nm) k"
    unfolding pending_def w by (simp add: map_arr_remove)
  show "\<forall>m. m \<noteq> nm \<longrightarrow> runs_of (rx_waiting s') m = runs_of ?w m" by (simp add: w)
  have "ordered_runs (rx_waiting s')" "ordered_runs (rx_waitingSource s')"
    unfolding eq using ord by (simp_all add: remove_waiting_def drop_if_empty_def enqueue_data_def)
  with slots keys show "join_ok n nm s'"
    by (simp add: join_ok_def w ws slots_ok_remove map_arr_remove)
  let ?x = "\<lparr>ex_node = node, ex_data = snd (runs_of ?w nm ! k), ex_source = entry_of ?ws nm ?r, ex_metadata = None\<rparr>"
  have "map_of (ex_data ?x) MainType = Some (pending ?w nm ! k)"
    using main_at(1) [OF ord(1) slots(1) k] entry_at [OF ord(1) k] by (simp add: main_of_def)
  then show "\<exists>x node. getNode w nm = Some node \<and> ex_node x = node \<and> map_of (ex_data x) MainType = Some (pending ?w nm ! k)
      \<and> rx_stack s' = rx_stack (enqueue_data w x s)"
    using node unfolding eq
    by (intro exI [of _ ?x] exI [of _ node]) (simp add: remove_waiting_def drop_if_empty_def enqueue_data_def)
qed

lemma idx_set_twice: "idx_set k v (idx_set k u xs) = idx_set k v xs"
  by (induction k u xs rule: idx_set.induct) auto

lemma keep_waiting_pending:
  assumes ok: "join_ok (length inputs) (conn_node c) s" and k: "k < length (runs_of (rx_waiting s) (conn_node c))"
    and i: "conn_index c < length inputs" and d: "pending (rx_waiting s) (conn_node c) ! k ! conn_index c = output_data out o'"
    and s': "keep_waiting w inputs was c o' p out ri (fst (runs_of (rx_waiting s) (conn_node c) ! k)) s = Inr s'"
  shows "pending (rx_waiting s') (conn_node c) = pending (rx_waiting s) (conn_node c)"
    and "\<forall>m. m \<noteq> conn_node c \<longrightarrow> runs_of (rx_waiting s') m = runs_of (rx_waiting s) m"
    and "keys_of (runs_of (rx_waiting s') (conn_node c)) = keys_of (runs_of (rx_waiting s) (conn_node c))"
    and "join_ok (length inputs) (conn_node c) s'" and "is_v1 w \<Longrightarrow> rx_stack s' = rx_stack s"
proof -
  let ?n = "length inputs" and ?nm = "conn_node c" and ?w = "rx_waiting s" and ?ws = "rx_waitingSource s"
  let ?r = "fst (runs_of ?w ?nm ! k)"
  have ord: "ordered_runs ?w" "ordered_runs ?ws" and slots: "slots_ok ?n (runs_of ?w ?nm)" "slots_ok ?n (runs_of ?ws ?nm)"
    and keys: "keys_of (runs_of ?ws ?nm) = keys_of (runs_of ?w ?nm)"
    using ok by (simp_all add: join_ok_def)
  have ks: "k < length (runs_of ?ws ?nm)" and r: "fst (runs_of ?ws ?nm ! k) = ?r"
    using keys k by (metis length_map, metis keys k length_map nth_map)
  note wm = main_at [OF ord(1) slots(1) k] and wsm = main_at [OF ord(2) slots(2) ks, unfolded r]
  let ?l = "pending ?w ?nm ! k" and ?ls = "pending ?ws ?nm ! k"
  obtain s1 where s1: "(if was then Inr s else force_inputs w inputs p o' out ri s) = Inr s1"
    using s' by (auto simp: keep_waiting_def bind_res_Inr_iff)
  then obtain xs where xs: "s1 = s\<lparr>rx_stack := xs\<rparr>"
    by (cases was) (auto dest: force_inputs_stack(1) intro: that [of "rx_stack s"])
  have l: "arr_set None ?l (conn_index c) (output_data out o') = ?l"
    using i wm(2) d by (simp add: arr_set_inside) (metis list_update_id)
  let ?e = "[(MainType, ?l)]" and ?new = "[(MainType, replicate ?n None)]" and ?es = "[(MainType, ?ls)]"
  have eq: "s' = s1\<lparr>rx_waiting := put_entry ?nm ?r ?e (put_entry ?nm ?r ?new ?w),
      rx_waitingSource := set_main ?nm ?r ?ls (put_entry ?nm ?r ?new ?ws)\<rparr>"
    using s' s1 wm(1) wsm(1) by (simp add: keep_waiting_def xs prepareWaitingToExecution_def l)
  have put: "idx_set ?r e (runs_of ?w ?nm) = (runs_of ?w ?nm)[k := (?r, e)]" for e
    using idx_set_at [OF _ k] ord(1) by (simp add: ordered_runs_def)
  have puts: "idx_set ?r e (runs_of ?ws ?nm) = (runs_of ?ws ?nm)[k := (?r, e)]" for e
    using idx_set_at [OF _ ks] ord(2) by (simp add: ordered_runs_def r)
  have w: "runs_of (rx_waiting s') m = (if m = ?nm then (runs_of ?w ?nm)[k := (?r, ?e)] else runs_of ?w m)" for m
    unfolding eq by (simp add: idx_set_twice) (simp add: put)
  have ws: "runs_of (rx_waitingSource s') m = (if m = ?nm then (runs_of ?ws ?nm)[k := (?r, ?es)] else runs_of ?ws m)" for m
    unfolding eq using ord(2) by (simp add: set_main_def entry_of_put_entry idx_set_twice) (simp add: puts)
  have key: "keys_of ((runs_of ?w ?nm)[k := (?r, ?e)]) = keys_of (runs_of ?w ?nm)"
    "keys_of ((runs_of ?ws ?nm)[k := (?r, ?es)]) = keys_of (runs_of ?ws ?nm)"
    using k ks r by (metis fst_conv list_update_id map_update nth_map)+
  show "pending (rx_waiting s') ?nm = pending ?w ?nm"
    unfolding pending_def w by (simp add: map_update main_inputs_of_def)
  show "\<forall>m. m \<noteq> ?nm \<longrightarrow> runs_of (rx_waiting s') m = runs_of ?w m" by (simp add: w)
  show "keys_of (runs_of (rx_waiting s') ?nm) = keys_of (runs_of ?w ?nm)" by (simp only: w key if_True refl)
  have "ordered_runs (rx_waiting s')" "ordered_runs (rx_waitingSource s')" unfolding eq using ord by simp_all
  moreover have "slots_ok ?n ((runs_of ?w ?nm)[k := (?r, ?e)])" "slots_ok ?n ((runs_of ?ws ?nm)[k := (?r, ?es)])"
    using slots wm(2) wsm(2) by (auto intro!: slots_ok_update)
  ultimately show "join_ok ?n ?nm s'" unfolding join_ok_def w ws using key keys by simp
  show "rx_stack s' = rx_stack s" if "is_v1 w"
    using s1 that unfolding eq by (cases was) (auto dest: force_inputs_stack(2))
qed

section \<open>The engine joins inputs in order\<close>

lemma arr_remove_update: "arr_remove (xs[k := v]) k = arr_remove xs k"
  by (simp add: arr_remove_def)

lemma join_add_at:
  assumes k: "k < length vs1"
    and at: "case find_index (\<lambda>v. v ! i = None) vs of
        None \<Rightarrow> vs1 = vs @ [replicate n None] \<and> k = length vs
      | Some k' \<Rightarrow> vs1 = vs \<and> k = k'"
    and vs2: "vs2 = vs1[k := (vs1 ! k)[i := Some d]]"
  shows "join_add n i d vs = (if None \<in> set (vs2 ! k) then (vs2, None) else (arr_remove vs2 k, Some (vs2 ! k)))"
proof -
  have v: "vs2 ! k = (vs1 ! k)[i := Some d]" using k by (simp add: vs2)
  have "arr_remove (vs @ [x]) (length vs) = vs" for x :: "'a option list" by (simp add: arr_remove_def)
  then show ?thesis
    using at unfolding v unfolding vs2 arr_remove_update join_add_find
    by (cases "find_index (\<lambda>v. v ! i = None) vs") (simp_all add: Let_def)
qed

lemma enqueue_stack: "rx_stack (enqueue_data w x s) = (if is_v1 w then x # rx_stack s else rx_stack s @ [x])"
  by (simp add: enqueue_data_def)

definition released_to_stack ::
    "Workflow \<Rightarrow> string \<Rightarrow> RunExecutionData \<Rightarrow> INodeExecutionData list option list \<Rightarrow> RunExecutionData \<Rightarrow> bool" where
  "released_to_stack w nodeName s inputs s' \<longleftrightarrow>
     (\<exists>x node. getNode w nodeName = Some node \<and> ex_node x = node \<and> map_of (ex_data x) MainType = Some inputs
       \<and> rx_stack s' = rx_stack (enqueue_data w x s))"

lemma engine_joins:
  assumes inputs: "incoming_main w (conn_node c) = Inr inputs" "1 < length inputs" "conn_index c < length inputs"
    and ok: "join_ok (length inputs) (conn_node c) s" "no_gap s (conn_node c)"
    and d: "output_data out outputIndex = Some d"
    and s': "addNodeToBeExecuted w c outputIndex parent out runIndex s = Inr s'"
  shows "\<exists>released. join_add (length inputs) (conn_index c) d (pending (rx_waiting s) (conn_node c))
        = (pending (rx_waiting s') (conn_node c), released)
    \<and> (case released of None \<Rightarrow> is_v1 w \<longrightarrow> rx_stack s' = rx_stack s
       | Some r \<Rightarrow> released_to_stack w (conn_node c) s r s')
    \<and> (\<forall>m. m \<noteq> conn_node c \<longrightarrow> runs_of (rx_waiting s') m = runs_of (rx_waiting s) m)
    \<and> join_ok (length inputs) (conn_node c) s'"
proof -
  let ?n = "length inputs" and ?nm = "conn_node c" and ?i = "conn_index c"
  let ?vs = "pending (rx_waiting s) ?nm"
  from select_run_ok [OF ok inputs(3)] obtain s1 k where
    sel: "select_run ?n ?nm ?i s = Inr (fst (runs_of (rx_waiting s1) ?nm ! k), s1)"
    and ok1: "join_ok ?n ?nm s1" and only1: "only_waiting s s1" and k1: "k < length (runs_of (rx_waiting s1) ?nm)"
    and other1: "\<forall>m. m \<noteq> ?nm \<longrightarrow> runs_of (rx_waiting s1) m = runs_of (rx_waiting s) m"
    and pend1: "case find_index (\<lambda>v. v ! ?i = None) ?vs of
        None \<Rightarrow> pending (rx_waiting s1) ?nm = ?vs @ [replicate ?n None] \<and> k = length (runs_of (rx_waiting s) ?nm)
      | Some k' \<Rightarrow> pending (rx_waiting s1) ?nm = ?vs \<and> k = k'" by blast
  let ?r = "fst (runs_of (rx_waiting s1) ?nm ! k)"
  from set_input_ok [OF ok1 k1 inputs(3), of "Some d" "input_source out parent outputIndex runIndex"] obtain s2 where
    set: "set_input ?nm ?r ?i (Some d) (input_source out parent outputIndex runIndex) s1 = Inr s2"
    and ok2: "join_ok ?n ?nm s2" and only2: "only_waiting s1 s2"
    and keys2: "keys_of (runs_of (rx_waiting s2) ?nm) = keys_of (runs_of (rx_waiting s1) ?nm)"
    and pend2: "pending (rx_waiting s2) ?nm = (pending (rx_waiting s1) ?nm)[k := (pending (rx_waiting s1) ?nm ! k)[?i := Some d]]"
    and other2: "\<forall>m. m \<noteq> ?nm \<longrightarrow> runs_of (rx_waiting s2) m = runs_of (rx_waiting s1) m" by blast
  have k2: "k < length (runs_of (rx_waiting s2) ?nm)" using keys2 k1 by (metis length_map)
  have r2: "?r = fst (runs_of (rx_waiting s2) ?nm ! k)" using keys2 k1 k2 by (metis nth_map)
  have stack2: "rx_stack s2 = rx_stack s" using only1 only2 by (simp add: only_waiting_stack)
  let ?v = "pending (rx_waiting s2) ?nm ! k"
  have lenp: "k < length (pending (rx_waiting s1) ?nm)" using k1 by (simp add: pending_def)
  have at: "case find_index (\<lambda>v. v ! ?i = None) ?vs of
        None \<Rightarrow> pending (rx_waiting s1) ?nm = ?vs @ [replicate ?n None] \<and> k = length ?vs
      | Some k' \<Rightarrow> pending (rx_waiting s1) ?nm = ?vs \<and> k = k'"
    using pend1 by (auto simp: pending_def split: option.splits)
  note spec = join_add_at [OF lenp at pend2]
  have found: "all_data_found ?nm ?r s2 \<longleftrightarrow> None \<notin> set ?v"
    using ok2 main_at(1) [OF _ _ k2, of ?n] by (simp add: all_data_found_def join_ok_def r2)
  have vi: "?v ! ?i = output_data out outputIndex"
    using pend2 lenp inputs(3) ok1 main_at(2) [OF _ _ k1, of ?n] by (simp add: join_ok_def d)
  from s' have run: "(if all_data_found ?nm ?r s2 then release_run w ?nm ?r s2
      else keep_waiting w inputs (has_key (rx_waiting s) ?nm) c outputIndex parent out runIndex ?r s2) = Inr s'"
    using inputs by (simp add: addNodeToBeExecuted_def join_inputs_def Let_def sel d set split del: if_split cong: if_cong)
  have other: "\<forall>m. m \<noteq> ?nm \<longrightarrow> runs_of (rx_waiting s2) m = runs_of (rx_waiting s) m" using other1 other2 by simp
  show ?thesis
  proof (cases "None \<in> set ?v")
    case True
    then have kw: "keep_waiting w inputs (has_key (rx_waiting s) ?nm) c outputIndex parent out runIndex
        (fst (runs_of (rx_waiting s2) ?nm ! k)) s2 = Inr s'" using run found r2 by simp
    note keep = keep_waiting_pending [OF ok2 k2 inputs(3) vi kw]
    show ?thesis using True spec keep other stack2 by (intro exI [of _ None]) simp
  next
    case False
    then have "release_run w ?nm (fst (runs_of (rx_waiting s2) ?nm ! k)) s2 = Inr s'" using run found r2 by simp
    note rel = release_run_pending [OF ok2 k2 this]
    have "released_to_stack w ?nm s ?v s'"
      using rel(4) unfolding released_to_stack_def enqueue_stack stack2 .
    with False spec rel(1-3) other show ?thesis by (intro exI [of _ "Some ?v"]) simp
  qed
qed

text \<open>C1: For a node with several inputs the engine does what the specification of joining says: data for an
  input join the first waiting run that misses it, or a new run; a run that then has data on every input leaves
  the waiting store and is put on the stack with exactly its data. Nothing is lost: what waits afterwards and what
  is released are the data that waited and the new data. All other nodes wait as before.\<close>

theorem addNodeToBeExecuted_joins:
  assumes "incoming_main w (conn_node c) = Inr inputs" and "1 < length inputs" and "conn_index c < length inputs"
    and "join_ok (length inputs) (conn_node c) s" and "no_gap s (conn_node c)"
    and "output_data out outputIndex = Some d"
    and "addNodeToBeExecuted w c outputIndex parent out runIndex s = Inr s'"
  shows "\<exists>released. join_add (length inputs) (conn_index c) d (pending (rx_waiting s) (conn_node c))
        = (pending (rx_waiting s') (conn_node c), released)
    \<and> (case released of None \<Rightarrow> is_v1 w \<longrightarrow> rx_stack s' = rx_stack s
       | Some r \<Rightarrow> None \<notin> set r \<and> length r = length inputs \<and> released_to_stack w (conn_node c) s r s')
    \<and> sum_list (map filled (pending (rx_waiting s') (conn_node c))) + (case released of None \<Rightarrow> {#} | Some r \<Rightarrow> filled r)
      = add_mset (conn_index c, d) (sum_list (map filled (pending (rx_waiting s) (conn_node c))))
    \<and> (\<forall>m. m \<noteq> conn_node c \<longrightarrow> runs_of (rx_waiting s') m = runs_of (rx_waiting s) m)
    \<and> join_ok (length inputs) (conn_node c) s'"
proof -
  obtain released where join: "join_add (length inputs) (conn_index c) d (pending (rx_waiting s) (conn_node c))
        = (pending (rx_waiting s') (conn_node c), released)"
    and rest: "case released of None \<Rightarrow> is_v1 w \<longrightarrow> rx_stack s' = rx_stack s
       | Some r \<Rightarrow> released_to_stack w (conn_node c) s r s'"
      "\<forall>m. m \<noteq> conn_node c \<longrightarrow> runs_of (rx_waiting s') m = runs_of (rx_waiting s) m"
      "join_ok (length inputs) (conn_node c) s'"
    using engine_joins [OF assms] by blast
  have "full (length inputs) (pending (rx_waiting s) (conn_node c))"
    using assms(4) by (auto simp: full_def pending_def join_ok_def dest: slots_ok_main)
  note data = join_add_data [OF assms(3) this join] and lens = join_add_full [OF assms(3) this join]
  have "None \<notin> set r" if "released = Some r" for r
    using join unfolding that by (rule join_add_released)
  with data lens join rest show ?thesis by (intro exI [of _ released]) (auto split: option.splits)
qed

section \<open>A node with two inputs\<close>

definition item_of :: "string \<Rightarrow> INodeExecutionData list" where
  "item_of x = [empty_item\<lparr>item_json := [(''v'', JStr x)]\<rparr>]"

definition wire_to :: "string \<Rightarrow> nat \<Rightarrow> INodeConnections" where
  "wire_to nm i = [(MainType, [Some [\<lparr>conn_node = nm, conn_type = MainType, conn_index = i\<rparr>]])]"

definition merge_workflow :: Workflow where
  "merge_workflow = new_workflow (\<lambda>_ _. Some [])
     [plain_node ''P'' ''step'', plain_node ''Q'' ''step'', plain_node ''M'' ''merge'']
     [(''P'', wire_to ''M'' 0), (''Q'', wire_to ''M'' 1)] (\<lambda>ty _. Some (example_type ty)) (Some ''v1'') None"

text \<open>Output of the node \<open>P\<close> for input 0, or of \<open>Q\<close> for input 1, of the merge node.\<close>

definition arrive_at :: "nat \<times> string \<Rightarrow> RunExecutionData \<Rightarrow> RunExecutionData res" where
  "arrive_at x s = addNodeToBeExecuted merge_workflow \<lparr>conn_node = ''M'', conn_type = MainType, conn_index = fst x\<rparr> 0
     (if fst x = 0 then ''P'' else ''Q'') (Some [Some (item_of (snd x))]) 0 s"

lemma merge_inputs: "incoming_main merge_workflow ''M'' = Inr
  [Some [\<lparr>conn_node = ''P'', conn_type = MainType, conn_index = 0\<rparr>],
   Some [\<lparr>conn_node = ''Q'', conn_type = MainType, conn_index = 0\<rparr>]]"
  by code_simp

definition waits_with :: "string \<Rightarrow> RunExecutionData" where
  "waits_with x = no_run\<lparr>rx_waiting := [(''M'', [(0, [(MainType, [Some (item_of x), None])])])],
     rx_waitingSource := [(''M'', [(0, [(MainType, [Some (parent_source ''P'' 0 0), None])])])]\<rparr>"

lemma addNodeToBeExecuted_joins_witness:
  "\<exists>s'. arrive_at (1, ''y'') (waits_with ''x'') = Inr s' \<and> pending (rx_waiting s') ''M'' = []
    \<and> released_to_stack merge_workflow ''M'' (waits_with ''x'') [Some (item_of ''x''), Some (item_of ''y'')] s'"
proof -
  let ?c = "\<lparr>conn_node = ''M'', conn_type = MainType, conn_index = 1\<rparr>"
  have "\<exists>s'. arrive_at (1, ''y'') (waits_with ''x'') = Inr s'"
  proof -
    have "case arrive_at (1, ''y'') (waits_with ''x'') of Inl _ \<Rightarrow> False | Inr _ \<Rightarrow> True" by code_simp
    then show ?thesis by (cases "arrive_at (1, ''y'') (waits_with ''x'')") simp_all
  qed
  then obtain s' where s': "arrive_at (1, ''y'') (waits_with ''x'') = Inr s'" ..
  have runs: "runs_of (rx_waiting (waits_with ''x'')) ''M'' = [(0, [(MainType, [Some (item_of ''x''), None])])]"
    and pend: "pending (rx_waiting (waits_with ''x'')) ''M'' = [[Some (item_of ''x''), None]]"
    by (simp_all add: runs_of_def waits_with_def pending_def main_inputs_of_def)
  have "join_ok 2 ''M'' (waits_with ''x'')"
    by (simp add: join_ok_def ordered_runs_def runs_of_def slots_ok_def waits_with_def)
  with addNodeToBeExecuted_joins [of merge_workflow ?c _ "waits_with ''x''" "Some [Some (item_of ''y'')]" 0 "item_of ''y''" "''Q''" 0 s']
    s' merge_inputs
  obtain released where "join_add 2 1 (item_of ''y'') [[Some (item_of ''x''), None]] = (pending (rx_waiting s') ''M'', released)"
    and "case released of None \<Rightarrow> True | Some r \<Rightarrow> released_to_stack merge_workflow ''M'' (waits_with ''x'') r s'"
    by (auto simp: arrive_at_def no_gap_def runs pend output_data_def arr_get_def numeral_2_eq_2 split: option.splits)
  then show ?thesis using s' by (auto simp: close_run_def)
qed

text \<open>When the run that waited first is complete and another one still waits, the next new run gets
  the index of that one: its data are overwritten. Here \<open>b\<close> arrives at the first input, is never
  executed, and no longer waits.\<close>

theorem waiting_data_overwritten:
  "\<exists>s. fold_res arrive_at [(0, ''a''), (0, ''b''), (1, ''x''), (0, ''c'')] no_run = Inr s
    \<and> map ex_data (rx_stack s) = [[(MainType, [Some (item_of ''a''), Some (item_of ''x'')])]]
    \<and> pending (rx_waiting s) ''M'' = [[Some (item_of ''c''), None]]"
proof -
  have "(case fold_res arrive_at [(0, ''a''), (0, ''b''), (1, ''x''), (0, ''c'')] no_run of Inl _ \<Rightarrow> False
    | Inr s \<Rightarrow> map ex_data (rx_stack s) = [[(MainType, [Some (item_of ''a''), Some (item_of ''x'')])]]
    \<and> pending (rx_waiting s) ''M'' = [[Some (item_of ''c''), None]])" by code_simp
  then show ?thesis by (cases "fold_res arrive_at [(0, ''a''), (0, ''b''), (1, ''x''), (0, ''c'')] no_run") auto
qed

end
