(* ===== verification/EngineItems.thy ===== *)
theory EngineItems
  imports EngineEnqueue
begin

text \<open>
  What the engine does with the items of a node around its execution (\<open>workflow-execute.ts\<close>):
  the input items are numbered, missing pairings of the output are filled in
  (\<open>assignPairedItems\<close>), reported errors are moved to the error field of an item, and with an
  error output the failed items are moved there (\<open>handleNodeErrorOutput\<close>).
\<close>

section \<open>Numbering the input\<close>

definition paired_at :: "nat \<Rightarrow> nat option \<Rightarrow> pairedItem" where
  "paired_at i input = PairedOne \<lparr>pi_item = i, pi_input = input, pi_sourceOverwrite = None\<rparr>"

definition number_items :: "nat \<Rightarrow> INodeExecutionData list \<Rightarrow> INodeExecutionData list" where
  "number_items inputIndex items =
     map (\<lambda>(itemIndex, x). x\<lparr>item_paired := Some (paired_at itemIndex (or_undefined inputIndex))\<rparr>) (enumerate 0 items)"

definition number_inputs :: "ITaskDataConnections \<Rightarrow> ITaskDataConnections" where
  "number_inputs = map (\<lambda>(connectionType, inputs).
     (connectionType, map (\<lambda>(inputIndex, input). map_option (number_items inputIndex) input) (enumerate 0 inputs)))"

section \<open>Pairing the output\<close>

text \<open>What a node returns: \<open>undefined\<close>, \<open>null\<close> or its outputs.\<close>

datatype node_data = Undef | Null | Outputs node_output

text \<open>
  The items of one output from an index on; the flag says that an item without pairing was met that
  cannot be paired, which ends the loop over all outputs.
\<close>

fun pair_output :: "bool \<Rightarrow> bool \<Rightarrow> nat \<Rightarrow> INodeExecutionData list \<Rightarrow> INodeExecutionData list \<times> bool" where
  "pair_output single same index [] = ([], False)"
| "pair_output single same index (x # xs) =
     (if item_paired x = None \<and> \<not> single \<and> \<not> same then (x # xs, True)
      else case pair_output single same (Suc index) xs of (xs', stopped) \<Rightarrow>
        ((if item_paired x \<noteq> None then x
          else x\<lparr>item_paired := Some (paired_at (if single then 0 else index) None)\<rparr>) # xs', stopped))"

fun pair_outputs :: "bool \<Rightarrow> bool \<Rightarrow> node_output \<Rightarrow> node_output" where
  "pair_outputs single same [] = []"
| "pair_outputs single same (None # outputs) = None # pair_outputs single same outputs"
| "pair_outputs single same (Some items # outputs) =
     (case pair_output single same 0 items of (items', stopped) \<Rightarrow>
        Some items' # (if stopped then outputs else pair_outputs single same outputs))"

definition first_length :: "INodeExecutionData list option list \<Rightarrow> nat option" where
  "first_length main = (case main of [] \<Rightarrow> None | input # _ \<Rightarrow> map_option length input)"

text \<open>Whether the node has one input with one item, and as many items out of its output as into its input.\<close>

definition isSingleInputAndOutput :: "INodeExecutionData list option list \<Rightarrow> bool" where
  "isSingleInputAndOutput main \<longleftrightarrow> length main = 1 \<and> first_length main = Some 1"

definition isSameNumberOfItems :: "node_output \<Rightarrow> INodeExecutionData list option list \<Rightarrow> bool res" where
  "isSameNumberOfItems outputs main =
     (if length outputs = 1 \<and> length main = 1
      then (case hd outputs of None \<Rightarrow> Inl TypeError | Some items \<Rightarrow> Inr (first_length main = Some (length items)))
      else Inr False)"

definition pair_all :: "node_output \<Rightarrow> ITaskDataConnections \<Rightarrow> node_output res" where
  "pair_all outputs inputData =
     (if outputs = [] then Inr []
      else case map_of inputData MainType of
          None \<Rightarrow> Inl TypeError
        | Some main \<Rightarrow> bind_res (isSameNumberOfItems outputs main) (\<lambda>same.
            Inr (pair_outputs (isSingleInputAndOutput main) same outputs)))"

definition assignPairedItems :: "node_data \<Rightarrow> IExecuteData \<Rightarrow> RunExecutionData \<Rightarrow> (node_output option \<times> RunExecutionData) res" where
  "assignPairedItems nodeSuccessData x s =
     (let s' = s\<lparr>rx_lastNodeExecuted := Some (node_name (ex_node x))\<rparr> in
      case nodeSuccessData of
        Undef \<Rightarrow> Inr (None, s)
      | Null \<Rightarrow> Inr (None, s')
      | Outputs outputs \<Rightarrow> bind_res (pair_all outputs (ex_data x)) (\<lambda>outputs'. Inr (Some outputs', s')))"

text \<open>The item that stands in for an empty output when the node always has output data.\<close>

definition always_output :: "ITaskDataConnections \<Rightarrow> INodeExecutionData res" where
  "always_output inputData =
     (case map_of inputData MainType of
        None \<Rightarrow> Inl TypeError
      | Some main \<Rightarrow> Inr (empty_item\<lparr>item_paired := Some (PairedMany (concat (map (\<lambda>(inputIndex, input).
          (case input of None \<Rightarrow> [] | Some items \<Rightarrow>
             map (\<lambda>itemIndex. \<lparr>pi_item = itemIndex, pi_input = Some inputIndex, pi_sourceOverwrite = None\<rparr>) [0 ..< length items]))
          (enumerate 0 main))))\<rparr>))"

definition has_first_item :: "node_output option \<Rightarrow> bool" where
  "has_first_item outputs \<longleftrightarrow> (case outputs of Some (Some (_ # _) # _) \<Rightarrow> True | _ \<Rightarrow> False)"

definition ensure_output :: "IExecuteData \<Rightarrow> node_output option \<Rightarrow> node_output option res" where
  "ensure_output x outputs =
     (if \<not> has_first_item outputs \<and> alwaysOutputData (ex_node x) = Some True
      then bind_res (always_output (ex_data x)) (\<lambda>i.
        Inr (Some (arr_set None (case outputs of None \<Rightarrow> [] | Some os \<Rightarrow> os) 0 (Some [i]))))
      else Inr outputs)"

section \<open>Reported errors\<close>

text \<open>The message of an error value; reading it from \<open>null\<close> is an error itself. A message that is \<open>undefined\<close> is left out.\<close>

definition message_object :: "json \<Rightarrow> IDataObject res" where
  "message_object e =
     (case e of
        JNull \<Rightarrow> Inl TypeError
      | JObj props \<Rightarrow> Inr (case map_of props ''message'' of None \<Rightarrow> [] | Some m \<Rightarrow> [(''error'', m)])
      | _ \<Rightarrow> Inr [])"

definition merge_error :: "INodeExecutionData \<Rightarrow> INodeExecutionData res" where
  "merge_error x =
     (case (map_of (item_json x) ''$error'', map_of (item_json x) ''$json'') of
        (Some e, Some _) \<Rightarrow> bind_res (message_object e) (\<lambda>m. Inr (x\<lparr>item_error := Some e, item_json := m\<rparr>))
      | _ \<Rightarrow> (case item_error x of
          None \<Rightarrow> Inr x
        | Some e \<Rightarrow> bind_res (message_object e) (\<lambda>m. Inr (x\<lparr>item_json := m\<rparr>))))"

fun map_res :: "('a \<Rightarrow> 'e + 'b) \<Rightarrow> 'a list \<Rightarrow> 'e + 'b list" where
  "map_res f [] = Inr []"
| "map_res f (x # xs) = bind_res (f x) (\<lambda>y. bind_res (map_res f xs) (\<lambda>ys. Inr (y # ys)))"

text \<open>All items of all outputs; iterating over an output that is \<open>null\<close> is an error.\<close>

definition merge_errors :: "node_output \<Rightarrow> node_output res" where
  "merge_errors = map_res (\<lambda>execution. case execution of
       None \<Rightarrow> Inl TypeError
     | Some items \<Rightarrow> bind_res (map_res merge_error items) (\<lambda>items'. Inr (Some items')))"

section \<open>The error output\<close>

text \<open>The error an item carries, and the item without its error field.\<close>

definition take_error :: "INodeExecutionData \<Rightarrow> bool \<times> INodeExecutionData" where
  "take_error x =
     (let j = item_json x;
          json_error = (case map_of j ''error'' of None \<Rightarrow> False | Some e \<Rightarrow> json_truthy e);
          json_message = (case map_of j ''message'' of None \<Rightarrow> False | Some m \<Rightarrow> json_truthy m)
      in if (case item_error x of None \<Rightarrow> False | Some e \<Rightarrow> json_truthy e) then (True, x\<lparr>item_error := None\<rparr>)
         else (json_error \<and> (length j = 1 \<or> json_message \<and> length j = 2), x))"

definition pairedItemData :: "INodeExecutionData \<Rightarrow> IPairedItemData option" where
  "pairedItemData x =
     (case item_paired x of
        Some (PairedOne p) \<Rightarrow> Some p
      | Some (PairedMany (p # _)) \<Rightarrow> Some p
      | _ \<Rightarrow> None)"

text \<open>\<open>$getPairedItem\<close> of the workflow data proxy, which finds the input item an item comes from.\<close>

type_synonym get_paired = "ISourceData \<Rightarrow> IPairedItemData \<Rightarrow> INodeExecutionData option res"

definition error_item :: "get_paired \<Rightarrow> ITaskDataConnectionsSource option \<Rightarrow> INodeExecutionData \<Rightarrow> INodeExecutionData res" where
  "error_item getPairedItem source x =
     (case (source, pairedItemData x) of
        (Some sources, Some p) \<Rightarrow>
          (case Option.bind (map_of sources MainType) (\<lambda>main. arr_get main (case pi_input p of None \<Rightarrow> 0 | Some i \<Rightarrow> i)) of
             Some (Some sourceData) \<Rightarrow> bind_res (getPairedItem sourceData p) (\<lambda>found.
               case found of
                 None \<Rightarrow> Inr x
               | Some constPairedItem \<Rightarrow> Inr (x\<lparr>item_json := spread (item_json constPairedItem) (item_json x)\<rparr>))
           | _ \<Rightarrow> Inl TypeError)
      | _ \<Rightarrow> Inr x)"

definition split_item ::
    "get_paired \<Rightarrow> ITaskDataConnectionsSource option \<Rightarrow> INodeExecutionData
      \<Rightarrow> INodeExecutionData list \<times> INodeExecutionData list \<Rightarrow> (INodeExecutionData list \<times> INodeExecutionData list) res" where
  "split_item getPairedItem source x acc =
     (case (take_error x, acc) of ((failed, x'), (successItems, errorItems)) \<Rightarrow>
       if failed then bind_res (error_item getPairedItem source x') (\<lambda>e. Inr (successItems, errorItems @ [e]))
       else Inr (successItems @ [x'], errorItems))"

definition items_at :: "node_output \<Rightarrow> nat \<Rightarrow> INodeExecutionData list" where
  "items_at outputs i = (case arr_get outputs i of Some (Some items) \<Rightarrow> items | _ \<Rightarrow> [])"

definition split_output ::
    "get_paired \<Rightarrow> ITaskDataConnectionsSource option \<Rightarrow> nat \<Rightarrow> node_output \<times> INodeExecutionData list
      \<Rightarrow> (node_output \<times> INodeExecutionData list) res" where
  "split_output getPairedItem source outputIndex acc =
     (case acc of (outputs, errorItems) \<Rightarrow>
       bind_res (fold_res (split_item getPairedItem source) (items_at outputs outputIndex) ([], errorItems))
         (\<lambda>(successItems, errorItems'). Inr (arr_set None outputs outputIndex (Some successItems), errorItems')))"

text \<open>
  \<open>mainOutputs\<close> is the number of main outputs of the node, which its type computes. With no
  main output at all the error items are written at the index \<open>-1\<close>, which no reader looks at.
\<close>

definition handleNodeErrorOutput ::
    "nat \<Rightarrow> get_paired \<Rightarrow> IExecuteData \<Rightarrow> node_output \<Rightarrow> node_output res" where
  "handleNodeErrorOutput mainOutputs getPairedItem x outputs =
     bind_res (fold_res (split_output getPairedItem (ex_source x)) [0 ..< mainOutputs - 1] (outputs, []))
       (\<lambda>(outputs', errorItems).
         Inr (if mainOutputs = 0 then outputs' else arr_set None outputs' (mainOutputs - 1) (Some errorItems)))"

section \<open>Every item that can be paired is paired\<close>

definition paired_with :: "bool \<Rightarrow> nat \<times> INodeExecutionData \<Rightarrow> INodeExecutionData" where
  "paired_with single p = (case p of (index, x) \<Rightarrow>
     if item_paired x \<noteq> None then x else x\<lparr>item_paired := Some (paired_at (if single then 0 else index) None)\<rparr>)"

lemma pair_output_all:
  "single \<or> same \<Longrightarrow> pair_output single same k items = (map (paired_with single) (enumerate k items), False)"
  by (induction items arbitrary: k) (auto simp: paired_with_def)

lemma pair_output_none: "fst (pair_output False False k items) = items"
  by (induction items arbitrary: k) (simp_all add: case_prod_unfold)

lemma pair_outputs_all:
  assumes "single \<or> same"
  shows "pair_outputs single same outputs = map (map_option (\<lambda>items. map (paired_with single) (enumerate 0 items))) outputs"
proof (induction outputs)
  case (Cons o' outputs)
  then show ?case by (cases o') (simp_all add: pair_output_all [OF assms])
qed simp

lemma pair_outputs_none: "pair_outputs False False outputs = outputs"
proof (induction outputs)
  case (Cons o' outputs)
  then show ?case by (cases o') (simp_all add: case_prod_unfold pair_output_none)
qed simp

definition pairable :: "node_output \<Rightarrow> INodeExecutionData list option list \<Rightarrow> bool" where
  "pairable outputs main \<longleftrightarrow> isSingleInputAndOutput main
     \<or> (\<exists>items input. outputs = [Some items] \<and> main = [Some input] \<and> length items = length input)"

text \<open>C30: Items without pairing are all paired when the node has a single input item, with that item, or as many
  output items as input items, with the item at their index; items that have a pairing keep it, and in all other
  cases the output is unchanged although the loop over the outputs stops at the first item it cannot pair.\<close>

theorem assignPairedItems_exact:
  assumes "map_of (ex_data x) MainType = Some main" and "None \<notin> set outputs"
  shows "assignPairedItems (Outputs outputs) x s = Inr (Some (if pairable outputs main
      then map (map_option (\<lambda>items. map (paired_with (isSingleInputAndOutput main)) (enumerate 0 items))) outputs
      else outputs), s\<lparr>rx_lastNodeExecuted := Some (node_name (ex_node x))\<rparr>)"
proof (cases "outputs = []")
  case True
  then show ?thesis by (simp add: assignPairedItems_def pair_all_def Let_def)
next
  case False
  have first: "hd outputs \<noteq> None" using False assms(2) by (cases outputs; cases "hd outputs") auto
  have same: "\<exists>same. isSameNumberOfItems outputs main = Inr same \<and> (isSingleInputAndOutput main \<or> same \<longleftrightarrow> pairable outputs main)"
  proof (cases "length outputs = 1 \<and> length main = 1")
    case True
    then obtain out input where "outputs = [out]" "main = [input]" by (auto simp: length_Suc_conv)
    with first show ?thesis
      by (cases out; cases input) (auto simp: isSameNumberOfItems_def first_length_def pairable_def)
  next
    case False
    then have "isSameNumberOfItems outputs main = Inr False" unfolding isSameNumberOfItems_def by (rule if_not_P)
    moreover have "pairable outputs main \<longleftrightarrow> isSingleInputAndOutput main" using False by (auto simp: pairable_def)
    ultimately show ?thesis by (intro exI [of _ False]) simp
  qed
  then obtain b where b: "isSameNumberOfItems outputs main = Inr b" "isSingleInputAndOutput main \<or> b \<longleftrightarrow> pairable outputs main"
    by blast
  show ?thesis
  proof (cases "pairable outputs main")
    case True
    with b False assms(1) show ?thesis
      by (simp add: assignPairedItems_def pair_all_def Let_def pair_outputs_all)
  next
    case unpaired: False
    with b have "\<not> isSingleInputAndOutput main" "\<not> b" by blast+
    with b unpaired False assms(1) show ?thesis
      by (simp add: assignPairedItems_def pair_all_def Let_def pair_outputs_none)
  qed
qed

lemma assignPairedItems_exact_witness:
  "assignPairedItems (Outputs [Some [empty_item, empty_item]])
      \<lparr>ex_node = plain_node ''A'' ''step'', ex_data = [(MainType, [Some [empty_item]])], ex_source = None, ex_metadata = None\<rparr> no_run
    = Inr (Some [Some [empty_item\<lparr>item_paired := Some (paired_at 0 None)\<rparr>, empty_item\<lparr>item_paired := Some (paired_at 0 None)\<rparr>]],
        no_run\<lparr>rx_lastNodeExecuted := Some ''A''\<rparr>)"
proof -
  have "isSingleInputAndOutput [Some [empty_item]]" by (simp add: isSingleInputAndOutput_def first_length_def)
  then show ?thesis
    by (subst assignPairedItems_exact [where main = "[Some [empty_item]]"])
      (simp_all add: pairable_def paired_with_def empty_item_def plain_node_def)
qed

section \<open>Failed items go to the error output\<close>

definition failed :: "INodeExecutionData \<Rightarrow> bool" where
  "failed x \<longleftrightarrow> fst (take_error x)"

definition succeeded :: "node_output \<Rightarrow> nat \<Rightarrow> INodeExecutionData list" where
  "succeeded outputs i = filter (\<lambda>x. \<not> failed x) (items_at outputs i)"

lemma take_error_unfailed: "\<not> failed x \<Longrightarrow> snd (take_error x) = x"
  by (auto simp: failed_def take_error_def Let_def split: if_splits)

lemma split_items:
  "fold_res (split_item gp src) items (ss, es) = Inr (ss', es') \<Longrightarrow>
    ss' = ss @ filter (\<lambda>x. \<not> failed x) items \<and> length es' = length es + length (filter failed items)"
proof (induction items arbitrary: ss es)
  case (Cons x items)
  obtain f x' where t: "take_error x = (f, x')" by (cases "take_error x")
  show ?case
  proof (cases f)
    case True
    obtain q where q: "split_item gp src x (ss, es) = Inr q" "fold_res (split_item gp src) items q = Inr (ss', es')"
      using Cons.prems by (auto simp: bind_res_Inr_iff)
    from q(1) t True obtain e where "q = (ss, es @ [e])" by (auto simp: split_item_def bind_res_Inr_iff)
    with q(2) have "fold_res (split_item gp src) items (ss, es @ [e]) = Inr (ss', es')" by simp
    from Cons.IH [OF this] t True show ?thesis by (simp add: failed_def)
  next
    case False
    then have nf: "\<not> failed x" using t by (simp add: failed_def)
    with t False have "x' = x" using take_error_unfailed [OF nf] by simp
    with t False have "split_item gp src x (ss, es) = Inr (ss @ [x], es)" by (simp add: split_item_def)
    with Cons.prems have "fold_res (split_item gp src) items (ss @ [x], es) = Inr (ss', es')" by simp
    from Cons.IH [OF this] nf show ?thesis by simp
  qed
qed simp

lemma items_at_set: "items_at (arr_set None outputs i (Some items)) j = (if j = i then items else items_at outputs j)"
  unfolding items_at_def arr_get_arr_set by (auto simp: arr_get_def)

lemma split_outputs:
  "fold_res (split_output gp src) is (outputs, es) = Inr (outputs', es') \<Longrightarrow> distinct is \<Longrightarrow>
    (\<forall>j. items_at outputs' j = (if j \<in> set is then succeeded outputs j else items_at outputs j))
    \<and> length es' = length es + (\<Sum>i \<leftarrow> is. length (filter failed (items_at outputs i)))"
proof (induction "is" arbitrary: outputs es)
  case (Cons i "is")
  from Cons.prems(1) obtain q where q: "split_output gp src i (outputs, es) = Inr q"
    "fold_res (split_output gp src) is q = Inr (outputs', es')" by (auto simp: bind_res_Inr_iff)
  from q(1) obtain ss es1 where split: "fold_res (split_item gp src) (items_at outputs i) ([], es) = Inr (ss, es1)"
    and "q = (arr_set None outputs i (Some ss), es1)" by (auto simp: split_output_def bind_res_Inr_iff)
  with q(2) have rest: "fold_res (split_output gp src) is (arr_set None outputs i (Some ss), es1) = Inr (outputs', es')"
    by simp
  from split_items [OF split] have ss: "ss = succeeded outputs i"
    and es1: "length es1 = length es + length (filter failed (items_at outputs i))" by (simp_all add: succeeded_def)
  define os where "os = arr_set None outputs i (Some ss)"
  have at: "items_at os j = (if j = i then ss else items_at outputs j)" for j unfolding os_def by (rule items_at_set)
  have sums: "(\<Sum>i' \<leftarrow> is. length (filter failed (items_at os i'))) = (\<Sum>i' \<leftarrow> is. length (filter failed (items_at outputs i')))"
    using Cons.prems(2) by (intro arg_cong [where f = sum_list] map_cong) (auto simp: at)
  from Cons.prems(2) have "i \<notin> set is" and "distinct is" by simp_all
  from Cons.IH [OF rest [folded os_def] this(2), unfolded sums] this(1) show ?case
    by (auto simp: es1 succeeded_def at ss)
qed simp


definition example_data :: IExecuteData where
  "example_data = \<lparr>ex_node = plain_node ''A'' ''step'', ex_data = [(MainType, [Some (item_of ''a'' @ item_of ''b'')])],
     ex_source = None, ex_metadata = None\<rparr>"

definition failed_item :: INodeExecutionData where
  "failed_item = empty_item\<lparr>item_json := [(''error'', JStr ''no'')]\<rparr>"


end
