(* ===== verification/EngineNode.thy ===== *)
theory EngineNode
  imports EngineItems
begin

text \<open>
  One node of an execution (\<open>workflow-execute.ts\<close>): whether the workflow is ready
  (\<open>checkReadyForExecution\<close>), whether a node has its input (\<open>ensureInputData\<close>),
  and what is done to run it (\<open>runNode\<close>). The code of the nodes themselves is called through
  a parameter: \<open>runNode\<close> either answers by itself or asks for one call, whose reply it turns
  into the result.
\<close>

section \<open>Errors of a node\<close>

text \<open>The error object of an exception. The messages the engine of JavaScript gives are left out.\<close>

fun error_of :: "js_error \<Rightarrow> exec_error" where
  "error_of AssertionError = \<lparr>err_name = ''AssertionError'', err_message = ''''\<rparr>"
| "error_of TypeError = \<lparr>err_name = ''TypeError'', err_message = ''''\<rparr>"
| "error_of (ApplicationError m) = \<lparr>err_name = ''ApplicationError'', err_message = m\<rparr>"
| "error_of (UserError m) = \<lparr>err_name = ''UserError'', err_message = m\<rparr>"
| "error_of (UnexpectedError m) = \<lparr>err_name = ''UnexpectedError'', err_message = m\<rparr>"
| "error_of (OperationalError m) = \<lparr>err_name = ''OperationalError'', err_message = m\<rparr>"

section \<open>Calls of node code\<close>

text \<open>What is executed: the handler of the node type, or a custom operation of a resource.\<close>

datatype node_request =
    CallExecute INode "(string \<times> string) option" "INodeExecutionData list" ITaskDataConnections nat
  | CallPoll INode
  | CallTrigger INode
  | CallRouting INode "INodeExecutionData list" ITaskDataConnections nat

text \<open>
  What comes back: an exception, or the data. An executed node has hints, and the errors of its close
  functions, of which the first is an \<open>Error\<close> or not. A trigger gives no response, or a list
  of outputs and perhaps a function that closes it.
\<close>

datatype close_error = CloseError exec_error | CloseOther

datatype node_reply =
    Threw exec_error
  | Executed node_data "json list" "close_error list"
  | Polled node_data
  | Triggered "(node_output \<times> bool) option"
  | Routed node_data

record run_answer =
  ra_data :: node_data
  ra_hints :: "json list"
  ra_close :: bool

definition answer :: "node_data \<Rightarrow> run_answer" where
  "answer d = \<lparr>ra_data = d, ra_hints = [], ra_close = False\<rparr>"

datatype node_plan =
    Answer run_answer
  | Fail exec_error
  | Ask node_request

definition getCustomOperation :: "INode \<Rightarrow> INodeType \<Rightarrow> (string \<times> string) option" where
  "getCustomOperation node type =
     (case nt_customOperations type of
        None \<Rightarrow> None
      | Some customOperations \<Rightarrow>
          (case (case forceCustomOperation node of
                   Some p \<Rightarrow> Some p
                 | None \<Rightarrow> (case (map_of (parameters node) ''resource'', map_of (parameters node) ''operation'') of
                     (Some (JStr resource), Some (JStr operation)) \<Rightarrow> Some (resource, operation)
                   | _ \<Rightarrow> None)) of
             None \<Rightarrow> None
           | Some (resource, operation) \<Rightarrow>
               (case map_of customOperations resource of
                  None \<Rightarrow> None
                | Some operations \<Rightarrow> if operation \<in> set operations then Some (resource, operation) else None)))"

text \<open>A disabled node passes the data of its first input through.\<close>

definition pass_through :: "ITaskDataConnections \<Rightarrow> node_data" where
  "pass_through inputData =
     (case map_of inputData MainType of
        Some (Some items # _) \<Rightarrow> Outputs [Some items]
      | _ \<Rightarrow> Undef)"

definition main_data :: "ITaskDataConnections \<Rightarrow> node_data" where
  "main_data inputData = (case map_of inputData MainType of None \<Rightarrow> Undef | Some main \<Rightarrow> Outputs main)"

text \<open>
  The items of the first input, and with the order \<open>v1\<close> those of the first input that has any.
  An input that is \<open>null\<close> has no length to ask for.
\<close>

definition connection_input :: "Workflow \<Rightarrow> ITaskDataConnections \<Rightarrow> INodeExecutionData list res" where
  "connection_input w inputData =
     (let first = (case map_of inputData MainType of Some (input # _) \<Rightarrow> input | _ \<Rightarrow> Some []) in
      bind_res (if \<not> is_v1 w then Inr first
          else case map_of inputData MainType of
              None \<Rightarrow> Inl TypeError
            | Some main \<Rightarrow> (case find (\<lambda>input. case input of None \<Rightarrow> False | Some items \<Rightarrow> items \<noteq> []) main of
                Some input \<Rightarrow> Inr input
              | None \<Rightarrow> Inr first)) (\<lambda>chosen.
        case chosen of None \<Rightarrow> Inl TypeError | Some items \<Rightarrow> Inr items))"

definition execute_once :: "ITaskDataConnections \<Rightarrow> ITaskDataConnections" where
  "execute_once = map (\<lambda>(connectionType, inputs). (connectionType, map (map_option (take 1)) inputs))"

text \<open>A node that failed before as the last one fails again, with the error it had.\<close>

definition earlier_failure :: "RunExecutionData \<Rightarrow> INode \<Rightarrow> exec_error option" where
  "earlier_failure s node =
     (if rx_lastNodeExecuted s = Some (node_name node)
      then map_option (\<lambda>e. if err_name e \<in> {''NodeOperationError'', ''NodeApiError''} then e else e\<lparr>err_name := ''Error''\<rparr>)
        (rx_error s)
      else None)"

definition run_call ::
    "WorkflowExecuteMode \<Rightarrow> INode \<Rightarrow> INodeType \<Rightarrow> (string \<times> string) option \<Rightarrow> INodeExecutionData list \<Rightarrow> ITaskDataConnections
      \<Rightarrow> nat \<Rightarrow> node_plan" where
  "run_call mode node type custom connectionInputData inputData runIndex =
     (if nt_execute type \<or> custom \<noteq> None then Ask (CallExecute node custom connectionInputData inputData runIndex)
      else if nt_poll type then
        (if mode = ModeManual then Ask (CallPoll node) else Answer (answer (main_data inputData)))
      else if nt_trigger type then
        (if mode = ModeManual then Ask (CallTrigger node) else Answer (answer (main_data inputData)))
      else if nt_webhook type \<and> \<not> nt_requestDefaults type then Answer (answer (main_data inputData))
      else Ask (CallRouting node connectionInputData inputData runIndex))"

definition runNode_plan ::
    "Workflow \<Rightarrow> IExecuteData \<Rightarrow> RunExecutionData \<Rightarrow> nat \<Rightarrow> WorkflowExecuteMode \<Rightarrow> node_plan" where
  "runNode_plan w x s runIndex mode =
     (let node = ex_node x in
      if disabled node = Some True then Answer (answer (pass_through (ex_data x)))
      else case node_type_of w node of
          None \<Rightarrow> Fail (error_of TypeError)
        | Some type \<Rightarrow>
            (let custom = getCustomOperation node type;
                 needs_input = (nt_execute type \<or> custom \<noteq> None \<or> \<not> nt_poll type \<and> \<not> nt_trigger type \<and> \<not> nt_webhook type)
             in case (if needs_input then connection_input w (ex_data x) else Inr []) of
                  Inl e \<Rightarrow> Fail (error_of e)
                | Inr connectionInputData \<Rightarrow>
                    if needs_input \<and> connectionInputData = [] then Answer (answer Undef)
                    else case earlier_failure s node of
                        Some e \<Rightarrow> Fail e
                      | None \<Rightarrow> run_call mode node type custom connectionInputData
                          (if executeOnce node = Some True then execute_once (ex_data x) else ex_data x) runIndex))"

text \<open>The result of a call. Errors of close functions go before the data.\<close>

fun runNode_result :: "node_reply \<Rightarrow> exec_error + run_answer" where
  "runNode_result (Threw e) = Inl e"
| "runNode_result (Executed d hints closingErrors) =
     (case closingErrors of
        [] \<Rightarrow> Inr \<lparr>ra_data = d, ra_hints = hints, ra_close = False\<rparr>
      | CloseError e # _ \<Rightarrow> Inl e
      | CloseOther # _ \<Rightarrow> Inl (error_of (ApplicationError ''Error on execution node's close function(s)'')))"
| "runNode_result (Polled d) = Inr (answer d)"
| "runNode_result (Triggered None) = Inr (answer Null)"
| "runNode_result (Triggered (Some (response, close))) =
     Inr \<lparr>ra_data = (if response = [] then Null else Outputs response), ra_hints = [], ra_close = close\<rparr>"
| "runNode_result (Routed d) = Inr (answer d)"

text \<open>\<open>call\<close> is the code of the nodes; it may change the world it runs in, of type \<open>'w\<close>.\<close>

definition runNode ::
    "(node_request \<Rightarrow> 'w \<Rightarrow> node_reply \<times> 'w) \<Rightarrow> Workflow \<Rightarrow> IExecuteData \<Rightarrow> RunExecutionData \<Rightarrow> nat \<Rightarrow> WorkflowExecuteMode
      \<Rightarrow> 'w \<Rightarrow> (exec_error + run_answer) \<times> 'w" where
  "runNode call w x s runIndex mode world =
     (case runNode_plan w x s runIndex mode of
        Answer a \<Rightarrow> (Inr a, world)
      | Fail e \<Rightarrow> (Inl e, world)
      | Ask request \<Rightarrow> (case call request world of (reply, world') \<Rightarrow> (runNode_result reply, world')))"

section \<open>Readiness of the workflow\<close>

text \<open>The issues of a node: an unknown type, or what \<open>getNodeParametersIssues\<close> reports, a parameter.\<close>

datatype node_issues = TypeUnknown | ParameterIssues json

definition node_issue :: "(INodeType \<Rightarrow> INode \<Rightarrow> json option) \<Rightarrow> Workflow \<Rightarrow> INode \<Rightarrow> node_issues option" where
  "node_issue parametersIssues w node =
     (case node_type_of w node of
        None \<Rightarrow> Some TypeUnknown
      | Some type \<Rightarrow> map_option ParameterIssues (parametersIssues type node))"

definition check_nodes :: "Workflow \<Rightarrow> string option \<Rightarrow> string option \<Rightarrow> string list" where
  "check_nodes w startNode destinationNode =
     (case (destinationNode, startNode) of
        (Some (c # cs), _) \<Rightarrow> getParentNodes w (c # cs) (OnlyType MainType) (-1) @ [c # cs]
      | (_, Some (c # cs)) \<Rightarrow> getChildNodes w (c # cs) (OnlyType MainType) (-1) @ [c # cs]
      | _ \<Rightarrow> [])"

definition add_issue :: "(INodeType \<Rightarrow> INode \<Rightarrow> json option) \<Rightarrow> Workflow \<Rightarrow> string \<Rightarrow> (string \<times> node_issues) list \<Rightarrow> (string \<times> node_issues) list res" where
  "add_issue parametersIssues w nodeName issues =
     (case getNode w nodeName of
        None \<Rightarrow> Inl TypeError
      | Some node \<Rightarrow>
          Inr (if disabled node = Some True then issues
            else case node_issue parametersIssues w node of
                None \<Rightarrow> issues
              | Some i \<Rightarrow> obj_set (node_name node) i issues))"

definition checkReadyForExecution ::
    "(INodeType \<Rightarrow> INode \<Rightarrow> json option) \<Rightarrow> Workflow \<Rightarrow> string option \<Rightarrow> string option \<Rightarrow> (string \<times> node_issues) list option res" where
  "checkReadyForExecution parametersIssues w startNode destinationNode =
     bind_res (fold_res (add_issue parametersIssues w) (check_nodes w startNode destinationNode) []) (\<lambda>issues.
       Inr (if issues = [] then None else Some issues))"

section \<open>Input of a node\<close>

fun ensure_inputs :: "Workflow \<Rightarrow> string \<Rightarrow> ITaskDataConnections \<Rightarrow> nat list \<Rightarrow> bool res" where
  "ensure_inputs w nodeName d [] = Inr True"
| "ensure_inputs w nodeName d (connectionIndex # connectionIndexes) =
     bind_res (getHighestNode w nodeName (Some connectionIndex) []) (\<lambda>(highestNodes, _).
       if highestNodes = [] then Inr True
       else case map_of d MainType of
           None \<Rightarrow> Inr False
         | Some main \<Rightarrow>
             if forceInputNodeExecution w
               \<and> (length main < connectionIndex \<or> arr_get main connectionIndex = Some None)
             then Inr False
             else ensure_inputs w nodeName d connectionIndexes)"

definition ensureInputData :: "Workflow \<Rightarrow> INode \<Rightarrow> IExecuteData \<Rightarrow> RunExecutionData \<Rightarrow> (bool \<times> RunExecutionData) res" where
  "ensureInputData w executionNode x s =
     (let inputConnections = (case typed_inputs (connectionsByDestinationNode w) (node_name executionNode) MainType of
            None \<Rightarrow> [] | Some inputs \<Rightarrow> inputs)
      in bind_res (ensure_inputs w (node_name executionNode) (ex_data x) [0 ..< length inputConnections]) (\<lambda>ready.
        Inr (ready, if ready then s else s\<lparr>rx_stack := rx_stack s @ [x]\<rparr>)))"

section \<open>A node is only executed with data\<close>

lemma connection_input_main:
  assumes "connection_input w d = Inr items" and "items \<noteq> []"
  shows "\<exists>main. map_of d MainType = Some main \<and> Some items \<in> set main"
proof (cases "map_of d MainType")
  case None
  with assms show ?thesis by (cases "is_v1 w") (simp_all add: connection_input_def Let_def)
next
  case (Some main)
  have "Some items \<in> set main"
  proof (cases "is_v1 w \<and> find (\<lambda>input. case input of None \<Rightarrow> False | Some items \<Rightarrow> items \<noteq> []) main \<noteq> None")
    case True
    then obtain input where f: "find (\<lambda>input. case input of None \<Rightarrow> False | Some items \<Rightarrow> items \<noteq> []) main = Some input"
      by blast
    then have "input \<in> set main" by (auto simp: find_Some_iff)
    moreover have "input = Some items" using assms(1) Some f True
      by (auto simp: connection_input_def Let_def bind_res_Inr_iff split: option.splits)
    ultimately show ?thesis by simp
  next
    case False
    then have "bind_res (Inr (case main of [] \<Rightarrow> Some [] | input # _ \<Rightarrow> input))
        (\<lambda>chosen. case chosen of None \<Rightarrow> Inl TypeError | Some items \<Rightarrow> Inr items) = Inr items"
      using assms(1) Some by (auto simp: connection_input_def Let_def split: list.splits option.splits)
    with assms(2) show ?thesis by (cases main) (auto split: option.splits)
  qed
  with Some show ?thesis by blast
qed

lemma run_call_execute: "run_call mode node type custom items inp ri = Ask (CallExecute node' custom' items' inp' ri')
    \<Longrightarrow> (nt_execute type \<or> custom \<noteq> None) \<and> node' = node \<and> items' = items \<and> inp' = inp"
  by (auto simp: run_call_def split: if_splits)

lemma execute_once_short: "(t, inputs) \<in> set (execute_once d) \<Longrightarrow> Some items \<in> set inputs \<Longrightarrow> length items \<le> 1"
  by (auto simp: execute_once_def map_option_case split: option.splits)



section \<open>When the input is complete\<close>

lemma ensure_inputs_forced:
  "ensure_inputs w nm d is = Inr True \<Longrightarrow> forceInputNodeExecution w \<Longrightarrow> map_of d MainType = Some main \<Longrightarrow>
    \<forall>i \<in> set is. \<forall>hs chk. getHighestNode w nm (Some i) [] = Inr (hs, chk) \<longrightarrow> hs \<noteq> [] \<Longrightarrow>
    i \<in> set is \<Longrightarrow> i \<le> length main \<and> arr_get main i \<noteq> Some None"
proof (induction "is")
  case (Cons j "is")
  from Cons.prems(1) obtain hs chk where h: "getHighestNode w nm (Some j) [] = Inr (hs, chk)"
    by (auto simp: bind_res_Inr_iff)
  with Cons.prems(4) have "hs \<noteq> []" by auto
  with Cons.prems(1-3) h have j: "\<not> (length main < j \<or> arr_get main j = Some None)" "ensure_inputs w nm d is = Inr True"
    by (auto split: if_splits)
  show ?case
  proof (cases "i = j")
    case True
    with j show ?thesis by auto
  next
    case False
    with Cons.IH [OF j(2) Cons.prems(2,3)] Cons.prems(4,5) show ?thesis by auto
  qed
qed simp

text \<open>A node that is not executed yet goes to the end of the stack and otherwise the stack is unchanged; with
  forced inputs a node executes only if no input that its data list names is without data.\<close>

theorem ensureInputData_defers_or_has_data:
  assumes "ensureInputData w node x s = Inr (ready, s')"
    and "typed_inputs (connectionsByDestinationNode w) (node_name node) MainType = Some inputs"
    and "forceInputNodeExecution w" and "map_of (ex_data x) MainType = Some main"
    and "\<forall>i < length inputs. \<forall>hs chk. getHighestNode w (node_name node) (Some i) [] = Inr (hs, chk) \<longrightarrow> hs \<noteq> []"
  shows "s' = (if ready then s else s\<lparr>rx_stack := rx_stack s @ [x]\<rparr>)
    \<and> (ready \<longrightarrow> (\<forall>i < length inputs. i < length main \<longrightarrow> main ! i \<noteq> None))"
proof -
  from assms(1,2) have e: "ensure_inputs w (node_name node) (ex_data x) [0 ..< length inputs] = Inr ready"
    and s': "s' = (if ready then s else s\<lparr>rx_stack := rx_stack s @ [x]\<rparr>)"
    by (auto simp: ensureInputData_def Let_def bind_res_Inr_iff)
  have "main ! i \<noteq> None" if "ready" "i < length inputs" "i < length main" for i
    using ensure_inputs_forced [OF e [unfolded that(1) [THEN eqTrueI]] assms(3,4), of i] assms(5) that
    by (auto simp: arr_get_def)
  with s' show ?thesis by blast
qed

definition forced_merge :: Workflow where
  "forced_merge = merge_workflow\<lparr>executionOrder := None\<rparr>"

definition merge_data :: "INodeExecutionData list option list \<Rightarrow> IExecuteData" where
  "merge_data main = \<lparr>ex_node = plain_node ''M'' ''merge'', ex_data = [(MainType, main)], ex_source = None, ex_metadata = None\<rparr>"

lemma ensureInputData_defers_or_has_data_witness:
  "ensureInputData forced_merge (plain_node ''M'' ''merge'') (merge_data [Some (item_of ''a''), None]) no_run
    = Inr (False, no_run\<lparr>rx_stack := [merge_data [Some (item_of ''a''), None]]\<rparr>)"
proof -
  let ?x = "merge_data [Some (item_of ''a''), None]"
  have "case ensureInputData forced_merge (plain_node ''M'' ''merge'') ?x no_run of Inl _ \<Rightarrow> False | Inr (ready, _) \<Rightarrow> \<not> ready"
    by code_simp
  then obtain s' where s': "ensureInputData forced_merge (plain_node ''M'' ''merge'') ?x no_run = Inr (False, s')"
    by (cases "ensureInputData forced_merge (plain_node ''M'' ''merge'') ?x no_run") auto
  have inputs: "typed_inputs (connectionsByDestinationNode forced_merge) (node_name (plain_node ''M'' ''merge'')) MainType
      = Some [Some [\<lparr>conn_node = ''P'', conn_type = MainType, conn_index = 0\<rparr>],
          Some [\<lparr>conn_node = ''Q'', conn_type = MainType, conn_index = 0\<rparr>]]" by code_simp
  have "getHighestNode forced_merge ''M'' (Some 0) [] = Inr ([''P''], [''M''])"
    "getHighestNode forced_merge ''M'' (Some 1) [] = Inr ([''Q''], [''M''])" by code_simp+
  then have "\<forall>i < 2. \<forall>hs chk. getHighestNode forced_merge ''M'' (Some i) [] = Inr (hs, chk) \<longrightarrow> hs \<noteq> []"
    by (auto simp: less_2_cases_iff)
  with ensureInputData_defers_or_has_data [OF s' inputs, of "[Some (item_of ''a''), None]"] s'
  show ?thesis by (simp add: forced_merge_def forceInputNodeExecution_def is_v1_def merge_data_def numeral_2_eq_2 no_run_def)
qed

text \<open>An input whose index is just past the end of the data list counts as present: the node is executed
  although its second input never got data.\<close>

theorem ensureInputData_accepts_missing_input:
  "ensureInputData forced_merge (plain_node ''M'' ''merge'') (merge_data [Some (item_of ''a'')]) no_run = Inr (True, no_run)"
proof -
  have "case ensureInputData forced_merge (plain_node ''M'' ''merge'') (merge_data [Some (item_of ''a'')]) no_run of
      Inl _ \<Rightarrow> False | Inr (ready, _) \<Rightarrow> ready" by code_simp
  then show ?thesis
    by (auto simp: ensureInputData_def Let_def bind_res_def split: sum.splits)
qed

end
