(* ===== verification/EngineTry.thy ===== *)
theory EngineTry
  imports EngineNode
begin

text \<open>
  Executing one node of the stack with its tries (the inner loop of
  \<open>processRunExecutionData\<close> in \<open>workflow-execute.ts\<close>): pinned data or the call of the node, the
  repetition while it fails, the error output, the pairing of items, and the error that is left when
  no try succeeded.
\<close>

section \<open>The world of an execution\<close>

text \<open>
  What is outside the engine, over a world of type \<open>'w\<close>: the code of the nodes, the pause between
  tries, the hooks (which may fail), the clock, whether the execution was aborted, the time a node asked to
  wait until, the outputs a node type computes, the origin of an item, and required inputs that are an
  expression. \<open>sort_nodes\<close> is \<open>Array.prototype.sort\<close>.
\<close>

datatype hook_call =
    WorkflowExecuteBefore
  | NodeExecuteBefore string
  | NodeExecuteAfter string ITaskData
  | WorkflowExecuteAfter ExecutionStatus

record to_add =
  ta_position :: "rat \<times> rat"
  ta_connection :: IConnection
  ta_output :: nat

record 'w engine_env =
  call_node :: "node_request \<Rightarrow> 'w \<Rightarrow> node_reply \<times> 'w"
  pause :: "rat \<Rightarrow> 'w \<Rightarrow> 'w"
  run_hook :: "hook_call \<Rightarrow> 'w \<Rightarrow> exec_error option \<times> 'w"
  clock :: "'w \<Rightarrow> int"
  is_aborted :: "'w \<Rightarrow> bool"
  asked_wait :: "'w \<Rightarrow> int option"
  main_outputs :: "INode \<Rightarrow> nat"
  getPairedItem :: "INode \<Rightarrow> get_paired"
  required_expression :: "INode \<Rightarrow> string \<Rightarrow> requiredInputs"
  parameters_issues :: "INodeType \<Rightarrow> INode \<Rightarrow> json option"
  sort_nodes :: "(to_add \<Rightarrow> to_add \<Rightarrow> int) \<Rightarrow> to_add list \<Rightarrow> to_add list"
  exec_mode :: WorkflowExecuteMode
  timeout_at :: "int option"
  is_restart :: bool

section \<open>Tries\<close>

text \<open>
  The number of tries and the pause between them. The number is rounded up: the loop over the tries
  compares with it, so that this is exact there; only the repetition inside a try compares for
  equality, which for a fraction would never hold.
\<close>

definition max_tries :: "INode \<Rightarrow> nat" where
  "max_tries node =
     (if retryOnFail node = Some True
      then nat \<lceil>min 5 (max 2 (case maxTries node of None \<Rightarrow> 3 | Some m \<Rightarrow> if m = 0 then 3 else m))\<rceil>
      else 1)"

definition wait_between_tries :: "INode \<Rightarrow> rat" where
  "wait_between_tries node =
     (if retryOnFail node = Some True
      then min 5000 (max 0 (case waitBetweenTries node of None \<Rightarrow> 1000 | Some t \<Rightarrow> if t = 0 then 1000 else t))
      else 0)"

text \<open>The first item reports an error: the node continued on fail.\<close>

definition did_continue_on_fail :: "node_data \<Rightarrow> bool" where
  "did_continue_on_fail d \<longleftrightarrow>
     (case d of Outputs (Some (x # _) # _) \<Rightarrow> has_key (item_json x) ''error'' | _ \<Rightarrow> False)"

text \<open>
  What the tries work on: the data of the node, its hints, whether a close function has to be awaited,
  the state of the execution and the world.
\<close>

record 'w attempt =
  at_data :: node_data
  at_hints :: "json list"
  at_close :: bool
  at_state :: RunExecutionData
  at_world :: 'w

definition take_wait :: "'w engine_env \<Rightarrow> 'w \<Rightarrow> RunExecutionData \<Rightarrow> RunExecutionData" where
  "take_wait env world s = (case asked_wait env world of None \<Rightarrow> s | Some t \<Rightarrow> s\<lparr>rx_waitTill := Some t\<rparr>)"

text \<open>One run of the node; its data are kept when it does not throw.\<close>

definition run_once :: "'w engine_env \<Rightarrow> Workflow \<Rightarrow> IExecuteData \<Rightarrow> nat \<Rightarrow> 'w attempt \<Rightarrow> (exec_error + run_answer) \<times> 'w attempt" where
  "run_once env w x runIndex a =
     (case runNode (call_node env) w x (at_state a) runIndex (exec_mode env) (at_world a) of
        (result, world) \<Rightarrow>
          (let a' = a\<lparr>at_world := world, at_state := take_wait env world (at_state a)\<rparr>
           in (result, case result of Inl _ \<Rightarrow> a' | Inr r \<Rightarrow> a'\<lparr>at_data := ra_data r\<rparr>)))"

text \<open>The repetition while the node reports an error in its data. The result has the index of the last try.\<close>

function retry_failed ::
    "'w engine_env \<Rightarrow> Workflow \<Rightarrow> IExecuteData \<Rightarrow> nat \<Rightarrow> run_answer \<Rightarrow> nat \<Rightarrow> 'w attempt
      \<Rightarrow> (exec_error + run_answer) \<times> nat \<times> 'w attempt" where
  "retry_failed env w x runIndex r tryIndex a =
     (if did_continue_on_fail (at_data a) \<and> Suc tryIndex < max_tries (ex_node x)
      then (case run_once env w x runIndex (a\<lparr>at_world := pause env (wait_between_tries (ex_node x)) (at_world a)\<rparr>) of
          (Inl e, a') \<Rightarrow> (Inl e, tryIndex, a')
        | (Inr r', a') \<Rightarrow> retry_failed env w x runIndex r' (Suc tryIndex) a')
      else (Inr r, tryIndex, a))"
  by pat_completeness auto
termination
  by (relation "measure (\<lambda>(env, w, x, runIndex, r, tryIndex, a). max_tries (ex_node x) - tryIndex)") auto

declare retry_failed.simps [simp del]

definition pinned_data :: "RunExecutionData \<Rightarrow> INode \<Rightarrow> INodeExecutionData list option" where
  "pinned_data s node = (if disabled node = Some True then None else map_of (rx_pinData s) (node_name node))"

text \<open>The data of a try, after the error output was split off.\<close>

definition split_errors :: "'w engine_env \<Rightarrow> IExecuteData \<Rightarrow> node_data \<Rightarrow> node_data res" where
  "split_errors env x d =
     (case d of
        Outputs outputs \<Rightarrow>
          if onError (ex_node x) = Some ContinueErrorOutput
          then bind_res (handleNodeErrorOutput (main_outputs env (ex_node x)) (getPairedItem env (ex_node x)) x outputs)
            (\<lambda>outputs'. Inr (Outputs outputs'))
          else Inr d
      | _ \<Rightarrow> Inr d)"

definition run_tries :: "'w engine_env \<Rightarrow> Workflow \<Rightarrow> IExecuteData \<Rightarrow> nat \<Rightarrow> nat \<Rightarrow> 'w attempt \<Rightarrow> exec_error option \<times> nat \<times> 'w attempt" where
  "run_tries env w x runIndex tryIndex a =
     (case run_once env w x runIndex a of
        (Inl e, a1) \<Rightarrow> (Some e, tryIndex, a1)
      | (Inr r, a1) \<Rightarrow>
          (case retry_failed env w x runIndex r tryIndex a1 of
             (Inl e, tryIndex', a2) \<Rightarrow> (Some e, tryIndex', a2)
           | (Inr r', tryIndex', a2) \<Rightarrow>
               (let a3 = a2\<lparr>at_hints := at_hints a2 @ ra_hints r'\<rparr> in
                case split_errors env x (at_data a3) of
                  Inl e \<Rightarrow> (Some (error_of e), tryIndex', a3)
                | Inr d \<Rightarrow> (None, tryIndex', a3\<lparr>at_data := d, at_close := at_close a3 \<or> ra_close r'\<rparr>))))"

text \<open>A try ends the branch (\<open>null\<close> data), has a result, or fails.\<close>

datatype try_result = EndBranch | Finished | Failed exec_error

definition data_of :: "node_output option \<Rightarrow> node_data" where
  "data_of outputs = (case outputs of None \<Rightarrow> Null | Some os \<Rightarrow> Outputs os)"

definition finish_try :: "IExecuteData \<Rightarrow> 'w attempt \<Rightarrow> try_result \<times> 'w attempt" where
  "finish_try x a =
     (case assignPairedItems (at_data a) x (at_state a) of
        Inl e \<Rightarrow> (Failed (error_of e), a)
      | Inr (outputs, s) \<Rightarrow>
          (let a1 = a\<lparr>at_data := data_of outputs, at_state := s\<rparr> in
           case ensure_output x outputs of
             Inl e \<Rightarrow> (Failed (error_of e), a1)
           | Inr outputs' \<Rightarrow>
               (if outputs' = None \<and> rx_waitTill s = None then EndBranch else Finished,
                a1\<lparr>at_data := data_of outputs'\<rparr>)))"

definition one_try :: "'w engine_env \<Rightarrow> Workflow \<Rightarrow> IExecuteData \<Rightarrow> nat \<Rightarrow> nat \<Rightarrow> 'w attempt \<Rightarrow> try_result \<times> nat \<times> 'w attempt" where
  "one_try env w x runIndex tryIndex a =
     (case pinned_data (at_state a) (ex_node x) of
        Some items \<Rightarrow>
          (case finish_try x (a\<lparr>at_data := Outputs [Some items]\<rparr>) of (r, a') \<Rightarrow> (r, tryIndex, a'))
      | None \<Rightarrow>
          (case run_tries env w x runIndex tryIndex a of
             (Some e, tryIndex', a1) \<Rightarrow> (Failed e, tryIndex', a1)
           | (None, tryIndex', a1) \<Rightarrow> (case finish_try x a1 of (r, a2) \<Rightarrow> (r, tryIndex', a2))))"

text \<open>The loop over the tries. A failed try makes the node the last one executed.\<close>

lemma retry_failed_index:
  "retry_failed env w x runIndex r tryIndex a = (r', tryIndex', a') \<Longrightarrow> tryIndex \<le> tryIndex'"
proof (induction env w x runIndex r tryIndex a rule: retry_failed.induct)
  case (1 env w x runIndex r tryIndex a)
  show ?case
  proof (cases "did_continue_on_fail (at_data a) \<and> Suc tryIndex < max_tries (ex_node x)")
    case True
    obtain result a1 where run: "run_once env w x runIndex
        (a\<lparr>at_world := pause env (wait_between_tries (ex_node x)) (at_world a)\<rparr>) = (result, a1)"
      by (cases "run_once env w x runIndex (a\<lparr>at_world := pause env (wait_between_tries (ex_node x)) (at_world a)\<rparr>)")
    show ?thesis
    proof (cases result)
      case (Inl e)
      with "1.prems" True run show ?thesis by (simp add: retry_failed.simps [of env w x runIndex r tryIndex a])
    next
      case (Inr r1)
      then have "retry_failed env w x runIndex r1 (Suc tryIndex) a1 = (r', tryIndex', a')"
        using "1.prems" True run by (simp add: retry_failed.simps [of env w x runIndex r tryIndex a])
      then have "Suc tryIndex \<le> tryIndex'" by (intro "1.IH" [OF True run [symmetric]]) (use Inr in auto)
      then show ?thesis by simp
    qed
  next
    case False
    with "1.prems" show ?thesis by (simp add: retry_failed.simps [of env w x runIndex r tryIndex a])
  qed
qed

lemma one_try_index: "one_try env w x runIndex tryIndex a = (r, tryIndex', a') \<Longrightarrow> tryIndex \<le> tryIndex'"
  by (auto simp: one_try_def run_tries_def Let_def split: option.splits prod.splits sum.splits dest: retry_failed_index)

function all_tries :: "'w engine_env \<Rightarrow> Workflow \<Rightarrow> IExecuteData \<Rightarrow> nat \<Rightarrow> nat \<Rightarrow> exec_error option \<Rightarrow> 'w attempt
      \<Rightarrow> try_result \<times> 'w attempt" where
  "all_tries env w x runIndex tryIndex err a =
     (if tryIndex < max_tries (ex_node x)
      then (case one_try env w x runIndex tryIndex
            (if tryIndex = 0 then a else a\<lparr>at_world := pause env (wait_between_tries (ex_node x)) (at_world a)\<rparr>) of
          (Failed e, tryIndex', a1) \<Rightarrow> all_tries env w x runIndex (Suc tryIndex') (Some e)
            (a1\<lparr>at_state := (at_state a1)\<lparr>rx_lastNodeExecuted := Some (node_name (ex_node x))\<rparr>\<rparr>)
        | (r, _, a1) \<Rightarrow> (r, a1))
      else (case err of None \<Rightarrow> Finished | Some e \<Rightarrow> Failed e, a))"
  by pat_completeness auto
termination all_tries
  by (relation "measure (\<lambda>(env, w, x, runIndex, tryIndex, err, a). max_tries (ex_node x) - tryIndex)")
    (auto dest!: one_try_index [OF sym])

declare all_tries.simps [simp del]

section \<open>How often a node is called\<close>

lemma max_tries_bounds: "1 \<le> max_tries node \<and> max_tries node \<le> 5"
proof -
  have "1 \<le> nat \<lceil>min 5 (max 2 m)\<rceil> \<and> nat \<lceil>min 5 (max 2 m)\<rceil> \<le> 5" for m :: rat
  proof -
    have "1 < \<lceil>min 5 (max 2 m)\<rceil>" by (simp add: less_ceiling_iff less_max_iff_disj)
    moreover have "\<lceil>min 5 (max 2 m)\<rceil> \<le> 5" by (simp add: ceiling_le_iff)
    ultimately show ?thesis by linarith
  qed
  then show ?thesis by (simp add: max_tries_def)
qed

text \<open>A count of the calls: a call adds at most one, and a pause nothing.\<close>

definition counts :: "('w \<Rightarrow> nat) \<Rightarrow> 'w engine_env \<Rightarrow> bool" where
  "counts cnt env \<longleftrightarrow> (\<forall>request world. cnt (snd (call_node env request world)) \<le> Suc (cnt world))
     \<and> (\<forall>t world. cnt (pause env t world) = cnt world)"

lemma run_once_counts:
  assumes "counts cnt env" and "run_once env w x runIndex a = (r, a')"
  shows "cnt (at_world a') \<le> Suc (cnt (at_world a))"
proof -
  obtain result world where run: "runNode (call_node env) w x (at_state a) runIndex (exec_mode env) (at_world a) = (result, world)"
    by (cases "runNode (call_node env) w x (at_state a) runIndex (exec_mode env) (at_world a)")
  have "cnt world \<le> Suc (cnt (at_world a))"
  proof (cases "runNode_plan w x (at_state a) runIndex (exec_mode env)")
    case (Ask request)
    then have "world = snd (call_node env request (at_world a))" using run by (auto simp: runNode_def split: prod.splits)
    with assms(1) show ?thesis by (simp add: counts_def)
  qed (use run in \<open>auto simp: runNode_def\<close>)
  moreover have "at_world a' = world" using assms(2) run by (auto simp: run_once_def Let_def split: sum.splits)
  ultimately show ?thesis by simp
qed

lemma retry_failed_counts:
  "retry_failed env w x runIndex r tryIndex a = (r', tryIndex', a') \<Longrightarrow> counts cnt env \<Longrightarrow> tryIndex < max_tries (ex_node x) \<Longrightarrow>
    tryIndex' < max_tries (ex_node x)
    \<and> cnt (at_world a') \<le> cnt (at_world a) + (tryIndex' - tryIndex) + (case r' of Inl _ \<Rightarrow> 1 | Inr _ \<Rightarrow> 0)
    \<and> ((\<exists>e. r' = Inl e) \<longrightarrow> Suc tryIndex' < max_tries (ex_node x))"
proof (induction env w x runIndex r tryIndex a rule: retry_failed.induct)
  case (1 env w x runIndex r tryIndex a)
  note simps = retry_failed.simps [of env w x runIndex r tryIndex a]
  let ?p = "a\<lparr>at_world := pause env (wait_between_tries (ex_node x)) (at_world a)\<rparr>"
  show ?case
  proof (cases "did_continue_on_fail (at_data a) \<and> Suc tryIndex < max_tries (ex_node x)")
    case True
    obtain result a1 where run: "run_once env w x runIndex ?p = (result, a1)" by (cases "run_once env w x runIndex ?p")
    have a1: "cnt (at_world a1) \<le> Suc (cnt (at_world a))"
      using run_once_counts [OF "1.prems"(2) run] "1.prems"(2) by (simp add: counts_def)
    show ?thesis
    proof (cases result)
      case (Inl e)
      then have "r' = Inl e" "tryIndex' = tryIndex" "a' = a1" using "1.prems"(1) True run by (simp_all add: simps)
      with a1 True show ?thesis by simp
    next
      case (Inr r1)
      then have rest: "retry_failed env w x runIndex r1 (Suc tryIndex) a1 = (r', tryIndex', a')"
        using "1.prems"(1) True run by (simp add: simps)
      from "1.IH" [OF True run [symmetric] Inr rest "1.prems"(2)] True a1 retry_failed_index [OF rest]
      show ?thesis by auto
    qed
  next
    case False
    have "retry_failed env w x runIndex r tryIndex a = (Inr r, tryIndex, a)" unfolding simps by (rule if_not_P [OF False])
    with "1.prems"(1,3) show ?thesis by auto
  qed
qed

lemma finish_try_world: "finish_try x a = (r, a') \<Longrightarrow> at_world a' = at_world a"
  by (auto simp: finish_try_def Let_def split: sum.splits prod.splits)

lemma run_tries_counts:
  assumes "run_tries env w x runIndex tryIndex a = (e, tryIndex', a')" and "counts cnt env" and "tryIndex < max_tries (ex_node x)"
  shows "tryIndex \<le> tryIndex' \<and> tryIndex' < max_tries (ex_node x)
    \<and> cnt (at_world a') \<le> cnt (at_world a) + (tryIndex' - tryIndex) + (if Suc tryIndex' < max_tries (ex_node x) then 2 else 1)"
proof -
  obtain result a1 where run: "run_once env w x runIndex a = (result, a1)" by (cases "run_once env w x runIndex a")
  have a1: "cnt (at_world a1) \<le> Suc (cnt (at_world a))" by (rule run_once_counts [OF assms(2) run])
  show ?thesis
  proof (cases result)
    case (Inl err)
    with assms run a1 show ?thesis by (auto simp: run_tries_def)
  next
    case (Inr r)
    obtain r1 t a2 where retry: "retry_failed env w x runIndex r tryIndex a1 = (r1, t, a2)"
      by (cases "retry_failed env w x runIndex r tryIndex a1") auto
    have "tryIndex' = t \<and> at_world a' = at_world a2"
      using assms(1) run Inr retry by (auto simp: run_tries_def Let_def split: sum.splits)
    with retry_failed_counts [OF retry assms(2,3)] retry_failed_index [OF retry] a1 show ?thesis
      by (cases r1) auto
  qed
qed

lemma one_try_counts:
  assumes "one_try env w x runIndex tryIndex a = (r, tryIndex', a')" and "counts cnt env" and "tryIndex < max_tries (ex_node x)"
  shows "tryIndex \<le> tryIndex' \<and> tryIndex' < max_tries (ex_node x)
    \<and> cnt (at_world a') \<le> cnt (at_world a) + (tryIndex' - tryIndex) + (if Suc tryIndex' < max_tries (ex_node x) then 2 else 1)"
proof (cases "pinned_data (at_state a) (ex_node x)")
  case None
  obtain e t a1 where run: "run_tries env w x runIndex tryIndex a = (e, t, a1)"
    by (cases "run_tries env w x runIndex tryIndex a") auto
  have eq: "tryIndex' = t" "at_world a' = at_world a1"
    using assms(1) None run by (auto simp: one_try_def split: option.splits prod.splits dest: finish_try_world)
  show ?thesis unfolding eq by (rule run_tries_counts [OF run assms(2,3)])
next
  case (Some items)
  with assms(1) have "tryIndex' = tryIndex \<and> at_world a' = at_world a"
    by (auto simp: one_try_def split: prod.splits dest: finish_try_world)
  with assms(3) show ?thesis by simp
qed

text \<open>C33: However a node fails, it is called less than twice as often as its number of tries, which is between one
  and five; without retry on fail it is called at most once.\<close>

theorem node_calls_bounded:
  assumes "counts cnt env" and "all_tries env w x runIndex 0 None a = (r, a')"
  shows "max_tries (ex_node x) \<le> 5
    \<and> cnt (at_world a') \<le> cnt (at_world a) + (2 * max_tries (ex_node x) - 1)"
proof -
  have "tryIndex \<le> max_tries (ex_node x) \<Longrightarrow> all_tries env w x runIndex tryIndex err a = (r, a') \<Longrightarrow> counts cnt env \<Longrightarrow>
      cnt (at_world a') \<le> cnt (at_world a) + (2 * (max_tries (ex_node x) - tryIndex) - 1)" for tryIndex err a
  proof (induction env w x runIndex tryIndex err a rule: all_tries.induct)
    case (1 env w x runIndex tryIndex err a)
    note simps = all_tries.simps [of env w x runIndex tryIndex err a]
    let ?a = "if tryIndex = 0 then a else a\<lparr>at_world := pause env (wait_between_tries (ex_node x)) (at_world a)\<rparr>"
    have pause: "cnt (at_world ?a) = cnt (at_world a)" using "1.prems"(3) by (simp add: counts_def)
    show ?case
    proof (cases "tryIndex < max_tries (ex_node x)")
      case True
      obtain r1 t a1 where one: "one_try env w x runIndex tryIndex ?a = (r1, t, a1)"
        by (cases "one_try env w x runIndex tryIndex ?a") auto
      note c = one_try_counts [OF one "1.prems"(3) True, unfolded pause]
      show ?thesis
      proof (cases r1)
        case (Failed e)
        let ?b = "a1\<lparr>at_state := (at_state a1)\<lparr>rx_lastNodeExecuted := Some (node_name (ex_node x))\<rparr>\<rparr>"
        have rest: "all_tries env w x runIndex (Suc t) (Some e) ?b = (r, a')"
          using "1.prems"(2) True one Failed by (simp add: simps del: if_split)
        have "Suc t \<le> max_tries (ex_node x)" using c by simp
        from "1.IH" [OF True one [symmetric] Failed refl this rest "1.prems"(3)]
        show ?thesis using c by (auto split: if_splits)
      qed (use "1.prems"(2) True one c in \<open>auto simp: simps split: if_splits\<close>)
    next
      case False
      with "1.prems"(2) have "a' = a" by (simp add: simps)
      then show ?thesis by simp
    qed
  qed
  from this [of 0 None a] assms max_tries_bounds [of "ex_node x"] show ?thesis by simp
qed

section \<open>A node that alternates between its two ways to fail\<close>

text \<open>The world is the number of calls; every second call throws, the others report an error as data.\<close>

definition flaky_env :: "nat engine_env" where
  "flaky_env = \<lparr>call_node = (\<lambda>_ n. (if even n then Executed (Outputs [Some [failed_item]]) [] []
       else Threw (error_of (ApplicationError ''no'')), Suc n)),
     pause = (\<lambda>_ n. n), run_hook = (\<lambda>_ n. (None, n)), clock = int, is_aborted = (\<lambda>_. False), asked_wait = (\<lambda>_. None),
     main_outputs = (\<lambda>_. 1), getPairedItem = (\<lambda>_ _ _. Inr None), required_expression = (\<lambda>_ _. RequiredCount 0),
     parameters_issues = (\<lambda>_ _. None), sort_nodes = js_sort, exec_mode = ModeManual, timeout_at = None, is_restart = False\<rparr>"

definition retrying_data :: IExecuteData where
  "retrying_data = example_data\<lparr>ex_node := (plain_node ''A'' ''step'')\<lparr>retryOnFail := Some True\<rparr>\<rparr>"

definition first_attempt :: "'w \<Rightarrow> 'w attempt" where
  "first_attempt world = \<lparr>at_data = Null, at_hints = [], at_close = False, at_state = no_run, at_world = world\<rparr>"

text \<open>A node with three tries can be called five times: what throws inside the repetition for reported
  errors does not count as a try of its own.\<close>

theorem more_calls_than_tries:
  "max_tries (ex_node retrying_data) = 3
    \<and> at_world (snd (all_tries flaky_env example_workflow retrying_data 0 0 None (first_attempt 0))) = 5"
  by (rule conjI; code_simp)

lemma node_calls_bounded_witness:
  "at_world (snd (all_tries flaky_env example_workflow retrying_data 0 0 None (first_attempt 0))) \<le> 0 + (2 * 3 - 1)"
proof -
  obtain r a' where run: "all_tries flaky_env example_workflow retrying_data 0 0 None (first_attempt 0) = (r, a')"
    by (cases "all_tries flaky_env example_workflow retrying_data 0 0 None (first_attempt 0)")
  have "counts id flaky_env" by (simp add: counts_def flaky_env_def)
  moreover have "max_tries (ex_node retrying_data) = 3" by code_simp
  ultimately have "at_world a' \<le> 5" using node_calls_bounded [OF _ run, of id] by (simp add: first_attempt_def)
  then show ?thesis unfolding run by simp
qed

end
