(* ===== verification/EngineLoop.thy ===== *)
theory EngineLoop
  imports EngineTry
begin

text \<open>
  The execution loop (\<open>WorkflowExecute.processRunExecutionData\<close> and
  \<open>processSuccessExecution\<close> in \<open>workflow-execute.ts\<close>): one node is taken off the stack and
  executed, its data are recorded, the nodes behind it are added, and when the stack is empty a node that
  waits without needing all its inputs is released.
\<close>

section \<open>The nodes behind a node\<close>

text \<open>
  Top-left first: an entry is put at the front of the stack, so that the last of the sorted list is
  executed first. The comparison is not an ordering: of two nodes at the same height it says 0 when the
  first is further left, and -1 the other way round.
\<close>

definition position_order :: "to_add \<Rightarrow> to_add \<Rightarrow> int" where
  "position_order a b =
     (if snd (ta_position a) < snd (ta_position b) then 1
      else if snd (ta_position b) < snd (ta_position a) then -1
      else if fst (ta_position b) < fst (ta_position a) then -1
      else 0)"

text \<open>Whether an output reaches a node: it has items, or a further input is forced to execute.\<close>

definition output_reaches :: "Workflow \<Rightarrow> node_output \<Rightarrow> nat \<Rightarrow> IConnection \<Rightarrow> bool" where
  "output_reaches w outputs outputIndex c \<longleftrightarrow>
     (case output_data (Some outputs) outputIndex of
        None \<Rightarrow> False
      | Some items \<Rightarrow> items \<noteq> [] \<or> 0 < conn_index c \<and> forceInputNodeExecution w)"

definition child_of :: "Workflow \<Rightarrow> nat \<times> IConnection \<Rightarrow> to_add" where
  "child_of w p = (case p of (outputIndex, c) \<Rightarrow>
     \<lparr>ta_position = (case getNode w (conn_node c) of None \<Rightarrow> (0, 0) | Some node \<Rightarrow> node_position node),
      ta_connection = c, ta_output = outputIndex\<rparr>)"

definition add_child ::
    "Workflow \<Rightarrow> string \<Rightarrow> node_output \<Rightarrow> nat \<Rightarrow> to_add \<Rightarrow> RunExecutionData \<Rightarrow> RunExecutionData res" where
  "add_child w nodeName outputs runIndex t s =
     addNodeToBeExecuted w (ta_connection t) (ta_output t) nodeName (Some outputs) runIndex s"

text \<open>The walk over the connections: with \<open>v1\<close> it collects, otherwise it adds at once.\<close>

definition visit_child ::
    "Workflow \<Rightarrow> string \<Rightarrow> node_output \<Rightarrow> nat \<Rightarrow> nat \<times> IConnection \<Rightarrow> to_add list \<times> RunExecutionData
      \<Rightarrow> (to_add list \<times> RunExecutionData) res" where
  "visit_child w nodeName outputs runIndex p acc =
     (case (p, acc) of ((outputIndex, c), (nodesToAdd, s)) \<Rightarrow>
       if getNode w (conn_node c) = None then Inl (ApplicationError ''Destination node not found'')
       else if \<not> output_reaches w outputs outputIndex c then Inr (nodesToAdd, s)
       else if is_v1 w then Inr (nodesToAdd @ [child_of w p], s)
       else bind_res (add_child w nodeName outputs runIndex (child_of w p) s) (\<lambda>s'. Inr (nodesToAdd, s')))"

definition output_connections :: "Workflow \<Rightarrow> string \<Rightarrow> (nat \<times> IConnection) list" where
  "output_connections w nodeName =
     (case typed_inputs (connectionsBySourceNode w) nodeName MainType of
        None \<Rightarrow> []
      | Some outputs \<Rightarrow> concat (map (\<lambda>(outputIndex, l). map (Pair outputIndex) (conns_at l)) (enumerate 0 outputs)))"

definition add_children ::
    "((to_add \<Rightarrow> to_add \<Rightarrow> int) \<Rightarrow> to_add list \<Rightarrow> to_add list) \<Rightarrow> Workflow \<Rightarrow> string \<Rightarrow> node_output \<Rightarrow> nat
      \<Rightarrow> RunExecutionData \<Rightarrow> RunExecutionData res" where
  "add_children sort_by w nodeName outputs runIndex s =
     bind_res (fold_res (visit_child w nodeName outputs runIndex) (output_connections w nodeName) ([], s)) (\<lambda>(nodesToAdd, s').
       fold_res (add_child w nodeName outputs runIndex) (sort_by position_order nodesToAdd) s')"

section \<open>Waiting nodes that do not need all their inputs\<close>

text \<open>\<open>Object.keys(...).sort()\<close> sorts the run indexes as strings.\<close>

definition first_run :: "(nat \<times> ITaskDataConnections) list \<Rightarrow> nat option" where
  "first_run runs = (case sort_key dec_str (keys_of runs) of [] \<Rightarrow> None | r # _ \<Rightarrow> Some r)"

definition required_inputs :: "'w engine_env \<Rightarrow> Workflow \<Rightarrow> INode \<Rightarrow> INodeType \<Rightarrow> requiredInputs option" where
  "required_inputs env w node type =
     (if \<not> is_v1 w then None
      else case nt_requiredInputs type of
          Some (RequiredExpression e) \<Rightarrow> Some (required_expression env node e)
        | r \<Rightarrow> r)"

definition all_required :: "requiredInputs option \<Rightarrow> INodeType \<Rightarrow> bool" where
  "all_required required type \<longleftrightarrow>
     (case required of
        Some (RequiredInputs is) \<Rightarrow> length is = nt_inputs type
      | Some (RequiredCount n) \<Rightarrow> n = nt_inputs type
      | _ \<Rightarrow> False)"

definition inputs_with_data :: "INodeExecutionData list option list \<Rightarrow> nat list" where
  "inputs_with_data main = map fst (filter (\<lambda>(i, d). d \<noteq> None) (enumerate 0 main))"

definition required_missing :: "requiredInputs option \<Rightarrow> INodeExecutionData list option list \<Rightarrow> bool" where
  "required_missing required main \<longleftrightarrow>
     (case required of
        Some (RequiredInputs is) \<Rightarrow> \<exists>i \<in> set is. i \<notin> set (inputs_with_data main)
      | Some (RequiredCount n) \<Rightarrow> length (inputs_with_data main) < n
      | _ \<Rightarrow> False)"

text \<open>
  What is found for a waiting node: it is passed over, or its first run is taken, which has the data
  given (an input without data gets an empty list).
\<close>

datatype waiting_check = PassOver | TakeRun nat "INodeExecutionData list list"

definition check_waiting :: "'w engine_env \<Rightarrow> Workflow \<Rightarrow> string list \<Rightarrow> string \<Rightarrow> RunExecutionData \<Rightarrow> waiting_check res" where
  "check_waiting env w waitingNodes nodeName s =
     (case getNode w nodeName of
        None \<Rightarrow> Inr PassOver
      | Some node \<Rightarrow>
          (case node_type_of w node of
             None \<Rightarrow> Inl TypeError
           | Some type \<Rightarrow>
               (let required = required_inputs env w node type in
                if all_required required type then Inr PassOver
                else if \<exists>p \<in> set (getParentNodes w nodeName (OnlyType MainType) (-1)). p \<in> set waitingNodes then Inr PassOver
                else case first_run (runs_of (rx_waiting s) nodeName) of
                    None \<Rightarrow> Inl TypeError
                  | Some r \<Rightarrow>
                      (case main_of (rx_waiting s) nodeName r of
                         None \<Rightarrow> Inl TypeError
                       | Some main \<Rightarrow>
                           if required_missing required main then Inr PassOver
                           else Inr (TakeRun r (map (\<lambda>d. case d of None \<Rightarrow> [] | Some items \<Rightarrow> items) main))))))"

definition pad_inputs :: "nat \<Rightarrow> INodeExecutionData list list \<Rightarrow> INodeExecutionData list list" where
  "pad_inputs n main = main @ replicate (n - length main) []"

definition take_run :: "Workflow \<Rightarrow> string \<Rightarrow> nat \<Rightarrow> INodeExecutionData list list \<Rightarrow> RunExecutionData \<Rightarrow> RunExecutionData" where
  "take_run w nodeName r taskDataMain s =
     (case getNode w nodeName of
        None \<Rightarrow> s
      | Some node \<Rightarrow>
          (let n = (case node_type_of w node of None \<Rightarrow> 0 | Some type \<Rightarrow> nt_inputs type);
               s' = (if \<exists>d \<in> set taskDataMain. d \<noteq> []
                     then s\<lparr>rx_stack := rx_stack s @ [\<lparr>ex_node = node, ex_data = [(MainType, map Some (pad_inputs n taskDataMain))],
                            ex_source = entry_of (rx_waitingSource s) nodeName r, ex_metadata = None\<rparr>]\<rparr>
                     else s)
           in remove_waiting nodeName r s'))"

text \<open>The number of runs that wait: the search starts again only after it removed one.\<close>

definition waiting_runs :: "RunExecutionData \<Rightarrow> nat" where
  "waiting_runs s = sum_list (map (\<lambda>(n, runs). length runs) (rx_waiting s))"

lemma sum_update:
  "map_of xs k = Some v \<Longrightarrow> sum_list (map (\<lambda>(n, runs). length runs) (AList.update k v' xs)) + length v
    = sum_list (map (\<lambda>(n, runs). length runs) xs) + length v'"
  by (induction xs) (auto split: if_splits)

lemma sum_delete: "sum_list (map (\<lambda>(n, runs). length runs) (AList.delete k xs)) \<le> sum_list (map (\<lambda>(n, runs). length runs) xs)"
  by (induction xs) auto

lemma length_delete_less: "k \<in> fst ` set xs \<Longrightarrow> length (AList.delete k xs) < length xs"
proof (induction xs)
  case (Cons x xs)
  show ?case
  proof (cases "fst x = k")
    case True
    then show ?thesis using length_delete_le [of k xs] by (cases x) auto
  next
    case False
    with Cons show ?thesis by (cases x) auto
  qed
qed simp

lemma waiting_runs_remove:
  assumes "r \<in> fst ` set (runs_of (rx_waiting s) nodeName)"
  shows "waiting_runs (remove_waiting nodeName r s) < waiting_runs s"
proof -
  let ?st = "rx_waiting s"
  obtain runs where runs: "map_of ?st nodeName = Some runs" and r: "r \<in> fst ` set runs"
    using assms by (cases "map_of ?st nodeName") (simp_all add: runs_of_def)
  have "nodeName \<in> fst ` set ?st" using map_of_SomeD [OF runs] by (auto intro: rev_image_eqI)
  then have "drop_entry nodeName r ?st = AList.update nodeName (AList.delete r runs) ?st"
    using runs by (simp add: drop_entry_def runs_of_def obj_set_def)
  then have "sum_list (map (\<lambda>(n, runs). length runs) (drop_entry nodeName r ?st)) < waiting_runs s"
    using sum_update [OF runs, of "AList.delete r runs"] length_delete_less [OF r] by (simp add: waiting_runs_def)
  moreover have "waiting_runs (remove_waiting nodeName r s) \<le> sum_list (map (\<lambda>(n, runs). length runs) (drop_entry nodeName r ?st))"
    by (simp add: remove_waiting_def drop_if_empty_def waiting_runs_def sum_delete)
  ultimately show ?thesis by simp
qed

lemma waiting_runs_stack [simp]: "waiting_runs (s\<lparr>rx_stack := xs\<rparr>) = waiting_runs s"
  by (simp add: waiting_runs_def)

lemma first_run_in: "first_run runs = Some r \<Longrightarrow> r \<in> fst ` set runs"
proof -
  assume "first_run runs = Some r"
  then obtain rs where "sort_key dec_str (keys_of runs) = r # rs" by (auto simp: first_run_def split: list.splits)
  then have "r \<in> set (sort_key dec_str (keys_of runs))" by simp
  then show ?thesis by simp
qed

lemma check_waiting_TakeRun:
  assumes "check_waiting env w waitingNodes nodeName s = Inr (TakeRun r main)"
  obtains node where "getNode w nodeName = Some node" and "r \<in> fst ` set (runs_of (rx_waiting s) nodeName)"
    and "\<forall>p \<in> set (getParentNodes w nodeName (OnlyType MainType) (-1)). p \<notin> set waitingNodes"
    and "\<exists>inputs. main_of (rx_waiting s) nodeName r = Some inputs \<and> main = map (\<lambda>d. case d of None \<Rightarrow> [] | Some items \<Rightarrow> items) inputs"
  using assms by (auto simp: check_waiting_def Let_def split: option.splits if_splits dest: first_run_in)

lemma waiting_runs_take:
  assumes "check_waiting env w waitingNodes nodeName s = Inr (TakeRun r main)"
  shows "waiting_runs (take_run w nodeName r main s) < waiting_runs s"
  using assms
proof (rule check_waiting_TakeRun)
  fix node assume "getNode w nodeName = Some node" and "r \<in> fst ` set (runs_of (rx_waiting s) nodeName)"
  then show ?thesis
    using waiting_runs_remove [of r "s\<lparr>rx_stack := xs\<rparr>" nodeName for xs] waiting_runs_remove [of r s nodeName]
    by (simp add: take_run_def Let_def)
qed

text \<open>The search over the waiting nodes; the second list are the ones still to be looked at.\<close>

function release_waiting ::
    "'w engine_env \<Rightarrow> Workflow \<Rightarrow> string list \<Rightarrow> string list \<Rightarrow> RunExecutionData \<Rightarrow> RunExecutionData res" where
  "release_waiting env w waitingNodes [] s = Inr s"
| "release_waiting env w waitingNodes (nodeName # rest) s =
     (case check_waiting env w waitingNodes nodeName s of
        Inl e \<Rightarrow> Inl e
      | Inr PassOver \<Rightarrow> release_waiting env w waitingNodes rest s
      | Inr (TakeRun r taskDataMain) \<Rightarrow>
          (let s' = take_run w nodeName r taskDataMain s in
           if \<exists>d \<in> set taskDataMain. d \<noteq> [] then Inr s'
           else release_waiting env w (keys_of (rx_waiting s')) (keys_of (rx_waiting s')) s'))"
  by pat_completeness auto
termination release_waiting
  by (relation "inv_image (less_than <*lex*> less_than) (\<lambda>(env, w, waitingNodes, rest, s). (waiting_runs s, length rest))")
    (auto dest: waiting_runs_take)

section \<open>One round of the loop\<close>

record 'w engine =
  en_data :: RunExecutionData
  en_status :: ExecutionStatus
  en_index :: nat
  en_lastTry :: "(string \<times> nat) option"
  en_error :: "exec_error option"
  en_close :: bool
  en_world :: 'w

text \<open>A round ends with the next one, with the end of the loop, or with an exception.\<close>

datatype 'w round = Next "'w engine" | Leave "'w engine" | Raise exec_error "'w engine"

definition hook_then :: "'w engine_env \<Rightarrow> hook_call \<Rightarrow> 'w engine \<Rightarrow> ('w engine \<Rightarrow> 'w round) \<Rightarrow> 'w round" where
  "hook_then env h st k =
     (case run_hook env h (en_world st) of
        (Some e, world) \<Rightarrow> Raise e (st\<lparr>en_world := world\<rparr>)
      | (None, world) \<Rightarrow> k (st\<lparr>en_world := world\<rparr>))"

definition run_index :: "RunExecutionData \<Rightarrow> string \<Rightarrow> nat" where
  "run_index s nodeName = (case map_of (rx_runData s) nodeName of None \<Rightarrow> 0 | Some tasks \<Rightarrow> length tasks)"

definition push_task :: "string \<Rightarrow> ITaskData \<Rightarrow> RunExecutionData \<Rightarrow> RunExecutionData" where
  "push_task nodeName task s =
     s\<lparr>rx_runData := obj_set nodeName ((case map_of (rx_runData s) nodeName of None \<Rightarrow> [] | Some tasks \<Rightarrow> tasks) @ [task])
         (rx_runData s)\<rparr>"

definition started_task :: "IExecuteData \<Rightarrow> int \<Rightarrow> nat \<Rightarrow> json list \<Rightarrow> ITaskData" where
  "started_task x startTime executionIndex hints =
     \<lparr>td_startTime = startTime, td_executionIndex = Some executionIndex,
      td_source = (case Option.bind (ex_source x) (\<lambda>sources. map_of sources MainType) of None \<Rightarrow> [] | Some l \<Rightarrow> l),
      td_hints = Some hints, td_executionTime = 0, td_executionStatus = None, td_data = None, td_inputOverride = None,
      td_error = None, td_metadata = ex_metadata x\<rparr>"

definition continues_on_error :: "INode \<Rightarrow> bool" where
  "continues_on_error node \<longleftrightarrow> continueOnFail node = Some True
     \<or> onError node = Some ContinueRegularOutput \<or> onError node = Some ContinueErrorOutput"

text \<open>With an error the node passes its first input on, if it has one; otherwise the data stay as they are.\<close>

definition data_after_error :: "IExecuteData \<Rightarrow> node_data \<Rightarrow> node_data" where
  "data_after_error x d =
     (case map_of (ex_data x) MainType of
        Some (Some items # _) \<Rightarrow> Outputs [Some items]
      | _ \<Rightarrow> d)"

definition output_log :: "INode \<Rightarrow> node_output \<Rightarrow> ITaskDataConnections" where
  "output_log node outputs =
     [(case rewireOutputLogTo node of None \<Rightarrow> MainType | Some type \<Rightarrow> type, outputs)]"

definition set_data :: "(RunExecutionData \<Rightarrow> RunExecutionData) \<Rightarrow> 'w engine \<Rightarrow> 'w engine" where
  "set_data f st = st\<lparr>en_data := f (en_data st)\<rparr>"

text \<open>When the stack is empty and nodes wait, one of them may be released.\<close>

definition end_of_round :: "'w engine_env \<Rightarrow> Workflow \<Rightarrow> 'w engine \<Rightarrow> 'w round" where
  "end_of_round env w st =
     (let s = en_data st in
      if rx_stack s = [] \<and> rx_waiting s \<noteq> []
      then (case release_waiting env w (keys_of (rx_waiting s)) (keys_of (rx_waiting s)) s of
              Inl e \<Rightarrow> Raise (error_of e) st
            | Inr s' \<Rightarrow> Next (st\<lparr>en_data := s'\<rparr>))
      else Next st)"

text \<open>The task of a node that has output data: recorded, then the nodes behind it are added.\<close>

definition record_output ::
    "'w engine_env \<Rightarrow> Workflow \<Rightarrow> IExecuteData \<Rightarrow> nat \<Rightarrow> ITaskData \<Rightarrow> node_output \<Rightarrow> 'w engine \<Rightarrow> 'w round" where
  "record_output env w x runIndex task outputs st =
     (let node = ex_node x; nodeName = node_name node;
          task' = task\<lparr>td_data := Some (output_log node outputs)\<rparr>;
          st1 = set_data (push_task nodeName task') st;
          after = NodeExecuteAfter nodeName task'
      in if rx_waitTill (en_data st1) \<noteq> None
         then hook_then env after st1 (\<lambda>st2. Leave (set_data (\<lambda>s. s\<lparr>rx_stack := x # rx_stack s\<rparr>) st2))
         else if rx_destinationNode (en_data st1) = Some nodeName \<and> nodeName \<noteq> ''''
         then hook_then env after st1 Next
         else case add_children (sort_nodes env) w nodeName outputs runIndex (en_data st1) of
             Inl e \<Rightarrow> Raise (error_of e) st1
           | Inr s \<Rightarrow> hook_then env after (st1\<lparr>en_data := s\<rparr>) (end_of_round env w))"

definition record_task ::
    "'w engine_env \<Rightarrow> Workflow \<Rightarrow> IExecuteData \<Rightarrow> nat \<Rightarrow> ITaskData \<Rightarrow> exec_error option \<Rightarrow> node_data \<Rightarrow> 'w engine \<Rightarrow> 'w round" where
  "record_task env w x runIndex task err d st =
     (let nodeName = node_name (ex_node x);
          waits = rx_waitTill (en_data st) \<noteq> None;
          ok_task = task\<lparr>td_executionTime := clock env (en_world st) - td_startTime task,
            td_executionStatus := Some (if waits then StWaiting else StSuccess)\<rparr>;
          task1 = (case err of None \<Rightarrow> ok_task
            | Some e \<Rightarrow> ok_task\<lparr>td_error := Some (err_message e), td_executionStatus := Some StError\<rparr>)
      in if err \<noteq> None \<and> \<not> continues_on_error (ex_node x)
         then (let st1 = set_data (\<lambda>s. (push_task nodeName task1 s)\<lparr>rx_stack := x # rx_stack s\<rparr>) st
               in if is_aborted env (en_world st1) then Leave st1
                  else hook_then env (NodeExecuteAfter nodeName task1) st1 Leave)
         else (let st1 = set_data (\<lambda>s. if has_key (rx_runData s) nodeName then s
                     else s\<lparr>rx_runData := obj_set nodeName [] (rx_runData s)\<rparr>) st
               in case (if err = None then d else data_after_error x d) of
                 Outputs outputs \<Rightarrow>
                   (case merge_errors outputs of
                      Inl e \<Rightarrow> Raise (error_of e) st1
                    | Inr outputs' \<Rightarrow> record_output env w x runIndex task1 outputs' st1)
               | _ \<Rightarrow> Raise (error_of TypeError) st1))"

definition execute_node ::
    "'w engine_env \<Rightarrow> Workflow \<Rightarrow> IExecuteData \<Rightarrow> nat \<Rightarrow> int \<Rightarrow> nat \<Rightarrow> 'w engine \<Rightarrow> 'w round" where
  "execute_node env w x runIndex startTime executionIndex st =
     (case all_tries env w x runIndex 0 None
         \<lparr>at_data = Null, at_hints = [], at_close = en_close st, at_state = en_data st, at_world = en_world st\<rparr> of
        (result, a) \<Rightarrow>
          (let st1 = st\<lparr>en_data := at_state a, en_close := at_close a, en_world := at_world a,
                 en_error := (case result of Failed e \<Rightarrow> Some e | _ \<Rightarrow> None)\<rparr>
           in case result of
             EndBranch \<Rightarrow> Next st1
           | _ \<Rightarrow> record_task env w x runIndex (started_task x startTime executionIndex (at_hints a))
               (en_error st1) (at_data a) st1))"

text \<open>The checks before a node is executed.\<close>

definition start_node :: "'w engine_env \<Rightarrow> Workflow \<Rightarrow> IExecuteData \<Rightarrow> nat \<Rightarrow> 'w engine \<Rightarrow> 'w round" where
  "start_node env w x executionIndex st =
     (let nodeName = node_name (ex_node x); s = en_data st; runIndex = run_index s nodeName;
          startTime = clock env (en_world st)
      in if en_lastTry st = Some (nodeName, runIndex)
         then Raise (error_of (ApplicationError ''Stopped execution because it seems to be in an endless loop'')) st
         else if (case rx_runNodeFilter s of None \<Rightarrow> False | Some names \<Rightarrow> nodeName \<notin> set names) then Next st
         else case ensureInputData w (ex_node x) x s of
             Inl e \<Rightarrow> Raise (error_of e) st
           | Inr (False, s') \<Rightarrow> Next (st\<lparr>en_data := s', en_lastTry := Some (nodeName, runIndex)\<rparr>)
           | Inr (True, _) \<Rightarrow>
               hook_then env (NodeExecuteBefore nodeName) st (execute_node env w x runIndex startTime executionIndex))"

definition is_canceled :: "'w engine_env \<Rightarrow> 'w engine \<Rightarrow> bool" where
  "is_canceled env st \<longleftrightarrow> en_status st = StCanceled \<or> is_aborted env (en_world st)"

definition check_timeout :: "'w engine_env \<Rightarrow> 'w engine \<Rightarrow> 'w engine" where
  "check_timeout env st =
     (case timeout_at env of
        None \<Rightarrow> st
      | Some t \<Rightarrow> if t \<le> clock env (en_world st) then st\<lparr>en_status := StCanceled\<rparr> else st)"

definition execution_round :: "'w engine_env \<Rightarrow> Workflow \<Rightarrow> 'w engine \<Rightarrow> 'w round" where
  "execution_round env w st =
     (case rx_stack (en_data st) of
        [] \<Rightarrow> Leave st
      | x # rest \<Rightarrow>
          (let st1 = check_timeout env st in
           if is_canceled env st1 then Leave st1
           else start_node env w (x\<lparr>ex_data := number_inputs (ex_data x)\<rparr>) (en_index st1)
             (st1\<lparr>en_data := (en_data st1)\<lparr>rx_stack := rest\<rparr>, en_index := Suc (en_index st1), en_error := None\<rparr>)))"

section \<open>The whole execution\<close>

text \<open>The loop need not end, as a workflow may have a cycle: not ending is \<^term>\<open>None\<close>.\<close>

partial_function (option) run_loop ::
    "'w engine_env \<Rightarrow> Workflow \<Rightarrow> 'w engine \<Rightarrow> (exec_error option \<times> 'w engine) option" where
  "run_loop env w st =
     (case execution_round env w st of
        Next st' \<Rightarrow> run_loop env w st'
      | Leave st' \<Rightarrow> Some (None, st')
      | Raise e st' \<Rightarrow> Some (Some e, st'))"

record IRun =
  ir_data :: RunExecutionData
  ir_status :: ExecutionStatus
  ir_finished :: bool
  ir_waitTill :: "int option"

fun str_includes :: "string \<Rightarrow> string \<Rightarrow> bool" where
  "str_includes p [] = (p = [])"
| "str_includes p (c # cs) = (take (length p) (c # cs) = p \<or> str_includes p cs)"

definition getFullRunData :: "'w engine \<Rightarrow> IRun" where
  "getFullRunData st = \<lparr>ir_data = en_data st, ir_status = en_status st, ir_finished = False, ir_waitTill = None\<rparr>"

text \<open>The error is written into the run data of the engine, which the result refers to.\<close>

definition with_error :: "exec_error \<Rightarrow> 'w engine \<Rightarrow> 'w engine" where
  "with_error e st = set_data (\<lambda>s. s\<lparr>rx_error := Some e\<rparr>) st"

definition move_metadata :: "'w engine \<Rightarrow> 'w engine" where
  "move_metadata st = set_data (\<lambda>s. fst (moveNodeMetadata s)) st"

text \<open>The result after an exception; a failing hook is only logged here.\<close>

definition processFailedExecution :: "'w engine_env \<Rightarrow> exec_error \<Rightarrow> 'w engine \<Rightarrow> IRun \<times> 'w engine" where
  "processFailedExecution env e st =
     (let st1 = move_metadata (with_error e st);
          world = snd (run_hook env (WorkflowExecuteAfter (en_status st1)) (en_world st1))
      in (getFullRunData st1, st1\<lparr>en_world := world\<rparr>))"

definition final_run :: "'w engine \<Rightarrow> exec_error option \<Rightarrow> IRun" where
  "final_run st err =
     (let full = getFullRunData st in
      case err of
        Some e \<Rightarrow> (if str_includes ''canceled'' (err_message e) then full\<lparr>ir_status := StCanceled\<rparr> else full)
      | None \<Rightarrow>
          (case rx_waitTill (en_data st) of
             Some t \<Rightarrow> full\<lparr>ir_waitTill := Some t, ir_status := StWaiting\<rparr>
           | None \<Rightarrow> full\<lparr>ir_finished := True, ir_status := StSuccess\<rparr>))"

definition processSuccessExecution :: "'w engine_env \<Rightarrow> exec_error option \<Rightarrow> 'w engine \<Rightarrow> IRun \<times> 'w engine" where
  "processSuccessExecution env err st =
     (let st1 = move_metadata (case err of None \<Rightarrow> st | Some e \<Rightarrow> with_error e st);
          full = final_run st1 err
      in if is_aborted env (en_world st1) then (full, st1)
         else (case run_hook env (WorkflowExecuteAfter (ir_status full)) (en_world st1) of
            (None, world) \<Rightarrow> (full, st1\<lparr>en_world := world\<rparr>)
          | (Some e, world) \<Rightarrow> processFailedExecution env e (st1\<lparr>en_world := world\<rparr>)))"

definition cancelled_error :: exec_error where
  "cancelled_error = \<lparr>err_name = ''ExecutionCancelledError'', err_message = ''The execution was cancelled''\<rparr>"

definition finish_execution :: "'w engine_env \<Rightarrow> exec_error option \<times> 'w engine \<Rightarrow> IRun \<times> 'w engine" where
  "finish_execution env ended =
     (case ended of
        (Some e, st) \<Rightarrow> processFailedExecution env e st
      | (None, st) \<Rightarrow> processSuccessExecution env
          (if is_canceled env st \<and> en_error st = None then Some cancelled_error else en_error st)
          (if is_canceled env st then st\<lparr>en_status := StCanceled\<rparr> else st))"

text \<open>An execution that waited goes on: the node that waited is passed through, and its last task is dropped.\<close>

definition resume_waiting :: "RunExecutionData \<Rightarrow> RunExecutionData res" where
  "resume_waiting s =
     (case rx_waitTill s of
        None \<Rightarrow> Inr s
      | Some _ \<Rightarrow>
          (case (rx_stack s, Option.bind (rx_lastNodeExecuted s) (map_of (rx_runData s))) of
             (x # rest, Some tasks) \<Rightarrow>
               Inr (s\<lparr>rx_stack := x\<lparr>ex_node := (ex_node x)\<lparr>disabled := Some True\<rparr>\<rparr> # rest, rx_waitTill := None,
                 rx_runData := obj_set (the (rx_lastNodeExecuted s)) (butlast tasks) (rx_runData s)\<rparr>)
           | _ \<Rightarrow> Inl TypeError))"

text \<open>When the first hook fails the run data become the failure of the first node of the stack.\<close>

definition failed_before :: "'w engine_env \<Rightarrow> exec_error \<Rightarrow> 'w engine \<Rightarrow> exec_error \<times> 'w engine" where
  "failed_before env e st =
     (case rx_stack (en_data st) of
        [] \<Rightarrow> (error_of TypeError, st)
      | x # _ \<Rightarrow>
          (let task = \<lparr>td_startTime = clock env (en_world st), td_executionIndex = Some 0, td_source = [], td_hints = Some [],
                 td_executionTime = 0, td_executionStatus = Some StError,
                 td_data = Some (case map_of (ex_data x) MainType of None \<Rightarrow> [] | Some main \<Rightarrow> [(MainType, main)]),
                 td_inputOverride = None, td_error = None, td_metadata = None\<rparr>;
               nodeName = node_name (ex_node x)
           in (e, set_data (\<lambda>s. s\<lparr>rx_runData := [(nodeName, [task])], rx_pinData := [], rx_lastNodeExecuted := Some nodeName,
                 rx_error := Some e\<rparr>) st)))"

definition run_execution :: "'w engine_env \<Rightarrow> Workflow \<Rightarrow> 'w engine \<Rightarrow> (IRun \<times> 'w engine) option" where
  "run_execution env w st =
     (case (if is_restart env then (None, en_world st) else run_hook env WorkflowExecuteBefore (en_world st)) of
        (Some e, world) \<Rightarrow>
          (case failed_before env e (st\<lparr>en_world := world\<rparr>) of (e', st') \<Rightarrow> Some (finish_execution env (Some e', st')))
      | (None, world) \<Rightarrow> map_option (finish_execution env) (run_loop env w (st\<lparr>en_world := world\<rparr>)))"

definition new_engine :: "RunExecutionData \<Rightarrow> nat \<Rightarrow> 'w \<Rightarrow> 'w engine" where
  "new_engine s executionIndex world = \<lparr>en_data = s, en_status = StRunning, en_index = executionIndex, en_lastTry = None,
     en_error = None, en_close = False, en_world = world\<rparr>"

definition WorkflowHasIssuesError :: js_error where
  "WorkflowHasIssuesError = ApplicationError
     ''The workflow has issues and cannot be executed for that reason. Please fix them first.''"

definition processRunExecutionData ::
    "'w engine_env \<Rightarrow> Workflow \<Rightarrow> RunExecutionData \<Rightarrow> nat \<Rightarrow> 'w \<Rightarrow> (IRun \<times> 'w engine) option res" where
  "processRunExecutionData env w s executionIndex world =
     bind_res (checkReadyForExecution (parameters_issues env) w
         (case rx_stack s of [] \<Rightarrow> None | x # _ \<Rightarrow> Some (node_name (ex_node x))) (rx_destinationNode s)) (\<lambda>issues.
       if issues \<noteq> None then Inl WorkflowHasIssuesError
       else bind_res (resume_waiting s) (\<lambda>s'.
         Inr (run_execution env w (new_engine s' executionIndex world))))"

section \<open>What a round leaves alone\<close>

text \<open>The run data, the filter and the destination are the same.\<close>

definition same_results :: "RunExecutionData \<Rightarrow> RunExecutionData \<Rightarrow> bool" where
  "same_results s s' \<longleftrightarrow> rx_runData s' = rx_runData s \<and> rx_runNodeFilter s' = rx_runNodeFilter s
     \<and> rx_destinationNode s' = rx_destinationNode s"

named_theorems frames "operations that leave the results of an execution alone"

lemma same_results_refl [frames, simp]: "same_results s s"
  by (simp add: same_results_def)

lemma same_results_trans: "same_results s s1 \<Longrightarrow> same_results s1 s2 \<Longrightarrow> same_results s s2"
  by (simp add: same_results_def)

lemma same_results_updates [simp]:
  "same_results s (s'\<lparr>rx_stack := a\<rparr>) = same_results s s'"
  "same_results s (s'\<lparr>rx_waiting := b\<rparr>) = same_results s s'"
  "same_results s (s'\<lparr>rx_waitingSource := c\<rparr>) = same_results s s'"
  "same_results s (s'\<lparr>rx_waitTill := t\<rparr>) = same_results s s'"
  "same_results s (s'\<lparr>rx_lastNodeExecuted := l\<rparr>) = same_results s s'"
  by (simp_all add: same_results_def)

lemma same_results_remove_waiting [simp]: "same_results s (remove_waiting n r s') = same_results s s'"
  by (simp add: remove_waiting_def drop_if_empty_def)

lemma same_results_enqueue [simp]: "same_results s (enqueue_data w x s') = same_results s s'"
  by (simp add: enqueue_data_def)

lemma same_results_prepare [simp]: "same_results s (prepareWaitingToExecution n k r s') = same_results s s'"
  by (simp add: prepareWaitingToExecution_def)

lemma same_results_open [simp]: "same_results s (open_waiting n s') = same_results s s'"
  by (simp add: open_waiting_def)

lemma select_run_same:
  assumes "select_run k n i s = Inr (r, s')"
  shows "same_results s s'"
proof -
  let ?o = "open_waiting n s"
  obtain found where "run_missing_input i (runs_of (rx_waiting ?o) n) = Inr found"
    using assms by (cases "run_missing_input i (runs_of (rx_waiting ?o) n)") (simp_all add: select_run_def Let_def)
  with assms have "s' = ?o \<or> s' = prepareWaitingToExecution n k r ?o"
    by (cases found) (auto simp: select_run_def Let_def)
  then show ?thesis by (elim disjE) simp_all
qed

lemma set_input_same: "set_input n r i d src s = Inr s' \<Longrightarrow> same_results s s'"
  by (auto simp: set_input_def split: option.splits)

lemma release_run_same: "release_run w n r s = Inr s' \<Longrightarrow> same_results s s'"
  by (auto simp: release_run_def split: option.splits)

lemma keep_waiting_same:
  assumes "keep_waiting w inputs was c o' p out ri r s = Inr s'"
  shows "same_results s s'"
proof -
  obtain s1 where s1: "(if was then Inr s else force_inputs w inputs p o' out ri s) = Inr s1"
    using assms by (auto simp: keep_waiting_def bind_res_Inr_iff)
  then obtain xs where "s1 = s\<lparr>rx_stack := xs\<rparr>"
    by (cases was) (auto dest: force_inputs_stack(1) intro: that [of "rx_stack s"])
  with assms s1 show ?thesis by (auto simp: keep_waiting_def Let_def split: option.splits)
qed

lemma addNode_same: "addNodeToBeExecuted w c o' p out ri s = Inr s' \<Longrightarrow> same_results s s'"
proof -
  assume add: "addNodeToBeExecuted w c o' p out ri s = Inr s'"
  then obtain inputs where inputs: "incoming_main w (conn_node c) = Inr inputs"
    by (auto simp: addNodeToBeExecuted_def bind_res_Inr_iff)
  show ?thesis
  proof (cases "1 < length inputs")
    case True
    with add inputs have "join_inputs w inputs c o' p out ri s = Inr s'" by (simp add: addNodeToBeExecuted_def)
    then obtain r s1 s2 where "select_run (length inputs) (conn_node c) (conn_index c) s = Inr (r, s1)"
      and "set_input (conn_node c) r (conn_index c) (output_data out o') (input_source out p o' ri) s1 = Inr s2"
      and "release_run w (conn_node c) r s2 = Inr s'
        \<or> keep_waiting w inputs (has_key (rx_waiting s) (conn_node c)) c o' p out ri r s2 = Inr s'"
      by (auto simp: join_inputs_def Let_def bind_res_Inr_iff split: if_splits)
    then show ?thesis
      by (meson same_results_trans select_run_same set_input_same release_run_same keep_waiting_same)
  next
    case False
    with add inputs show ?thesis by (auto simp: addNodeToBeExecuted_def split: option.splits)
  qed
qed

lemma fold_same:
  assumes "fold_res f xs s = Inr s'" and "\<And>x s s'. f x s = Inr s' \<Longrightarrow> same_results s s'"
  shows "same_results s s'"
  by (rule fold_res_keeps [OF assms(1), where I = "same_results s"])
    (auto intro: same_results_trans assms(2))

lemma add_children_same:
  assumes "add_children sort_by w n outs ri s = Inr s'"
  shows "same_results s s'"
proof -
  obtain ns s1 where visit: "fold_res (visit_child w n outs ri) (output_connections w n) ([], s) = Inr (ns, s1)"
    and add: "fold_res (add_child w n outs ri) (sort_by position_order ns) s1 = Inr s'"
    using assms by (auto simp: add_children_def bind_res_Inr_iff)
  have "same_results s (snd (ns, s1))"
  proof (rule fold_res_keeps [OF visit, where I = "\<lambda>acc. same_results s (snd acc)"])
    fix p acc acc' assume "same_results s (snd acc)" "visit_child w n outs ri p acc = Inr acc'"
    then show "same_results s (snd acc')"
      by (auto simp: visit_child_def add_child_def bind_res_Inr_iff split: prod.splits if_splits
          intro: same_results_trans [OF _ addNode_same])
  qed simp
  moreover have "same_results s1 s'" using add by (rule fold_same) (auto simp: add_child_def dest: addNode_same)
  ultimately show ?thesis by (simp add: same_results_trans)
qed

lemma take_run_same [simp]: "same_results s (take_run w n r main s') = same_results s s'"
  by (simp add: take_run_def Let_def split: option.split)

lemma release_waiting_same: "release_waiting env w names rest s = Inr s' \<Longrightarrow> same_results s s'"
proof (induction env w names rest s rule: release_waiting.induct)
  case (2 env w names n rest s)
  show ?case
  proof (cases "check_waiting env w names n s")
    case (Inr c)
    show ?thesis
    proof (cases c)
      case PassOver
      with 2 Inr show ?thesis by simp
    next
      case (TakeRun r main)
      show ?thesis
      proof (cases "\<exists>d \<in> set main. d \<noteq> []")
        case True
        with "2.prems" Inr TakeRun show ?thesis by auto
      next
        case False
        let ?s = "take_run w n r main s"
        have "release_waiting env w (keys_of (rx_waiting ?s)) (keys_of (rx_waiting ?s)) ?s = Inr s'"
          using "2.prems" Inr TakeRun False by (simp add: Let_def)
        from "2.IH"(2) [OF Inr TakeRun refl False this] have "same_results ?s s'" .
        moreover have "same_results s ?s" by simp
        ultimately show ?thesis by (rule same_results_trans [rotated])
      qed
    qed
  qed (use "2.prems" in simp)
qed simp

lemma ensureInputData_same: "ensureInputData w n x s = Inr (b, s') \<Longrightarrow> same_results s s'"
  by (auto simp: ensureInputData_def Let_def bind_res_Inr_iff)

text \<open>
  The tries of a node change only the time to wait until and the last node executed: what such changes
  keep, the tries keep.
\<close>

locale attempt_frame =
  fixes keeps :: "RunExecutionData \<Rightarrow> RunExecutionData \<Rightarrow> bool"
  assumes keeps_refl: "keeps s s"
    and keeps_trans: "keeps s s1 \<Longrightarrow> keeps s1 s2 \<Longrightarrow> keeps s s2"
    and keeps_wait: "keeps s (s\<lparr>rx_waitTill := t\<rparr>)"
    and keeps_last: "keeps s (s\<lparr>rx_lastNodeExecuted := l\<rparr>)"
begin

lemma run_once_keeps:
  assumes "run_once env w x ri a = (r, a')"
  shows "keeps (at_state a) (at_state a')"
proof -
  obtain result world where "runNode (call_node env) w x (at_state a) ri (exec_mode env) (at_world a) = (result, world)"
    by (cases "runNode (call_node env) w x (at_state a) ri (exec_mode env) (at_world a)")
  with assms show ?thesis
    by (auto simp: run_once_def Let_def take_wait_def keeps_refl keeps_wait split: option.splits sum.splits)
qed

lemma retry_failed_keeps:
  "retry_failed env w x ri r t a = (r', t', a') \<Longrightarrow> keeps (at_state a) (at_state a')"
proof (induction env w x ri r t a rule: retry_failed.induct)
  case (1 env w x ri r t a)
  note simps = retry_failed.simps [of env w x ri r t a]
  let ?p = "a\<lparr>at_world := pause env (wait_between_tries (ex_node x)) (at_world a)\<rparr>"
  show ?case
  proof (cases "did_continue_on_fail (at_data a) \<and> Suc t < max_tries (ex_node x)")
    case True
    obtain result a1 where run: "run_once env w x ri ?p = (result, a1)" by (cases "run_once env w x ri ?p")
    have a1: "keeps (at_state a) (at_state a1)" using run_once_keeps [OF run] by simp
    show ?thesis
    proof (cases result)
      case (Inl e)
      then have "a' = a1" using "1.prems"(1) True run by (simp add: simps)
      with a1 show ?thesis by simp
    next
      case (Inr r1)
      then have "retry_failed env w x ri r1 (Suc t) a1 = (r', t', a')" using "1.prems"(1) True run by (simp add: simps)
      with "1.IH" [OF True run [symmetric] Inr] a1 show ?thesis by (blast intro: keeps_trans)
    qed
  next
    case False
    have "retry_failed env w x ri r t a = (Inr r, t, a)" unfolding simps by (rule if_not_P [OF False])
    with "1.prems" show ?thesis by (simp add: keeps_refl)
  qed
qed

lemma assignPairedItems_keeps: "assignPairedItems d x s = Inr (os, s') \<Longrightarrow> keeps s s'"
  by (auto simp: assignPairedItems_def Let_def bind_res_Inr_iff keeps_refl keeps_last split: node_data.splits)

lemma finish_try_keeps: "finish_try x a = (r, a') \<Longrightarrow> keeps (at_state a) (at_state a')"
  by (auto simp: finish_try_def Let_def keeps_refl split: sum.splits prod.splits dest: assignPairedItems_keeps)

lemma run_tries_keeps:
  assumes "run_tries env w x ri t a = (e, t', a')"
  shows "keeps (at_state a) (at_state a')"
proof -
  obtain result a1 where run: "run_once env w x ri a = (result, a1)" by (cases "run_once env w x ri a")
  note a1 = run_once_keeps [OF run]
  show ?thesis
  proof (cases result)
    case (Inl err)
    with assms run a1 show ?thesis by (auto simp: run_tries_def)
  next
    case (Inr r)
    obtain r1 t1 a2 where retry: "retry_failed env w x ri r t a1 = (r1, t1, a2)"
      by (cases "retry_failed env w x ri r t a1") auto
    have "at_state a' = at_state a2"
      using assms run Inr retry by (auto simp: run_tries_def Let_def split: sum.splits)
    with retry_failed_keeps [OF retry] a1 show ?thesis by (auto intro: keeps_trans)
  qed
qed

lemma one_try_keeps:
  assumes "one_try env w x ri t a = (r, t', a')"
  shows "keeps (at_state a) (at_state a')"
proof (cases "pinned_data (at_state a) (ex_node x)")
  case None
  obtain e t1 a1 where run: "run_tries env w x ri t a = (e, t1, a1)" by (cases "run_tries env w x ri t a") auto
  have "keeps (at_state a1) (at_state a')"
    using assms None run by (auto simp: one_try_def keeps_refl split: option.splits prod.splits dest: finish_try_keeps)
  with run_tries_keeps [OF run] show ?thesis by (rule keeps_trans)
next
  case (Some items)
  with assms show ?thesis by (auto simp: one_try_def split: prod.splits dest!: finish_try_keeps)
qed

lemma all_tries_keeps:
  "all_tries env w x ri t err a = (r, a') \<Longrightarrow> keeps (at_state a) (at_state a')"
proof (induction env w x ri t err a rule: all_tries.induct)
  case (1 env w x ri t err a)
  note simps = all_tries.simps [of env w x ri t err a]
  let ?a = "if t = 0 then a else a\<lparr>at_world := pause env (wait_between_tries (ex_node x)) (at_world a)\<rparr>"
  show ?case
  proof (cases "t < max_tries (ex_node x)")
    case True
    obtain r1 t1 a1 where one: "one_try env w x ri t ?a = (r1, t1, a1)" by (cases "one_try env w x ri t ?a") auto
    have a1: "keeps (at_state a) (at_state a1)" using one_try_keeps [OF one] by (simp split: if_splits)
    show ?thesis
    proof (cases r1)
      case (Failed e)
      let ?f = "a1\<lparr>at_state := (at_state a1)\<lparr>rx_lastNodeExecuted := Some (node_name (ex_node x))\<rparr>\<rparr>"
      from Failed have "all_tries env w x ri (Suc t1) (Some e) ?f = (r, a')"
        using "1.prems" True one by (simp add: simps del: if_split)
      from "1.IH" [OF True one [symmetric] Failed refl this] have "keeps (at_state ?f) (at_state a')" .
      then show ?thesis using keeps_trans [OF keeps_trans [OF a1 keeps_last]] by simp
    qed (use "1.prems" True one a1 in \<open>auto simp: simps split: if_splits\<close>)
  qed (use "1.prems" in \<open>simp add: simps keeps_refl\<close>)
qed

end

text \<open>The work that is left: the stack and the waiting runs.\<close>

definition same_work :: "RunExecutionData \<Rightarrow> RunExecutionData \<Rightarrow> bool" where
  "same_work s s' \<longleftrightarrow> rx_stack s' = rx_stack s \<and> rx_waiting s' = rx_waiting s \<and> rx_waitingSource s' = rx_waitingSource s"

interpretation results: attempt_frame same_results
  by unfold_locales (auto intro: same_results_trans)

interpretation work: attempt_frame same_work
  by unfold_locales (simp_all add: same_work_def)

section \<open>A round records at most one task\<close>

fun round_engine :: "'w round \<Rightarrow> 'w engine" where
  "round_engine (Next st) = st"
| "round_engine (Leave st) = st"
| "round_engine (Raise e st) = st"

definition tasks_of :: "IRunData \<Rightarrow> string \<Rightarrow> ITaskData list" where
  "tasks_of rd n = (case map_of rd n of None \<Rightarrow> [] | Some ts \<Rightarrow> ts)"

text \<open>Nothing was recorded, or one task of the node with a given execution index.\<close>

definition records :: "string \<Rightarrow> nat \<Rightarrow> RunExecutionData \<Rightarrow> RunExecutionData \<Rightarrow> bool" where
  "records nm i s s' \<longleftrightarrow> rx_runNodeFilter s' = rx_runNodeFilter s \<and> rx_destinationNode s' = rx_destinationNode s
     \<and> (\<forall>n. n \<noteq> nm \<longrightarrow> tasks_of (rx_runData s') n = tasks_of (rx_runData s) n)
     \<and> (tasks_of (rx_runData s') nm = tasks_of (rx_runData s) nm
        \<or> (\<exists>t. tasks_of (rx_runData s') nm = tasks_of (rx_runData s) nm @ [t] \<and> td_executionIndex t = Some i))"

lemma records_same: "same_results s s' \<Longrightarrow> records nm i s s'"
  by (simp add: records_def same_results_def)

lemma records_trans_same: "records nm i s s1 \<Longrightarrow> same_results s1 s2 \<Longrightarrow> records nm i s s2"
  by (simp add: records_def same_results_def)

lemma same_trans_records: "same_results s s1 \<Longrightarrow> records nm i s1 s2 \<Longrightarrow> records nm i s s2"
  by (simp add: records_def same_results_def)

lemma tasks_of_push [simp]:
  "tasks_of (rx_runData (push_task nm t s)) n = (if n = nm then tasks_of (rx_runData s) nm @ [t] else tasks_of (rx_runData s) n)"
  by (auto simp: push_task_def tasks_of_def obj_set_lookup split: option.splits)

lemma push_task_fields [simp]:
  "rx_runNodeFilter (push_task nm t s) = rx_runNodeFilter s"
  "rx_destinationNode (push_task nm t s) = rx_destinationNode s"
  by (simp_all add: push_task_def)

lemma records_push: "td_executionIndex t = Some i \<Longrightarrow> records nm i s (push_task nm t s)"
  by (simp add: records_def)

lemma records_stack [simp]: "records nm i s (s'\<lparr>rx_stack := xs\<rparr>) = records nm i s s'"
  by (simp add: records_def)

text \<open>The engine after a round: its index is given, and what it has recorded.\<close>

definition round_ok :: "string \<Rightarrow> nat \<Rightarrow> nat \<Rightarrow> RunExecutionData \<Rightarrow> 'w round \<Rightarrow> bool" where
  "round_ok nm i j s r \<longleftrightarrow> en_index (round_engine r) = j \<and> records nm i s (en_data (round_engine r))"

lemma round_okI [intro]:
  assumes "en_index st = j" and "records nm i s (en_data st)"
  shows "round_ok nm i j s (Next st)" and "round_ok nm i j s (Leave st)" and "round_ok nm i j s (Raise e st)"
  using assms by (simp_all add: round_ok_def)

lemma hook_then_ok:
  assumes "round_ok nm i j s (Next st)" and "\<And>world. round_ok nm i j s (k (st\<lparr>en_world := world\<rparr>))"
  shows "round_ok nm i j s (hook_then env h st k)"
  using assms by (auto simp: hook_then_def round_ok_def split: prod.splits option.splits)

lemma end_of_round_ok:
  assumes "en_index st = j" and "records nm i s (en_data st)"
  shows "round_ok nm i j s (end_of_round env w st)"
  using assms by (auto simp: end_of_round_def round_ok_def Let_def split: sum.splits
      dest: release_waiting_same intro: records_trans_same)

lemma record_output_ok:
  assumes "en_index st = j" and "same_results s (en_data st)" and "td_executionIndex task = Some i"
  shows "round_ok (node_name (ex_node x)) i j s (record_output env w x ri task outs st)"
proof -
  let ?nm = "node_name (ex_node x)"
  let ?task = "task\<lparr>td_data := Some (output_log (ex_node x) outs)\<rparr>"
  let ?st = "set_data (push_task ?nm ?task) st"
  have rec: "records ?nm i s (en_data ?st)"
    using same_trans_records [OF assms(2) records_push [of ?task i ?nm]] assms(3) by (simp add: set_data_def)
  have j: "en_index ?st = j" using assms(1) by (simp add: set_data_def)
  show ?thesis
  proof (cases "rx_waitTill (en_data ?st) \<noteq> None \<or> (rx_destinationNode (en_data ?st) = Some ?nm \<and> ?nm \<noteq> '''')")
    case True
    then show ?thesis
      using rec j by (auto simp: record_output_def Let_def set_data_def simp del: push_task_fields intro!: hook_then_ok round_okI)
  next
    case False
    show ?thesis
    proof (cases "add_children (sort_nodes env) w ?nm outs ri (en_data ?st)")
      case (Inl e)
      with False rec j show ?thesis by (auto simp: record_output_def Let_def simp del: push_task_fields)
    next
      case (Inr s')
      have "records ?nm i s s'" using rec add_children_same [OF Inr] by (rule records_trans_same)
      with False Inr j show ?thesis
        by (auto simp: record_output_def Let_def simp del: push_task_fields intro!: hook_then_ok end_of_round_ok)
    qed
  qed
qed

lemma started_task_index [simp]: "td_executionIndex (started_task x t i h) = Some i"
  by (simp add: started_task_def)

lemma tasks_of_fresh: "\<not> has_key rd nm \<Longrightarrow> tasks_of (obj_set nm [] rd) n = tasks_of rd n"
  by (auto simp: tasks_of_def obj_set_lookup)

lemma record_task_ok:
  assumes j: "en_index st = j" and same: "same_results s (en_data st)" and t: "td_executionIndex task = Some i"
  shows "round_ok (node_name (ex_node x)) i j s (record_task env w x ri task err d st)"
proof -
  let ?nm = "node_name (ex_node x)"
  define task1 where "task1 = (let ok_task = task\<lparr>td_executionTime := clock env (en_world st) - td_startTime task,
      td_executionStatus := Some (if rx_waitTill (en_data st) \<noteq> None then StWaiting else StSuccess)\<rparr>
    in case err of None \<Rightarrow> ok_task
      | Some e \<Rightarrow> ok_task\<lparr>td_error := Some (err_message e), td_executionStatus := Some StError\<rparr>)"
  have t1: "td_executionIndex task1 = Some i" using t by (simp add: task1_def Let_def split: option.split)
  show ?thesis
  proof (cases "err \<noteq> None \<and> \<not> continues_on_error (ex_node x)")
    case True
    let ?st = "set_data (\<lambda>s. (push_task ?nm task1 s)\<lparr>rx_stack := x # rx_stack s\<rparr>) st"
    have "record_task env w x ri task err d st
        = (if is_aborted env (en_world ?st) then Leave ?st else hook_then env (NodeExecuteAfter ?nm task1) ?st Leave)"
      unfolding record_task_def Let_def if_P [OF True] task1_def by (rule refl)
    moreover have "records ?nm i s (en_data ?st)"
      using same_trans_records [OF same records_push [OF t1, of ?nm]] by (simp add: set_data_def)
    moreover have "en_index ?st = j" using j by (simp add: set_data_def)
    ultimately show ?thesis by (auto intro!: hook_then_ok)
  next
    case False
    define st1 where "st1 = set_data (\<lambda>s. if has_key (rx_runData s) ?nm then s
        else s\<lparr>rx_runData := obj_set ?nm [] (rx_runData s)\<rparr>) st"
    have eq: "record_task env w x ri task err d st = (case (if err = None then d else data_after_error x d) of
          Outputs outputs \<Rightarrow> (case merge_errors outputs of
              Inl e \<Rightarrow> Raise (error_of e) st1
            | Inr outputs' \<Rightarrow> record_output env w x ri task1 outputs' st1)
        | _ \<Rightarrow> Raise (error_of TypeError) st1)"
      unfolding record_task_def Let_def if_not_P [OF False] st1_def task1_def by (rule refl)
    have j1: "en_index st1 = j" using j by (simp add: st1_def set_data_def)
    have rec: "records ?nm i s (en_data st1)" and base: "\<And>r. round_ok ?nm i j (en_data st1) r \<Longrightarrow> round_ok ?nm i j s r"
      using same by (auto simp: st1_def set_data_def round_ok_def records_def same_results_def tasks_of_fresh)
    have raise: "round_ok ?nm i j s (Raise e st1)" for e using j1 rec by (simp add: round_ok_def)
    have out: "round_ok ?nm i j s (record_output env w x ri task1 outputs' st1)" for outputs'
      by (rule base, rule record_output_ok [OF j1 same_results_refl t1])
    show ?thesis unfolding eq by (auto simp: raise out split: node_data.split sum.split)
  qed
qed

lemma execute_node_ok:
  assumes "en_index st = j" and "same_results s (en_data st)"
  shows "round_ok (node_name (ex_node x)) i j s (execute_node env w x ri t i st)"
proof -
  let ?a = "\<lparr>at_data = Null, at_hints = [], at_close = en_close st, at_state = en_data st, at_world = en_world st\<rparr>"
  obtain result a where tries: "all_tries env w x ri 0 None ?a = (result, a)" by (cases "all_tries env w x ri 0 None ?a")
  let ?st = "st\<lparr>en_data := at_state a, en_close := at_close a, en_world := at_world a,
      en_error := (case result of Failed e \<Rightarrow> Some e | _ \<Rightarrow> None)\<rparr>"
  have same: "same_results s (en_data ?st)"
    using same_results_trans [OF assms(2)] results.all_tries_keeps [OF tries] by simp
  have task: "round_ok (node_name (ex_node x)) i j s
      (record_task env w x ri (started_task x t i (at_hints a)) (en_error ?st) (at_data a) ?st)"
    by (rule record_task_ok [OF _ same]) (simp_all add: assms(1))
  show ?thesis
  proof (cases result)
    case EndBranch
    with tries same assms(1) show ?thesis by (simp add: execute_node_def round_ok_def records_same)
  qed (use tries task in \<open>simp_all add: execute_node_def Let_def\<close>)
qed

text \<open>Whether the filter of the execution lets a node execute.\<close>

definition on_filter :: "RunExecutionData \<Rightarrow> string \<Rightarrow> bool" where
  "on_filter s nm \<longleftrightarrow> (case rx_runNodeFilter s of None \<Rightarrow> True | Some names \<Rightarrow> nm \<in> set names)"

lemma start_node_ok:
  fixes st :: "'w engine"
  assumes "en_index st = j"
  shows "round_ok (node_name (ex_node x)) i j (en_data st) (start_node env w x i st)"
    and "\<not> on_filter (en_data st) (node_name (ex_node x)) \<Longrightarrow>
      same_results (en_data st) (en_data (round_engine (start_node env w x i st)))"
proof -
  let ?nm = "node_name (ex_node x)"
  show "round_ok ?nm i j (en_data st) (start_node env w x i st)"
    using assms
    by (auto simp: start_node_def Let_def round_ok_def [of _ _ _ _ "Raise _ _"] round_ok_def [of _ _ _ _ "Next _"] records_same
        split: sum.split prod.split bool.split intro!: hook_then_ok execute_node_ok records_same dest: ensureInputData_same)
  show "same_results (en_data st) (en_data (round_engine (start_node env w x i st)))" if "\<not> on_filter (en_data st) ?nm"
    using that by (simp add: start_node_def Let_def on_filter_def split: option.splits)
qed

end
