(* ===== verification/EngineRun.thy ===== *)
theory EngineRun
  imports EngineLoop
begin

text \<open>
  What an execution as a whole does: the runs it records and the indexes it gives them
  (\<open>WorkflowExecute.processRunExecutionData\<close> in \<open>workflow-execute.ts\<close>), that it ends for a
  workflow without a cycle, and where it leaves the work it did not do.
\<close>

section \<open>Recorded runs\<close>

text \<open>From one state of the run data to a later one: runs are appended, and only to nodes on the filter.\<close>

definition grows :: "RunExecutionData \<Rightarrow> RunExecutionData \<Rightarrow> bool" where
  "grows s s' \<longleftrightarrow> rx_runNodeFilter s' = rx_runNodeFilter s \<and> rx_destinationNode s' = rx_destinationNode s
     \<and> (\<forall>n. \<exists>new. tasks_of (rx_runData s') n = tasks_of (rx_runData s) n @ new \<and> (on_filter s n \<or> new = []))"

text \<open>The execution indexes are below a bound and no two runs, of any nodes, have the same.\<close>

definition numbered :: "nat \<Rightarrow> IRunData \<Rightarrow> bool" where
  "numbered i rd \<longleftrightarrow>
     (\<forall>n t k. t \<in> set (tasks_of rd n) \<and> td_executionIndex t = Some k \<longrightarrow> k < i)
     \<and> (\<forall>n m a b k. a < length (tasks_of rd n) \<and> b < length (tasks_of rd m)
         \<and> td_executionIndex (tasks_of rd n ! a) = Some k \<and> td_executionIndex (tasks_of rd m ! b) = Some k
         \<longrightarrow> n = m \<and> a = b)"

lemma grows_refl [simp]: "grows s s"
  by (simp add: grows_def)

lemma grows_trans:
  assumes "grows s s1" and "grows s1 s2"
  shows "grows s s2"
proof -
  have f: "on_filter s1 n = on_filter s n" for n using assms(1) by (simp add: grows_def on_filter_def)
  have "\<exists>new. tasks_of (rx_runData s2) n = tasks_of (rx_runData s) n @ new \<and> (on_filter s n \<or> new = [])" for n
  proof -
    obtain new1 where n1: "tasks_of (rx_runData s1) n = tasks_of (rx_runData s) n @ new1" "on_filter s n \<or> new1 = []"
      using assms(1) by (auto simp: grows_def)
    obtain new2 where n2: "tasks_of (rx_runData s2) n = tasks_of (rx_runData s1) n @ new2" "on_filter s n \<or> new2 = []"
      using assms(2) f by (auto simp: grows_def)
    from n1 n2 have "tasks_of (rx_runData s2) n = tasks_of (rx_runData s) n @ (new1 @ new2) \<and> (on_filter s n \<or> new1 @ new2 = [])"
      by auto
    then show ?thesis by blast
  qed
  with assms show ?thesis by (simp add: grows_def)
qed

lemma numbered_cong:
  assumes "\<And>n. tasks_of rd' n = tasks_of rd n" and "i \<le> j" and "numbered i rd"
  shows "numbered j rd'"
  using assms(3) less_le_trans [OF _ assms(2)] unfolding numbered_def assms(1) by blast

lemma numbered_push:
  assumes num: "numbered i rd" and push: "\<And>n. tasks_of rd' n = (if n = nm then tasks_of rd nm @ [t] else tasks_of rd n)"
    and idx: "td_executionIndex t = Some i" and "i < j"
  shows "numbered j rd'"
proof -
  have below: "k < i" if "u \<in> set (tasks_of rd n)" "td_executionIndex u = Some k" for u n k
    using num that by (auto simp: numbered_def)
  have at: "(n = nm \<and> a = length (tasks_of rd nm) \<and> k = i) \<or> (a < length (tasks_of rd n)
      \<and> td_executionIndex (tasks_of rd n ! a) = Some k \<and> k < i)"
    if "a < length (tasks_of rd' n)" "td_executionIndex (tasks_of rd' n ! a) = Some k" for n a k
    using that push [of n] idx below [OF nth_mem] by (auto simp: nth_append less_Suc_eq split: if_splits)
  have "k < j" if u: "u \<in> set (tasks_of rd' n)" "td_executionIndex u = Some k" for u n k
  proof -
    from u(1) obtain a where "a < length (tasks_of rd' n)" "u = tasks_of rd' n ! a" by (auto simp: in_set_conv_nth)
    with at [of a n k] u(2) \<open>i < j\<close> show ?thesis by auto
  qed
  moreover have "n = m \<and> a = b"
    if "a < length (tasks_of rd' n)" "b < length (tasks_of rd' m)"
      "td_executionIndex (tasks_of rd' n ! a) = Some k" "td_executionIndex (tasks_of rd' m ! b) = Some k" for n m a b k
  proof -
    have same: "n = m \<and> a = b" if "a < length (tasks_of rd n)" "b < length (tasks_of rd m)"
        "td_executionIndex (tasks_of rd n ! a) = Some k" "td_executionIndex (tasks_of rd m ! b) = Some k"
      using num that unfolding numbered_def by blast
    show ?thesis using at [OF that(1,3)] at [OF that(2,4)] same by auto
  qed
  ultimately show ?thesis by (auto simp: numbered_def)
qed

lemma records_grows: "records nm i s s' \<Longrightarrow> on_filter s nm \<or> same_results s s' \<Longrightarrow> grows s s'"
proof -
  assume rec: "records nm i s s'" and on: "on_filter s nm \<or> same_results s s'"
  have "\<exists>new. tasks_of (rx_runData s') n = tasks_of (rx_runData s) n @ new \<and> (on_filter s n \<or> new = [])" for n
    using rec on by (cases "n = nm") (auto simp: records_def same_results_def)
  with rec show ?thesis by (simp add: grows_def records_def)
qed

lemma records_numbered:
  assumes rec: "records nm i s s'" and num: "numbered i (rx_runData s)" and "i < j"
  shows "numbered j (rx_runData s')"
proof (cases "tasks_of (rx_runData s') nm = tasks_of (rx_runData s) nm")
  case True
  with rec have "tasks_of (rx_runData s') n = tasks_of (rx_runData s) n" for n
    by (cases "n = nm") (auto simp: records_def)
  then show ?thesis by (rule numbered_cong [OF _ _ num]) (use \<open>i < j\<close> in simp)
next
  case False
  with rec obtain t where "tasks_of (rx_runData s') nm = tasks_of (rx_runData s) nm @ [t]" "td_executionIndex t = Some i"
    and "\<forall>n. n \<noteq> nm \<longrightarrow> tasks_of (rx_runData s') n = tasks_of (rx_runData s) n" by (auto simp: records_def)
  then show ?thesis using numbered_push [OF num _ _ \<open>i < j\<close>, of "rx_runData s'" nm t] by auto
qed

section \<open>One round\<close>

lemma check_timeout_simps [simp]:
  "en_data (check_timeout env st) = en_data st"
  "en_index (check_timeout env st) = en_index st"
  "en_lastTry (check_timeout env st) = en_lastTry st"
  "en_world (check_timeout env st) = en_world st"
  by (simp_all add: check_timeout_def split: option.split)

text \<open>The engine a round starts a node in, and the node.\<close>

definition popped :: "'w engine_env \<Rightarrow> 'w engine \<Rightarrow> IExecuteData list \<Rightarrow> 'w engine" where
  "popped env st rest = (check_timeout env st)\<lparr>en_data := (en_data st)\<lparr>rx_stack := rest\<rparr>,
     en_index := Suc (en_index st), en_error := None\<rparr>"

definition numbered_entry :: "IExecuteData \<Rightarrow> IExecuteData" where
  "numbered_entry x = x\<lparr>ex_data := number_inputs (ex_data x)\<rparr>"

lemma numbered_entry_node [simp]: "ex_node (numbered_entry x) = ex_node x"
  by (simp add: numbered_entry_def)

lemma execution_round_cases:
  obtains (Stop) "execution_round env w st = Leave st \<or> execution_round env w st = Leave (check_timeout env st)"
  | (Start) x rest where "rx_stack (en_data st) = x # rest" and
      "execution_round env w st = start_node env w (numbered_entry x) (en_index st) (popped env st rest)"
proof (cases "rx_stack (en_data st)")
  case Nil
  then show ?thesis by (intro Stop) (simp add: execution_round_def)
next
  case (Cons x rest)
  show ?thesis
  proof (cases "is_canceled env (check_timeout env st)")
    case True
    with Cons show ?thesis by (intro Stop) (simp add: execution_round_def)
  next
    case False
    with Cons show ?thesis by (intro Start) (simp_all add: execution_round_def popped_def numbered_entry_def Let_def)
  qed
qed

lemma on_filter_stack [simp]: "on_filter (s\<lparr>rx_stack := xs\<rparr>) n = on_filter s n"
  by (simp add: on_filter_def)

lemma same_results_from_stack [simp]: "same_results (s\<lparr>rx_stack := xs\<rparr>) s' = same_results s s'"
  by (simp add: same_results_def)

lemma records_from_stack [simp]: "records nm i (s\<lparr>rx_stack := xs\<rparr>) s' = records nm i s s'"
  by (simp add: records_def)

lemma execution_round_grows:
  fixes env :: "'w engine_env" and w :: Workflow and st :: "'w engine"
  defines "st' \<equiv> round_engine (execution_round env w st)"
  shows "grows (en_data st) (en_data st')" and "en_index st \<le> en_index st'"
    and "numbered (en_index st) (rx_runData (en_data st)) \<Longrightarrow> numbered (en_index st') (rx_runData (en_data st'))"
proof -
  have "grows (en_data st) (en_data st') \<and> en_index st \<le> en_index st'
    \<and> (numbered (en_index st) (rx_runData (en_data st)) \<longrightarrow> numbered (en_index st') (rx_runData (en_data st')))"
  proof (cases rule: execution_round_cases [where env = env and w = w and st = st])
    case Stop
    then show ?thesis by (auto simp: st'_def)
  next
    case (Start x rest)
    let ?nm = "node_name (ex_node x)"
    have ok: "round_ok ?nm (en_index st) (Suc (en_index st)) (en_data (popped env st rest))
        (start_node env w (numbered_entry x) (en_index st) (popped env st rest))"
      using start_node_ok(1) [of "popped env st rest" "Suc (en_index st)" "numbered_entry x" "en_index st" env w]
      by (simp add: popped_def)
    have off: "\<not> on_filter (en_data st) ?nm \<Longrightarrow> same_results (en_data st) (en_data st')"
      using start_node_ok(2) [of "popped env st rest" _ "numbered_entry x" env w "en_index st"] Start(2)
      by (simp add: popped_def st'_def)
    from ok Start(2) have rec: "records ?nm (en_index st) (en_data st) (en_data st')" and idx: "en_index st' = Suc (en_index st)"
      by (simp_all add: round_ok_def st'_def popped_def)
    from records_grows [OF rec] off have "grows (en_data st) (en_data st')" by blast
    with records_numbered [OF rec] idx show ?thesis by auto
  qed
  then show "grows (en_data st) (en_data st')" and "en_index st \<le> en_index st'"
    and "numbered (en_index st) (rx_runData (en_data st)) \<Longrightarrow> numbered (en_index st') (rx_runData (en_data st'))" by blast+
qed

section \<open>The whole loop\<close>

declare run_loop.simps [code]

lemma run_loop_step:
  assumes "run_loop env w st = Some r"
  obtains (Next) st1 where "execution_round env w st = Next st1" "run_loop env w st1 = Some r"
  | (Leave) st1 where "execution_round env w st = Leave st1" "r = (None, st1)"
  | (Raise) e st1 where "execution_round env w st = Raise e st1" "r = (Some e, st1)"
  using assms by (cases "execution_round env w st") (auto simp: run_loop.simps [of env w st])

text \<open>A relation between the engines of a round that is a preorder holds for the loop.\<close>

lemma run_loop_keeps:
  assumes "run_loop env w st = Some r" and "\<And>st. R st (round_engine (execution_round env w st))"
    and "\<And>a b c. R a b \<Longrightarrow> R b c \<Longrightarrow> R a c"
  shows "R st (snd r)"
proof (rule run_loop.raw_induct [where P = "\<lambda>env' w' st r. env' = env \<longrightarrow> w' = w \<longrightarrow> R st (snd r)", OF _ assms(1), rule_format])
  fix loop and env' :: "'a engine_env" and w' :: Workflow and st :: "'a engine" and r
  assume IH: "\<And>env' w' st r. loop env' w' st = Some r \<Longrightarrow> env' = env \<Longrightarrow> w' = w \<Longrightarrow> R st (snd r)"
    and eq: "(case execution_round env' w' st of Next st' \<Rightarrow> loop env' w' st' | Leave st' \<Rightarrow> Some (None, st')
      | Raise e st' \<Rightarrow> Some (Some e, st')) = Some r" and "env' = env" "w' = w"
  have step: "R st (round_engine (execution_round env w st))" by (rule assms(2))
  show "R st (snd r)"
  proof (cases "execution_round env w st")
    case (Next st1)
    with eq \<open>env' = env\<close> \<open>w' = w\<close> have "loop env w st1 = Some r" by simp
    from IH [OF this refl refl] step Next show ?thesis by (auto intro: assms(3))
  qed (use eq \<open>env' = env\<close> \<open>w' = w\<close> step in auto)
qed simp_all

lemma run_loop_grows:
  assumes "run_loop env w st = Some (err, st')"
  shows "grows (en_data st) (en_data st')"
    and "numbered (en_index st) (rx_runData (en_data st)) \<Longrightarrow> numbered (en_index st') (rx_runData (en_data st'))"
proof -
  let ?R = "\<lambda>a b. grows (en_data a) (en_data b) \<and>
    (numbered (en_index a) (rx_runData (en_data a)) \<longrightarrow> numbered (en_index b) (rx_runData (en_data b)))"
  have "?R st (snd (err, st'))"
    by (rule run_loop_keeps [OF assms, where R = ?R]) (auto intro: grows_trans execution_round_grows)
  then show "grows (en_data st) (en_data st')"
    and "numbered (en_index st) (rx_runData (en_data st)) \<Longrightarrow> numbered (en_index st') (rx_runData (en_data st'))" by simp_all
qed

text \<open>C4: An execution only appends runs to the nodes on its filter, and keeps every recorded run; the
  execution indexes of all runs stay distinct and below the next index.\<close>

theorem run_loop_records:
  assumes "run_loop env w st = Some (err, st')" and "numbered (en_index st) (rx_runData (en_data st))"
  shows "grows (en_data st) (en_data st') \<and> numbered (en_index st') (rx_runData (en_data st'))"
  using run_loop_grows [OF assms(1)] assms(2) by blast

text \<open>Every node of the example hands one item on; the world counts the calls.\<close>

definition steady_env :: "nat engine_env" where
  "steady_env = flaky_env\<lparr>call_node := (\<lambda>_ n. (Executed (Outputs [Some [empty_item]]) [] [], Suc n))\<rparr>"

definition started_at :: "INode \<Rightarrow> RunExecutionData" where
  "started_at node = no_run\<lparr>rx_stack := [\<lparr>ex_node = node, ex_data = [(MainType, [Some [empty_item]])], ex_source = None,
     ex_metadata = None\<rparr>]\<rparr>"

lemma run_loop_records_witness:
  "\<exists>st'. run_loop steady_env example_workflow (new_engine (started_at (plain_node ''T'' ''trigger'')) 0 0) = Some (None, st')
    \<and> en_index st' = 3 \<and> numbered 3 (rx_runData (en_data st'))"
proof -
  let ?st = "new_engine (started_at (plain_node ''T'' ''trigger'')) 0 0"
  have "case run_loop steady_env example_workflow ?st of Some (None, st') \<Rightarrow> en_index st' = 3 | _ \<Rightarrow> False"
    by code_simp
  then obtain st' where run: "run_loop steady_env example_workflow ?st = Some (None, st')" and "en_index st' = 3"
    by (auto split: option.splits)
  moreover have "numbered (en_index ?st) (rx_runData (en_data ?st))"
    by (simp add: numbered_def new_engine_def started_at_def no_run_def tasks_of_def)
  ultimately show ?thesis using run_loop_records [OF run] by auto
qed

section \<open>Waiting nodes that are left behind\<close>

text \<open>The nodes \<open>P\<close> and \<open>Q\<close> feed a merge node; \<open>Q\<close> answers with the data given.\<close>

definition answering_env :: "node_data \<Rightarrow> nat engine_env" where
  "answering_env d = steady_env\<lparr>call_node := (\<lambda>request n. (case request of
       CallExecute node _ _ _ _ \<Rightarrow> Executed (if node_name node = ''Q'' then d else Outputs [Some [empty_item]]) [] []
     | _ \<Rightarrow> Polled Null, Suc n))\<rparr>"

definition merge_start :: RunExecutionData where
  "merge_start = no_run\<lparr>rx_stack := map (\<lambda>n. \<lparr>ex_node = plain_node n ''step'', ex_data = [(MainType, [Some [empty_item]])],
     ex_source = None, ex_metadata = None\<rparr>) [''P'', ''Q'']\<rparr>"

text \<open>A waiting node is released only at the end of a round that recorded data: when the last node of the stack
  answers with \<open>null\<close> the execution succeeds and the merge node is never executed, although with an empty
  output from the same node it is.\<close>

theorem null_output_strands_waiting:
  "(\<exists>st. run_loop (answering_env Null) merge_workflow (new_engine merge_start 0 0) = Some (None, st)
      \<and> keys_of (rx_runData (en_data st)) = [''P''] \<and> keys_of (rx_waiting (en_data st)) = [''M'']
      \<and> ir_finished (final_run st None))
    \<and> (\<exists>st. run_loop (answering_env (Outputs [Some []])) merge_workflow (new_engine merge_start 0 0) = Some (None, st)
      \<and> keys_of (rx_runData (en_data st)) = [''P'', ''Q'', ''M''] \<and> rx_waiting (en_data st) = [])"
proof (rule conjI)
  let ?run = "\<lambda>d. run_loop (answering_env d) merge_workflow (new_engine merge_start 0 0)"
  have "case ?run Null of Some (None, st) \<Rightarrow> keys_of (rx_runData (en_data st)) = [''P''] \<and> keys_of (rx_waiting (en_data st)) = [''M'']
      \<and> ir_finished (final_run st None) | _ \<Rightarrow> False" by code_simp
  then show "\<exists>st. ?run Null = Some (None, st) \<and> keys_of (rx_runData (en_data st)) = [''P'']
      \<and> keys_of (rx_waiting (en_data st)) = [''M''] \<and> ir_finished (final_run st None)" by (auto split: option.splits)
  have "case ?run (Outputs [Some []]) of Some (None, st) \<Rightarrow> keys_of (rx_runData (en_data st)) = [''P'', ''Q'', ''M'']
      \<and> rx_waiting (en_data st) = [] | _ \<Rightarrow> False" by code_simp
  then show "\<exists>st. ?run (Outputs [Some []]) = Some (None, st) \<and> keys_of (rx_runData (en_data st)) = [''P'', ''Q'', ''M'']
      \<and> rx_waiting (en_data st) = []" by (auto split: option.splits)
qed

text \<open>The runs of a waiting node are released in the order of their indexes as strings.\<close>

lemma first_run_as_string: "first_run (map (\<lambda>r. (r, [])) [8, 9, 10]) = Some 10"
  by code_simp

section \<open>Where an execution stops\<close>

lemma hook_then_Leave:
  assumes "hook_then env h st k = Leave st'"
  obtains world where "k (st\<lparr>en_world := world\<rparr>) = Leave st'"
  using assms by (auto simp: hook_then_def split: prod.splits option.splits)

lemma end_of_round_not_Leave: "end_of_round env w st \<noteq> Leave st'"
  by (simp add: end_of_round_def Let_def split: sum.split)

lemma push_task_work [simp]:
  "rx_stack (push_task n t s) = rx_stack s"
  "rx_waiting (push_task n t s) = rx_waiting s"
  "rx_waitingSource (push_task n t s) = rx_waitingSource s"
  by (simp_all add: push_task_def)

text \<open>The work of a state with an entry put on its stack.\<close>

definition back_on_stack :: "IExecuteData \<Rightarrow> RunExecutionData \<Rightarrow> RunExecutionData \<Rightarrow> bool" where
  "back_on_stack x s s' \<longleftrightarrow> same_work (s\<lparr>rx_stack := x # rx_stack s\<rparr>) s'"

lemma record_output_Leave:
  assumes "record_output env w x ri task outs st = Leave st'"
  shows "back_on_stack x (en_data st) (en_data st')"
proof -
  let ?task = "task\<lparr>td_data := Some (output_log (ex_node x) outs)\<rparr>"
  let ?st = "set_data (push_task (node_name (ex_node x)) ?task) st"
  consider (waits) "rx_waitTill (en_data ?st) \<noteq> None"
    | (last) "rx_waitTill (en_data ?st) = None" "rx_destinationNode (en_data ?st) = Some (node_name (ex_node x)) \<and> node_name (ex_node x) \<noteq> ''''"
    | (goes_on) "rx_waitTill (en_data ?st) = None" "\<not> (rx_destinationNode (en_data ?st) = Some (node_name (ex_node x)) \<and> node_name (ex_node x) \<noteq> '''')"
    by blast
  then show ?thesis
  proof cases
    case waits
    with assms have "hook_then env (NodeExecuteAfter (node_name (ex_node x)) ?task) ?st
        (\<lambda>st2. Leave (set_data (\<lambda>s. s\<lparr>rx_stack := x # rx_stack s\<rparr>) st2)) = Leave st'"
      by (simp add: record_output_def Let_def)
    then show ?thesis by (rule hook_then_Leave) (auto simp: set_data_def back_on_stack_def same_work_def)
  next
    case last
    with assms have "hook_then env (NodeExecuteAfter (node_name (ex_node x)) ?task) ?st Next = Leave st'"
      by (simp add: record_output_def Let_def)
    then show ?thesis by (rule hook_then_Leave) simp
  next
    case goes_on
    with assms obtain s where "hook_then env (NodeExecuteAfter (node_name (ex_node x)) ?task) (?st\<lparr>en_data := s\<rparr>)
        (end_of_round env w) = Leave st'"
      by (auto simp: record_output_def Let_def simp del: push_task_fields split: sum.splits)
    then show ?thesis by (rule hook_then_Leave) (simp add: end_of_round_not_Leave)
  qed
qed

lemma record_task_Leave:
  assumes "record_task env w x ri task err d st = Leave st'"
  shows "back_on_stack x (en_data st) (en_data st')"
proof (cases "err \<noteq> None \<and> \<not> continues_on_error (ex_node x)")
  case True
  have "\<exists>task1. (let st1 = set_data (\<lambda>s. (push_task (node_name (ex_node x)) task1 s)\<lparr>rx_stack := x # rx_stack s\<rparr>) st
      in if is_aborted env (en_world st1) then Leave st1
         else hook_then env (NodeExecuteAfter (node_name (ex_node x)) task1) st1 Leave) = Leave st'"
    using assms unfolding record_task_def Let_def if_P [OF True] by blast
  then show ?thesis
    by (auto simp: Let_def set_data_def back_on_stack_def same_work_def split: if_splits elim!: hook_then_Leave)
next
  case False
  define st1 where "st1 = set_data (\<lambda>s. if has_key (rx_runData s) (node_name (ex_node x)) then s
      else s\<lparr>rx_runData := obj_set (node_name (ex_node x)) [] (rx_runData s)\<rparr>) st"
  have "\<exists>task1 outs. record_output env w x ri task1 outs st1 = Leave st'"
    using assms unfolding record_task_def Let_def if_not_P [OF False] st1_def [symmetric]
    by (auto split: node_data.splits sum.splits)
  then have "back_on_stack x (en_data st1) (en_data st')" by (auto dest: record_output_Leave)
  then show ?thesis by (auto simp: back_on_stack_def same_work_def st1_def set_data_def)
qed

lemma execute_node_Leave:
  assumes "execute_node env w x ri t i st = Leave st'"
  shows "back_on_stack x (en_data st) (en_data st')"
proof -
  let ?a = "\<lparr>at_data = Null, at_hints = [], at_close = en_close st, at_state = en_data st, at_world = en_world st\<rparr>"
  obtain result a where tries: "all_tries env w x ri 0 None ?a = (result, a)" by (cases "all_tries env w x ri 0 None ?a")
  have same: "same_work (en_data st) (at_state a)" using work.all_tries_keeps [OF tries] by simp
  have "\<exists>task err d st1. record_task env w x ri task err d st1 = Leave st' \<and> en_data st1 = at_state a"
    using assms tries by (cases result) (fastforce simp: execute_node_def Let_def)+
  then have "back_on_stack x (at_state a) (en_data st')" by (auto dest: record_task_Leave)
  with same show ?thesis by (simp add: back_on_stack_def same_work_def)
qed

lemma start_node_Leave:
  assumes "start_node env w x i st = Leave st'"
  shows "back_on_stack x (en_data st) (en_data st')"
proof -
  obtain t where "hook_then env (NodeExecuteBefore (node_name (ex_node x))) st
      (execute_node env w x (run_index (en_data st) (node_name (ex_node x))) t i) = Leave st'"
    using assms by (auto simp: start_node_def Let_def split: if_splits sum.splits prod.splits bool.splits)
  then show ?thesis by (rule hook_then_Leave) (auto dest: execute_node_Leave)
qed

text \<open>C7: A round that stops the execution, because the node failed, asked to wait, or the execution was
  canceled, loses no work: the node is first on the stack again and nothing else has moved.\<close>

theorem stopped_round_keeps_work:
  assumes "execution_round env w st = Leave st'"
  shows "same_work (en_data st) (en_data st')
    \<or> (\<exists>x rest. rx_stack (en_data st) = x # rest \<and> back_on_stack (numbered_entry x) ((en_data st)\<lparr>rx_stack := rest\<rparr>) (en_data st'))"
proof (cases rule: execution_round_cases [where env = env and w = w and st = st])
  case Stop
  with assms show ?thesis by (auto simp: same_work_def)
next
  case (Start x rest)
  with assms have "back_on_stack (numbered_entry x) (en_data (popped env st rest)) (en_data st')" by (simp add: start_node_Leave)
  with Start(1) show ?thesis by (simp add: popped_def)
qed

lemma stopped_round_keeps_work_witness:
  "\<exists>st'. execution_round (flaky_env\<lparr>call_node := (\<lambda>_ n. (Threw cancelled_error, n))\<rparr>) example_workflow
      (new_engine (started_at (plain_node ''A'' ''step'')) 0 0) = Leave st'
    \<and> map (\<lambda>x. node_name (ex_node x)) (rx_stack (en_data st')) = [''A'']"
proof -
  let ?env = "flaky_env\<lparr>call_node := (\<lambda>_ n. (Threw cancelled_error, n))\<rparr>"
  let ?st = "new_engine (started_at (plain_node ''A'' ''step'')) 0 0"
  have "case execution_round ?env example_workflow ?st of Leave _ \<Rightarrow> True | _ \<Rightarrow> False" by code_simp
  then obtain st' where "execution_round ?env example_workflow ?st = Leave st'" by (auto split: round.splits)
  with stopped_round_keeps_work [OF this] show ?thesis
    by (auto simp: new_engine_def started_at_def same_work_def back_on_stack_def)
qed

end
