(* ===== verification/EngineEnds.thy ===== *)
theory EngineEnds
  imports EngineRun
begin

text \<open>
  Every execution of a workflow without a cycle ends, with the order \<open>v1\<close>: the work that is left is
  weighed, an entry of the stack by what its node can put there, a waiting run by one more, and every
  round makes it less (\<open>WorkflowExecute.processRunExecutionData\<close> in \<open>workflow-execute.ts\<close>).
\<close>

section \<open>The weight of the work that is left\<close>

definition wait_load :: "(string \<Rightarrow> nat) \<Rightarrow> 'v waiting_store \<Rightarrow> nat" where
  "wait_load P st = (\<Sum>n \<in> fst ` set st. card (fst ` set (runs_of st n)) * Suc (P n))"

definition stack_load :: "(string \<Rightarrow> nat) \<Rightarrow> IExecuteData list \<Rightarrow> nat" where
  "stack_load P xs = sum_list (map (\<lambda>x. P (node_name (ex_node x))) xs)"

definition load :: "(string \<Rightarrow> nat) \<Rightarrow> RunExecutionData \<Rightarrow> nat" where
  "load P s = stack_load P (rx_stack s) + wait_load P (rx_waiting s)"

lemma stack_load_simps [simp]:
  "stack_load P [] = 0"
  "stack_load P (x # xs) = P (node_name (ex_node x)) + stack_load P xs"
  "stack_load P (xs @ ys) = stack_load P xs + stack_load P ys"
  by (simp_all add: stack_load_def)

lemma runs_of_absent: "n \<notin> fst ` set st \<Longrightarrow> runs_of st n = []"
  by (simp add: runs_of_def map_of_eq_None_iff [THEN iffD2])

lemma keys_obj_set: "fst ` set (obj_set k v xs) = insert k (fst ` set xs)"
  by (metis dom_map_of_conv_image_fst dom_fun_upd obj_set_lookup option.discI)

lemma keys_set_delete: "fst ` set (AList.delete k xs) = fst ` set xs - {k}"
  by (induction xs) auto

lemma wait_load_over:
  assumes "finite K" and "fst ` set st \<subseteq> K"
  shows "wait_load P st = (\<Sum>n \<in> K. card (fst ` set (runs_of st n)) * Suc (P n))"
  unfolding wait_load_def by (rule sum.mono_neutral_left [OF assms]) (simp add: runs_of_absent)

lemma wait_load_split:
  "wait_load P st = (\<Sum>m \<in> fst ` set st - {n}. card (fst ` set (runs_of st m)) * Suc (P m))
    + card (fst ` set (runs_of st n)) * Suc (P n)"
proof -
  have "wait_load P st = (\<Sum>m \<in> insert n (fst ` set st). card (fst ` set (runs_of st m)) * Suc (P m))"
    by (rule wait_load_over) auto
  then show ?thesis by (simp add: sum.insert_remove)
qed

lemma wait_load_obj_set:
  "wait_load P (obj_set n runs st) + card (fst ` set (runs_of st n)) * Suc (P n)
    = wait_load P st + card (fst ` set runs) * Suc (P n)"
proof -
  have "(\<Sum>m \<in> fst ` set st - {n}. card (fst ` set (runs_of (obj_set n runs st) m)) * Suc (P m))
      = (\<Sum>m \<in> fst ` set st - {n}. card (fst ` set (runs_of st m)) * Suc (P m))"
    by (rule sum.cong) auto
  then show ?thesis
    using wait_load_split [of P "obj_set n runs st" n] wait_load_split [of P st n] by (simp add: keys_obj_set)
qed

lemma wait_load_put_entry:
  "wait_load P (put_entry n r e st) = wait_load P st + (if r \<in> fst ` set (runs_of st n) then 0 else Suc (P n))"
proof -
  have "wait_load P (put_entry n r e st) + card (fst ` set (runs_of st n)) * Suc (P n)
      = wait_load P st + card (insert r (fst ` set (runs_of st n))) * Suc (P n)"
    using wait_load_obj_set [of P n "idx_set r e (runs_of st n)" st] by (simp add: put_entry_def idx_set_keys)
  then show ?thesis by (cases "r \<in> fst ` set (runs_of st n)") (simp_all add: insert_absorb)
qed

lemma wait_load_set_main:
  "wait_load P (set_main n r main st) = wait_load P st + (if r \<in> fst ` set (runs_of st n) then 0 else Suc (P n))"
  by (simp add: set_main_def wait_load_put_entry)

lemma entry_of_key: "entry_of st n r \<noteq> None \<longleftrightarrow> r \<in> fst ` set (runs_of st n)"
  by (simp add: entry_of_def map_of_eq_None_iff)

lemma main_of_key: "main_of st n r = Some main \<Longrightarrow> r \<in> fst ` set (runs_of st n)"
  using entry_of_key [of st n r] by (auto simp: main_of_def bind_eq_Some_conv)

lemma wait_load_drop_entry:
  assumes "r \<in> fst ` set (runs_of st n)"
  shows "wait_load P (drop_entry n r st) + Suc (P n) = wait_load P st"
proof -
  have "fst ` set (AList.delete r (runs_of st n)) = fst ` set (runs_of st n) - {r}"
    by (rule keys_set_delete)
  moreover have "card (fst ` set (runs_of st n)) = Suc (card (fst ` set (runs_of st n) - {r}))"
    using assms by (intro card.remove) simp_all
  ultimately show ?thesis
    using wait_load_obj_set [of P n "AList.delete r (runs_of st n)" st] by (simp add: drop_entry_def)
qed

lemma wait_load_delete: "runs_of st n = [] \<Longrightarrow> wait_load P (AList.delete n st) = wait_load P st"
proof -
  assume empty: "runs_of st n = []"
  have "wait_load P (AList.delete n st) = (\<Sum>m \<in> fst ` set st. card (fst ` set (runs_of (AList.delete n st) m)) * Suc (P m))"
    by (rule wait_load_over) (auto simp: keys_set_delete)
  also have "\<dots> = wait_load P st" unfolding wait_load_def using empty by (intro sum.cong) auto
  finally show ?thesis .
qed

lemma remove_waiting_load:
  assumes "r \<in> fst ` set (runs_of (rx_waiting s) n)"
  shows "wait_load P (rx_waiting (remove_waiting n r s)) + Suc (P n) = wait_load P (rx_waiting s)"
    and "rx_stack (remove_waiting n r s) = rx_stack s"
  using wait_load_drop_entry [OF assms, of P] by (simp_all add: remove_waiting_def drop_if_empty_def wait_load_delete)

section \<open>Adding a node\<close>

text \<open>Every entry of the stack has main data; a complete weight bounds what a node can add.\<close>

definition with_main :: "RunExecutionData \<Rightarrow> bool" where
  "with_main s \<longleftrightarrow> (\<forall>x \<in> set (rx_stack s). map_of (ex_data x) MainType \<noteq> None)"

lemma load_enqueue [simp]: "load P (enqueue_data w x s) = load P s + P (node_name (ex_node x))"
  by (simp add: load_def enqueue_data_def)

lemma with_main_enqueue [simp]:
  "with_main (enqueue_data w x s) \<longleftrightarrow> map_of (ex_data x) MainType \<noteq> None \<and> with_main s"
  by (auto simp: with_main_def enqueue_data_def)

lemma open_waiting_load [simp]:
  "load P (open_waiting n s) = load P s" "rx_stack (open_waiting n s) = rx_stack s"
proof -
  have "wait_load P (obj_set n [] (rx_waiting s)) = wait_load P (rx_waiting s)" if "map_of (rx_waiting s) n = None"
    using wait_load_obj_set [of P n "[]" "rx_waiting s"] that by (simp add: runs_of_none)
  then show "load P (open_waiting n s) = load P s" "rx_stack (open_waiting n s) = rx_stack s"
    by (simp_all add: open_waiting_def load_def)
qed

lemma run_missing_input_key: "run_missing_input i runs = Inr (Some r) \<Longrightarrow> r \<in> fst ` set runs"
  by (induction i runs rule: run_missing_input.induct) (auto split: option.splits if_splits)

lemma select_run_load:
  assumes "select_run k n i s = Inr (r, s')"
  shows "load P s' \<le> load P s + Suc (P n)" and "rx_stack s' = rx_stack s"
proof -
  let ?o = "open_waiting n s"
  obtain found where "run_missing_input i (runs_of (rx_waiting ?o) n) = Inr found"
    using assms by (cases "run_missing_input i (runs_of (rx_waiting ?o) n)") (simp_all add: select_run_def Let_def)
  with assms have "s' = ?o \<or> s' = prepareWaitingToExecution n k r ?o"
    by (cases found) (auto simp: select_run_def Let_def)
  then show "load P s' \<le> load P s + Suc (P n)" and "rx_stack s' = rx_stack s"
    using open_waiting_load(1) [of P n s]
    by (auto simp: prepareWaitingToExecution_def load_def wait_load_put_entry simp del: open_waiting_load(1))
qed

lemma runs_of_set_main_key [simp]: "r \<in> fst ` set (runs_of (set_main n r main st) n)"
  by (simp add: set_main_def idx_set_keys)

lemma set_input_load:
  assumes "set_input n r i d src s = Inr s'"
  shows "load P s' = load P s" and "rx_stack s' = rx_stack s" and "r \<in> fst ` set (runs_of (rx_waiting s') n)"
proof -
  obtain main sources where "main_of (rx_waiting s) n r = Some main" and
    s': "s' = s\<lparr>rx_waiting := set_main n r (arr_set None main i d) (rx_waiting s),
        rx_waitingSource := set_main n r (arr_set None sources i src) (rx_waitingSource s)\<rparr>"
    using assms by (auto simp: set_input_def split: option.splits)
  moreover from this(1) have "r \<in> fst ` set (runs_of (rx_waiting s) n)" by (rule main_of_key)
  ultimately show "load P s' = load P s" and "rx_stack s' = rx_stack s" and "r \<in> fst ` set (runs_of (rx_waiting s') n)"
    by (simp_all add: load_def wait_load_set_main)
qed

lemma release_run_load:
  assumes "release_run w n r s = Inr s'" and "all_data_found n r s" and "wf_workflow w"
  shows "load P s' \<le> load P s" and "with_main s \<Longrightarrow> with_main s'"
proof -
  obtain node entry where node: "getNode w n = Some node" and entry: "entry_of (rx_waiting s) n r = Some entry"
    and s': "s' = remove_waiting n r (enqueue_data w \<lparr>ex_node = node, ex_data = entry,
      ex_source = entry_of (rx_waitingSource s) n r, ex_metadata = None\<rparr> s)" (is "_ = remove_waiting n r ?s")
    using assms(1) by (auto simp: release_run_def split: option.splits)
  have w: "rx_waiting ?s = rx_waiting s" by (simp add: enqueue_data_def)
  have key: "r \<in> fst ` set (runs_of (rx_waiting ?s) n)" using entry entry_of_key [of "rx_waiting s" n r] w by simp
  note removed = remove_waiting_load [OF key]
  have "load P ?s = load P s + P n" using getNode_name [OF assms(3) node] by simp
  with removed(1) [of P] removed(2) show "load P s' \<le> load P s" by (simp add: s' load_def)
  have "map_of entry MainType \<noteq> None" using assms(2) entry by (auto simp: all_data_found_def main_of_def split: option.splits)
  then show "with_main s'" if "with_main s"
    using removed(2) that with_main_enqueue [of w "\<lparr>ex_node = node, ex_data = entry,
      ex_source = entry_of (rx_waitingSource s) n r, ex_metadata = None\<rparr>" s] by (simp add: s' with_main_def)
qed

lemma keep_waiting_load:
  assumes "keep_waiting w inputs was c o' p out ri r s = Inr s'" and "is_v1 w"
    and "r \<in> fst ` set (runs_of (rx_waiting s) (conn_node c))"
  shows "load P s' = load P s" and "rx_stack s' = rx_stack s"
proof -
  obtain s1 where s1: "(if was then Inr s else force_inputs w inputs p o' out ri s) = Inr s1"
    using assms(1) by (auto simp: keep_waiting_def bind_res_Inr_iff)
  then have "s1 = s" using force_inputs_stack(2) [OF _ assms(2)] by (cases was) auto
  with assms(1) s1 obtain main sources d where
    s': "s' = (let s2 = prepareWaitingToExecution (conn_node c) (length inputs) r s
      in s2\<lparr>rx_waiting := put_entry (conn_node c) r [(MainType, d)] (rx_waiting s2),
           rx_waitingSource := set_main (conn_node c) r sources (rx_waitingSource s2)\<rparr>)"
    by (auto simp: keep_waiting_def Let_def split: option.splits)
  then show "load P s' = load P s" and "rx_stack s' = rx_stack s"
    using assms(3) by (simp_all add: Let_def prepareWaitingToExecution_def load_def wait_load_put_entry idx_set_keys)
qed

lemma addNode_load:
  assumes "addNodeToBeExecuted w c o' p out ri s = Inr s'" and "is_v1 w" and "wf_workflow w"
  shows "load P s' \<le> load P s + Suc (P (conn_node c))" and "with_main s \<Longrightarrow> with_main s'"
proof -
  let ?n = "conn_node c"
  obtain inputs where inputs: "incoming_main w ?n = Inr inputs"
    using assms(1) by (auto simp: addNodeToBeExecuted_def bind_res_Inr_iff)
  have "load P s' \<le> load P s + Suc (P ?n) \<and> (with_main s \<longrightarrow> with_main s')"
  proof (cases "1 < length inputs")
    case True
    with assms(1) inputs have "join_inputs w inputs c o' p out ri s = Inr s'" by (simp add: addNodeToBeExecuted_def)
    then obtain r s1 s2 was where sel: "select_run (length inputs) ?n (conn_index c) s = Inr (r, s1)"
      and set: "set_input ?n r (conn_index c) (output_data out o') (input_source out p o' ri) s1 = Inr s2"
      and rest: "(if all_data_found ?n r s2 then release_run w ?n r s2 else keep_waiting w inputs was c o' p out ri r s2) = Inr s'"
      by (auto simp: join_inputs_def Let_def bind_res_Inr_iff)
    note sl = select_run_load [OF sel] and st = set_input_load [OF set]
    have s2: "load P s2 \<le> load P s + Suc (P ?n)" "with_main s \<longrightarrow> with_main s2"
      using sl(1) [of P] st(1) [of P] sl(2) st(2) by (simp_all add: with_main_def)
    show ?thesis
    proof (cases "all_data_found ?n r s2")
      case True
      with rest have "release_run w ?n r s2 = Inr s'" by simp
      from release_run_load(2) [OF this True assms(3)] release_run_load(1) [OF this True assms(3), of P] s2
      show ?thesis by auto
    next
      case False
      with rest have "keep_waiting w inputs was c o' p out ri r s2 = Inr s'" by simp
      from keep_waiting_load(2) [OF this assms(2) st(3)] keep_waiting_load(1) [OF this assms(2) st(3), of P] s2
      show ?thesis by (simp add: with_main_def)
    qed
  next
    case False
    with assms(1) inputs obtain node where "getNode w ?n = Some node" and "s' = enqueue_data w
        (single_entry node (conn_index c) (output_data out o') (parent_source p o' ri)) s"
      by (auto simp: addNodeToBeExecuted_def split: option.splits)
    with getNode_name [OF assms(3)] show ?thesis by (simp add: single_entry_def)
  qed
  then show "load P s' \<le> load P s + Suc (P ?n)" and "with_main s \<Longrightarrow> with_main s'" by blast+
qed

section \<open>The nodes behind a node\<close>

definition out_load :: "(string \<Rightarrow> nat) \<Rightarrow> Workflow \<Rightarrow> string \<Rightarrow> nat" where
  "out_load P w n = sum_list (map (\<lambda>p. Suc (P (conn_node (snd p)))) (output_connections w n))"

definition to_add_load :: "(string \<Rightarrow> nat) \<Rightarrow> to_add list \<Rightarrow> nat" where
  "to_add_load P ts = sum_list (map (\<lambda>t. Suc (P (conn_node (ta_connection t)))) ts)"

text \<open>Later states of the work: not more weight than allowed, and the stack stays in shape.\<close>

definition gains :: "(string \<Rightarrow> nat) \<Rightarrow> nat \<Rightarrow> RunExecutionData \<Rightarrow> RunExecutionData \<Rightarrow> bool" where
  "gains P k s s' \<longleftrightarrow> load P s' \<le> load P s + k \<and> (with_main s \<longrightarrow> with_main s')"

lemma gains_trans: "gains P j s s1 \<Longrightarrow> gains P k s1 s2 \<Longrightarrow> gains P (j + k) s s2"
  by (auto simp: gains_def)

lemma gains_refl [simp]: "gains P k s s"
  by (simp add: gains_def)

lemma gains_mono: "gains P j s s' \<Longrightarrow> j \<le> k \<Longrightarrow> gains P k s s'"
  by (auto simp: gains_def)

lemma gains_work: "same_work s s' \<Longrightarrow> gains P 0 s s'"
  by (simp add: gains_def same_work_def load_def with_main_def)

lemma fold_add_child_load:
  assumes "fold_res (add_child w n outs ri) ts s = Inr s'" and "is_v1 w" and "wf_workflow w"
  shows "gains P (to_add_load P ts) s s'"
  using assms(1)
proof (induction ts arbitrary: s)
  case (Cons t ts)
  then obtain s1 where s1: "add_child w n outs ri t s = Inr s1" and rest: "fold_res (add_child w n outs ri) ts s1 = Inr s'"
    by (auto simp: bind_res_Inr_iff)
  have "gains P (Suc (P (conn_node (ta_connection t)))) s s1"
    using addNode_load [OF s1 [unfolded add_child_def] assms(2,3)] by (auto simp: gains_def)
  from gains_trans [OF this Cons.IH [OF rest]] show ?case by (simp add: to_add_load_def)
qed (simp add: to_add_load_def)

lemma visit_children_v1:
  assumes "fold_res (visit_child w n outs ri) ps (ts, s) = Inr (ts', s')" and "is_v1 w"
  shows "s' = s" and "to_add_load P ts' \<le> to_add_load P ts + sum_list (map (\<lambda>p. Suc (P (conn_node (snd p)))) ps)"
proof -
  have "s' = s \<and> to_add_load P ts' \<le> to_add_load P ts + sum_list (map (\<lambda>p. Suc (P (conn_node (snd p)))) ps)"
    using assms(1)
  proof (induction ps arbitrary: ts)
    case (Cons p ps)
    then obtain acc where v: "visit_child w n outs ri p (ts, s) = Inr acc"
      and rest: "fold_res (visit_child w n outs ri) ps acc = Inr (ts', s')"
      by (auto simp: bind_res_Inr_iff)
    have "acc = (ts, s) \<or> acc = (ts @ [child_of w p], s)"
      using v assms(2) by (auto simp: visit_child_def split: prod.splits if_splits)
    moreover have "to_add_load P (ts @ [child_of w p]) = to_add_load P ts + Suc (P (conn_node (snd p)))"
      by (simp add: to_add_load_def child_of_def split: prod.split)
    ultimately show ?case using Cons.IH [of ts] Cons.IH [of "ts @ [child_of w p]"] rest by auto
  qed simp
  then show "s' = s" and "to_add_load P ts' \<le> to_add_load P ts + sum_list (map (\<lambda>p. Suc (P (conn_node (snd p)))) ps)"
    by blast+
qed

lemma add_children_load:
  assumes "add_children sort_by w n outs ri s = Inr s'" and "is_v1 w" and "wf_workflow w"
    and "\<And>f xs. mset (sort_by f xs) = mset xs"
  shows "gains P (out_load P w n) s s'"
proof -
  obtain ts s1 where visit: "fold_res (visit_child w n outs ri) (output_connections w n) ([], s) = Inr (ts, s1)"
    and add: "fold_res (add_child w n outs ri) (sort_by position_order ts) s1 = Inr s'"
    using assms(1) by (auto simp: add_children_def bind_res_Inr_iff)
  have "to_add_load P ts \<le> out_load P w n" and "s1 = s"
    using visit_children_v1 [OF visit assms(2)] by (simp_all add: out_load_def to_add_load_def)
  moreover have "to_add_load P (sort_by position_order ts) = to_add_load P ts"
    unfolding to_add_load_def sum_mset_sum_list [symmetric] mset_map assms(4) ..
  ultimately show ?thesis using fold_add_child_load [OF add assms(2,3), of P] by (auto intro: gains_mono)
qed

section \<open>Releasing waiting nodes\<close>

lemma take_run_load:
  assumes "check_waiting env w names n s = Inr (TakeRun r main)" and "wf_workflow w"
  shows "gains P 0 s (take_run w n r main s)"
  using assms(1)
proof (rule check_waiting_TakeRun)
  fix node assume node: "getNode w n = Some node" and key: "r \<in> fst ` set (runs_of (rx_waiting s) n)"
  have w: "rx_waiting (s\<lparr>rx_stack := xs\<rparr>) = rx_waiting s" for xs by simp
  have nm: "node_name node = n" by (rule getNode_name [OF assms(2) node])
  note removed = remove_waiting_load [of r "s\<lparr>rx_stack := xs\<rparr>" n for xs, unfolded w, OF key]
  have "gains P 0 s (remove_waiting n r (s\<lparr>rx_stack := xs\<rparr>))"
    if "stack_load P xs \<le> stack_load P (rx_stack s) + P n" "\<forall>x \<in> set xs. x \<in> set (rx_stack s) \<or> map_of (ex_data x) MainType \<noteq> None" for xs
    using removed(1) [of P xs] removed(2) [of xs] that by (auto simp: gains_def load_def with_main_def)
  from this [of "rx_stack s @ [x]" for x] this [of "rx_stack s"] show ?thesis
    by (simp add: take_run_def node nm Let_def)
qed

lemma release_waiting_load:
  "release_waiting env w names rest s = Inr s' \<Longrightarrow> wf_workflow w \<Longrightarrow> gains P 0 s s'"
proof (induction env w names rest s rule: release_waiting.induct)
  case (2 env w names n rest s)
  show ?case
  proof (cases "check_waiting env w names n s")
    case (Inr c)
    show ?thesis
    proof (cases c)
      case PassOver
      with 2 Inr show ?thesis by simp
    next
      case (TakeRun r main)
      let ?s = "take_run w n r main s"
      have taken: "gains P 0 s ?s" using take_run_load Inr TakeRun "2.prems"(2) by blast
      show ?thesis
      proof (cases "\<exists>d \<in> set main. d \<noteq> []")
        case True
        with "2.prems" Inr TakeRun taken show ?thesis by auto
      next
        case False
        have "release_waiting env w (keys_of (rx_waiting ?s)) (keys_of (rx_waiting ?s)) ?s = Inr s'"
          using "2.prems" Inr TakeRun False by (simp add: Let_def)
        from "2.IH"(2) [OF Inr TakeRun refl False this "2.prems"(2)] have "gains P 0 ?s s'" .
        from gains_trans [OF taken this] show ?thesis by simp
      qed
    qed
  qed (use "2.prems" in simp)
qed simp

section \<open>One round makes the work less\<close>

definition next_gains :: "(string \<Rightarrow> nat) \<Rightarrow> nat \<Rightarrow> RunExecutionData \<Rightarrow> 'w round \<Rightarrow> bool" where
  "next_gains P k s r \<longleftrightarrow> (\<forall>st'. r = Next st' \<longrightarrow> gains P k s (en_data st'))"

lemma next_gains_other [simp]: "next_gains P k s (Leave st)" "next_gains P k s (Raise e st)"
  by (simp_all add: next_gains_def)

lemma hook_then_gains:
  "(\<And>world. next_gains P k s (f (st\<lparr>en_world := world\<rparr>))) \<Longrightarrow> next_gains P k s (hook_then env h st f)"
  by (auto simp: hook_then_def split: prod.split option.split)

lemma end_of_round_gains:
  assumes "gains P k s (en_data st)" and "wf_workflow w"
  shows "next_gains P k s (end_of_round env w st)"
proof -
  have "gains P k s s'" if "release_waiting env w (keys_of (rx_waiting (en_data st))) (keys_of (rx_waiting (en_data st))) (en_data st) = Inr s'" for s'
    using gains_trans [OF assms(1) release_waiting_load [OF that assms(2), of P]] by simp
  with assms(1) show ?thesis by (auto simp: end_of_round_def Let_def next_gains_def split: sum.split)
qed

lemma push_task_gains [simp]: "gains P 0 s (push_task n t s)"
  by (rule gains_work) (simp add: same_work_def)

lemma record_output_gains:
  assumes "is_v1 w" and "wf_workflow w" and "\<And>f xs. mset (sort_nodes env f xs) = mset xs"
  shows "next_gains P (out_load P w (node_name (ex_node x))) (en_data st) (record_output env w x ri task outs st)"
proof -
  let ?n = "node_name (ex_node x)" and ?task = "task\<lparr>td_data := Some (output_log (ex_node x) outs)\<rparr>"
  let ?s = "push_task ?n ?task (en_data st)"
  have pushed: "gains P (out_load P w ?n) (en_data st) ?s" by (rule gains_mono [OF push_task_gains]) simp
  have added: "gains P (out_load P w ?n) (en_data st) s'" if "add_children (sort_nodes env) w ?n outs ri ?s = Inr s'" for s'
    using gains_trans [OF push_task_gains add_children_load [OF that assms]] by simp
  show ?thesis
    using pushed added
    by (auto simp: record_output_def Let_def set_data_def next_gains_def [of _ _ _ "Next _"] assms(2)
        simp del: push_task_work split: sum.split intro!: hook_then_gains end_of_round_gains)
qed

lemma record_task_gains:
  assumes "is_v1 w" and "wf_workflow w" and "\<And>f xs. mset (sort_nodes env f xs) = mset xs"
  shows "next_gains P (out_load P w (node_name (ex_node x))) (en_data st) (record_task env w x ri task err d st)"
proof (cases "err \<noteq> None \<and> \<not> continues_on_error (ex_node x)")
  case True
  have "record_task env w x ri task err d st \<noteq> Next st'" for st'
    unfolding record_task_def Let_def if_P [OF True] by (auto simp: hook_then_def split: prod.splits option.splits)
  then show ?thesis by (simp add: next_gains_def)
next
  case False
  define st1 where "st1 = set_data (\<lambda>s. if has_key (rx_runData s) (node_name (ex_node x)) then s
      else s\<lparr>rx_runData := obj_set (node_name (ex_node x)) [] (rx_runData s)\<rparr>) st"
  have same: "gains P 0 (en_data st) (en_data st1)" by (rule gains_work) (simp add: st1_def set_data_def same_work_def)
  have out: "next_gains P (out_load P w (node_name (ex_node x))) (en_data st) (record_output env w x ri task1 outs st1)" for task1 outs
    using record_output_gains [OF assms, of P x st1 ri task1 outs] gains_trans [OF same]
    by (auto simp: next_gains_def)
  show ?thesis unfolding record_task_def Let_def if_not_P [OF False] st1_def [symmetric]
    by (auto simp: out split: node_data.split sum.split)
qed

lemma execute_node_gains:
  assumes "is_v1 w" and "wf_workflow w" and "\<And>f xs. mset (sort_nodes env f xs) = mset xs"
  shows "next_gains P (out_load P w (node_name (ex_node x))) (en_data st) (execute_node env w x ri t i st)"
proof -
  let ?a = "\<lparr>at_data = Null, at_hints = [], at_close = en_close st, at_state = en_data st, at_world = en_world st\<rparr>"
  obtain result a where tries: "all_tries env w x ri 0 None ?a = (result, a)" by (cases "all_tries env w x ri 0 None ?a")
  have same: "gains P 0 (en_data st) (at_state a)" using work.all_tries_keeps [OF tries] by (auto intro: gains_work)
  have task: "next_gains P (out_load P w (node_name (ex_node x))) (en_data st) (record_task env w x ri task err d st1)"
    if "en_data st1 = at_state a" for task err d st1
    using record_task_gains [OF assms, of P x st1 ri task err d] gains_trans [OF same] that
    by (auto simp: next_gains_def)
  show ?thesis
  proof (cases result)
    case EndBranch
    with tries gains_mono [OF same] show ?thesis by (simp add: execute_node_def next_gains_def)
  qed (use tries in \<open>simp_all add: execute_node_def Let_def task\<close>)
qed

text \<open>With the order \<open>v1\<close> a node is put off only when its entry has no main data.\<close>

lemma ensure_inputs_v1:
  "is_v1 w \<Longrightarrow> map_of d MainType \<noteq> None \<Longrightarrow> ensure_inputs w n d is = Inr b \<Longrightarrow> b"
  by (induction "is") (auto simp: forceInputNodeExecution_def bind_res_Inr_iff split: if_splits)

lemma start_node_gains:
  assumes "is_v1 w" and "wf_workflow w" and "\<And>f xs. mset (sort_nodes env f xs) = mset xs"
    and "map_of (ex_data x) MainType \<noteq> None"
  shows "next_gains P (out_load P w (node_name (ex_node x))) (en_data st) (start_node env w x i st)"
proof -
  have ready: "b" if "ensureInputData w (ex_node x) x (en_data st) = Inr (b, s')" for b s'
    using that ensure_inputs_v1 [OF assms(1,4)] by (auto simp: ensureInputData_def Let_def bind_res_Inr_iff)
  have run: "next_gains P (out_load P w (node_name (ex_node x))) (en_data st)
      (hook_then env h st (execute_node env w x ri t i))" for h ri t
    using execute_node_gains [OF assms(1-3), of P x "st\<lparr>en_world := world\<rparr>" for world] by (auto intro: hook_then_gains)
  show ?thesis
    by (auto simp: start_node_def Let_def run next_gains_def [of _ _ _ "Next _"] split: sum.split prod.split bool.split dest: ready)
qed

lemma execution_round_load:
  assumes "is_v1 w" and "wf_workflow w" and "\<And>f xs. mset (sort_nodes env f xs) = mset xs"
    and "\<And>n. out_load P w n < P n" and "with_main (en_data st)" and "execution_round env w st = Next st'"
  shows "load P (en_data st') < load P (en_data st)" and "with_main (en_data st')"
proof -
  have "load P (en_data st') < load P (en_data st) \<and> with_main (en_data st')"
  proof (cases rule: execution_round_cases [where env = env and w = w and st = st])
    case Stop
    with assms(6) show ?thesis by auto
  next
    case (Start x rest)
    let ?st = "popped env st rest" and ?n = "node_name (ex_node x)"
    have main: "map_of (ex_data x) MainType \<noteq> None" and rest: "with_main (en_data ?st)"
      using assms(5) Start(1) by (simp_all add: with_main_def popped_def)
    have "map_of (ex_data (numbered_entry x)) MainType \<noteq> None"
      using main by (auto simp: numbered_entry_def number_inputs_def map_of_eq_None_iff image_image split_beta)
    from start_node_gains [OF assms(1-3) this, of P ?st "en_index st"] Start(2) assms(6)
    have "gains P (out_load P w ?n) (en_data ?st) (en_data st')" by (simp add: next_gains_def)
    moreover have "load P (en_data st) = P ?n + load P (en_data ?st)" using Start(1) by (simp add: load_def popped_def)
    ultimately show ?thesis using rest assms(4) [of ?n] by (auto simp: gains_def)
  qed
  then show "load P (en_data st') < load P (en_data st)" and "with_main (en_data st')" by blast+
qed

lemma run_loop_ends:
  assumes "is_v1 w" and "wf_workflow w" and "\<And>f xs. mset (sort_nodes env f xs) = mset xs"
    and "\<And>n. out_load P w n < P n" and "with_main (en_data st)"
  shows "\<exists>r. run_loop env w st = Some r"
  using assms(5)
proof (induction "load P (en_data st)" arbitrary: st rule: less_induct)
  case less
  show ?case
  proof (cases "execution_round env w st")
    case (Next st')
    with execution_round_load [OF assms(1-4) less.prems Next] less.hyps show ?thesis
      by (simp add: run_loop.simps [of env w st])
  qed (simp_all add: run_loop.simps [of env w st])
qed

section \<open>Workflows without a cycle\<close>

text \<open>The weight of a node: what it can put on the stack, up to a depth.\<close>

fun weight :: "nat \<Rightarrow> Workflow \<Rightarrow> string \<Rightarrow> nat" where
  "weight 0 w n = 1"
| "weight (Suc k) w n = Suc (sum_list (map (\<lambda>p. Suc (weight k w (conn_node (snd p)))) (output_connections w n)))"

lemma sum_list_map_mono: "(\<And>x. x \<in> set xs \<Longrightarrow> f x \<le> g x) \<Longrightarrow> sum_list (map f xs) \<le> sum_list (map (g :: 'a \<Rightarrow> nat) xs)"
  by (induction xs) (auto intro: add_mono)

lemma weight_Suc: "weight k w n \<le> weight (Suc k) w n"
proof (induction k arbitrary: n)
  case (Suc k)
  have "sum_list (map (\<lambda>p. Suc (weight k w (conn_node (snd p)))) (output_connections w n))
      \<le> sum_list (map (\<lambda>p. Suc (weight (Suc k) w (conn_node (snd p)))) (output_connections w n))"
    by (rule sum_list_map_mono) (use Suc in simp)
  then show ?case by (simp only: weight.simps Suc_le_mono)
qed simp

lemma weight_mono: "i \<le> j \<Longrightarrow> weight i w n \<le> weight j w n"
  by (rule lift_Suc_mono_le [of "\<lambda>k. weight k w n"]) (rule weight_Suc)

definition main_rel_of :: "Workflow \<Rightarrow> (string \<times> string) set" where
  "main_rel_of w = conn_rel (connectionsBySourceNode w) {MainType}"

lemma finite_main_rel_of: "finite (main_rel_of w)"
proof -
  have "main_rel_of w \<subseteq> (\<lambda>(a, t, i, c). (a, conn_node c)) ` set (all_connections (connectionsBySourceNode w))"
    by (force simp: main_rel_of_def conn_rel_def)
  then show ?thesis by (rule finite_subset) simp
qed

lemma output_connection_rel:
  assumes "p \<in> set (output_connections w n)"
  shows "(n, conn_node (snd p)) \<in> main_rel_of w"
proof -
  obtain outputs where outs: "typed_inputs (connectionsBySourceNode w) n MainType = Some outputs"
    using assms by (cases "typed_inputs (connectionsBySourceNode w) n MainType") (simp_all add: output_connections_def)
  with assms obtain i l where l: "(i, l) \<in> set (enumerate 0 outputs)" and p: "fst p = i" "snd p \<in> set (conns_at l)"
    by (auto simp: output_connections_def)
  obtain byType where nm: "(n, byType) \<in> set (connectionsBySourceNode w)" and ty: "(MainType, outputs) \<in> set byType"
    using outs by (auto split: option.splits dest!: map_of_SomeD)
  have "(n, MainType, i, snd p) \<in> set (conns_of_lists n MainType outputs)"
    using l p by (auto simp: conns_of_lists_def)
  then have "(n, MainType, i, snd p) \<in> set (conns_of_node n byType)" using ty by (auto simp: conns_of_node_def)
  then have "(n, MainType, i, snd p) \<in> set (all_connections (connectionsBySourceNode w))"
    using nm by (auto simp: all_connections_def)
  then show ?thesis by (auto simp: main_rel_of_def conn_rel_def)
qed

definition reach_count :: "Workflow \<Rightarrow> string \<Rightarrow> nat" where
  "reach_count w n = card {m. (n, m) \<in> (main_rel_of w)\<^sup>+}"

lemma reach_count_less:
  assumes "acyclic (main_rel_of w)" and "(n, c) \<in> main_rel_of w"
  shows "reach_count w c < reach_count w n"
proof -
  have "{m. (c, m) \<in> (main_rel_of w)\<^sup>+} \<subseteq> {m. (n, m) \<in> (main_rel_of w)\<^sup>+}"
    using assms(2) by (auto intro: trancl_into_trancl2)
  moreover have "c \<in> {m. (n, m) \<in> (main_rel_of w)\<^sup>+}" and "c \<notin> {m. (c, m) \<in> (main_rel_of w)\<^sup>+}"
    using assms by (auto simp: acyclic_def)
  ultimately have "{m. (c, m) \<in> (main_rel_of w)\<^sup>+} \<subset> {m. (n, m) \<in> (main_rel_of w)\<^sup>+}" by blast
  moreover have "finite {m. (n, m) \<in> (main_rel_of w)\<^sup>+}"
  proof -
    have "{m. (n, m) \<in> (main_rel_of w)\<^sup>+} \<subseteq> snd ` (main_rel_of w)\<^sup>+" by force
    then show ?thesis by (rule finite_subset) (simp add: finite_main_rel_of)
  qed
  ultimately show ?thesis unfolding reach_count_def by (rule psubset_card_mono [rotated])
qed

definition node_weight :: "Workflow \<Rightarrow> string \<Rightarrow> nat" where
  "node_weight w n = weight (Suc (reach_count w n)) w n"

lemma out_load_less:
  assumes "acyclic (main_rel_of w)"
  shows "out_load (node_weight w) w n < node_weight w n"
proof -
  have "out_load (node_weight w) w n \<le> sum_list (map (\<lambda>p. Suc (weight (reach_count w n) w (conn_node (snd p)))) (output_connections w n))"
    unfolding out_load_def
  proof (rule sum_list_map_mono)
    fix p assume "p \<in> set (output_connections w n)"
    then have "Suc (reach_count w (conn_node (snd p))) \<le> reach_count w n"
      using reach_count_less [OF assms output_connection_rel] by (simp add: Suc_le_eq)
    then show "Suc (node_weight w (conn_node (snd p))) \<le> Suc (weight (reach_count w n) w (conn_node (snd p)))"
      unfolding node_weight_def Suc_le_mono by (rule weight_mono)
  qed
  then show ?thesis by (simp add: node_weight_def)
qed

text \<open>C3: With the order \<open>v1\<close> every execution of a workflow whose main connections have no cycle
  ends, whatever the nodes, the hooks and the clock do, when its stack holds main data.\<close>

theorem acyclic_execution_ends:
  assumes "is_v1 w" and "wf_workflow w" and "acyclic (main_rel_of w)" and "with_main s"
    and "\<And>f xs. mset (sort_nodes env f xs) = mset xs"
  shows "processRunExecutionData env w s executionIndex world \<noteq> Inr None"
proof -
  have ends: "run_execution env w (new_engine s' executionIndex world) \<noteq> None" if "with_main s'" for s'
  proof -
    let ?st = "new_engine s' executionIndex world"
    obtain e world' where start: "(if is_restart env then (None, en_world ?st) else run_hook env WorkflowExecuteBefore (en_world ?st)) = (e, world')"
      by fastforce
    have "\<exists>r. run_loop env w (?st\<lparr>en_world := world'\<rparr>) = Some r"
      by (rule run_loop_ends [OF assms(1,2,5), of "node_weight w"])
        (use that out_load_less [OF assms(3)] in \<open>simp_all add: new_engine_def\<close>)
    then show ?thesis unfolding run_execution_def start by (auto split: option.split prod.split)
  qed
  have "with_main s'" if "resume_waiting s = Inr s'" for s'
    using that assms(4) by (auto simp: resume_waiting_def with_main_def split: option.splits list.splits)
  with ends show ?thesis by (auto simp: processRunExecutionData_def bind_res_Inr_iff)
qed

lemma mset_js_sort_steady: "mset (sort_nodes steady_env f xs) = mset xs"
  by (simp add: steady_env_def flaky_env_def mset_js_sort)

lemma main_rel_of_example: "main_rel_of example_workflow = {(''T'', ''A''), (''A'', ''B'')}"
  by (auto simp: main_rel_of_def conn_rel_def example_simps)

lemma acyclic_execution_ends_witness:
  "\<exists>run st. processRunExecutionData steady_env example_workflow (started_at (plain_node ''T'' ''trigger'')) 0 0
    = Inr (Some (run, st))"
proof -
  let ?r = "processRunExecutionData steady_env example_workflow (started_at (plain_node ''T'' ''trigger'')) 0 0"
  have "is_v1 example_workflow" by (simp add: is_v1_def example_workflow_def new_workflow_def)
  moreover have "acyclic (main_rel_of example_workflow)"
    unfolding main_rel_of_example by (simp add: acyclic_insert rtrancl_insert) (simp add: acyclic_def)
  moreover have "with_main (started_at (plain_node ''T'' ''trigger''))"
    by (simp add: with_main_def started_at_def no_run_def)
  ultimately have "?r \<noteq> Inr None" by (intro acyclic_execution_ends wf_example_workflow mset_js_sort_steady)
  moreover have "case ?r of Inl _ \<Rightarrow> False | Inr _ \<Rightarrow> True" by code_simp
  ultimately show ?thesis by (cases ?r) auto
qed

end
