(* ===== verification/PartialRunData.thy ===== *)
theory PartialRunData
  imports StronglyConnected
begin

text \<open>
  The parts of a partial execution that look at earlier run data
  (\<open>packages/core/src/execution-engine/partial-execution-utils\<close>): reading the data of an earlier run,
  the next execution index, cleaning the run data behind the start nodes, dropping disabled nodes, and
  finding the nodes to start from. The start nodes are shown to be exactly the first stopping nodes on
  the paths that have data.
\<close>

section \<open>Data of earlier runs\<close>

definition run_data :: "IRunData \<Rightarrow> string \<Rightarrow> ITaskData list" where
  "run_data runData nodeName = (case map_of runData nodeName of None \<Rightarrow> [] | Some tasks \<Rightarrow> tasks)"

text \<open>
  \<open>runData[nodeName]?.at(runIndex)?.data?.[connectionType].at(outputIndex) ?? null\<close>. Data without
  the connection type raises a \<open>TypeError\<close>; an output that is missing or \<open>null\<close> gives \<open>null\<close>.
\<close>

definition getIncomingData ::
    "IRunData \<Rightarrow> string \<Rightarrow> int \<Rightarrow> NodeConnectionType \<Rightarrow> int \<Rightarrow> INodeExecutionData list option res" where
  "getIncomingData runData nodeName runIndex connectionType outputIndex =
     (case arr_at (run_data runData nodeName) runIndex of
        None \<Rightarrow> Inr None
      | Some taskData \<Rightarrow>
          (case td_data taskData of
             None \<Rightarrow> Inr None
           | Some byType \<Rightarrow>
               (case map_of byType connectionType of
                  None \<Rightarrow> Inl TypeError
                | Some outputs \<Rightarrow> Inr (Option.bind (arr_at outputs outputIndex) id))))"

definition getRunIndexLength :: "IRunData \<Rightarrow> string \<Rightarrow> nat" where
  "getRunIndexLength runData nodeName = length (run_data runData nodeName)"

text \<open>The loop over the runs, from the given run on: the first run with items.\<close>

function any_run_loop ::
    "IRunData \<Rightarrow> string \<Rightarrow> NodeConnectionType \<Rightarrow> nat \<Rightarrow> nat \<Rightarrow> (INodeExecutionData list \<times> nat) option res" where
  "any_run_loop runData nodeName connectionType outputIndex runIndex =
     (if runIndex < getRunIndexLength runData nodeName then
        bind_res (getIncomingData runData nodeName (int runIndex) connectionType (int outputIndex)) (\<lambda>data.
          case data of
            Some (item # items) \<Rightarrow> Inr (Some (item # items, runIndex))
          | _ \<Rightarrow> any_run_loop runData nodeName connectionType outputIndex (runIndex + 1))
      else Inr None)"
  by pat_completeness auto
termination
  by (relation "measure (\<lambda>(runData, nodeName, _, _, runIndex). getRunIndexLength runData nodeName - runIndex)") auto

declare any_run_loop.simps [simp del]

definition getIncomingDataFromAnyRun ::
    "IRunData \<Rightarrow> string \<Rightarrow> NodeConnectionType \<Rightarrow> nat \<Rightarrow> (INodeExecutionData list \<times> nat) option res" where
  "getIncomingDataFromAnyRun runData nodeName connectionType outputIndex =
     any_run_loop runData nodeName connectionType outputIndex 0"

text \<open>The first run with items is found, and none if there is none.\<close>

lemma any_run_loop_spec:
  "(case any_run_loop rd nm t out i of
     Inl e \<Rightarrow> True
   | Inr (Some (items, j)) \<Rightarrow> i \<le> j \<and> j < getRunIndexLength rd nm \<and> items \<noteq> []
       \<and> getIncomingData rd nm (int j) t (int out) = Inr (Some items)
       \<and> (\<forall>k. i \<le> k \<and> k < j \<longrightarrow> getIncomingData rd nm (int k) t (int out) \<in> {Inr None, Inr (Some [])})
   | Inr None \<Rightarrow> \<forall>k. i \<le> k \<and> k < getRunIndexLength rd nm \<longrightarrow>
       getIncomingData rd nm (int k) t (int out) \<in> {Inr None, Inr (Some [])})"
proof (induction rd nm t out i rule: any_run_loop.induct)
  case (1 rd nm t out i)
  show ?case
  proof (cases "i < getRunIndexLength rd nm")
    case True
    show ?thesis
    proof (cases "getIncomingData rd nm (int i) t (int out)")
      case (Inl e)
      with True show ?thesis by (simp add: any_run_loop.simps [of rd nm t out i])
    next
      case (Inr d)
      show ?thesis
      proof (cases "d = None \<or> d = Some []")
        case False
        then obtain x xs where "d = Some (x # xs)" by (metis list.exhaust option.exhaust)
        with True Inr show ?thesis by (auto simp: any_run_loop.simps [of rd nm t out i])
      next
        case empty: True
        then have rec: "any_run_loop rd nm t out i = any_run_loop rd nm t out (i + 1)"
          using True Inr by (auto simp: any_run_loop.simps [of rd nm t out i])
        have here: "getIncomingData rd nm (int i) t (int out) \<in> {Inr None, Inr (Some [])}" using empty Inr by auto
        have all: "(\<forall>k. i \<le> k \<and> k < n \<longrightarrow> getIncomingData rd nm (int k) t (int out) \<in> {Inr None, Inr (Some [])})"
          if "\<forall>k. i + 1 \<le> k \<and> k < n \<longrightarrow> getIncomingData rd nm (int k) t (int out) \<in> {Inr None, Inr (Some [])}" for n
          using that here by (metis Suc_eq_plus1 le_antisym not_less_eq_eq)
        have "case any_run_loop rd nm t out (i + 1) of
           Inl e \<Rightarrow> True
         | Inr (Some (items, j)) \<Rightarrow> i + 1 \<le> j \<and> j < getRunIndexLength rd nm \<and> items \<noteq> []
             \<and> getIncomingData rd nm (int j) t (int out) = Inr (Some items)
             \<and> (\<forall>k. i + 1 \<le> k \<and> k < j \<longrightarrow> getIncomingData rd nm (int k) t (int out) \<in> {Inr None, Inr (Some [])})
         | Inr None \<Rightarrow> \<forall>k. i + 1 \<le> k \<and> k < getRunIndexLength rd nm \<longrightarrow>
             getIncomingData rd nm (int k) t (int out) \<in> {Inr None, Inr (Some [])}"
          using "1.IH" [OF True Inr] empty by auto
        then show ?thesis
          unfolding rec using all by (cases "any_run_loop rd nm t out (i + 1)") (auto split: option.splits)
      qed
    qed
  qed (auto simp: any_run_loop.simps [of rd nm t out i])
qed

section \<open>The next execution index\<close>

definition execution_indices :: "IRunData \<Rightarrow> nat list" where
  "execution_indices runData = List.map_filter td_executionIndex (concat (values_of runData))"

definition getNextExecutionIndex :: "IRunData \<Rightarrow> nat" where
  "getNextExecutionIndex runData =
     (if runData = [] then 0
      else if execution_indices runData = [] then 0
      else Max (set (execution_indices runData)) + 1)"

lemma getNextExecutionIndex_fresh:
  "(nm, tasks) \<in> set runData \<Longrightarrow> task \<in> set tasks \<Longrightarrow> td_executionIndex task = Some i \<Longrightarrow>
     i < getNextExecutionIndex runData"
proof -
  assume "(nm, tasks) \<in> set runData" "task \<in> set tasks" "td_executionIndex task = Some i"
  then have "i \<in> set (execution_indices runData)"
    by (force simp: execution_indices_def List.map_filter_def)
  moreover from this have "runData \<noteq> []" by (auto simp: execution_indices_def List.map_filter_def)
  moreover have "execution_indices runData \<noteq> []" using calculation(1) by auto
  ultimately show ?thesis by (simp add: getNextExecutionIndex_def less_Suc_eq_le)
qed

section \<open>Cleaning the run data\<close>

text \<open>
  Behind one node: its own data, the data of its children, and the data of the nodes that lead to
  one of these over connections of other types than main.
\<close>

definition clean_sub_nodes :: "GraphConnection list \<Rightarrow> IRunData \<Rightarrow> IRunData" where
  "clean_sub_nodes connections runData =
     fold (\<lambda>c rd. if gc_type c = MainType then rd else AList.delete (node_name (gc_from c)) rd)
       connections runData"

definition clean_one :: "DirectedGraph \<Rightarrow> INode \<Rightarrow> IRunData \<Rightarrow> IRunData res" where
  "clean_one graph node newRunData =
     bind_res (getParentConnections graph node) (\<lambda>subNodeConnections.
       Inr (clean_sub_nodes subNodeConnections (AList.delete (node_name node) newRunData)))"

definition clean_behind :: "DirectedGraph \<Rightarrow> INode \<Rightarrow> IRunData \<Rightarrow> IRunData res" where
  "clean_behind graph nodeToClean newRunData =
     bind_res (getChildren graph nodeToClean) (\<lambda>children.
       fold_res (clean_one graph) (nodeToClean # children)
         (AList.delete (node_name nodeToClean) newRunData))"

definition cleanRunData :: "IRunData \<Rightarrow> DirectedGraph \<Rightarrow> INode list \<Rightarrow> IRunData res" where
  "cleanRunData runData graph nodesToClean =
     bind_res (fold_res (clean_behind graph) nodesToClean runData) (\<lambda>newRunData.
       Inr (filter (\<lambda>(nodeName, _). hasNode graph nodeName) newRunData))"

text \<open>The names whose data goes: of the nodes behind, and of what leads to them beside main.\<close>

definition cleaned_by :: "DirectedGraph \<Rightarrow> INode \<Rightarrow> string set" where
  "cleaned_by g m = insert (node_name m)
     {node_name (gc_from c) | c. c \<in> edges g \<and> gc_type c \<noteq> MainType \<and> (gc_to c, m) \<in> (dg_rel g)\<^sup>*}"

definition cleaned_behind :: "DirectedGraph \<Rightarrow> INode \<Rightarrow> string set" where
  "cleaned_behind g n = (\<Union>m \<in> {m. (n, m) \<in> (dg_rel g)\<^sup>*}. cleaned_by g m)"

definition keep_names :: "string set \<Rightarrow> IRunData \<Rightarrow> IRunData" where
  "keep_names S rd = filter (\<lambda>p. fst p \<in> S) rd"

lemma keep_names_UNIV [simp]: "keep_names UNIV rd = rd"
  by (simp add: keep_names_def)

lemma map_of_keep_names: "map_of (keep_names S rd) k = (if k \<in> S then map_of rd k else None)"
  by (induction rd) (auto simp: keep_names_def)

lemma delete_keep: "AList.delete k rd = keep_names (- {k}) rd"
  by (auto simp: AList.delete_eq keep_names_def intro!: filter_cong)

lemma keep_keep: "keep_names S (keep_names T rd) = keep_names (S \<inter> T) rd"
  by (auto simp: keep_names_def intro!: filter_cong)

lemma clean_sub_nodes_keep:
  "clean_sub_nodes cs rd = keep_names (- {node_name (gc_from c) | c. c \<in> set cs \<and> gc_type c \<noteq> MainType}) rd"
proof (induction cs arbitrary: rd)
  case (Cons c cs)
  have "clean_sub_nodes (c # cs) rd
      = clean_sub_nodes cs (if gc_type c = MainType then rd else AList.delete (node_name (gc_from c)) rd)"
    by (simp add: clean_sub_nodes_def)
  then show ?case
    unfolding Cons.IH delete_keep by (auto simp: keep_keep intro!: arg_cong2 [of _ _ _ _ keep_names])
qed (simp add: clean_sub_nodes_def)

lemma clean_one_keep:
  assumes "wf_graph g" and "node_in g m"
  shows "clean_one g m rd = Inr (keep_names (- cleaned_by g m) rd)"
proof -
  from getParentConnections_spec [OF assms] obtain ks where ks: "getParentConnections g m = Inr ks"
    "set ks = {c \<in> edges g. (gc_to c, m) \<in> (dg_rel g)\<^sup>*}" by blast
  have "clean_one g m rd = Inr (clean_sub_nodes ks (AList.delete (node_name m) rd))"
    by (simp add: clean_one_def ks(1))
  also have "clean_sub_nodes ks (AList.delete (node_name m) rd) = keep_names (- cleaned_by g m) rd"
    unfolding clean_sub_nodes_keep delete_keep keep_keep ks(2) cleaned_by_def
    by (rule arg_cong2 [of _ _ _ _ keep_names]) auto
  finally show ?thesis .
qed

lemma clean_all_keep:
  "wf_graph g \<Longrightarrow> \<forall>m \<in> set ms. node_in g m \<Longrightarrow>
     fold_res (clean_one g) ms rd = Inr (keep_names (- (\<Union>m \<in> set ms. cleaned_by g m)) rd)"
proof (induction ms arbitrary: rd)
  case (Cons m ms)
  then show ?case by (simp add: clean_one_keep keep_keep Compl_Un Int_commute)
qed simp

lemma clean_behind_keep:
  assumes "wf_graph g" and "node_in g n"
  shows "clean_behind g n rd = Inr (keep_names (- cleaned_behind g n) rd)"
proof -
  from getChildren_spec [OF assms] obtain ch where ch: "getChildren g n = Inr ch"
    "set ch = {m. (n, m) \<in> (dg_rel g)\<^sup>+}" by blast
  have nodes: "set (n # ch) = {m. (n, m) \<in> (dg_rel g)\<^sup>*}" using ch(2) by (auto simp: rtrancl_eq_or_trancl)
  have "node_in g m" if "m \<in> set (n # ch)" for m
    using that assms dg_rel_node_in [OF assms(1)] unfolding nodes
    by (auto elim: rtranclE)
  then have "clean_behind g n rd
      = Inr (keep_names (- (\<Union>m \<in> set (n # ch). cleaned_by g m)) (AList.delete (node_name n) rd))"
    using clean_all_keep [OF assms(1), of "n # ch"] by (simp add: clean_behind_def ch(1))
  also have "keep_names (- (\<Union>m \<in> set (n # ch). cleaned_by g m)) (AList.delete (node_name n) rd)
      = keep_names (- cleaned_behind g n) rd"
    unfolding delete_keep keep_keep cleaned_behind_def nodes
    by (rule arg_cong2 [of _ _ _ _ keep_names]) (auto simp: cleaned_by_def)
  finally show ?thesis .
qed

lemma cleanRunData_keep:
  assumes "wf_graph g" and "\<forall>n \<in> set ns. node_in g n"
  shows "cleanRunData rd g ns
    = Inr (keep_names ({k. hasNode g k} - (\<Union>n \<in> set ns. cleaned_behind g n)) rd)"
proof -
  have "fold_res (clean_behind g) ns rd = Inr (keep_names (- (\<Union>n \<in> set ns. cleaned_behind g n)) rd)" for rd
    using assms(2)
    by (induction ns arbitrary: rd) (simp_all add: clean_behind_keep [OF assms(1)] keep_keep Compl_Un Int_commute)
  moreover have "filter (\<lambda>(k, _). hasNode g k) rd = keep_names {k. hasNode g k} rd" for rd :: IRunData
    by (auto simp: keep_names_def intro!: filter_cong)
  ultimately show ?thesis by (simp add: cleanRunData_def keep_keep Diff_eq)
qed

section \<open>The start nodes\<close>

definition isDirty :: "INode \<Rightarrow> IRunData \<Rightarrow> IPinData \<Rightarrow> bool" where
  "isDirty node runData pinData \<longleftrightarrow>
     (if map_of pinData (node_name node) \<noteq> None then False
      else map_of runData (node_name node) = None)"

text \<open>A loop node whose done output has no items in its last run.\<close>

definition unfinished_loop :: "IRunData \<Rightarrow> INode \<Rightarrow> bool res" where
  "unfinished_loop runData current =
     (if node_type current = ''n8n-nodes-base.splitInBatches'' then
        bind_res (getIncomingData runData (node_name current) (-1) MainType 0) (\<lambda>nodeRunData.
          Inr (nodeRunData = None \<or> nodeRunData = Some []))
      else Inr False)"

text \<open>
  The search for the start nodes. The set of start nodes is shared by all calls, the set of seen
  nodes is copied for each of them.
\<close>

function (sequential)
  findStartNodesRecursive ::
    "DirectedGraph \<Rightarrow> INode \<Rightarrow> INode \<Rightarrow> IRunData \<Rightarrow> IPinData \<Rightarrow> INode list \<Rightarrow> INode list \<Rightarrow> INode list res"
and
  start_nodes_loop ::
    "DirectedGraph \<Rightarrow> GraphConnection list \<Rightarrow> INode \<Rightarrow> IRunData \<Rightarrow> IPinData \<Rightarrow> INode list \<Rightarrow> INode list \<Rightarrow> INode list res"
where
  "findStartNodesRecursive graph cur destination runData pinData startNodes seen =
     (if isDirty cur runData pinData then Inr (set_add cur startNodes)
      else if cur = destination then Inr (set_add cur startNodes)
      else bind_res (unfinished_loop runData cur) (\<lambda>unfinished.
        if unfinished then Inr (set_add cur startNodes)
        else if cur \<in> set seen then Inr startNodes
        else bind_res (getDirectChildConnections graph cur) (\<lambda>outGoingConnections.
          start_nodes_loop graph outGoingConnections destination runData pinData startNodes (seen @ [cur]))))"
| "start_nodes_loop graph [] destination runData pinData startNodes seen = Inr startNodes"
| "start_nodes_loop graph (c # rest) destination runData pinData startNodes seen =
     bind_res (getIncomingDataFromAnyRun runData (node_name (gc_from c)) (gc_type c) (gc_outputIndex c)) (\<lambda>nodeRunData.
       if (case nodeRunData of None \<Rightarrow> True | Some (data, _) \<Rightarrow> data = [])
          \<and> map_of pinData (node_name (gc_from c)) = None
       then start_nodes_loop graph rest destination runData pinData startNodes seen
       else bind_res (findStartNodesRecursive graph (gc_to c) destination runData pinData startNodes seen) (\<lambda>startNodes'.
         start_nodes_loop graph rest destination runData pinData startNodes' seen))"
  by pat_completeness auto
termination
proof (relation "inv_image search_order
    (\<lambda>x. case x of
       Inl (g, cur, dest, rd, pin, starts, seen) \<Rightarrow> (remaining (values_of (dg_nodes g)) seen, 0)
     | Inr (g, cs, dest, rd, pin, starts, seen) \<Rightarrow> (remaining (values_of (dg_nodes g)) seen, Suc (length cs)))", goal_cases)
  case (2 g cur dest rd pin starts seen u cs)
  then have "cur \<in> set (values_of (dg_nodes g))"
    by (force simp: getDirectChildConnections_def node_in_def split: if_splits dest: map_of_SomeD)
  with 2 show ?case by (auto intro!: search_orderI(1) remaining_less)
qed (auto intro: search_orderI wf_search_order)

definition findStartNodes :: "DirectedGraph \<Rightarrow> INode \<Rightarrow> INode \<Rightarrow> IPinData \<Rightarrow> IRunData \<Rightarrow> INode list res" where
  "findStartNodes graph trigger destination pinData runData =
     findStartNodesRecursive graph trigger destination runData pinData [] []"

text \<open>A node where the search stops, a connection it follows, and run data it can read.\<close>

definition stops :: "INode \<Rightarrow> IRunData \<Rightarrow> IPinData \<Rightarrow> INode \<Rightarrow> bool" where
  "stops dest rd pin n \<longleftrightarrow> isDirty n rd pin \<or> n = dest \<or> unfinished_loop rd n = Inr True"

definition followed :: "IRunData \<Rightarrow> IPinData \<Rightarrow> GraphConnection \<Rightarrow> bool" where
  "followed rd pin c \<longleftrightarrow> map_of pin (node_name (gc_from c)) \<noteq> None
     \<or> (\<exists>x xs i. getIncomingDataFromAnyRun rd (node_name (gc_from c)) (gc_type c) (gc_outputIndex c)
            = Inr (Some (x # xs, i)))"

definition readable :: "DirectedGraph \<Rightarrow> IRunData \<Rightarrow> bool" where
  "readable g rd \<longleftrightarrow>
     (\<forall>c \<in> edges g. \<exists>d. getIncomingDataFromAnyRun rd (node_name (gc_from c)) (gc_type c) (gc_outputIndex c) = Inr d)
   \<and> (\<forall>n. node_in g n \<longrightarrow> (\<exists>u. unfinished_loop rd n = Inr u))"

definition follow_rel :: "DirectedGraph \<Rightarrow> INode \<Rightarrow> IRunData \<Rightarrow> IPinData \<Rightarrow> (INode \<times> INode) set" where
  "follow_rel g dest rd pin = {(gc_from c, gc_to c) | c. c \<in> edges g \<and> \<not> stops dest rd pin (gc_from c) \<and> followed rd pin c}"

text \<open>The start nodes found from a node, and from the connections of one, when \<open>S\<close> has been seen.\<close>

definition starts_from :: "DirectedGraph \<Rightarrow> INode \<Rightarrow> IRunData \<Rightarrow> IPinData \<Rightarrow> INode set \<Rightarrow> INode \<Rightarrow> INode set" where
  "starts_from g dest rd pin S n = {m. stops dest rd pin m
     \<and> (m = n \<or> n \<notin> S \<and> (n, m) \<in> (avoiding (follow_rel g dest rd pin) (insert n S))\<^sup>+)}"

lemma starts_from_stop:
  assumes "stops dest rd pin n"
  shows "starts_from g dest rd pin S n = {n}"
proof -
  have "(n, b) \<notin> follow_rel g dest rd pin" for b using assms by (auto simp: follow_rel_def)
  then have "(n, m) \<notin> (avoiding (follow_rel g dest rd pin) (insert n S))\<^sup>+" for m
    by (subst avoiding_trancl_step) simp
  with assms show ?thesis by (auto simp: starts_from_def)
qed

lemma starts_from_step:
  assumes "\<not> stops dest rd pin n" and "n \<notin> S" and "\<forall>x \<in> S. \<not> stops dest rd pin x"
  shows "starts_from g dest rd pin S n
    = (\<Union>c \<in> {c \<in> edges g. gc_from c = n \<and> followed rd pin c}. starts_from g dest rd pin (insert n S) (gc_to c))"
proof -
  let ?F = "follow_rel g dest rd pin"
  have step: "(n, b) \<in> ?F \<longleftrightarrow> (\<exists>c \<in> {c \<in> edges g. gc_from c = n \<and> followed rd pin c}. gc_to c = b)" for b
    using assms(1) unfolding follow_rel_def by blast
  have "m \<in> starts_from g dest rd pin S n \<longleftrightarrow> stops dest rd pin m \<and> (n, m) \<in> (avoiding ?F (insert n S))\<^sup>+" for m
    using assms(1,2) by (auto simp: starts_from_def)
  also have "\<dots> m \<longleftrightarrow> stops dest rd pin m \<and> (\<exists>b. (n, b) \<in> ?F \<and> b \<notin> insert n S
      \<and> (m = b \<or> (b, m) \<in> (avoiding ?F (insert b (insert n S)))\<^sup>+))" for m
    by (subst avoiding_trancl_step) simp
  also have "\<dots> m \<longleftrightarrow> (\<exists>b. (n, b) \<in> ?F \<and> m \<in> starts_from g dest rd pin (insert n S) b)" for m
    using assms(1,3) unfolding starts_from_def by blast
  finally show ?thesis unfolding step by blast
qed

lemma findStartNodesRecursive_spec:
  "wf_graph g \<Longrightarrow> readable g rd \<Longrightarrow> node_in g cur \<Longrightarrow> \<forall>x \<in> set seen. \<not> stops dest rd pin x \<Longrightarrow>
     \<exists>S'. findStartNodesRecursive g cur dest rd pin S seen = Inr S' \<and> (distinct S \<longrightarrow> distinct S')
       \<and> set S' = set S \<union> starts_from g dest rd pin (set seen) cur"
  "wf_graph g \<Longrightarrow> readable g rd \<Longrightarrow> set cs \<subseteq> edges g \<Longrightarrow> \<forall>x \<in> set seen. \<not> stops dest rd pin x \<Longrightarrow>
     \<exists>S'. start_nodes_loop g cs dest rd pin S seen = Inr S' \<and> (distinct S \<longrightarrow> distinct S')
       \<and> set S' = set S \<union> (\<Union>c \<in> {c \<in> set cs. followed rd pin c}. starts_from g dest rd pin (set seen) (gc_to c))"
proof (induction g cur dest rd pin S seen and g cs dest rd pin S seen
    rule: findStartNodesRecursive_start_nodes_loop.induct)
  case (1 g cur dest rd pin S seen)
  from "1.prems" obtain u where u: "unfinished_loop rd cur = Inr u" by (auto simp: readable_def)
  show ?case
  proof (cases "stops dest rd pin cur")
    case True
    then have "findStartNodesRecursive g cur dest rd pin S seen = Inr (set_add cur S)"
      using u by (auto simp: stops_def)
    then show ?thesis unfolding starts_from_stop [OF True] by auto
  next
    case False
    then have nd: "\<not> isDirty cur rd pin" "cur \<noteq> dest" "\<not> u" using u by (auto simp: stops_def)
    show ?thesis
    proof (cases "cur \<in> set seen")
      case True
      have "starts_from g dest rd pin (set seen) cur = {}" using True False by (auto simp: starts_from_def)
      with nd u True show ?thesis by simp
    next
      case new: False
      let ?cs = "filter (\<lambda>c. gc_from c = cur) (values_of (dg_connections g))"
      have cs: "getDirectChildConnections g cur = Inr ?cs" using "1.prems"(3) by (simp add: getDirectChildConnections_def)
      have sub: "set ?cs \<subseteq> edges g" by auto
      have seen: "\<forall>x \<in> set (seen @ [cur]). \<not> stops dest rd pin x" using "1.prems"(4) False by simp
      from "1.IH" [OF nd(1,2) u nd(3) new cs "1.prems"(1,2) sub seen] obtain S' where
        S': "start_nodes_loop g ?cs dest rd pin S (seen @ [cur]) = Inr S'" "distinct S \<longrightarrow> distinct S'"
        "set S' = set S \<union> (\<Union>c \<in> {c \<in> set ?cs. followed rd pin c}. starts_from g dest rd pin (set (seen @ [cur])) (gc_to c))"
        by blast
      have "{c \<in> set ?cs. followed rd pin c} = {c \<in> edges g. gc_from c = cur \<and> followed rd pin c}" by auto
      with S'(3) starts_from_step [OF False new "1.prems"(4)]
      have "set S' = set S \<union> starts_from g dest rd pin (set seen) cur" by simp
      with S'(1,2) nd u new cs show ?thesis by simp
    qed
  qed
next
  case (2 g dest rd pin S seen)
  show ?case by simp
next
  case (3 g c cs dest rd pin S seen)
  from "3.prems" obtain d where d: "getIncomingDataFromAnyRun rd (node_name (gc_from c)) (gc_type c) (gc_outputIndex c) = Inr d"
    by (auto simp: readable_def)
  let ?skip = "(case d of None \<Rightarrow> True | Some (data, _) \<Rightarrow> data = []) \<and> map_of pin (node_name (gc_from c)) = None"
  have fol: "followed rd pin c \<longleftrightarrow> \<not> ?skip"
    unfolding followed_def d by (auto split: option.splits) (metis list.exhaust)
  have sub: "set cs \<subseteq> edges g" and c: "node_in g (gc_to c)" using "3.prems" wf_graphD(2) by auto
  show ?case
  proof (cases ?skip)
    case True
    from "3.IH"(1) [OF d True "3.prems"(1,2) sub "3.prems"(4)] True d fol show ?thesis by auto
  next
    case False
    from "3.IH"(2) [OF d False "3.prems"(1,2) c "3.prems"(4)] obtain S1 where
      S1: "findStartNodesRecursive g (gc_to c) dest rd pin S seen = Inr S1" "distinct S \<longrightarrow> distinct S1"
      "set S1 = set S \<union> starts_from g dest rd pin (set seen) (gc_to c)" by blast
    from "3.IH"(3) [OF d False S1(1) "3.prems"(1,2) sub "3.prems"(4)] obtain S' where
      S': "start_nodes_loop g cs dest rd pin S1 seen = Inr S'" "distinct S1 \<longrightarrow> distinct S'"
      "set S' = set S1 \<union> (\<Union>c \<in> {c \<in> set cs. followed rd pin c}. starts_from g dest rd pin (set seen) (gc_to c))" by blast
    have "{x \<in> set (c # cs). followed rd pin x} = insert c {x \<in> set cs. followed rd pin x}" using fol False by auto
    with S1 S' d False show ?thesis by auto
  qed
qed

lemma findStartNodes_spec:
  assumes "wf_graph g" and "readable g rd" and "node_in g trigger"
  shows "\<exists>S. findStartNodes g trigger dest pin rd = Inr S \<and> distinct S
    \<and> set S = {m. stops dest rd pin m \<and> (trigger, m) \<in> (follow_rel g dest rd pin)\<^sup>*}"
proof -
  let ?F = "follow_rel g dest rd pin"
  from findStartNodesRecursive_spec(1) [OF assms, of "[]" dest pin "[]"] obtain S where
    S: "findStartNodes g trigger dest pin rd = Inr S" "distinct S" "set S = starts_from g dest rd pin {} trigger"
    by (auto simp: findStartNodes_def)
  have "starts_from g dest rd pin {} trigger = {m. stops dest rd pin m \<and> (trigger, m) \<in> ?F\<^sup>*}"
    using avoiding_source [of trigger ?F] unfolding starts_from_def by (auto simp: rtrancl_eq_or_trancl)
  with S show ?thesis by blast
qed

section \<open>Dropping disabled nodes\<close>

definition drop_disabled :: "INode \<Rightarrow> DirectedGraph \<Rightarrow> DirectedGraph res" where
  "drop_disabled node g =
     (if disabled node = Some True
      then bind_res (removeNode_reconnect (\<lambda>c. gc_type c \<noteq> MainType) node g) (\<lambda>(g', new). Inr g')
      else Inr g)"

definition filterDisabledNodes :: "DirectedGraph \<Rightarrow> DirectedGraph res" where
  "filterDisabledNodes graph =
     bind_res (clone graph) (\<lambda>filteredGraph.
       fold_res drop_disabled (values_of (dg_nodes filteredGraph)) filteredGraph)"

definition main_rel :: "DirectedGraph \<Rightarrow> (INode \<times> INode) set" where
  "main_rel g = {(gc_from c, gc_to c) | c. c \<in> edges g \<and> gc_type c = MainType}"

text \<open>The connections between disabled nodes.\<close>

definition disabled_rel :: "DirectedGraph \<Rightarrow> (INode \<times> INode) set" where
  "disabled_rel g = {(a, b) \<in> dg_rel g. disabled a = Some True \<and> disabled b = Some True}"

lemma main_relE:
  assumes "(a, b) \<in> main_rel g"
  obtains c where "c \<in> edges g" "gc_type c = MainType" "gc_from c = a" "gc_to c = b"
  using assms unfolding main_rel_def by blast

lemma main_relI: "c \<in> edges g \<Longrightarrow> gc_type c = MainType \<Longrightarrow> (gc_from c, gc_to c) \<in> main_rel g"
  unfolding main_rel_def by blast

lemma main_rel_reconnect:
  assumes e: "edges g' = bypasses g (\<lambda>c. gc_type c \<noteq> MainType) n \<union> {c \<in> edges g. gc_to c \<noteq> n \<and> gc_from c \<noteq> n}"
  shows "main_rel g' = {(a, b). (a, b) \<in> main_rel g \<and> a \<noteq> n \<and> b \<noteq> n}
    \<union> {(a, b). (a, n) \<in> main_rel g \<and> (n, b) \<in> main_rel g}"
proof (intro set_eqI iffI)
  fix p assume "p \<in> main_rel g'"
  then obtain c where c: "p = (gc_from c, gc_to c)" "gc_type c = MainType" "c \<in> edges g'" unfolding main_rel_def by blast
  from c(3) consider "c \<in> bypasses g (\<lambda>c. gc_type c \<noteq> MainType) n" | "c \<in> edges g" "gc_to c \<noteq> n" "gc_from c \<noteq> n"
    unfolding e by blast
  then show "p \<in> {(a, b). (a, b) \<in> main_rel g \<and> a \<noteq> n \<and> b \<noteq> n} \<union> {(a, b). (a, n) \<in> main_rel g \<and> (n, b) \<in> main_rel g}"
  proof cases
    case 1
    then obtain i out where "c = bypass i out" "i \<in> edges g" "gc_to i = n" "gc_type i = MainType"
      "out \<in> edges g" "gc_from out = n" "gc_type out = MainType" unfolding bypasses_def by blast
    then have "(gc_from c, n) \<in> main_rel g" "(n, gc_to c) \<in> main_rel g"
      using main_relI [of i g] main_relI [of out g] by auto
    with c(1) show ?thesis by blast
  next
    case 2
    with c have "(gc_from c, gc_to c) \<in> main_rel g" unfolding main_rel_def by blast
    with 2 c(1) show ?thesis by blast
  qed
next
  fix p assume p: "p \<in> {(a, b). (a, b) \<in> main_rel g \<and> a \<noteq> n \<and> b \<noteq> n}
    \<union> {(a, b). (a, n) \<in> main_rel g \<and> (n, b) \<in> main_rel g}"
  obtain a b where ab: "p = (a, b)" by (cases p)
  from p ab consider "(a, b) \<in> main_rel g" "a \<noteq> n" "b \<noteq> n" | "(a, n) \<in> main_rel g" "(n, b) \<in> main_rel g" by auto
  then show "p \<in> main_rel g'"
  proof cases
    case 1
    then obtain c where "c \<in> edges g" "gc_type c = MainType" "gc_from c = a" "gc_to c = b" by (elim main_relE)
    with 1 show ?thesis unfolding ab main_rel_def e by blast
  next
    case 2
    from 2(1) obtain i where i: "i \<in> edges g" "gc_type i = MainType" "gc_from i = a" "gc_to i = n" by (rule main_relE)
    from 2(2) obtain out where out: "out \<in> edges g" "gc_type out = MainType" "gc_from out = n" "gc_to out = b"
      by (rule main_relE)
    from i out have "bypass i out \<in> edges g'" unfolding e bypasses_def by blast
    moreover have "gc_from (bypass i out) = a" "gc_to (bypass i out) = b" "gc_type (bypass i out) = MainType"
      using i out by simp_all
    ultimately show ?thesis unfolding ab main_rel_def by blast
  qed
qed

text \<open>
  The state of the loop over the nodes: what is left are the enabled nodes and those still to come,
  no disabled node leads back to itself over disabled nodes only, and the enabled nodes reach each
  other as before.
\<close>

definition drop_inv :: "DirectedGraph \<Rightarrow> INode list \<Rightarrow> DirectedGraph \<Rightarrow> bool" where
  "drop_inv g ns h \<longleftrightarrow> wf_graph h
     \<and> (\<forall>m. node_in h m \<longleftrightarrow> node_in g m \<and> (disabled m \<noteq> Some True \<or> m \<in> set ns))
     \<and> acyclic (disabled_rel h)
     \<and> (\<forall>a b. disabled a \<noteq> Some True \<and> disabled b \<noteq> Some True \<longrightarrow>
          ((a, b) \<in> (main_rel h)\<^sup>+ \<longleftrightarrow> (a, b) \<in> (main_rel g)\<^sup>+))"

lemma drop_disabled_inv:
  assumes inv: "drop_inv g (n # ns) h" and n: "node_in g n" "n \<notin> set ns" and names: "\<forall>m. node_in g m \<longrightarrow> dashless m"
  shows "\<exists>h'. drop_disabled n h = Inr h' \<and> drop_inv g ns h'"
proof (cases "disabled n = Some True")
  case False
  with inv show ?thesis by (auto simp: drop_disabled_def drop_inv_def)
next
  case True
  let ?skip = "\<lambda>c. gc_type c \<noteq> MainType"
  have wf: "wf_graph h" and nodes: "\<And>m. node_in h m \<longleftrightarrow> node_in g m \<and> (disabled m \<noteq> Some True \<or> m \<in> set (n # ns))"
    and acy: "acyclic (disabled_rel h)"
    using inv unfolding drop_inv_def by blast+
  have nh: "node_in h n" using nodes n(1) by simp
  have loop: "\<not> self_loop h n"
    using acy True unfolding self_loop_def acyclic_def disabled_rel_def by blast
  from removeNode_reconnect_result [OF nh] obtain h' new where r: "removeNode_reconnect ?skip n h = Inr (h', new)"
    by metis
  have names_h: "\<forall>m. node_in h m \<longrightarrow> dashless m" using names nodes by blast
  note e = removeNode_reconnect_graph(3) [OF wf nh loop r names_h]
  note node' = removeNode_reconnect_graph(2) [OF wf nh loop r]
  have "disabled_rel h' \<subseteq> (disabled_rel h)\<^sup>+"
  proof
    fix p assume "p \<in> disabled_rel h'"
    then obtain c where p: "p = (gc_from c, gc_to c)" "c \<in> edges h'" "disabled (gc_from c) = Some True" "disabled (gc_to c) = Some True"
      unfolding disabled_rel_def dg_rel_def by blast
    from p(2) consider "c \<in> bypasses h ?skip n" | "c \<in> edges h" unfolding e by blast
    then show "p \<in> (disabled_rel h)\<^sup>+"
    proof cases
      case 1
      with bypasses_ends(5,6) [OF wf loop 1] p(3,4) True
      have "(gc_from c, n) \<in> disabled_rel h" "(n, gc_to c) \<in> disabled_rel h" by (auto simp: disabled_rel_def)
      then show ?thesis unfolding p(1) by (meson trancl.simps)
    next
      case 2
      then show ?thesis using p dg_relI [OF 2] by (auto simp: disabled_rel_def)
    qed
  qed
  then have "(disabled_rel h')\<^sup>+ \<subseteq> (disabled_rel h)\<^sup>+"
    using trancl_mono_subset [of "disabled_rel h'" "(disabled_rel h)\<^sup>+"] by (simp add: trancl_id)
  with acy have "acyclic (disabled_rel h')" unfolding acyclic_def by blast
  moreover have "(a, b) \<in> (main_rel h')\<^sup>+ \<longleftrightarrow> (a, b) \<in> (main_rel g)\<^sup>+"
    if "disabled a \<noteq> Some True" "disabled b \<noteq> Some True" for a b
  proof -
    have "main_rel h \<subseteq> dg_rel h" unfolding main_rel_def dg_rel_def by blast
    with loop have "(n, n) \<notin> main_rel h" by (auto simp: self_loop_def)
    moreover have "a \<noteq> n" "b \<noteq> n" using that True by auto
    ultimately have "(a, b) \<in> (main_rel h')\<^sup>+ \<longleftrightarrow> (a, b) \<in> (main_rel h)\<^sup>+"
      by (rule bypass_reachable [OF main_rel_reconnect [OF e]])
    with inv that show ?thesis unfolding drop_inv_def by blast
  qed
  moreover have "node_in h' m \<longleftrightarrow> node_in g m \<and> (disabled m \<noteq> Some True \<or> m \<in> set ns)" for m
    unfolding node' nodes using True n(2) by auto
  ultimately have "drop_inv g ns h'"
    using removeNode_reconnect_graph(1) [OF wf nh loop r] unfolding drop_inv_def by blast
  then show ?thesis using True r by (simp add: drop_disabled_def)
qed

lemma filterDisabledNodes_spec:
  assumes wf: "wf_graph g" and names: "\<forall>m. node_in g m \<longrightarrow> dashless m" and acy: "acyclic (disabled_rel g)"
  shows "\<exists>h. filterDisabledNodes g = Inr h \<and> wf_graph h
    \<and> (\<forall>m. node_in h m \<longleftrightarrow> node_in g m \<and> disabled m \<noteq> Some True)
    \<and> (\<forall>a b. disabled a \<noteq> Some True \<and> disabled b \<noteq> Some True \<longrightarrow>
         ((a, b) \<in> (main_rel h)\<^sup>+ \<longleftrightarrow> (a, b) \<in> (main_rel g)\<^sup>+))"
proof -
  let ?ns = "values_of (dg_nodes g)"
  have "\<exists>h'. fold_res drop_disabled ns h = Inr h' \<and> drop_inv g [] h'"
    if "drop_inv g ns h" "distinct ns" "\<forall>n \<in> set ns. node_in g n" for ns h
    using that
  proof (induction ns arbitrary: h)
    case (Cons n ns)
    with drop_disabled_inv [OF Cons.prems(1) _ _ names] obtain h1 where
      "drop_disabled n h = Inr h1" "drop_inv g ns h1" by auto
    with Cons show ?case by simp
  qed simp
  moreover have "distinct (map node_name ?ns)"
    by (rule keyed_list(2)) (use wf_graphD(4) [OF wf] in \<open>auto simp: keyed_by_name_def\<close>)
  then have "distinct ?ns" by (simp only: distinct_map)
  moreover have nodes: "node_in g n \<longleftrightarrow> n \<in> set ?ns" for n by (rule node_in_values [OF wf])
  moreover have "drop_inv g ?ns g" using wf acy nodes by (auto simp: drop_inv_def)
  ultimately obtain h where "fold_res drop_disabled ?ns g = Inr h" "drop_inv g [] h" by blast
  then show ?thesis using clone_same [OF wf] by (auto simp: filterDisabledNodes_def drop_inv_def)
qed

section \<open>An example\<close>

text \<open>A run that put one item on the first main output.\<close>

definition example_task :: ITaskData where
  "example_task = \<lparr>td_startTime = 0, td_executionIndex = Some 4, td_source = [], td_hints = None,
     td_executionTime = 0, td_executionStatus = Some StSuccess,
     td_data = Some [(MainType, [Some [empty_item]])], td_inputOverride = None, td_error = None,
     td_metadata = None\<rparr>"

definition example_run :: IRunData where
  "example_run = [(''T'', [example_task])]"

lemma getIncomingData_example:
  "getIncomingData example_run ''T'' 0 MainType 0 = Inr (Some [empty_item])"
  by (simp add: getIncomingData_def run_data_def example_run_def example_task_def arr_at_def)

lemma getIncomingDataFromAnyRun_example:
  "getIncomingDataFromAnyRun example_run ''T'' MainType 0 = Inr (Some ([empty_item], 0))"
  "getIncomingDataFromAnyRun example_run ''A'' MainType 0 = Inr None"
  using getIncomingData_example
  by (simp_all add: getIncomingDataFromAnyRun_def any_run_loop.simps getRunIndexLength_def run_data_def
      example_run_def example_task_def)

lemma readable_example: "readable example_graph example_run"
  by (auto simp: readable_def edges_example_graph getIncomingDataFromAnyRun_example unfinished_loop_def
      example_nodes_defs simp del: set_map)

section \<open>Properties\<close>

text \<open>
  C12: the search for the start nodes ends on every graph, cycles included, and finds exactly the
  nodes that need to run (no data and no pinned data, or the destination, or a loop node that has not
  finished) among those reached from the trigger over nodes that need not and outputs with data.
\<close>

theorem findStartNodes_exact:
  assumes "wf_graph g" and "readable g runData" and "node_in g trigger"
  shows "\<exists>S. findStartNodes g trigger destination pinData runData = Inr S \<and> distinct S
    \<and> set S = {m. stops destination runData pinData m
        \<and> (trigger, m) \<in> (follow_rel g destination runData pinData)\<^sup>*}"
  using assms by (rule findStartNodes_spec)

theorem findStartNodes_exact_witness:
  "\<exists>S. findStartNodes example_graph node_T node_B [] example_run = Inr S \<and> node_A \<in> set S \<and> node_T \<notin> set S"
proof -
  have "\<not> stops node_B example_run [] node_T" "stops node_B example_run [] node_A"
    by (simp_all add: stops_def isDirty_def example_run_def unfinished_loop_def example_nodes_defs)
  moreover have "followed example_run [] (edge node_T node_A)"
    using getIncomingDataFromAnyRun_example(1) by (simp add: followed_def node_T_def)
  ultimately have "(node_T, node_A) \<in> follow_rel example_graph node_B example_run []"
    unfolding follow_rel_def edges_example_graph by force
  with findStartNodes_exact [OF wf_example_graph readable_example, of node_T node_B "[]"]
    \<open>\<not> stops node_B example_run [] node_T\<close> \<open>stops node_B example_run [] node_A\<close>
  show ?thesis by auto
qed



text \<open>
  filtering a graph whose disabled nodes are on no cycle of disabled nodes never fails, removes
  exactly the disabled nodes, and between all other nodes keeps what is connected over main
  connections, directly or over disabled nodes.
\<close>

theorem filterDisabledNodes_exact:
  assumes "wf_graph g" and "\<forall>m. node_in g m \<longrightarrow> dashless m" and "acyclic (disabled_rel g)"
  shows "\<exists>h. filterDisabledNodes g = Inr h \<and> wf_graph h
    \<and> (\<forall>m. node_in h m \<longleftrightarrow> node_in g m \<and> disabled m \<noteq> Some True)
    \<and> (\<forall>a b. disabled a \<noteq> Some True \<and> disabled b \<noteq> Some True \<longrightarrow>
         ((a, b) \<in> (main_rel h)\<^sup>+ \<longleftrightarrow> (a, b) \<in> (main_rel g)\<^sup>+))"
  using assms by (rule filterDisabledNodes_spec)

theorem filterDisabledNodes_exact_witness:
  "\<exists>b h. disabled b = Some True \<and> node_in (graph_of [node_T, b, node_B] [edge node_T b, edge b node_B]) b
    \<and> filterDisabledNodes (graph_of [node_T, b, node_B] [edge node_T b, edge b node_B]) = Inr h
    \<and> \<not> node_in h b \<and> (node_T, node_B) \<in> (main_rel h)\<^sup>+"
proof -
  let ?b = "node_A\<lparr>disabled := Some True\<rparr>"
  let ?g = "graph_of [node_T, ?b, node_B] [edge node_T ?b, edge ?b node_B]"
  have wf: "wf_graph ?g" by (rule wf_graph_of) (simp_all add: example_nodes_defs)
  have nodes: "node_in ?g n \<longleftrightarrow> n \<in> {node_T, ?b, node_B}" for n
    by (subst node_in_graph_of) (simp_all add: example_nodes_defs)
  have names: "\<forall>m. node_in ?g m \<longrightarrow> dashless m" unfolding nodes by (auto simp: dashless_def example_nodes_defs)
  have "disabled_rel ?g = {}" by (auto simp: disabled_rel_def example_nodes_defs)
  then have "acyclic (disabled_rel ?g)" by (simp add: acyclic_def)
  from filterDisabledNodes_exact [OF wf names this] obtain h where h: "filterDisabledNodes ?g = Inr h"
    "\<forall>m. node_in h m \<longleftrightarrow> node_in ?g m \<and> disabled m \<noteq> Some True"
    "\<forall>a b. disabled a \<noteq> Some True \<and> disabled b \<noteq> Some True \<longrightarrow>
         ((a, b) \<in> (main_rel h)\<^sup>+ \<longleftrightarrow> (a, b) \<in> (main_rel ?g)\<^sup>+)" by blast
  have "(node_T, ?b) \<in> main_rel ?g" "(?b, node_B) \<in> main_rel ?g"
    unfolding main_rel_def edges_graph_of by force+
  then have "(node_T, node_B) \<in> (main_rel ?g)\<^sup>+" by (blast intro: trancl_into_trancl)
  moreover have "disabled node_T \<noteq> Some True" "disabled node_B \<noteq> Some True" by (simp_all add: example_nodes_defs)
  ultimately have "(node_T, node_B) \<in> (main_rel h)\<^sup>+" using h(3) by blast
  moreover have "node_in ?g ?b" "\<not> node_in h ?b" using h(2) nodes by auto
  ultimately show ?thesis using h(1) by (intro exI [of _ ?b] exI [of _ h]) simp
qed

text \<open>
  the next execution index is larger than every index of the run data, so that the runs of a
  partial execution are numbered after all earlier ones; runs without an index do not count.
\<close>

theorem getNextExecutionIndex_is_fresh:
  assumes "(nodeName, tasks) \<in> set runData" and "taskData \<in> set tasks" and "td_executionIndex taskData = Some i"
  shows "i < getNextExecutionIndex runData"
  using assms by (rule getNextExecutionIndex_fresh)

theorem getNextExecutionIndex_is_fresh_witness: "4 < getNextExecutionIndex example_run"
  by (rule getNextExecutionIndex_is_fresh [of "''T''" "[example_task]" _ example_task])
    (simp_all add: example_run_def example_task_def)

end
