(* ===== verification/PartialSubgraph.thy ===== *)
theory PartialSubgraph
  imports PartialRunData
begin

text \<open>
  The parts of a partial execution that choose which nodes take part
  (\<open>packages/core/src/execution-engine/partial-execution-utils\<close>): the subgraph between the trigger
  and the destination, the trigger to use, the replacement of start nodes inside cycles, and the
  rewiring of a tool node to a virtual agent.
\<close>

section \<open>The subgraph that leads to the destination\<close>

definition keep_branch :: "GraphConnection list \<Rightarrow> DirectedGraph \<Rightarrow> DirectedGraph res" where
  "keep_branch currentBranch newGraph =
     fold_res (\<lambda>connection h. addConnection connection (addNodes [gc_from connection, gc_to connection] h))
       currentBranch newGraph"

lemma node_in_valuesI: "node_in g n \<Longrightarrow> n \<in> set (values_of (dg_nodes g))"
  by (force simp: node_in_def dest: map_of_SomeD)

function findSubgraphRecursive ::
    "DirectedGraph \<Rightarrow> INode \<Rightarrow> INode \<Rightarrow> INode \<Rightarrow> DirectedGraph \<Rightarrow> GraphConnection list \<Rightarrow> DirectedGraph res" where
  "findSubgraphRecursive graph destinationNode cur trigger newGraph currentBranch =
     (if cur = trigger then keep_branch currentBranch (addNode trigger newGraph)
      else bind_res (getDirectParentConnections graph cur) (\<lambda>parentConnections.
        if parentConnections = [] then Inr newGraph
        else if cur = destinationNode \<and> (\<exists>c \<in> set currentBranch. gc_to c = destinationNode) then Inr newGraph
        else if \<exists>c \<in> set currentBranch. gc_to c = cur then keep_branch currentBranch newGraph
        else fold_res (\<lambda>parentConnection h.
            if gc_type parentConnection \<noteq> MainType then Inr h
            else findSubgraphRecursive graph destinationNode (gc_from parentConnection) trigger h
              (currentBranch @ [parentConnection]))
          parentConnections newGraph))"
  by pat_completeness auto
termination
proof (relation "measure (\<lambda>(g, dest, cur, trig, h, branch). remaining (values_of (dg_nodes g)) (map gc_to branch))", goal_cases)
  case (2 g dest cur trig h branch pcs pc h')
  then have "node_in g cur" "pcs = filter (\<lambda>c. gc_to c = cur) (values_of (dg_connections g))" "pc \<in> set pcs"
    "cur \<notin> set (map gc_to branch)"
    by (auto simp: getDirectParentConnections_def split: if_splits)
  moreover from this have "cur \<in> set (values_of (dg_nodes g))" "gc_to pc = cur"
    using node_in_valuesI by auto
  ultimately show ?case by (auto intro!: remaining_less)
qed simp

declare findSubgraphRecursive.simps [simp del]

text \<open>Step 6: the connections of other types that lead to a node of the subgraph.\<close>

definition add_utility_connections :: "DirectedGraph \<Rightarrow> INode \<Rightarrow> DirectedGraph \<Rightarrow> DirectedGraph res" where
  "add_utility_connections graph node subgraph =
     bind_res (getParentConnections graph node) (\<lambda>parentConnections.
       fold_res (\<lambda>connection h.
         if gc_type connection = MainType then Inr h
         else addConnection connection (addNodes [gc_from connection, gc_to connection] h))
       parentConnections subgraph)"

definition findSubgraph :: "DirectedGraph \<Rightarrow> INode \<Rightarrow> INode \<Rightarrow> DirectedGraph res" where
  "findSubgraph graph destination trigger =
     bind_res (findSubgraphRecursive graph destination destination trigger empty_graph []) (\<lambda>subgraph.
       fold_res (add_utility_connections graph) (values_of (dg_nodes subgraph)) subgraph)"

text \<open>
  Which branches are kept: a branch is walked backwards from the destination until it meets the
  trigger, or a node that is on it already.
\<close>

inductive kept_branch ::
    "DirectedGraph \<Rightarrow> INode \<Rightarrow> INode \<Rightarrow> INode \<Rightarrow> GraphConnection list \<Rightarrow> GraphConnection list \<Rightarrow> bool"
  for g dest trig where
  at_trigger: "kept_branch g dest trig trig branch branch"
| at_cycle: "cur \<noteq> trig \<Longrightarrow> cur \<noteq> dest \<Longrightarrow> \<exists>c \<in> set branch. gc_to c = cur \<Longrightarrow>
    kept_branch g dest trig cur branch branch"
| at_parent: "cur \<noteq> trig \<Longrightarrow> \<not> (\<exists>c \<in> set branch. gc_to c = cur) \<Longrightarrow> pc \<in> edges g \<Longrightarrow> gc_to pc = cur \<Longrightarrow>
    gc_type pc = MainType \<Longrightarrow> kept_branch g dest trig (gc_from pc) (branch @ [pc]) full \<Longrightarrow>
    kept_branch g dest trig cur branch full"

inductive_cases kept_branchE: "kept_branch g dest trig cur branch full"

definition kept_edges ::
    "DirectedGraph \<Rightarrow> INode \<Rightarrow> INode \<Rightarrow> INode \<Rightarrow> GraphConnection list \<Rightarrow> GraphConnection set" where
  "kept_edges g dest trig cur branch = {c. \<exists>full. kept_branch g dest trig cur branch full \<and> c \<in> set full}"

text \<open>A graph that is part of another one.\<close>

definition part_of :: "DirectedGraph \<Rightarrow> DirectedGraph \<Rightarrow> bool" where
  "part_of h g \<longleftrightarrow> wf_graph h \<and> (\<forall>n. node_in h n \<longrightarrow> node_in g n) \<and> edges h \<subseteq> edges g"

definition nodes_of :: "DirectedGraph \<Rightarrow> INode set" where
  "nodes_of h = {n. node_in h n}"

definition ends_of :: "GraphConnection set \<Rightarrow> INode set" where
  "ends_of E = gc_from ` E \<union> gc_to ` E"

lemma part_of_empty: "part_of empty_graph g"
  by (simp add: part_of_def) (simp add: empty_graph_def node_in_def)

lemma hasNode_node_in: "wf_graph h \<Longrightarrow> hasNode h nm \<Longrightarrow> \<exists>n. node_in h n \<and> node_name n = nm"
proof -
  assume "wf_graph h" "hasNode h nm"
  then obtain n where "map_of (dg_nodes h) nm = Some n" "(nm, n) \<in> set (dg_nodes h)"
    by (auto simp: hasNode_def dest: map_of_SomeD)
  moreover from this have "node_name n = nm"
    using wf_graphD(4) [OF \<open>wf_graph h\<close>] by (auto simp: keyed_by_name_def)
  ultimately show ?thesis by (auto simp: node_in_def)
qed

lemma part_of_addNode:
  assumes "part_of h g" and "node_in g n"
  shows "part_of (addNode n h) g" and "nodes_of (addNode n h) = insert n (nodes_of h)"
    and "edges (addNode n h) = edges h"
proof -
  have wf: "wf_graph h" using assms(1) by (simp add: part_of_def)
  have same: "m = n" if "node_in h m" "node_name m = node_name n" for m
    using that assms node_in_same_name [of g m n] by (auto simp: part_of_def)
  then have "node_in h n \<or> \<not> hasNode h (node_name n)" using hasNode_node_in [OF wf] by blast
  from wf_addNode [OF wf this] have wf': "wf_graph (addNode n h)" .
  show nodes: "nodes_of (addNode n h) = insert n (nodes_of h)"
    using same unfolding nodes_of_def node_in_addNode by auto
  show "edges (addNode n h) = edges h" by (simp add: addNode_def)
  with wf' nodes assms show "part_of (addNode n h) g"
    unfolding part_of_def nodes_of_def by (metis insert_iff mem_Collect_eq)
qed

lemma part_of_add_connection:
  assumes part: "part_of h g" and wf: "wf_graph g" and names: "\<forall>m. node_in g m \<longrightarrow> dashless m" and c: "c \<in> edges g"
  shows "\<exists>h'. addConnection c (addNodes [gc_from c, gc_to c] h) = Inr h' \<and> part_of h' g
    \<and> edges h' = insert c (edges h) \<and> nodes_of h' = nodes_of h \<union> ends_of {c}"
proof -
  note ends = wf_graphD(1,2) [OF wf c]
  let ?h1 = "addNode (gc_from c) h" and ?h2 = "addNode (gc_to c) (addNode (gc_from c) h)"
  note p1 = part_of_addNode [OF part ends(1)]
  note p2 = part_of_addNode [OF p1(1) ends(2)]
  have nodes: "nodes_of ?h2 = nodes_of h \<union> ends_of {c}" using p1(2) p2(2) by (auto simp: ends_of_def)
  then have in2: "node_in ?h2 (gc_from c)" "node_in ?h2 (gc_to c)" by (auto simp: nodes_of_def ends_of_def)
  have wf2: "wf_graph ?h2" and names2: "\<forall>n. node_in ?h2 n \<longrightarrow> dashless n"
    using p2(1) names by (auto simp: part_of_def)
  let ?h' = "set_connection c ?h2"
  have e: "edges ?h' = insert c (edges h)"
    using edges_set_connection_dashless [OF wf2 in2 names2] p1(3) p2(3) by simp
  have "nodes_of ?h' = nodes_of ?h2" by (simp add: nodes_of_def node_in_set_connection)
  moreover have "edges ?h' \<subseteq> edges g" using part c unfolding e part_of_def by blast
  with wf_set_connection [OF wf2 in2] p2(1) have "part_of ?h' g"
    unfolding part_of_def node_in_set_connection by (elim conjE, intro conjI)
  moreover have "addConnection c (addNodes [gc_from c, gc_to c] h) = Inr ?h'"
    using in2 by (simp add: addConnection_def addNodes_def)
  ultimately show ?thesis using e nodes by blast
qed

lemma ends_of_insert: "ends_of (insert c E) = ends_of {c} \<union> ends_of E"
  by (auto simp: ends_of_def)

lemma ends_of_empty [simp]: "ends_of {} = {}"
  by (simp add: ends_of_def)

lemma ends_of_Un [simp]: "ends_of (A \<union> B) = ends_of A \<union> ends_of B"
  by (auto simp: ends_of_def)

lemma keep_branch_spec:
  assumes wf: "wf_graph g" and names: "\<forall>m. node_in g m \<longrightarrow> dashless m"
  shows "part_of h g \<Longrightarrow> set branch \<subseteq> edges g \<Longrightarrow>
    \<exists>h'. keep_branch branch h = Inr h' \<and> part_of h' g
      \<and> edges h' = edges h \<union> set branch \<and> nodes_of h' = nodes_of h \<union> ends_of (set branch)"
proof (induction branch arbitrary: h)
  case (Cons c cs)
  then obtain h1 where h1: "addConnection c (addNodes [gc_from c, gc_to c] h) = Inr h1" "part_of h1 g"
    "edges h1 = insert c (edges h)" "nodes_of h1 = nodes_of h \<union> ends_of {c}"
    using part_of_add_connection [OF Cons.prems(1) wf names, of c] by auto
  from Cons.IH [OF h1(2)] Cons.prems(2) obtain h' where "keep_branch cs h1 = Inr h'" "part_of h' g"
    "edges h' = edges h1 \<union> set cs" "nodes_of h' = nodes_of h1 \<union> ends_of (set cs)" by auto
  with h1 show ?case using ends_of_insert [of c "set cs"] by (auto simp: keep_branch_def)
qed (auto simp: keep_branch_def)

lemma kept_edges_trigger: "kept_edges g dest trig trig branch = set branch"
  unfolding kept_edges_def by (auto intro: at_trigger elim: kept_branchE)

lemma kept_edges_cycle:
  assumes "cur \<noteq> trig" and "\<exists>c \<in> set branch. gc_to c = cur"
  shows "kept_edges g dest trig cur branch = (if cur = dest then {} else set branch)"
  using assms unfolding kept_edges_def by (auto intro: at_cycle elim: kept_branchE)

lemma kept_edges_parents:
  assumes "cur \<noteq> trig" and "\<not> (\<exists>c \<in> set branch. gc_to c = cur)"
  shows "kept_edges g dest trig cur branch
    = (\<Union>pc \<in> {pc \<in> edges g. gc_to pc = cur \<and> gc_type pc = MainType}. kept_edges g dest trig (gc_from pc) (branch @ [pc]))"
proof (intro set_eqI iffI)
  fix c assume "c \<in> kept_edges g dest trig cur branch"
  then obtain full where "kept_branch g dest trig cur branch full" "c \<in> set full" by (auto simp: kept_edges_def)
  from this(1) obtain pc where "pc \<in> edges g" "gc_to pc = cur" "gc_type pc = MainType"
    "kept_branch g dest trig (gc_from pc) (branch @ [pc]) full"
    using assms by (cases rule: kept_branch.cases) blast+
  with \<open>c \<in> set full\<close> show "c \<in> (\<Union>pc \<in> {pc \<in> edges g. gc_to pc = cur \<and> gc_type pc = MainType}.
      kept_edges g dest trig (gc_from pc) (branch @ [pc]))" unfolding kept_edges_def by blast
next
  fix c assume "c \<in> (\<Union>pc \<in> {pc \<in> edges g. gc_to pc = cur \<and> gc_type pc = MainType}.
      kept_edges g dest trig (gc_from pc) (branch @ [pc]))"
  then obtain pc full where "pc \<in> edges g" "gc_to pc = cur" "gc_type pc = MainType"
    "kept_branch g dest trig (gc_from pc) (branch @ [pc]) full" "c \<in> set full"
    unfolding kept_edges_def by blast
  with at_parent [OF assms this(1-4)] show "c \<in> kept_edges g dest trig cur branch"
    unfolding kept_edges_def by blast
qed

text \<open>A kept branch begins with the branch walked so far.\<close>

lemma kept_branch_prefix: "kept_branch g dest trig cur branch full \<Longrightarrow> set branch \<subseteq> set full"
  by (induction rule: kept_branch.induct) auto

lemma findSubgraphRecursive_spec:
  "wf_graph g \<Longrightarrow> \<forall>m. node_in g m \<longrightarrow> dashless m \<Longrightarrow> node_in g cur \<Longrightarrow> node_in g trig \<Longrightarrow> part_of h g \<Longrightarrow>
    set branch \<subseteq> edges g \<Longrightarrow>
    \<exists>h'. findSubgraphRecursive g dest cur trig h branch = Inr h' \<and> part_of h' g
      \<and> edges h' = edges h \<union> kept_edges g dest trig cur branch
      \<and> nodes_of h' = nodes_of h \<union> (if cur = trig then {trig} else {}) \<union> ends_of (kept_edges g dest trig cur branch)"
proof (induction g dest cur trig h branch rule: findSubgraphRecursive.induct)
  case (1 g dest cur trig h branch)
  note wf = "1.prems"(1) and names = "1.prems"(2) and part = "1.prems"(5) and sub = "1.prems"(6)
  note simps = findSubgraphRecursive.simps [of g dest cur trig h branch]
  show ?case
  proof (cases "cur = trig")
    case True
    note p = part_of_addNode [OF part "1.prems"(4)]
    from keep_branch_spec [OF wf names p(1) sub] p True show ?thesis
      unfolding simps by (auto simp: kept_edges_trigger)
  next
    case False
    let ?pcs = "filter (\<lambda>c. gc_to c = cur) (values_of (dg_connections g))"
    have pcs: "getDirectParentConnections g cur = Inr ?pcs"
      using "1.prems"(3) by (simp add: getDirectParentConnections_def)
    show ?thesis
    proof (cases "\<exists>c \<in> set branch. gc_to c = cur")
      case True
      then have "?pcs \<noteq> []" using sub by (auto simp: filter_empty_conv)
      show ?thesis
      proof (cases "cur = dest")
        case dest: True
        then have "findSubgraphRecursive g dest cur trig h branch = Inr h"
          using \<open>?pcs \<noteq> []\<close> True False unfolding simps pcs bind_res_simps by auto
        then show ?thesis using part False True dest by (simp add: kept_edges_cycle)
      next
        case dest: False
        then have "findSubgraphRecursive g dest cur trig h branch = keep_branch branch h"
          using \<open>?pcs \<noteq> []\<close> True False unfolding simps pcs bind_res_simps by auto
        then show ?thesis using keep_branch_spec [OF wf names part sub] False True dest by (simp add: kept_edges_cycle)
      qed
    next
      case notin: False
      have fold: "\<exists>h'. fold_res (\<lambda>pc h. if gc_type pc \<noteq> MainType then Inr h
            else findSubgraphRecursive g dest (gc_from pc) trig h (branch @ [pc])) ps h = Inr h' \<and> part_of h' g
          \<and> edges h' = edges h \<union> (\<Union>pc \<in> {pc \<in> set ps. gc_type pc = MainType}. kept_edges g dest trig (gc_from pc) (branch @ [pc]))
          \<and> nodes_of h' = nodes_of h \<union> ends_of (\<Union>pc \<in> {pc \<in> set ps. gc_type pc = MainType}. kept_edges g dest trig (gc_from pc) (branch @ [pc]))"
        if "set ps \<subseteq> set ?pcs" "part_of h g" for ps h
        using that
      proof (induction ps arbitrary: h)
        case (Cons pc ps)
        show ?case
        proof (cases "gc_type pc = MainType")
          case False
          then have "{x \<in> set (pc # ps). gc_type x = MainType} = {x \<in> set ps. gc_type x = MainType}" by auto
          with Cons False show ?thesis by simp
        next
          case True
          have pc: "pc \<in> set ?pcs" using Cons.prems(1) by simp
          then have "pc \<in> edges g" by auto
          then have "node_in g (gc_from pc)" "set (branch @ [pc]) \<subseteq> edges g" using wf_graphD(1) [OF wf] sub by auto
          moreover have "?pcs \<noteq> []" using length_pos_if_in_set [OF pc] by (rule length_greater_0_conv [THEN iffD1])
          ultimately obtain h1 where h1: "findSubgraphRecursive g dest (gc_from pc) trig h (branch @ [pc]) = Inr h1" "part_of h1 g"
            and e1: "edges h1 = edges h \<union> kept_edges g dest trig (gc_from pc) (branch @ [pc])"
            and n1: "nodes_of h1 = nodes_of h \<union> (if gc_from pc = trig then {trig} else {})
               \<union> ends_of (kept_edges g dest trig (gc_from pc) (branch @ [pc]))"
            using "1.IH" [OF False pcs _ _ notin pc _ wf names _ "1.prems"(4) Cons.prems(2)] True notin by blast
          have "trig \<in> ends_of (kept_edges g dest trig (gc_from pc) (branch @ [pc]))" if "gc_from pc = trig"
            using that by (simp add: kept_edges_trigger ends_of_def)
          with n1 have n1': "nodes_of h1 = nodes_of h \<union> ends_of (kept_edges g dest trig (gc_from pc) (branch @ [pc]))"
            by (auto split: if_splits)
          have split: "{x \<in> set (pc # ps). gc_type x = MainType} = insert pc {x \<in> set ps. gc_type x = MainType}"
            using True by auto
          from Cons.IH [OF _ h1(2)] Cons.prems(1) h1(1) True show ?thesis
            unfolding split by (auto simp: e1 n1' simp del: set_map)
        qed
      qed auto
      have E: "(\<Union>pc \<in> {pc \<in> set ?pcs. gc_type pc = MainType}. kept_edges g dest trig (gc_from pc) (branch @ [pc]))
          = kept_edges g dest trig cur branch"
        unfolding kept_edges_parents [OF False notin] by auto
      show ?thesis
      proof (cases "?pcs = []")
        case True
        then have "kept_edges g dest trig cur branch = {}" unfolding E [symmetric] by simp
        with True False part show ?thesis by (simp add: simps pcs)
      next
        case nonempty: False
        from fold [OF subset_refl part] obtain h' where h': "fold_res (\<lambda>pc h. if gc_type pc \<noteq> MainType then Inr h
            else findSubgraphRecursive g dest (gc_from pc) trig h (branch @ [pc])) ?pcs h = Inr h'" "part_of h' g"
          "edges h' = edges h \<union> kept_edges g dest trig cur branch"
          "nodes_of h' = nodes_of h \<union> ends_of (kept_edges g dest trig cur branch)"
          unfolding E by blast
        have "findSubgraphRecursive g dest cur trig h branch = Inr h'"
          unfolding simps pcs bind_res_simps using False notin nonempty h'(1) by auto
        with h' False show ?thesis by simp
      qed
    qed
  qed
qed

text \<open>The connections kept are main connections that lead to the destination.\<close>

lemma kept_branch_sound:
  assumes "kept_branch g dest trig cur branch full" and "(cur, dest) \<in> (main_rel g)\<^sup>*"
    and "\<forall>c \<in> set branch. c \<in> edges g \<and> gc_type c = MainType \<and> (gc_to c, dest) \<in> (main_rel g)\<^sup>*"
  shows "\<forall>c \<in> set full. c \<in> edges g \<and> gc_type c = MainType \<and> (gc_to c, dest) \<in> (main_rel g)\<^sup>*"
  using assms
proof (induction rule: kept_branch.induct)
  case (at_parent cur branch pc full)
  from main_relI [OF at_parent.hyps(3,5)] have "(gc_from pc, dest) \<in> (main_rel g)\<^sup>*"
    unfolding at_parent.hyps(4) using at_parent.prems(1) by (rule converse_rtrancl_into_rtrancl)
  moreover have "\<forall>c \<in> set (branch @ [pc]). c \<in> edges g \<and> gc_type c = MainType \<and> (gc_to c, dest) \<in> (main_rel g)\<^sup>*"
    using at_parent.prems(2) at_parent.prems(1) at_parent.hyps(3-5) by (auto simp del: set_map)
  ultimately show ?case by (rule at_parent.IH)
qed

text \<open>From every node before the destination a branch is kept.\<close>

lemma kept_branch_exists:
  "(trig, u) \<in> (main_rel g \<inter> {(a, b). b \<noteq> dest})\<^sup>* \<Longrightarrow> \<exists>full. kept_branch g dest trig u branch full"
proof (induction arbitrary: branch rule: rtrancl_induct)
  case base
  show ?case using at_trigger by (rule exI)
next
  case (step a u)
  then obtain c where c: "c \<in> edges g" "gc_type c = MainType" "gc_from c = a" "gc_to c = u" and "u \<noteq> dest"
    by (auto elim: main_relE)
  show ?case
  proof (cases "u = trig \<or> (\<exists>d \<in> set branch. gc_to d = u)")
    case True
    then show ?thesis using at_trigger at_cycle [OF _ \<open>u \<noteq> dest\<close>] by metis
  next
    case False
    from step.IH [of "branch @ [c]"] obtain full where "kept_branch g dest trig (gc_from c) (branch @ [c]) full"
      unfolding c(3) ..
    from at_parent [OF _ _ c(1,4,2) this] False show ?thesis by simp (rule exI)
  qed
qed

text \<open>
  A node that leads to the destination is met by a branch that has not been at it before: one
  along a shortest path.
\<close>

lemma branch_to_node:
  assumes "(v, dest) \<in> R ^^ n" and "\<forall>m < n. (v, dest) \<notin> R ^^ m" and "R = main_rel g \<inter> {(a, b). b \<noteq> trig}"
  shows "\<exists>branch. (\<forall>c \<in> set branch. \<exists>m < n. (gc_to c, dest) \<in> R ^^ m)
    \<and> (\<forall>full. kept_branch g dest trig v branch full \<longrightarrow> kept_branch g dest trig dest [] full)"
  using assms(1,2)
proof (induction n arbitrary: v)
  case 0
  then show ?case by (intro exI [of _ "[]"]) simp
next
  case (Suc n)
  from Suc.prems(1) obtain b where b: "(v, b) \<in> R" "(b, dest) \<in> R ^^ n" by (blast dest: relpow_Suc_D2)
  then have minimal: "\<forall>m < n. (b, dest) \<notin> R ^^ m"
    using Suc.prems(2) by (metis Suc_mono relpow_Suc_I2)
  from Suc.IH [OF b(2) minimal] obtain branch where branch: "\<forall>c \<in> set branch. \<exists>m < n. (gc_to c, dest) \<in> R ^^ m"
    "\<forall>full. kept_branch g dest trig b branch full \<longrightarrow> kept_branch g dest trig dest [] full" by blast
  from b(1) assms(3) obtain c where c: "c \<in> edges g" "gc_type c = MainType" "gc_from c = v" "gc_to c = b"
    and "b \<noteq> trig" by (auto elim: main_relE)
  moreover have "\<not> (\<exists>c \<in> set branch. gc_to c = b)" using branch(1) minimal by auto
  ultimately have "\<forall>full. kept_branch g dest trig v (branch @ [c]) full \<longrightarrow> kept_branch g dest trig dest [] full"
    using branch(2) at_parent [of b trig branch c g dest] by blast
  moreover have "\<forall>d \<in> set (branch @ [c]). \<exists>m < Suc n. (gc_to d, dest) \<in> R ^^ m"
    using branch(1) b(2) c(4) by (auto intro: less_SucI)
  ultimately show ?case by blast
qed

text \<open>Every connection on a way from the trigger to the destination is kept.\<close>

lemma kept_edges_complete:
  assumes c: "c \<in> edges g" "gc_type c = MainType"
    and before: "(trig, gc_from c) \<in> (main_rel g \<inter> {(a, b). b \<noteq> dest})\<^sup>*"
    and after: "(gc_to c, dest) \<in> (main_rel g \<inter> {(a, b). b \<noteq> trig})\<^sup>*" and "gc_to c \<noteq> trig"
  shows "c \<in> kept_edges g dest trig dest []"
proof -
  let ?R = "main_rel g \<inter> {(a, b). b \<noteq> trig}"
  define n where "n = (LEAST n. (gc_to c, dest) \<in> ?R ^^ n)"
  from after obtain k where "(gc_to c, dest) \<in> ?R ^^ k" by (blast dest: rtrancl_imp_relpow)
  then have "(gc_to c, dest) \<in> ?R ^^ n" "\<forall>m < n. (gc_to c, dest) \<notin> ?R ^^ m"
    using LeastI [of "\<lambda>n. (gc_to c, dest) \<in> ?R ^^ n"] not_less_Least [of _ "\<lambda>n. (gc_to c, dest) \<in> ?R ^^ n"]
    unfolding n_def by blast+
  from branch_to_node [OF this refl] obtain branch where
    branch: "\<forall>d \<in> set branch. \<exists>m < n. (gc_to d, dest) \<in> ?R ^^ m"
    "\<forall>full. kept_branch g dest trig (gc_to c) branch full \<longrightarrow> kept_branch g dest trig dest [] full" by blast
  have fresh: "\<not> (\<exists>d \<in> set branch. gc_to d = gc_to c)"
    using branch(1) \<open>\<forall>m < n. (gc_to c, dest) \<notin> ?R ^^ m\<close> by auto
  from kept_branch_exists [OF before] obtain full where
    full: "kept_branch g dest trig (gc_from c) (branch @ [c]) full" by blast
  from at_parent [OF assms(5) fresh c(1) refl c(2) full] branch(2) have "kept_branch g dest trig dest [] full" by blast
  moreover have "c \<in> set full" using kept_branch_prefix [OF full] by simp
  ultimately show ?thesis by (auto simp: kept_edges_def)
qed

text \<open>Without cycles the conditions on the way fall away.\<close>

lemma rtrancl_avoids:
  "(x, y) \<in> R\<^sup>* \<Longrightarrow> (y, z) \<in> R\<^sup>+ \<Longrightarrow> acyclic R \<Longrightarrow> (x, y) \<in> (R \<inter> {(a, b). b \<noteq> z})\<^sup>*"
proof (induction rule: rtrancl_induct)
  case (step b c)
  then have "(b, z) \<in> R\<^sup>+" "c \<noteq> z" by (auto simp: acyclic_def intro: trancl_into_trancl2)
  with step show ?case by (auto intro: rtrancl_into_rtrancl)
qed simp

lemma rtrancl_avoids_source:
  "(y, z) \<in> R\<^sup>* \<Longrightarrow> (x, y) \<in> R\<^sup>+ \<Longrightarrow> acyclic R \<Longrightarrow> (y, z) \<in> (R \<inter> {(a, b). b \<noteq> x})\<^sup>*"
proof (induction rule: rtrancl_induct)
  case (step b c)
  from step.prems(1) step.hyps have "(x, c) \<in> R\<^sup>+" by (auto intro: trancl_rtrancl_trancl)
  with step.prems(2) have "c \<noteq> x" by (auto simp: acyclic_def)
  with step show ?case by (auto intro: rtrancl_into_rtrancl)
qed simp

definition way_edges :: "DirectedGraph \<Rightarrow> INode \<Rightarrow> INode \<Rightarrow> GraphConnection set" where
  "way_edges g trig dest = {c \<in> edges g. gc_type c = MainType
     \<and> (trig, gc_from c) \<in> (main_rel g)\<^sup>* \<and> (gc_to c, dest) \<in> (main_rel g)\<^sup>*}"

lemma kept_from_trigger:
  assumes "kept_branch g dest trig cur branch full" and "acyclic (main_rel g)"
    and "\<forall>c \<in> set branch. c \<in> edges g \<and> gc_type c = MainType \<and> (cur, gc_from c) \<in> (main_rel g)\<^sup>*"
  shows "\<forall>c \<in> set full. (trig, gc_from c) \<in> (main_rel g)\<^sup>*"
  using assms
proof (induction rule: kept_branch.induct)
  case (at_cycle cur branch)
  then obtain c where "c \<in> edges g" "gc_type c = MainType" "gc_to c = cur" "(cur, gc_from c) \<in> (main_rel g)\<^sup>*"
    by (auto simp del: set_map)
  then have "(cur, cur) \<in> (main_rel g)\<^sup>+" using main_relI [of c g] by (auto intro: rtrancl_into_trancl1)
  with at_cycle.prems(1) show ?case by (simp add: acyclic_def)
next
  case (at_parent cur branch pc full)
  from main_relI [OF at_parent.hyps(3,5)] have r: "(gc_from pc, cur) \<in> main_rel g" unfolding at_parent.hyps(4) .
  have "\<forall>c \<in> set (branch @ [pc]). c \<in> edges g \<and> gc_type c = MainType \<and> (gc_from pc, gc_from c) \<in> (main_rel g)\<^sup>*"
    using at_parent.prems(2) at_parent.hyps(3,5) r by (auto intro: converse_rtrancl_into_rtrancl simp del: set_map)
  with at_parent.prems(1) show ?case by (rule at_parent.IH)
qed (simp del: set_map)

lemma kept_edges_acyclic:
  assumes acy: "acyclic (main_rel g)"
  shows "kept_edges g dest trig dest [] = way_edges g trig dest"
proof (intro subset_antisym subsetI)
  fix c assume "c \<in> kept_edges g dest trig dest []"
  then obtain full where f: "kept_branch g dest trig dest [] full" "c \<in> set full" by (auto simp: kept_edges_def)
  from bspec [OF kept_from_trigger [OF f(1) acy] f(2)] bspec [OF kept_branch_sound [OF f(1)] f(2)]
  show "c \<in> way_edges g trig dest" by (simp add: way_edges_def)
next
  fix c assume "c \<in> way_edges g trig dest"
  then have c: "c \<in> edges g" "gc_type c = MainType"
    and ways: "(trig, gc_from c) \<in> (main_rel g)\<^sup>*" "(gc_to c, dest) \<in> (main_rel g)\<^sup>*"
    by (simp_all add: way_edges_def)
  note r = main_relI [OF c]
  have "(gc_from c, dest) \<in> (main_rel g)\<^sup>+" "(trig, gc_to c) \<in> (main_rel g)\<^sup>+"
    using r ways by (auto intro: rtrancl_into_trancl1 rtrancl_into_trancl2)
  moreover from this(2) acy have "gc_to c \<noteq> trig" by (auto simp: acyclic_def)
  ultimately show "c \<in> kept_edges g dest trig dest []"
    using kept_edges_complete [OF c rtrancl_avoids rtrancl_avoids_source] ways acy by blast
qed

text \<open>The nodes on the way, and the utility connections that lead to one of a set of nodes.\<close>

definition way_nodes :: "DirectedGraph \<Rightarrow> INode \<Rightarrow> INode \<Rightarrow> INode set" where
  "way_nodes g trig dest = {n. (trig, n) \<in> (main_rel g)\<^sup>* \<and> (n, dest) \<in> (main_rel g)\<^sup>*}"

definition utility_edges :: "DirectedGraph \<Rightarrow> INode set \<Rightarrow> GraphConnection set" where
  "utility_edges g N = {c \<in> edges g. gc_type c \<noteq> MainType \<and> (\<exists>n \<in> N. (gc_to c, n) \<in> (dg_rel g)\<^sup>*)}"

lemma ends_of_way_edges:
  assumes "acyclic (main_rel g)"
  shows "(if dest = trig then {trig} else {}) \<union> ends_of (way_edges g trig dest) = way_nodes g trig dest"
proof (intro set_eqI iffI)
  fix n assume n: "n \<in> (if dest = trig then {trig} else {}) \<union> ends_of (way_edges g trig dest)"
  show "n \<in> way_nodes g trig dest"
  proof (cases "n \<in> ends_of (way_edges g trig dest)")
    case True
    then obtain c where c: "c \<in> way_edges g trig dest" "n = gc_from c \<or> n = gc_to c" by (auto simp: ends_of_def)
    then have "(gc_from c, gc_to c) \<in> main_rel g" by (simp add: way_edges_def main_relI)
    with c show ?thesis
      by (auto simp: way_edges_def way_nodes_def intro: rtrancl_into_rtrancl converse_rtrancl_into_rtrancl)
  qed (use n in \<open>auto simp: way_nodes_def split: if_splits\<close>)
next
  fix n assume "n \<in> way_nodes g trig dest"
  then have n: "(trig, n) \<in> (main_rel g)\<^sup>*" "(n, dest) \<in> (main_rel g)\<^sup>*" by (simp_all add: way_nodes_def)
  show "n \<in> (if dest = trig then {trig} else {}) \<union> ends_of (way_edges g trig dest)"
  proof (cases "n = dest")
    case False
    then obtain m where m: "(n, m) \<in> main_rel g" "(m, dest) \<in> (main_rel g)\<^sup>*" using n(2) by (metis converse_rtranclE)
    then obtain c where "c \<in> edges g" "gc_type c = MainType" "gc_from c = n" "gc_to c = m" by (auto elim: main_relE)
    with n(1) m(2) have "c \<in> way_edges g trig dest" by (simp add: way_edges_def)
    with \<open>gc_from c = n\<close> show ?thesis by (auto simp: ends_of_def)
  next
    case True
    show ?thesis
    proof (cases "dest = trig")
      case False
      then obtain m where m: "(m, dest) \<in> main_rel g" "(trig, m) \<in> (main_rel g)\<^sup>*"
        using n(1) True by (metis rtranclE)
      then obtain c where "c \<in> edges g" "gc_type c = MainType" "gc_from c = m" "gc_to c = dest" by (auto elim: main_relE)
      with m(2) have "c \<in> way_edges g trig dest" by (simp add: way_edges_def)
      with \<open>gc_to c = dest\<close> True show ?thesis by (auto simp: ends_of_def)
    qed (simp add: True)
  qed
qed

lemma add_utility_connections_spec:
  assumes wf: "wf_graph g" and names: "\<forall>m. node_in g m \<longrightarrow> dashless m" and n: "node_in g n" and part: "part_of h g"
  shows "\<exists>h'. add_utility_connections g n h = Inr h' \<and> part_of h' g
    \<and> edges h' = edges h \<union> utility_edges g {n} \<and> nodes_of h' = nodes_of h \<union> ends_of (utility_edges g {n})"
proof -
  obtain cs where cs: "getParentConnections g n = Inr cs" "set cs = {c \<in> edges g. (gc_to c, n) \<in> (dg_rel g)\<^sup>*}"
    using getParentConnections_spec [OF wf n] by blast
  let ?F = "\<lambda>c h. if gc_type c = MainType then Inr h
    else addConnection c (addNodes [gc_from c, gc_to c] h)"
  have "\<exists>h'. fold_res ?F ds h = Inr h' \<and> part_of h' g
      \<and> edges h' = edges h \<union> {c \<in> set ds. gc_type c \<noteq> MainType}
      \<and> nodes_of h' = nodes_of h \<union> ends_of {c \<in> set ds. gc_type c \<noteq> MainType}"
    if "set ds \<subseteq> edges g" "part_of h g" for ds h
    using that
  proof (induction ds arbitrary: h)
    case (Cons c ds)
    show ?case
    proof (cases "gc_type c = MainType")
      case True
      then have "{d \<in> set (c # ds). gc_type d \<noteq> MainType} = {d \<in> set ds. gc_type d \<noteq> MainType}" by auto
      with Cons True show ?thesis by simp
    next
      case False
      then have split: "{d \<in> set (c # ds). gc_type d \<noteq> MainType} = insert c {d \<in> set ds. gc_type d \<noteq> MainType}"
        by auto
      obtain h1 where h1: "addConnection c (addNodes [gc_from c, gc_to c] h) = Inr h1" "part_of h1 g"
        "edges h1 = insert c (edges h)" "nodes_of h1 = nodes_of h \<union> ends_of {c}"
        using part_of_add_connection [OF Cons.prems(2) wf names, of c] Cons.prems(1) by auto
      from Cons.IH [OF _ h1(2)] Cons.prems(1) obtain h' where h': "fold_res ?F ds h1 = Inr h'" "part_of h' g"
        "edges h' = edges h1 \<union> {d \<in> set ds. gc_type d \<noteq> MainType}"
        "nodes_of h' = nodes_of h1 \<union> ends_of {d \<in> set ds. gc_type d \<noteq> MainType}" by auto
      have "edges h' = edges h \<union> insert c {d \<in> set ds. gc_type d \<noteq> MainType}" unfolding h'(3) h1(3) by blast
      moreover have "nodes_of h' = nodes_of h \<union> ends_of (insert c {d \<in> set ds. gc_type d \<noteq> MainType})"
        unfolding h'(4) h1(4) ends_of_insert [of c "{d \<in> set ds. gc_type d \<noteq> MainType}"] by blast
      ultimately show ?thesis unfolding split using h1(1) h'(1,2) False by simp
    qed
  qed auto
  from this [of cs h] cs(2) part obtain h' where "fold_res ?F cs h = Inr h'" "part_of h' g"
    "edges h' = edges h \<union> {c \<in> set cs. gc_type c \<noteq> MainType}"
    "nodes_of h' = nodes_of h \<union> ends_of {c \<in> set cs. gc_type c \<noteq> MainType}" by blast
  moreover have "{c \<in> set cs. gc_type c \<noteq> MainType} = utility_edges g {n}"
    unfolding cs(2) utility_edges_def by blast
  ultimately show ?thesis by (simp add: add_utility_connections_def cs(1))
qed

lemma utility_edges_Un: "utility_edges g (insert n N) = utility_edges g {n} \<union> utility_edges g N"
  unfolding utility_edges_def by blast

lemma findSubgraph_kept:
  assumes wf: "wf_graph g" and names: "\<forall>m. node_in g m \<longrightarrow> dashless m"
    and nodes: "node_in g dest" "node_in g trig"
  defines "K \<equiv> kept_edges g dest trig dest []"
  defines "N \<equiv> (if dest = trig then {trig} else {}) \<union> ends_of K"
  shows "\<exists>h. findSubgraph g dest trig = Inr h \<and> part_of h g \<and> edges h = K \<union> utility_edges g N
    \<and> nodes_of h = N \<union> ends_of (utility_edges g N)"
proof -
  obtain h0 where h0: "findSubgraphRecursive g dest dest trig empty_graph [] = Inr h0" "part_of h0 g"
    "edges h0 = K" "nodes_of h0 = N"
    using findSubgraphRecursive_spec [OF wf names nodes part_of_empty, of "[]" dest]
    by (auto simp: K_def N_def empty_graph_def nodes_of_def node_in_def)
  have fold: "\<exists>h'. fold_res (add_utility_connections g) ns h = Inr h' \<and> part_of h' g
      \<and> edges h' = edges h \<union> utility_edges g (set ns) \<and> nodes_of h' = nodes_of h \<union> ends_of (utility_edges g (set ns))"
    if "\<forall>n \<in> set ns. node_in g n" "part_of h g" for ns h
    using that
  proof (induction ns arbitrary: h)
    case (Cons n ns)
    obtain h1 where h1: "add_utility_connections g n h = Inr h1" "part_of h1 g"
      "edges h1 = edges h \<union> utility_edges g {n}" "nodes_of h1 = nodes_of h \<union> ends_of (utility_edges g {n})"
      using add_utility_connections_spec [OF wf names _ Cons.prems(2), of n] Cons.prems(1) by auto
    from Cons.IH [OF _ h1(2)] Cons.prems(1) obtain h' where h': "fold_res (add_utility_connections g) ns h1 = Inr h'"
      "part_of h' g" "edges h' = edges h1 \<union> utility_edges g (set ns)"
      "nodes_of h' = nodes_of h1 \<union> ends_of (utility_edges g (set ns))" by auto
    have "fold_res (add_utility_connections g) (n # ns) h = Inr h'" using h1(1) h'(1) by simp
    moreover have "edges h' = edges h \<union> utility_edges g (set (n # ns))"
      unfolding h'(3) h1(3) using utility_edges_Un [of g n "set ns"] by auto
    moreover have "nodes_of h' = nodes_of h \<union> ends_of (utility_edges g (set (n # ns)))"
      unfolding h'(4) h1(4) using utility_edges_Un [of g n "set ns"] by auto
    ultimately show ?case using h'(2) by blast
  qed (auto simp: utility_edges_def)
  have wf0: "wf_graph h0" using h0(2) by (simp add: part_of_def)
  have ns: "set (values_of (dg_nodes h0)) = N"
    using node_in_values [OF wf0] h0(4) by (auto simp: nodes_of_def)
  then have "\<forall>n \<in> set (values_of (dg_nodes h0)). node_in g n"
    using h0(2,4) by (auto simp: part_of_def nodes_of_def)
  from fold [OF this h0(2)] show ?thesis
    unfolding findSubgraph_def h0(1) bind_res_simps ns h0(3,4) by blast
qed

section \<open>Properties\<close>

lemma main_rel_image: "main_rel g = (\<lambda>c. (gc_from c, gc_to c)) ` {c \<in> edges g. gc_type c = MainType}"
  unfolding main_rel_def by blast

lemma main_rel_example: "main_rel example_graph = {(node_T, node_A), (node_A, node_B)}"
proof -
  have "{c \<in> edges example_graph. gc_type c = MainType} = {edge node_T node_A, edge node_A node_B}"
    unfolding edges_example_graph by auto
  then show ?thesis unfolding main_rel_image by simp
qed

lemma acyclic_example: "acyclic (main_rel example_graph)"
proof (rule wf_acyclic, rule wf_subset [OF wf_measure])
  show "main_rel example_graph \<subseteq> measure (\<lambda>n. if n = node_T then 0 else if n = node_A then 1 else 2)"
    unfolding main_rel_example by (auto simp: example_nodes_defs)
qed



text \<open>
  on a workflow with a cycle the subgraph can keep nodes that the trigger does not lead to,
  although every node kept is said to be on a way from the trigger: a branch that meets a node twice
  is kept whether or not it ever comes from the trigger.
\<close>

theorem findSubgraph_keeps_unreached:
  "\<exists>g h. wf_graph g \<and> findSubgraph g node_B node_T = Inr h
    \<and> node_in h node_A \<and> (node_T, node_A) \<notin> (dg_rel g)\<^sup>*"
proof -
  let ?g = "graph_of [node_T, node_A, node_B] [edge node_A node_A, edge node_A node_B]"
  have wf: "wf_graph ?g" by (rule wf_graph_of) (simp_all add: example_nodes_defs)
  have nodes: "node_in ?g n \<longleftrightarrow> n \<in> {node_T, node_A, node_B}" for n
    by (subst node_in_graph_of) (simp_all add: example_nodes_defs)
  have distinct: "node_A \<noteq> node_T" "node_B \<noteq> node_T" "node_A \<noteq> node_B" "node_B \<noteq> node_A"
    by (simp_all add: example_nodes_defs)
  have "kept_branch ?g node_B node_T node_A [edge node_A node_B, edge node_A node_A] [edge node_A node_B, edge node_A node_A]"
    by (rule at_cycle) (simp_all add: distinct)
  then have "kept_branch ?g node_B node_T node_A [edge node_A node_B] [edge node_A node_B, edge node_A node_A]"
    using at_parent [of node_A node_T "[edge node_A node_B]" "edge node_A node_A" ?g node_B] distinct
    unfolding edges_graph_of by simp
  then have "kept_branch ?g node_B node_T node_B [] [edge node_A node_B, edge node_A node_A]"
    using at_parent [of node_B node_T "[]" "edge node_A node_B" ?g node_B] distinct
    unfolding edges_graph_of by simp
  then have "edge node_A node_A \<in> kept_edges ?g node_B node_T node_B []" unfolding kept_edges_def by (intro CollectI exI conjI) (assumption, simp)
  then have "node_A \<in> ends_of (kept_edges ?g node_B node_T node_B [])"
    unfolding ends_of_def by (intro UnI1 image_eqI [of _ _ "edge node_A node_A"]) simp
  moreover have names: "\<forall>m. node_in ?g m \<longrightarrow> dashless m" unfolding nodes using example_dashless by simp
  have in_g: "node_in ?g node_B" "node_in ?g node_T" unfolding nodes by simp_all
  from findSubgraph_kept [OF wf names in_g] obtain h where "findSubgraph ?g node_B node_T = Inr h"
    "ends_of (kept_edges ?g node_B node_T node_B []) \<subseteq> nodes_of h" by blast
  ultimately have "findSubgraph ?g node_B node_T = Inr h" "node_A \<in> nodes_of h" by blast+
  moreover have "(node_T, node_A) \<notin> (dg_rel ?g)\<^sup>*"
    using distinct by (auto elim: converse_rtranclE)
  ultimately show ?thesis using wf by (auto simp: nodes_of_def)
qed

end
