(* ===== verification/PartialPlan.thy ===== *)
theory PartialPlan
  imports PartialSubgraph
begin

text \<open>
  Three decisions of a partial execution
  (\<open>packages/core/src/execution-engine/partial-execution-utils\<close>): which trigger it starts from
  (\<open>find-trigger-for-partial-execution.ts\<close>), how start nodes inside a cycle are replaced
  (\<open>handle-cycles.ts\<close>), and how a tool node is executed alone, behind a virtual agent
  (\<open>rewire-graph.ts\<close>).
\<close>

section \<open>The trigger\<close>

definition ends_with :: "string \<Rightarrow> string \<Rightarrow> bool" where
  "ends_with s suffix \<longleftrightarrow> (length suffix \<le> length s \<and> drop (length s - length suffix) s = suffix)"

definition isTriggerNode :: "INodeType \<Rightarrow> bool" where
  "isTriggerNode nodeType \<longleftrightarrow> ''trigger'' \<in> set (nt_group nodeType)"

text \<open>An unknown node type has no description, so that asking for its group is a \<open>TypeError\<close>.\<close>

definition trigger_check :: "Workflow \<Rightarrow> INode \<Rightarrow> bool res" where
  "trigger_check w node =
     (case node_type_of w node of None \<Rightarrow> Inl TypeError | Some nodeType \<Rightarrow> Inr (isTriggerNode nodeType))"

text \<open>First all names are looked up, then the nodes that are no triggers are dropped.\<close>

definition find_nodes :: "Workflow \<Rightarrow> string list \<Rightarrow> INode list res" where
  "find_nodes w names =
     fold_res (\<lambda>name found. case getNode w name of
         None \<Rightarrow> Inl AssertionError
       | Some node \<Rightarrow> Inr (found @ [node])) names []"

definition only_triggers :: "Workflow \<Rightarrow> INode list \<Rightarrow> INode list res" where
  "only_triggers w nodes =
     fold_res (\<lambda>node triggers. bind_res (trigger_check w node) (\<lambda>isTrigger.
         Inr (if isTrigger then triggers @ [node] else triggers))) nodes []"

definition findAllParentTriggers :: "Workflow \<Rightarrow> string \<Rightarrow> INode list res" where
  "findAllParentTriggers w destinationNodeName =
     bind_res (find_nodes w (getParentNodes w destinationNodeName (OnlyType MainType) (-1))) (only_triggers w)"

text \<open>
  The comparison by which pinned triggers are sorted answers \<open>-1\<close> for two webhooks in either
  order, so that the order of several webhooks is up to the implementation of \<open>sort\<close>: the sort is
  a parameter.
\<close>

definition webhook_first :: "INode \<Rightarrow> INode \<Rightarrow> int" where
  "webhook_first a b =
     (if ends_with (node_type a) ''webhook'' then -1 else if ends_with (node_type b) ''webhook'' then 1 else 0)"

type_synonym sort_fun = "(INode \<Rightarrow> INode \<Rightarrow> int) \<Rightarrow> INode list \<Rightarrow> INode list"

definition first_node :: "INode list \<Rightarrow> INode option" where
  "first_node ns = (case ns of [] \<Rightarrow> None | n # _ \<Rightarrow> Some n)"

definition is_pinned :: "Workflow \<Rightarrow> INode \<Rightarrow> bool" where
  "is_pinned w node \<longleftrightarrow> getPinDataOfNode w (node_name node) \<noteq> None"

text \<open>The choice among the enabled parent triggers.\<close>

definition choose_trigger :: "sort_fun \<Rightarrow> Workflow \<Rightarrow> IRunData \<Rightarrow> INode list \<Rightarrow> INode option" where
  "choose_trigger sort_by w runData parentTriggers =
     (case find (\<lambda>trigger. map_of runData (node_name trigger) \<noteq> None) parentTriggers of
        Some trigger \<Rightarrow> Some trigger
      | None \<Rightarrow>
          (let pinnedTriggers = sort_by webhook_first (filter (is_pinned w) parentTriggers);
               webhookTriggers = filter (\<lambda>trigger. ends_with (node_type trigger) ''webhook'') parentTriggers
           in if pinnedTriggers \<noteq> [] then first_node pinnedTriggers
              else if webhookTriggers \<noteq> [] then first_node webhookTriggers
              else first_node parentTriggers))"

definition findTriggerForPartialExecution :: "sort_fun \<Rightarrow> Workflow \<Rightarrow> string \<Rightarrow> IRunData \<Rightarrow> INode option res" where
  "findTriggerForPartialExecution sort_by w destinationNodeName runData =
     (case getNode w destinationNodeName of
        None \<Rightarrow> Inr None
      | Some destinationNode \<Rightarrow>
          bind_res (trigger_check w destinationNode) (\<lambda>isTrigger.
            if isTrigger \<and> disabled destinationNode \<noteq> Some True then Inr (Some destinationNode)
            else bind_res (findAllParentTriggers w destinationNodeName) (\<lambda>triggers.
              Inr (choose_trigger sort_by w runData (filter (\<lambda>t. disabled t \<noteq> Some True) triggers)))))"

text \<open>A workflow all of whose node types are known, and whose connections start at nodes it has.\<close>

definition types_known :: "Workflow \<Rightarrow> bool" where
  "types_known w \<longleftrightarrow> (\<forall>nm n. getNode w nm = Some n \<longrightarrow> node_type_of w n \<noteq> None)"

definition is_trigger :: "Workflow \<Rightarrow> INode \<Rightarrow> bool" where
  "is_trigger w n \<longleftrightarrow> (\<exists>t. node_type_of w n = Some t \<and> isTriggerNode t)"

lemma find_nodes_known:
  assumes "\<forall>nm \<in> set names. getNode w nm \<noteq> None"
  shows "find_nodes w names = Inr (map (\<lambda>nm. the (getNode w nm)) names)"
proof -
  have "fold_res (\<lambda>name found. case getNode w name of None \<Rightarrow> Inl AssertionError | Some node \<Rightarrow> Inr (found @ [node]))
      names acc = Inr (acc @ map (\<lambda>nm. the (getNode w nm)) names)" for acc
    using assms by (induction names arbitrary: acc) auto
  then show ?thesis by (simp add: find_nodes_def)
qed

lemma only_triggers_known:
  assumes "\<forall>n \<in> set nodes. node_type_of w n \<noteq> None"
  shows "only_triggers w nodes = Inr (filter (is_trigger w) nodes)"
proof -
  have "fold_res (\<lambda>node triggers. bind_res (trigger_check w node) (\<lambda>isTrigger.
      Inr (if isTrigger then triggers @ [node] else triggers))) nodes acc = Inr (acc @ filter (is_trigger w) nodes)" for acc
    using assms by (induction nodes arbitrary: acc) (auto simp: trigger_check_def is_trigger_def)
  then show ?thesis by (simp add: only_triggers_def)
qed

text \<open>The triggers that lead to a node: the enabled ones among it and its parents.\<close>

definition leading_triggers :: "Workflow \<Rightarrow> string \<Rightarrow> INode set" where
  "leading_triggers w dest = {t. getNode w (node_name t) = Some t \<and> is_trigger w t \<and> disabled t \<noteq> Some True
     \<and> (node_name t, dest) \<in> (into_rel (connectionsBySourceNode w) {MainType})\<^sup>*}"

lemma set_first_node: "first_node ns = Some n \<Longrightarrow> n \<in> set ns" "first_node ns = None \<longleftrightarrow> ns = []"
  by (auto simp: first_node_def split: list.splits)

lemma choose_trigger_spec:
  assumes perm: "\<forall>cmp xs. mset (sort_by cmp xs) = mset xs"
  shows "(case choose_trigger sort_by w rd ts of None \<Rightarrow> ts = [] | Some t \<Rightarrow> t \<in> set ts
    \<and> ((\<exists>u \<in> set ts. map_of rd (node_name u) \<noteq> None) \<longrightarrow> map_of rd (node_name t) \<noteq> None))"
proof (cases "find (\<lambda>trigger. map_of rd (node_name trigger) \<noteq> None) ts")
  case (Some t)
  then have "choose_trigger sort_by w rd ts = Some t" by (simp only: choose_trigger_def option.case)
  moreover from Some have "t \<in> set ts" "map_of rd (node_name t) \<noteq> None"
    unfolding find_Some_iff by auto
  ultimately show ?thesis by simp
next
  case None
  then have none: "\<not> (\<exists>u \<in> set ts. map_of rd (node_name u) \<noteq> None)" by (auto simp: find_None_iff)
  have sorted: "set (sort_by webhook_first xs) = set xs" for xs using perm by (metis set_mset_mset)
  have "first_node ns = Some t \<Longrightarrow> set ns \<subseteq> set ts \<Longrightarrow> t \<in> set ts" for ns t using set_first_node(1) by blast
  moreover have "sort_by webhook_first xs = [] \<longleftrightarrow> xs = []" for xs using sorted [of xs] by (metis set_empty)
  ultimately show ?thesis
    using None none sorted
    by (auto simp: choose_trigger_def Let_def set_first_node(2) split: option.splits dest!: set_first_node(1))
qed

lemma findTrigger_spec:
  assumes wf: "wf_workflow w" and closed: "closed_workflow w" and known: "types_known w"
    and perm: "\<forall>cmp xs. mset (sort_by cmp xs) = mset xs" and dest: "getNode w dest = Some d"
  shows "\<exists>r. findTriggerForPartialExecution sort_by w dest rd = Inr r
    \<and> (case r of None \<Rightarrow> leading_triggers w dest = {} | Some t \<Rightarrow> t \<in> leading_triggers w dest
        \<and> (d \<in> leading_triggers w dest \<longrightarrow> t = d)
        \<and> (d \<notin> leading_triggers w dest \<and> (\<exists>u \<in> leading_triggers w dest. map_of rd (node_name u) \<noteq> None)
             \<longrightarrow> map_of rd (node_name t) \<noteq> None))"
proof -
  let ?R = "into_rel (connectionsBySourceNode w) {MainType}"
  let ?P = "getParentNodes w dest (OnlyType MainType) (-1)"
  let ?ts = "filter (\<lambda>t. disabled t \<noteq> Some True) (filter (is_trigger w) (map (\<lambda>nm. the (getNode w nm)) ?P))"
  have P: "set ?P = {m. (m, dest) \<in> ?R\<^sup>+} - {dest}" using getParentNodes_reachable [OF wf, of dest] by simp
  have name: "getNode w nm = Some n \<Longrightarrow> node_name n = nm" for nm n by (rule getNode_name [OF wf])
  have exists: "getNode w m \<noteq> None" if "(m, dest) \<in> ?R\<^sup>+" for m
  proof -
    from that obtain y where "(m, y) \<in> ?R" by (meson tranclD)
    then show ?thesis using closed_workflowD(1) [OF closed] unfolding into_rel_def by blast
  qed
  have found: "find_nodes w ?P = Inr (map (\<lambda>nm. the (getNode w nm)) ?P)"
    by (rule find_nodes_known) (use exists P in blast)
  have "findAllParentTriggers w dest = Inr (filter (is_trigger w) (map (\<lambda>nm. the (getNode w nm)) ?P))"
    unfolding findAllParentTriggers_def found bind_res_simps
  proof (rule only_triggers_known, intro ballI)
    fix n assume "n \<in> set (map (\<lambda>nm. the (getNode w nm)) ?P)"
    then obtain nm where nm: "n = the (getNode w nm)" "nm \<in> set ?P" by auto
    then have "getNode w nm \<noteq> None" using exists [of nm] unfolding P by blast
    with nm(1) show "node_type_of w n \<noteq> None" using known unfolding types_known_def by auto
  qed
  moreover have check: "trigger_check w d = Inr (is_trigger w d)"
    using known dest by (auto simp: types_known_def trigger_check_def is_trigger_def split: option.splits)
  ultimately have result: "findTriggerForPartialExecution sort_by w dest rd
      = Inr (if is_trigger w d \<and> disabled d \<noteq> Some True then Some d else choose_trigger sort_by w rd ?ts)"
    by (simp add: findTriggerForPartialExecution_def dest)
  have ts: "t \<in> set ?ts \<longleftrightarrow> t \<in> leading_triggers w dest \<and> t \<noteq> d" for t
  proof
    assume "t \<in> set ?ts"
    then obtain nm where nm: "nm \<in> set ?P" "t = the (getNode w nm)" "is_trigger w t" "disabled t \<noteq> Some True" by auto
    then have "(nm, dest) \<in> ?R\<^sup>+" "nm \<noteq> dest" using P by auto
    moreover from this exists nm(2) have "getNode w nm = Some t" by auto
    ultimately show "t \<in> leading_triggers w dest \<and> t \<noteq> d"
      using name [of nm t] name [OF dest] nm(3,4) by (auto simp: leading_triggers_def trancl_into_rtrancl)
  next
    assume t: "t \<in> leading_triggers w dest \<and> t \<noteq> d"
    then have "node_name t \<noteq> dest" using dest by (auto simp: leading_triggers_def)
    with t have "node_name t \<in> set ?P" unfolding P by (auto simp: leading_triggers_def dest: rtranclD)
    moreover from t have "t = the (getNode w (node_name t))" by (simp add: leading_triggers_def)
    ultimately have "t \<in> set (map (\<lambda>nm. the (getNode w nm)) ?P)" unfolding set_map by (rule image_eqI [rotated])
    with t show "t \<in> set ?ts" by (simp add: leading_triggers_def)
  qed
  have d: "d \<in> leading_triggers w dest \<longleftrightarrow> is_trigger w d \<and> disabled d \<noteq> Some True"
    using dest name [OF dest] by (auto simp: leading_triggers_def)
  show ?thesis
  proof (cases "d \<in> leading_triggers w dest")
    case True
    then show ?thesis unfolding result using d by auto
  next
    case False
    with d have no: "\<not> (is_trigger w d \<and> disabled d \<noteq> Some True)" by blast
    have r: "findTriggerForPartialExecution sort_by w dest rd = Inr (choose_trigger sort_by w rd ?ts)"
      using result unfolding if_not_P [OF no] .
    have "set ?ts = leading_triggers w dest" using ts False by blast
    then obtain ts where ts: "findTriggerForPartialExecution sort_by w dest rd = Inr (choose_trigger sort_by w rd ts)"
      "set ts = leading_triggers w dest" using r by blast
    from choose_trigger_spec [OF perm, where w = w and rd = rd and ts = ts] show ?thesis
      unfolding ts(1) using ts(2) False by (cases "choose_trigger sort_by w rd ts") auto
  qed
qed

section \<open>Start nodes in cycles\<close>

text \<open>
  The new set is changed while the old one is iterated. A component of one node counts as a cycle,
  as in the code.
\<close>

definition replace_in_cycle :: "DirectedGraph \<Rightarrow> INode \<Rightarrow> INode \<Rightarrow> INode list \<Rightarrow> INode list \<Rightarrow> INode list res" where
  "replace_in_cycle graph trigger startNode cycle newStartNodes =
     (if startNode \<in> set cycle then
        bind_res (depthFirstSearch graph trigger (\<lambda>node. node \<in> set cycle)) (\<lambda>firstNode.
          case firstNode of
            None \<Rightarrow> Inl AssertionError
          | Some first \<Rightarrow> Inr (set_add first (filter (\<lambda>n. n \<noteq> startNode) newStartNodes)))
      else Inr newStartNodes)"

definition handleCycles :: "DirectedGraph \<Rightarrow> INode list \<Rightarrow> INode \<Rightarrow> INode list res" where
  "handleCycles graph startNodes trigger =
     bind_res (getStronglyConnectedComponents graph) (\<lambda>components.
       let cycles = filter (\<lambda>cycle. 1 \<le> length cycle) components in
       if cycles = [] then Inr startNodes
       else fold_res (\<lambda>startNode new. fold_res (replace_in_cycle graph trigger startNode) cycles new)
         startNodes startNodes)"

text \<open>What a start node is replaced by: the first node found of the component it is in.\<close>

definition first_in :: "DirectedGraph \<Rightarrow> INode \<Rightarrow> INode list \<Rightarrow> INode" where
  "first_in g trigger cycle =
     (case depthFirstSearch g trigger (\<lambda>node. node \<in> set cycle) of Inr (Some first) \<Rightarrow> first | _ \<Rightarrow> trigger)"

definition replacement :: "DirectedGraph \<Rightarrow> INode \<Rightarrow> INode list list \<Rightarrow> INode \<Rightarrow> INode" where
  "replacement g trigger cycles n =
     (case find (\<lambda>cycle. n \<in> set cycle) cycles of None \<Rightarrow> n | Some cycle \<Rightarrow> first_in g trigger cycle)"

lemma first_in_cycle:
  assumes "wf_graph g" and "node_in g trigger" and "(trigger, n) \<in> (dg_rel g)\<^sup>*" and "n \<in> set cycle"
  shows "depthFirstSearch g trigger (\<lambda>node. node \<in> set cycle) = Inr (Some (first_in g trigger cycle))"
    and "first_in g trigger cycle \<in> set cycle" and "(trigger, first_in g trigger cycle) \<in> (dg_rel g)\<^sup>*"
  using depthFirstSearch_spec [OF assms(1,2), of "\<lambda>node. node \<in> set cycle"] assms(3,4)
  by (auto simp: first_in_def split: option.splits)

lemma replace_in_cycles:
  assumes "wf_graph g" and "node_in g trigger" and "(trigger, n) \<in> (dg_rel g)\<^sup>*" and "distinct (concat cycles)"
  shows "fold_res (replace_in_cycle g trigger n) cycles new
    = Inr (if \<exists>c \<in> set cycles. n \<in> set c
           then set_add (replacement g trigger cycles n) (filter (\<lambda>m. m \<noteq> n) new) else new)"
  using assms(4)
proof (induction cycles arbitrary: new)
  case (Cons c cs)
  show ?case
  proof (cases "n \<in> set c")
    case True
    have "fold_res (replace_in_cycle g trigger n) cs new = Inr new" for new
      using Cons True by auto
    moreover have "replace_in_cycle g trigger n c new
        = Inr (set_add (first_in g trigger c) (filter (\<lambda>m. m \<noteq> n) new))"
      using True first_in_cycle(1) [OF assms(1-3) True] by (simp add: replace_in_cycle_def)
    ultimately show ?thesis using True by (simp add: replacement_def)
  next
    case False
    then have "replacement g trigger (c # cs) n = replacement g trigger cs n" by (simp add: replacement_def)
    with False Cons show ?thesis by (simp add: replace_in_cycle_def)
  qed
qed simp

lemma replacement_in:
  assumes "wf_graph g" and "node_in g trigger" and "(trigger, n) \<in> (dg_rel g)\<^sup>*"
    and "distinct (concat cycles)" and "c \<in> set cycles" and "n \<in> set c"
  shows "replacement g trigger cycles n = first_in g trigger c" and "replacement g trigger cycles n \<in> set c"
proof -
  from assms(5,6) obtain c' where c': "find (\<lambda>cycle. n \<in> set cycle) cycles = Some c'"
    by (cases "find (\<lambda>cycle. n \<in> set cycle) cycles") (auto simp: find_None_iff)
  then have "c' \<in> set cycles" "n \<in> set c'" by (auto simp: find_Some_iff)
  with assms(4-6) have "c' = c" using distinct_concat_iff by (metis disjoint_iff)
  with c' show "replacement g trigger cycles n = first_in g trigger c" by (simp add: replacement_def)
  with first_in_cycle(2) [OF assms(1-3,6)] show "replacement g trigger cycles n \<in> set c" by simp
qed

lemma replacement_outside: "\<not> (\<exists>c \<in> set cycles. n \<in> set c) \<Longrightarrow> replacement g trigger cycles n = n"
  by (auto simp: replacement_def find_None_iff split: option.splits dest!: find_Some_iff [THEN iffD1])

lemma handle_starts:
  assumes g: "wf_graph g" "node_in g trigger" and d: "distinct (concat cycles)"
  shows "distinct ns \<Longrightarrow> set ns \<subseteq> set new \<Longrightarrow> \<forall>n \<in> set ns. (trigger, n) \<in> (dg_rel g)\<^sup>* \<Longrightarrow> distinct new \<Longrightarrow>
    \<exists>r. fold_res (\<lambda>startNode new. fold_res (replace_in_cycle g trigger startNode) cycles new) ns new = Inr r
      \<and> distinct r \<and> set r = replacement g trigger cycles ` set ns \<union> (set new - set ns)"
proof (induction ns arbitrary: new)
  case (Cons n ns)
  let ?rep = "replacement g trigger cycles"
  have n: "(trigger, n) \<in> (dg_rel g)\<^sup>*" using Cons.prems(3) by simp
  show ?case
  proof (cases "\<exists>c \<in> set cycles. n \<in> set c")
    case True
    then obtain c where c: "c \<in> set cycles" "n \<in> set c" by blast
    note rep = replacement_in [OF g n d c]
    have idem: "?rep (?rep n) = ?rep n"
      using replacement_in(1) [OF g _ d c(1) rep(2)] rep(1) first_in_cycle(3) [OF g n c(2)] by simp
    let ?new = "set_add (?rep n) (filter (\<lambda>m. m \<noteq> n) new)"
    have step: "fold_res (replace_in_cycle g trigger n) cycles new = Inr ?new"
      using replace_in_cycles [OF g n d] True by simp
    have "set ns \<subseteq> set ?new" "distinct ?new" using Cons.prems by auto
    with Cons.IH [OF _ this(1)] Cons.prems obtain r where r: "distinct r" "set r = ?rep ` set ns \<union> (set ?new - set ns)"
      "fold_res (\<lambda>startNode new. fold_res (replace_in_cycle g trigger startNode) cycles new) ns ?new = Inr r" by auto
    have "?rep n \<in> ?rep ` set ns" if "?rep n \<in> set ns" using that idem by (metis imageI)
    then have "set r = ?rep ` set (n # ns) \<union> (set new - set (n # ns))" unfolding r(2) by auto
    with r step show ?thesis by simp
  next
    case False
    then have "?rep n = n" by (rule replacement_outside)
    moreover from Cons.IH [of new] Cons.prems obtain r where "distinct r" "set r = ?rep ` set ns \<union> (set new - set ns)"
      "fold_res (\<lambda>startNode new. fold_res (replace_in_cycle g trigger startNode) cycles new) ns new = Inr r" by auto
    moreover have "fold_res (replace_in_cycle g trigger n) cycles new = Inr new"
      using replace_in_cycles [OF g n d] False by simp
    ultimately show ?thesis using Cons.prems(1,2) by auto
  qed
qed simp

lemma handleCycles_result:
  assumes g: "wf_graph g" "node_in g trigger" and starts: "distinct starts" "\<forall>n \<in> set starts. (trigger, n) \<in> (dg_rel g)\<^sup>*"
    and sccs: "getStronglyConnectedComponents g = Inr sccs"
  shows "\<exists>new. handleCycles g starts trigger = Inr new \<and> distinct new
    \<and> set new = replacement g trigger sccs ` set starts"
proof -
  from getStronglyConnectedComponents_sound [OF g(1)] sccs have d: "distinct (concat sccs)"
    and ne: "\<forall>S \<in> set sccs. S \<noteq> []" by auto
  have "filter (\<lambda>c. 1 \<le> length c) sccs = sccs" using ne by (auto intro!: filter_True simp: Suc_le_eq)
  moreover from handle_starts [OF g d starts(1) subset_refl starts(2,1)] obtain r where
    "fold_res (\<lambda>startNode new. fold_res (replace_in_cycle g trigger startNode) sccs new) starts starts = Inr r"
    "distinct r" "set r = replacement g trigger sccs ` set starts" by auto
  moreover have "replacement g trigger [] n = n" for n by (simp add: replacement_def)
  ultimately show ?thesis using sccs starts(1) by (simp add: handleCycles_def)
qed

lemma handleCycles_spec:
  assumes g: "wf_graph g" "node_in g trigger" and starts: "distinct starts" "\<forall>n \<in> set starts. (trigger, n) \<in> (dg_rel g)\<^sup>*"
  shows "\<exists>sccs new. getStronglyConnectedComponents g = Inr sccs \<and> handleCycles g starts trigger = Inr new \<and> distinct new
    \<and> (\<forall>C \<in> set sccs. \<forall>a \<in> set new \<inter> set C. \<forall>b \<in> set new \<inter> set C. a = b)
    \<and> (\<forall>n \<in> set starts. \<exists>m \<in> set new. (n, m) \<in> (dg_rel g)\<^sup>* \<and> (m, n) \<in> (dg_rel g)\<^sup>*)
    \<and> (\<forall>m \<in> set new. (trigger, m) \<in> (dg_rel g)\<^sup>* \<and> (\<exists>n \<in> set starts. m = n \<or> (\<exists>C \<in> set sccs. n \<in> set C \<and> m \<in> set C)))"
proof -
  from getStronglyConnectedComponents_sound [OF g(1)] obtain sccs where
    sccs: "getStronglyConnectedComponents g = Inr sccs" and d: "distinct (concat sccs)"
    and mut: "\<forall>S \<in> set sccs. mutually_reachable g (set S)" by blast
  let ?rep = "replacement g trigger sccs"
  from handleCycles_result [OF g starts sccs] obtain new where
    new: "handleCycles g starts trigger = Inr new" "distinct new" "set new = ?rep ` set starts" by blast
  have rep: "?rep n = n \<and> \<not> (\<exists>C \<in> set sccs. n \<in> set C) \<or>
      (\<exists>C \<in> set sccs. n \<in> set C \<and> ?rep n \<in> set C \<and> ?rep n = first_in g trigger C)" if "n \<in> set starts" for n
    using replacement_in [OF g _ d] replacement_outside [of sccs n g trigger] starts(2) that by metis
  have reach: "(trigger, ?rep n) \<in> (dg_rel g)\<^sup>*" if "n \<in> set starts" for n
    using rep [OF that] first_in_cycle(3) [OF g] starts(2) that by metis
  have unique: "C = D" if "C \<in> set sccs" "D \<in> set sccs" "x \<in> set C" "x \<in> set D" for C D x
    using d that distinct_concat_iff by (metis disjoint_iff)
  have one: "\<forall>C \<in> set sccs. \<forall>a \<in> set new \<inter> set C. \<forall>b \<in> set new \<inter> set C. a = b"
  proof (intro ballI)
    fix C a b assume C: "C \<in> set sccs" and ab: "a \<in> set new \<inter> set C" "b \<in> set new \<inter> set C"
    have "x = first_in g trigger C" if "x \<in> set new \<inter> set C" for x
    proof -
      from that new(3) obtain n where n: "n \<in> set starts" "x = ?rep n" by auto
      from rep [OF n(1)] show ?thesis
      proof
        assume "?rep n = n \<and> \<not> (\<exists>C \<in> set sccs. n \<in> set C)"
        with n that C show ?thesis by auto
      next
        assume "\<exists>D \<in> set sccs. n \<in> set D \<and> ?rep n \<in> set D \<and> ?rep n = first_in g trigger D"
        then obtain D where "D \<in> set sccs" "?rep n \<in> set D" "?rep n = first_in g trigger D" by blast
        with unique [OF C this(1)] that n(2) show ?thesis by auto
      qed
    qed
    with ab show "a = b" by metis
  qed
  have mutual: "(n, ?rep n) \<in> (dg_rel g)\<^sup>* \<and> (?rep n, n) \<in> (dg_rel g)\<^sup>*" if "n \<in> set starts" for n
    using rep [OF that] mut unfolding mutually_reachable_def by (metis rtrancl.rtrancl_refl)
  have "\<forall>m \<in> set new. (trigger, m) \<in> (dg_rel g)\<^sup>* \<and> (\<exists>n \<in> set starts. m = n \<or> (\<exists>C \<in> set sccs. n \<in> set C \<and> m \<in> set C))"
    unfolding new(3) using rep reach by blast
  moreover have "\<forall>n \<in> set starts. \<exists>m \<in> set new. (n, m) \<in> (dg_rel g)\<^sup>* \<and> (m, n) \<in> (dg_rel g)\<^sup>*"
    unfolding new(3) using mutual by blast
  ultimately show ?thesis using sccs new(1,2) one by blast
qed

section \<open>Rewiring a tool\<close>

record AiAgentRequest =
  agent_query :: json
  agent_tool_name :: string

definition TOOL_EXECUTOR_NODE_NAME :: string where
  "TOOL_EXECUTOR_NODE_NAME = ''PartialExecutionToolExecutor''"

definition tool_executor :: "INode \<Rightarrow> AiAgentRequest option \<Rightarrow> INode" where
  "tool_executor rootNode agentRequest =
     (plain_node TOOL_EXECUTOR_NODE_NAME ''@n8n/n8n-nodes-langchain.toolExecutor'')
       \<lparr>disabled := Some False, node_id := node_id rootNode, node_typeVersion := 0,
        parameters :=
          [(''query'', case agentRequest of None \<Rightarrow> JObj [] | Some r \<Rightarrow> agent_query r),
           (''toolName'', JStr (case agentRequest of None \<Rightarrow> [] | Some r \<Rightarrow> agent_tool_name r))]\<rparr>"

text \<open>
  The code changes the tool in place: the node changes wherever the graph holds it. \<open>swap_node\<close> is
  the node after the change, \<open>swap_ends\<close> a connection.
\<close>

definition rewired :: "INode \<Rightarrow> INode" where
  "rewired tool = tool\<lparr>rewireOutputLogTo := Some AiTool\<rparr>"

definition swap_node :: "INode \<Rightarrow> INode \<Rightarrow> INode" where
  "swap_node tool n = (if n = tool then rewired tool else n)"

definition swap_ends :: "INode \<Rightarrow> GraphConnection \<Rightarrow> GraphConnection" where
  "swap_ends tool c = c\<lparr>gc_from := swap_node tool (gc_from c), gc_to := swap_node tool (gc_to c)\<rparr>"

definition mutate_tool :: "INode \<Rightarrow> DirectedGraph \<Rightarrow> DirectedGraph" where
  "mutate_tool tool g = g\<lparr>dg_nodes := map (\<lambda>(k, n). (k, swap_node tool n)) (dg_nodes g),
     dg_connections := map (\<lambda>(k, c). (k, swap_ends tool c)) (dg_connections g)\<rparr>"

definition connect :: "INode \<Rightarrow> INode \<Rightarrow> NodeConnectionType \<Rightarrow> GraphConnection" where
  "connect source target type =
     \<lparr>gc_from = source, gc_to = target, gc_type = type, gc_outputIndex = 0, gc_inputIndex = 0\<rparr>"

text \<open>The result is the graph and the tool as it is afterwards.\<close>

definition rewireGraph :: "INode \<Rightarrow> DirectedGraph \<Rightarrow> AiAgentRequest option \<Rightarrow> (DirectedGraph \<times> INode) res" where
  "rewireGraph tool graph agentRequest =
     bind_res (clone graph) (\<lambda>modifiedGraph.
     bind_res (getChildren modifiedGraph tool) (\<lambda>children.
       case children of
         [] \<Rightarrow> Inr (graph, tool)
       | rootNode # _ \<Rightarrow>
           bind_res (getDirectParentConnections modifiedGraph rootNode) (\<lambda>parentConnections.
             let allIncomingConnection = filter (\<lambda>cn. gc_type cn = MainType) parentConnections;
                 toolExecutor = tool_executor rootNode agentRequest;
                 g1 = mutate_tool tool (addNode toolExecutor modifiedGraph)
             in bind_res (addConnection (connect (rewired tool) toolExecutor AiTool) g1) (\<lambda>g2.
                bind_res (addConnections
                    (map (\<lambda>cn. connect (swap_node tool (gc_from cn)) toolExecutor (gc_type cn)) allIncomingConnection) g2)
                  (\<lambda>g3. Inr (removeNode (swap_node tool rootNode) g3, rewired tool))))))"

lemma name_swap_node [simp]: "node_name (swap_node tool n) = node_name n"
  by (simp add: swap_node_def rewired_def)

lemma makeKey_swap_ends [simp]: "makeKey (swap_ends tool c) = makeKey c"
  by (simp add: makeKey_def swap_ends_def)

lemma edges_mutate_tool: "edges (mutate_tool tool g) = swap_ends tool ` edges g"
  by (force simp: mutate_tool_def)

lemma node_in_mutate_tool:
  assumes "node_in g n"
  shows "node_in (mutate_tool tool g) (swap_node tool n)"
  using assms by (simp add: node_in_def mutate_tool_def map_of_map [unfolded case_prod_beta] map_of_map)

lemma wf_mutate_tool:
  assumes "wf_graph g"
  shows "wf_graph (mutate_tool tool g)"
proof -
  have "keyed_by_name (dg_nodes (mutate_tool tool g))"
    using wf_graphD(4) [OF assms] by (auto simp: keyed_by_name_def mutate_tool_def comp_def case_prod_unfold)
  moreover have "distinct (keys_of (dg_connections (mutate_tool tool g)))"
    using wf_graphD(3) [OF assms] by (simp add: mutate_tool_def comp_def case_prod_unfold)
  moreover have "\<forall>(k, c) \<in> set (dg_connections (mutate_tool tool g)). k = makeKey c"
    using wf_graphD(5) [OF assms] by (force simp: mutate_tool_def)
  moreover have "\<forall>c \<in> edges (mutate_tool tool g).
      node_in (mutate_tool tool g) (gc_from c) \<and> node_in (mutate_tool tool g) (gc_to c)"
    unfolding edges_mutate_tool using wf_graphD(1,2) [OF assms] node_in_mutate_tool
    by (auto simp: swap_ends_def simp del: set_map)
  ultimately show ?thesis unfolding wf_graph_def by blast
qed

text \<open>The connections into the executor that replace the main connections into the agent node.\<close>

definition rerouted :: "DirectedGraph \<Rightarrow> INode \<Rightarrow> INode \<Rightarrow> INode \<Rightarrow> GraphConnection set" where
  "rerouted g tool agent executor =
     {connect (swap_node tool (gc_from c)) executor MainType | c. c \<in> edges g \<and> gc_to c = agent \<and> gc_type c = MainType}"

lemma rewireGraph_spec:
  assumes wf: "wf_graph g" and names: "\<forall>m. node_in g m \<longrightarrow> dashless m" and tool: "node_in g tool"
    and fresh: "\<not> hasNode g TOOL_EXECUTOR_NODE_NAME" and child: "(tool, n) \<in> (dg_rel g)\<^sup>+"
  shows "\<exists>agent h. (tool, agent) \<in> (dg_rel g)\<^sup>+ \<and> rewireGraph tool g req = Inr (h, rewired tool) \<and> wf_graph h
    \<and> \<not> node_in h (swap_node tool agent)
    \<and> edges h = {c \<in> swap_ends tool ` edges g \<union> {connect (rewired tool) (tool_executor agent req) AiTool}
          \<union> rerouted g tool agent (tool_executor agent req).
        gc_to c \<noteq> swap_node tool agent \<and> gc_from c \<noteq> swap_node tool agent}"
proof -
  from getChildren_spec [OF wf tool] obtain cs where
    cs: "getChildren g tool = Inr cs" "set cs = {m. (tool, m) \<in> (dg_rel g)\<^sup>+}" by blast
  with child obtain agent rest where "cs = agent # rest" by (cases cs) auto
  with cs have ch: "getChildren g tool = Inr (agent # rest)" and agent: "(tool, agent) \<in> (dg_rel g)\<^sup>+" by auto
  from agent obtain m where "(m, agent) \<in> dg_rel g" by (meson tranclD2)
  then have root_in: "node_in g agent" using dg_rel_node_in [OF wf] by blast
  let ?ex = "tool_executor agent req" and ?r = "swap_node tool agent"
  let ?g0 = "addNode ?ex g" and ?g1 = "mutate_tool tool (addNode ?ex g)"
  have ex_name: "node_name ?ex = TOOL_EXECUTOR_NODE_NAME" by (simp add: tool_executor_def plain_node_def)
  have not_ex: "node_name m \<noteq> TOOL_EXECUTOR_NODE_NAME" if "node_in g m" for m
    using that fresh by (auto simp: node_in_def hasNode_def)
  have wf0: "wf_graph ?g0" using wf_addNode [OF wf] fresh ex_name by simp
  note wf1 = wf_mutate_tool [OF wf0, of tool]
  have in0: "node_in ?g0 m \<longleftrightarrow> m = ?ex \<or> node_in g m" for m
    using not_ex ex_name unfolding node_in_addNode by auto
  have ex_swap: "swap_node tool ?ex = ?ex" using not_ex [OF tool] ex_name by (auto simp: swap_node_def)
  have in1: "node_in ?g1 (swap_node tool m)" if "node_in g m" for m
    using that in0 by (intro node_in_mutate_tool) simp
  have ex1: "node_in ?g1 ?ex" using node_in_mutate_tool [of ?g0 ?ex tool] in0 ex_swap by simp
  have tool1: "node_in ?g1 (rewired tool)" using in1 [OF tool] by (simp add: swap_node_def)
  have dash1: "\<forall>m. node_in ?g1 m \<longrightarrow> dashless m"
  proof (intro allI impI)
    fix m assume "node_in ?g1 m"
    then have "m \<in> swap_node tool ` set (values_of (dg_nodes ?g0))"
      using node_in_valuesI by (force simp: mutate_tool_def)
    then obtain m' where "node_in ?g0 m'" "m = swap_node tool m'" using node_in_values [OF wf0] by auto
    with in0 names ex_name show "dashless m" by (auto simp: dashless_def TOOL_EXECUTOR_NODE_NAME_def)
  qed
  have e1: "edges ?g1 = swap_ends tool ` edges g" unfolding edges_mutate_tool by (simp add: addNode_def)
  let ?link = "connect (rewired tool) ?ex AiTool"
  let ?cs = "map (\<lambda>cn. connect (swap_node tool (gc_from cn)) ?ex (gc_type cn))
    (filter (\<lambda>cn. gc_type cn = MainType) (filter (\<lambda>c. gc_to c = agent) (values_of (dg_connections g))))"
  let ?g2 = "set_connection ?link ?g1" and ?g3 = "fold set_connection ?cs (set_connection ?link ?g1)"
  have cs_in: "\<forall>c \<in> set ?cs. node_in ?g2 (gc_from c) \<and> node_in ?g2 (gc_to c)"
    using in1 wf_graphD(1) [OF wf] ex1 by (auto simp: connect_def node_in_set_connection)
  have link_in: "node_in ?g1 (gc_from ?link)" "node_in ?g1 (gc_to ?link)" using tool1 ex1 by (simp_all add: connect_def)
  note wf2 = wf_set_connection [OF wf1 link_in]
  have wf3: "wf_graph ?g3" using wf_fold_set_connection [OF wf2 cs_in] .
  have dash2: "\<forall>m. node_in ?g2 m \<longrightarrow> dashless m" using dash1 by (simp add: node_in_set_connection)
  have rer: "set ?cs = rerouted g tool agent ?ex" unfolding rerouted_def by (auto simp: connect_def)
  have e3: "edges ?g3 = swap_ends tool ` edges g \<union> {?link} \<union> rerouted g tool agent ?ex"
    unfolding edges_fold_set_connection_dashless [OF wf2 cs_in dash2] rer
      edges_set_connection_dashless [OF wf1 link_in dash1] e1 by blast
  have root3: "node_in ?g3 ?r" using in1 [OF root_in] by (simp add: node_in_fold_set_connection node_in_set_connection)
  have "rewireGraph tool g req = Inr (removeNode ?r ?g3, rewired tool)"
    using clone_same [OF wf] ch root_in link_in addConnections_fold [OF cs_in]
    by (simp add: rewireGraph_def getDirectParentConnections_def addConnection_def Let_def)
  with removeNode_graph [OF wf3 root3] agent e3 show ?thesis by blast
qed

section \<open>Properties\<close>

text \<open>
  the choice of the trigger never fails on a workflow of known node types: it answers with an
  enabled trigger that leads to the destination, and with none only if there is none; the destination
  itself comes first, then triggers that have run data. This holds for every order the sort may give
  to webhooks it cannot order.
\<close>

theorem findTrigger_chooses_leading:
  assumes "wf_workflow w" and "closed_workflow w" and "types_known w"
    and "\<forall>cmp xs. mset (sort_by cmp xs) = mset xs" and "getNode w dest = Some d"
  shows "\<exists>r. findTriggerForPartialExecution sort_by w dest runData = Inr r
    \<and> (case r of None \<Rightarrow> leading_triggers w dest = {} | Some t \<Rightarrow> t \<in> leading_triggers w dest
        \<and> (d \<in> leading_triggers w dest \<longrightarrow> t = d)
        \<and> (d \<notin> leading_triggers w dest \<and> (\<exists>u \<in> leading_triggers w dest. map_of runData (node_name u) \<noteq> None)
             \<longrightarrow> map_of runData (node_name t) \<noteq> None))"
  using assms by (rule findTrigger_spec)

theorem findTrigger_chooses_leading_witness:
  "\<exists>t. findTriggerForPartialExecution (\<lambda>cmp xs. xs) example_workflow ''B'' [] = Inr (Some t)
    \<and> t \<in> leading_triggers example_workflow ''B''"
proof -
  let ?R = "into_rel (connectionsBySourceNode example_workflow) {MainType}"
  have "(''T'', ''A'') \<in> ?R" "(''A'', ''B'') \<in> ?R" by (simp_all add: into_rel_def example_simps)
  then have "(''T'', ''B'') \<in> ?R\<^sup>*" by (blast intro: rtrancl_into_rtrancl)
  then have "plain_node ''T'' ''trigger'' \<in> leading_triggers example_workflow ''B''"
    by (simp add: leading_triggers_def example_simps is_trigger_def isTriggerNode_def example_type_def)
  moreover have "types_known example_workflow" by (simp add: types_known_def example_simps)
  moreover have "getNode example_workflow ''B'' = Some (plain_node ''B'' ''step'')" by (simp add: example_simps)
  ultimately show ?thesis
    using findTrigger_chooses_leading [OF wf_example_workflow closed_example_workflow, of "\<lambda>cmp xs. xs" "''B''" _ "[]"]
    by (fastforce split: option.splits)
qed

text \<open>
  replacing start nodes in cycles never fails when the trigger leads to all of them: afterwards
  no component has two start nodes, every old start node is in a cycle with a new one or is itself
  one, and every new one is reached from the trigger and is an old one or in the component of one.
\<close>

theorem handleCycles_one_per_component:
  assumes "wf_graph g" and "node_in g trigger" and "distinct startNodes"
    and "\<forall>n \<in> set startNodes. (trigger, n) \<in> (dg_rel g)\<^sup>*"
  shows "\<exists>sccs new. getStronglyConnectedComponents g = Inr sccs \<and> handleCycles g startNodes trigger = Inr new
    \<and> distinct new \<and> (\<forall>C \<in> set sccs. \<forall>a \<in> set new \<inter> set C. \<forall>b \<in> set new \<inter> set C. a = b)
    \<and> (\<forall>n \<in> set startNodes. \<exists>m \<in> set new. (n, m) \<in> (dg_rel g)\<^sup>* \<and> (m, n) \<in> (dg_rel g)\<^sup>*)
    \<and> (\<forall>m \<in> set new. (trigger, m) \<in> (dg_rel g)\<^sup>*
        \<and> (\<exists>n \<in> set startNodes. m = n \<or> (\<exists>C \<in> set sccs. n \<in> set C \<and> m \<in> set C)))"
  using assms by (rule handleCycles_spec)

theorem handleCycles_one_per_component_witness:
  "\<exists>new m. handleCycles example_graph [node_A] node_T = Inr new \<and> m \<in> set new \<and> (node_A, m) \<in> (dg_rel example_graph)\<^sup>*"
proof -
  have "(node_T, node_A) \<in> (dg_rel example_graph)\<^sup>*" by (rule r_into_rtrancl) simp
  with handleCycles_one_per_component [OF wf_example_graph, of node_T "[node_A]"] show ?thesis by auto
qed

text \<open>
  to run a tool alone, the agent behind it, the first of the nodes it leads to, is replaced by a
  virtual one: afterwards the agent and its connections are gone, the virtual agent receives the tool
  and, on its first input, every node that had a main connection to the agent, and all other
  connections are as before.
\<close>

theorem rewireGraph_replaces_agent:
  assumes "wf_graph g" and "\<forall>m. node_in g m \<longrightarrow> dashless m" and "node_in g tool"
    and "\<not> hasNode g TOOL_EXECUTOR_NODE_NAME" and "(tool, n) \<in> (dg_rel g)\<^sup>+"
  shows "\<exists>agent h. (tool, agent) \<in> (dg_rel g)\<^sup>+ \<and> rewireGraph tool g request = Inr (h, rewired tool) \<and> wf_graph h
    \<and> \<not> node_in h (swap_node tool agent)
    \<and> edges h = {c \<in> swap_ends tool ` edges g \<union> {connect (rewired tool) (tool_executor agent request) AiTool}
          \<union> rerouted g tool agent (tool_executor agent request).
        gc_to c \<noteq> swap_node tool agent \<and> gc_from c \<noteq> swap_node tool agent}"
  using assms by (rule rewireGraph_spec)

theorem rewireGraph_replaces_agent_witness:
  "\<exists>agent h. rewireGraph node_A example_graph None = Inr (h, rewired node_A) \<and> wf_graph h
    \<and> \<not> node_in h (swap_node node_A agent)"
proof -
  have "(node_A, node_B) \<in> (dg_rel example_graph)\<^sup>+" by (rule r_into_trancl) simp
  moreover have "\<not> hasNode example_graph TOOL_EXECUTOR_NODE_NAME"
    by (simp add: hasNode_def example_graph_def graph_of_def example_nodes_defs TOOL_EXECUTOR_NODE_NAME_def)
  ultimately show ?thesis
    using rewireGraph_replaces_agent [OF wf_example_graph, of node_A node_B None] example_dashless by auto
qed

end
