(* ===== verification/PartialStack.thy ===== *)
theory PartialStack
  imports PartialPlan
begin

text \<open>
  The execution stack of a partial execution: the connections into a start node are grouped into sets
  with one connection per input (\<open>get-source-data-groups.ts\<close>), and every group becomes an
  entry of the stack or of the waiting store (\<open>recreate-node-execution-stack.ts\<close>, both in
  \<open>packages/core/src/execution-engine/partial-execution-utils\<close>).
\<close>

section \<open>Groups of connections\<close>

text \<open>The comparison of names, \<open>localeCompare\<close>, depends on the locale and is a parameter.\<close>

definition sortByInputIndexThenByName :: "(string \<Rightarrow> string \<Rightarrow> int) \<Rightarrow> GraphConnection \<Rightarrow> GraphConnection \<Rightarrow> int" where
  "sortByInputIndexThenByName localeCompare connection1 connection2 =
     (if gc_inputIndex connection1 = gc_inputIndex connection2
      then localeCompare (node_name (gc_from connection1)) (node_name (gc_from connection2))
      else int (gc_inputIndex connection1) - int (gc_inputIndex connection2))"

record SourceConnectionGroup =
  grp_complete :: bool
  grp_connections :: "GraphConnection list"

definition newGroup :: SourceConnectionGroup where
  "newGroup = \<lparr>grp_complete = True, grp_connections = []\<rparr>"

definition has_data :: "IRunData \<Rightarrow> IPinData \<Rightarrow> GraphConnection \<Rightarrow> bool" where
  "has_data runData pinnedData c \<longleftrightarrow>
     map_of runData (node_name (gc_from c)) \<noteq> None \<or> map_of pinnedData (node_name (gc_from c)) \<noteq> None"

text \<open>\<open>Math.min\<close> of the input indices; the lists are not both empty where it is called.\<close>

definition min_input :: "GraphConnection list \<Rightarrow> GraphConnection list \<Rightarrow> int" where
  "min_input cs ds = int (Min (gc_inputIndex ` (set cs \<union> set ds)))"

abbreviation input_at :: "int \<Rightarrow> GraphConnection \<Rightarrow> bool" where
  "input_at i c \<equiv> int (gc_inputIndex c) = i"

text \<open>
  The loop of the code, from the increment of the current input index on. When neither list has a
  connection of the index a new group begins at the smallest index left.
\<close>

function groups_loop ::
    "GraphConnection list \<Rightarrow> GraphConnection list \<Rightarrow> SourceConnectionGroup list \<Rightarrow> SourceConnectionGroup \<Rightarrow> int
      \<Rightarrow> SourceConnectionGroup list" where
  "groups_loop withData withoutData groups currentGroup currentInputIndex =
     (if withData = [] \<and> withoutData = [] then groups @ [currentGroup]
      else let index = currentInputIndex + 1 in
        case find_index (input_at index) withData of
          Some k \<Rightarrow> groups_loop (arr_remove withData k) withoutData groups
            (currentGroup\<lparr>grp_connections := grp_connections currentGroup @ [withData ! k]\<rparr>) index
        | None \<Rightarrow>
            (case find_index (input_at index) withoutData of
               Some k \<Rightarrow> groups_loop withData (arr_remove withoutData k) groups
                 (currentGroup\<lparr>grp_connections := grp_connections currentGroup @ [withoutData ! k], grp_complete := False\<rparr>) index
             | None \<Rightarrow> groups_loop withData withoutData (groups @ [currentGroup]) newGroup
                 (min_input withData withoutData - 1)))"
  by pat_completeness auto

lemma min_input_found:
  assumes "cs \<noteq> [] \<or> ds \<noteq> []"
  shows "\<exists>c \<in> set cs \<union> set ds. input_at (min_input cs ds) c"
proof -
  have "Min (gc_inputIndex ` (set cs \<union> set ds)) \<in> gc_inputIndex ` (set cs \<union> set ds)"
    using assms by (intro Min_in) auto
  then show ?thesis by (auto simp: min_input_def)
qed

lemma length_remove_found: "find_index p xs = Some k \<Longrightarrow> length (arr_remove xs k) < length xs"
  by (auto dest!: find_index_Some simp: length_arr_remove)

termination groups_loop
proof (relation "inv_image (less_than <*lex*> less_than)
    (\<lambda>(cs, ds, gs, g, i). (length cs + length ds,
       if \<exists>c \<in> set cs \<union> set ds. input_at (i + 1) c then 0 else 1 :: nat))", goal_cases)
  case (2 cs ds gs g i)
  then have "\<not> (\<exists>c \<in> set cs \<union> set ds. input_at (i + 1) c)" by (auto simp: find_index_None)
  moreover have "\<exists>c \<in> set cs \<union> set ds. input_at (min_input cs ds - 1 + 1) c"
    using min_input_found [of cs ds] 2(1) by auto
  ultimately show ?case by auto
qed (auto dest!: length_remove_found)

declare groups_loop.simps [simp del]

definition getSourceDataGroups ::
    "(string \<Rightarrow> string \<Rightarrow> int) \<Rightarrow> DirectedGraph \<Rightarrow> INode \<Rightarrow> IRunData \<Rightarrow> IPinData \<Rightarrow> SourceConnectionGroup list" where
  "getSourceDataGroups localeCompare graph node runData pinnedData =
     (let cs = getConnections graph (Some node);
          withData = filter (has_data runData pinnedData) cs;
          withoutData = filter (\<lambda>c. \<not> has_data runData pinnedData c \<and> gc_type c = MainType) cs
      in if withData = [] \<and> withoutData = [] then []
         else groups_loop (js_sort (sortByInputIndexThenByName localeCompare) withData)
           (js_sort (sortByInputIndexThenByName localeCompare) withoutData) [] newGroup
           (min_input withData withoutData - 1))"

text \<open>A group: at least one connection, on consecutive inputs, complete if all of them have data.\<close>

definition consecutive :: "GraphConnection list \<Rightarrow> bool" where
  "consecutive cs \<longleftrightarrow> map gc_inputIndex cs = [gc_inputIndex (hd cs) ..< gc_inputIndex (hd cs) + length cs]"

definition group_ok :: "(GraphConnection \<Rightarrow> bool) \<Rightarrow> SourceConnectionGroup \<Rightarrow> bool" where
  "group_ok has grp \<longleftrightarrow> grp_connections grp \<noteq> [] \<and> consecutive (grp_connections grp)
     \<and> (grp_complete grp \<longleftrightarrow> (\<forall>c \<in> set (grp_connections grp). has c))"

lemma consecutive_single [simp]: "consecutive [c]"
  by (simp add: consecutive_def)

lemma consecutive_snoc:
  assumes "consecutive cs" and "cs \<noteq> []" and "gc_inputIndex c = gc_inputIndex (last cs) + 1"
  shows "consecutive (cs @ [c])"
proof -
  let ?a = "gc_inputIndex (hd cs)"
  have "gc_inputIndex (last cs) = last (map gc_inputIndex cs)" using assms(2) by (simp add: last_map)
  also have "\<dots> = ?a + length cs - 1" using assms(1,2) unfolding consecutive_def by simp
  finally have "gc_inputIndex c = ?a + length cs" using assms(2,3) by simp
  with assms(1,2) show ?thesis by (simp add: consecutive_def)
qed

definition current_ok :: "(GraphConnection \<Rightarrow> bool) \<Rightarrow> GraphConnection set \<Rightarrow> SourceConnectionGroup \<Rightarrow> int \<Rightarrow> bool" where
  "current_ok has rest grp i \<longleftrightarrow>
     (if grp_connections grp = [] then grp_complete grp \<and> (\<exists>c \<in> rest. input_at (i + 1) c)
      else group_ok has grp \<and> input_at i (last (grp_connections grp)))"

lemma current_ok_add:
  assumes "current_ok has rest grp i" and "input_at (i + 1) c"
  shows "has c \<Longrightarrow> current_ok has rest' (grp\<lparr>grp_connections := grp_connections grp @ [c]\<rparr>) (i + 1)"
    and "\<not> has c \<Longrightarrow> current_ok has rest' (grp\<lparr>grp_connections := grp_connections grp @ [c], grp_complete := False\<rparr>) (i + 1)"
proof -
  have "consecutive (grp_connections grp @ [c])"
  proof (cases "grp_connections grp = []")
    case False
    then have ok: "consecutive (grp_connections grp)" and "input_at i (last (grp_connections grp))"
      using assms(1) by (simp_all add: current_ok_def group_ok_def)
    then have "int (gc_inputIndex c) = int (gc_inputIndex (last (grp_connections grp)) + 1)" using assms(2) by simp
    then show ?thesis by (intro consecutive_snoc [OF ok False]) simp
  qed simp
  then show "has c \<Longrightarrow> current_ok has rest' (grp\<lparr>grp_connections := grp_connections grp @ [c]\<rparr>) (i + 1)"
    and "\<not> has c \<Longrightarrow> current_ok has rest' (grp\<lparr>grp_connections := grp_connections grp @ [c], grp_complete := False\<rparr>) (i + 1)"
    using assms by (auto simp: current_ok_def group_ok_def split: if_splits)
qed

lemma groups_loop_spec:
  assumes "\<forall>grp \<in> set groups. group_ok has grp" and "\<forall>c \<in> set cs. has c" and "\<forall>c \<in> set ds. \<not> has c"
    and "current_ok has (set cs \<union> set ds) cur i"
  shows "(\<forall>grp \<in> set (groups_loop cs ds groups cur i). group_ok has grp)
    \<and> mset (concat (map grp_connections (groups_loop cs ds groups cur i)))
      = mset (concat (map grp_connections groups)) + mset (grp_connections cur) + mset cs + mset ds"
  using assms
proof (induction cs ds groups cur i rule: groups_loop.induct)
  case (1 cs ds groups cur i)
  note simps = groups_loop.simps [of cs ds groups cur i]
  show ?case
  proof (cases "cs = [] \<and> ds = []")
    case True
    then have "groups_loop cs ds groups cur i = groups @ [cur]" unfolding simps by simp
    with True "1.prems" show ?thesis by (auto simp: current_ok_def split: if_splits)
  next
    case False
    show ?thesis
    proof (cases "find_index (input_at (i + 1)) cs")
      case (Some k)
      then have k: "k < length cs" "input_at (i + 1) (cs ! k)" by (auto dest: find_index_Some)
      have "current_ok has (set (arr_remove cs k) \<union> set ds) (cur\<lparr>grp_connections := grp_connections cur @ [cs ! k]\<rparr>) (i + 1)"
        using current_ok_add(1) [OF "1.prems"(4) k(2)] "1.prems"(2) k(1) by simp
      moreover have "\<forall>c \<in> set (arr_remove cs k). has c" using "1.prems"(2) set_arr_remove [of cs k] by blast
      ultimately show ?thesis
        using "1.IH"(3) [OF False refl Some "1.prems"(1) _ "1.prems"(3)] mset_arr_remove [OF k(1)] False Some
        by (simp add: simps)
    next
      case None
      show ?thesis
      proof (cases "find_index (input_at (i + 1)) ds")
        case (Some k)
        then have k: "k < length ds" "input_at (i + 1) (ds ! k)" by (auto dest: find_index_Some)
        have "current_ok has (set cs \<union> set (arr_remove ds k))
            (cur\<lparr>grp_connections := grp_connections cur @ [ds ! k], grp_complete := False\<rparr>) (i + 1)"
          using current_ok_add(2) [OF "1.prems"(4) k(2)] "1.prems"(3) k(1) by simp
        moreover have "\<forall>c \<in> set (arr_remove ds k). \<not> has c" using "1.prems"(3) set_arr_remove [of ds k] by blast
        ultimately show ?thesis
          using "1.IH"(2) [OF False refl None Some "1.prems"(1,2)] mset_arr_remove [OF k(1)] False None Some
          by (simp add: simps)
      next
        case none: None
        have "\<not> (\<exists>c \<in> set cs \<union> set ds. input_at (i + 1) c)" using None none by (auto simp: find_index_None)
        with "1.prems"(4) have cur: "group_ok has cur" by (auto simp: current_ok_def split: if_splits)
        have "current_ok has (set cs \<union> set ds) newGroup (min_input cs ds - 1)"
          using min_input_found [of cs ds] False by (simp add: current_ok_def newGroup_def)
        moreover have "\<forall>grp \<in> set (groups @ [cur]). group_ok has grp" using cur "1.prems"(1) by auto
        moreover have "groups_loop cs ds groups cur i = groups_loop cs ds (groups @ [cur]) newGroup (min_input cs ds - 1)"
          unfolding simps if_not_P [OF False] Let_def None none option.case by (rule refl)
        moreover have "mset (concat (map grp_connections (groups @ [cur]))) + mset (grp_connections newGroup)
            = mset (concat (map grp_connections groups)) + mset (grp_connections cur)" by (simp add: newGroup_def)
        ultimately show ?thesis
          using "1.IH"(1) [OF False refl None none _ "1.prems"(2,3)] by presburger
      qed
    qed
  qed
qed

lemma getSourceDataGroups_spec:
  defines "eligible rd pin c \<equiv> has_data rd pin c \<or> gc_type c = MainType"
  shows "(\<forall>grp \<in> set (getSourceDataGroups lc g node rd pin). group_ok (has_data rd pin) grp)
    \<and> mset (concat (map grp_connections (getSourceDataGroups lc g node rd pin)))
      = mset (filter (\<lambda>c. gc_to c = node \<and> eligible rd pin c) (values_of (dg_connections g)))"
proof -
  let ?cs = "filter (has_data rd pin) (getConnections g (Some node))"
  let ?ds = "filter (\<lambda>c. \<not> has_data rd pin c \<and> gc_type c = MainType) (getConnections g (Some node))"
  have "mset (filter P (filter N xs)) + mset (filter (\<lambda>c. \<not> P c \<and> M c) (filter N xs)) = mset (filter (\<lambda>c. N c \<and> (P c \<or> M c)) xs)"
    for P N M and xs :: "GraphConnection list" by (induction xs) (auto simp del: mset_filter)
  note this [where P = "has_data rd pin" and N = "\<lambda>c. gc_to c = node" and M = "\<lambda>c. gc_type c = MainType"
    and xs = "values_of (dg_connections g)"]
  then have m: "mset ?cs + mset ?ds = mset (filter (\<lambda>c. gc_to c = node \<and> eligible rd pin c) (values_of (dg_connections g)))"
    by (simp only: getConnections_def eligible_def option.case)
  show ?thesis
  proof (cases "?cs = [] \<and> ?ds = []")
    case True
    then have "getSourceDataGroups lc g node rd pin = []" by (simp add: getSourceDataGroups_def Let_def)
    with True m show ?thesis by simp
  next
    case False
    let ?sort = "js_sort (sortByInputIndexThenByName lc)"
    have e: "getSourceDataGroups lc g node rd pin = groups_loop (?sort ?cs) (?sort ?ds) [] newGroup (min_input ?cs ?ds - 1)"
      unfolding getSourceDataGroups_def Let_def if_not_P [OF False] ..
    have cur: "current_ok (has_data rd pin) (set (?sort ?cs) \<union> set (?sort ?ds)) newGroup (min_input ?cs ?ds - 1)"
      using min_input_found [of ?cs ?ds] False by (simp add: current_ok_def newGroup_def)
    have has: "\<forall>c \<in> set (?sort ?cs). has_data rd pin c" "\<forall>c \<in> set (?sort ?ds). \<not> has_data rd pin c" by auto
    have none: "\<forall>grp \<in> set []. group_ok (has_data rd pin) grp" by simp
    have sums: "mset (concat (map grp_connections [])) + mset (grp_connections newGroup) + mset (?sort ?cs) + mset (?sort ?ds)
        = mset ?cs + mset ?ds" unfolding mset_js_sort by (simp add: newGroup_def del: mset_filter)
    from groups_loop_spec [OF none has cur] show ?thesis unfolding e m [symmetric] sums .
  qed
qed

section \<open>The waiting store\<close>

text \<open>
  The value at a node, a run index, an input type and an input, created on the way down. The code
  has the same function twice, for the items and for their sources.
\<close>

definition put_waiting ::
    "string \<Rightarrow> nat \<Rightarrow> NodeConnectionType \<Rightarrow> nat \<Rightarrow> 'v option
      \<Rightarrow> (string \<times> (nat \<times> (NodeConnectionType \<times> 'v option list) list) list) list
      \<Rightarrow> (string \<times> (nat \<times> (NodeConnectionType \<times> 'v option list) list) list) list" where
  "put_waiting nodeName runIndex inputType inputIndex v waiting =
     (let waitingObject = (case map_of waiting nodeName of None \<Rightarrow> [] | Some obj \<Rightarrow> obj);
          taskConnections = (case map_of waitingObject runIndex of None \<Rightarrow> [] | Some ts \<Rightarrow> ts);
          dataList = (case map_of taskConnections inputType of None \<Rightarrow> [] | Some l \<Rightarrow> l)
      in obj_set nodeName
           (idx_set runIndex (AList.update inputType (arr_set None dataList inputIndex v) taskConnections) waitingObject)
           waiting)"

definition addWaitingExecution ::
    "IWaitingForExecution \<Rightarrow> string \<Rightarrow> nat \<Rightarrow> NodeConnectionType \<Rightarrow> nat \<Rightarrow> INodeExecutionData list option
      \<Rightarrow> IWaitingForExecution" where
  "addWaitingExecution waitingExecution nodeName runIndex inputType inputIndex executionData =
     put_waiting nodeName runIndex inputType inputIndex executionData waitingExecution"

definition addWaitingExecutionSource ::
    "IWaitingForExecutionSource \<Rightarrow> string \<Rightarrow> nat \<Rightarrow> NodeConnectionType \<Rightarrow> nat \<Rightarrow> ISourceData option
      \<Rightarrow> IWaitingForExecutionSource" where
  "addWaitingExecutionSource waitingExecutionSource nodeName runIndex inputType inputIndex sourceData =
     put_waiting nodeName runIndex inputType inputIndex sourceData waitingExecutionSource"

section \<open>The execution stack\<close>

record ExecutionStack =
  st_stack :: "IExecuteData list"
  st_waiting :: IWaitingForExecution
  st_waitingSource :: IWaitingForExecutionSource

definition start_entry :: "INode \<Rightarrow> IExecuteData" where
  "start_entry startNode = \<lparr>ex_node = startNode, ex_data = [(MainType, [Some [empty_item]])],
     ex_source = None, ex_metadata = None\<rparr>"

definition source_of :: "GraphConnection \<Rightarrow> nat \<Rightarrow> ISourceData" where
  "source_of c runIndex = \<lparr>previousNode = node_name (gc_from c), previousNodeOutput = Some (gc_outputIndex c),
     previousNodeRun = Some runIndex\<rparr>"

text \<open>One connection of a complete group: the items, if any, and the source are added to the lists.\<close>

definition add_incoming ::
    "IRunData \<Rightarrow> IPinData \<Rightarrow> GraphConnection \<Rightarrow> INodeExecutionData list list \<times> ISourceData list
      \<Rightarrow> (INodeExecutionData list list \<times> ISourceData list) res" where
  "add_incoming runData pinData c acc =
     (case acc of (incomingData, sources) \<Rightarrow>
       let sourceName = node_name (gc_from c) in
       case map_of pinData sourceName of
         Some items \<Rightarrow> Inr (incomingData @ [items], sources @ [source_of c 0])
       | None \<Rightarrow>
           if map_of runData sourceName = None then Inl AssertionError
           else bind_res (getIncomingDataFromAnyRun runData sourceName (gc_type c) (gc_outputIndex c)) (\<lambda>found.
             case found of
               Some (items, runIndex) \<Rightarrow> Inr (incomingData @ [items], sources @ [source_of c runIndex])
             | None \<Rightarrow> Inr (incomingData, sources @ [source_of c 0])))"

definition add_complete_group ::
    "INode \<Rightarrow> IRunData \<Rightarrow> IPinData \<Rightarrow> SourceConnectionGroup \<Rightarrow> ExecutionStack \<Rightarrow> ExecutionStack res" where
  "add_complete_group startNode runData pinData grp s =
     bind_res (fold_res (add_incoming runData pinData) (grp_connections grp) ([], [])) (\<lambda>(incomingData, sources).
       Inr (s\<lparr>st_stack := st_stack s @ [\<lparr>ex_node = startNode, ex_data = [(MainType, map Some incomingData)],
         ex_source = Some [(MainType, map Some sources)], ex_metadata = None\<rparr>]\<rparr>))"

text \<open>An incomplete group: what data there is waits under the next run index of the node.\<close>

definition add_waiting_group :: "INode \<Rightarrow> IRunData \<Rightarrow> SourceConnectionGroup \<Rightarrow> ExecutionStack \<Rightarrow> ExecutionStack res" where
  "add_waiting_group startNode runData grp s =
     (let nodeName = node_name startNode;
          nextRunIndex = (case map_of (st_waiting s) nodeName of None \<Rightarrow> 0 | Some runs \<Rightarrow> length runs)
      in fold_res (\<lambda>c s.
           bind_res (getIncomingDataFromAnyRun runData (node_name (gc_from c)) (gc_type c) (gc_outputIndex c)) (\<lambda>found.
             case found of
               None \<Rightarrow> Inr s
             | Some (items, _) \<Rightarrow> Inr (s\<lparr>
                 st_waiting := addWaitingExecution (st_waiting s) nodeName nextRunIndex (gc_type c) (gc_inputIndex c) (Some items),
                 st_waitingSource := addWaitingExecutionSource (st_waitingSource s) nodeName nextRunIndex (gc_type c)
                   (gc_inputIndex c) (Some (source_of c nextRunIndex))\<rparr>)))
         (grp_connections grp) s)"

definition add_start_node ::
    "(string \<Rightarrow> string \<Rightarrow> int) \<Rightarrow> DirectedGraph \<Rightarrow> IRunData \<Rightarrow> IPinData \<Rightarrow> INode \<Rightarrow> ExecutionStack \<Rightarrow> ExecutionStack res" where
  "add_start_node localeCompare graph runData pinData startNode s =
     bind_res (getDirectParentConnections graph startNode) (\<lambda>parentConnections.
       if filter (\<lambda>c. gc_type c = MainType) parentConnections = []
       then Inr (s\<lparr>st_stack := st_stack s @ [start_entry startNode]\<rparr>)
       else fold_res (\<lambda>grp s.
           if grp_complete grp then add_complete_group startNode runData pinData grp s
           else add_waiting_group startNode runData grp s)
         (getSourceDataGroups localeCompare graph startNode runData pinData) s)"

definition recreateNodeExecutionStack ::
    "(string \<Rightarrow> string \<Rightarrow> int) \<Rightarrow> DirectedGraph \<Rightarrow> INode list \<Rightarrow> IRunData \<Rightarrow> IPinData \<Rightarrow> ExecutionStack res" where
  "recreateNodeExecutionStack localeCompare graph startNodes runData pinData =
     (if \<exists>n \<in> set (values_of (dg_nodes graph)). disabled n = Some True then Inl AssertionError
      else fold_res (add_start_node localeCompare graph runData pinData) startNodes
        \<lparr>st_stack = [], st_waiting = [], st_waitingSource = []\<rparr>)"

section \<open>The two waiting stores agree\<close>

text \<open>Where a store has a value: the store with every value forgotten.\<close>

definition map_values :: "('v \<Rightarrow> 'w) \<Rightarrow> ('k \<times> 'v) list \<Rightarrow> ('k \<times> 'w) list" where
  "map_values f = map (\<lambda>(k, v). (k, f v))"

definition shape ::
    "(string \<times> (nat \<times> (NodeConnectionType \<times> 'v option list) list) list) list
      \<Rightarrow> (string \<times> (nat \<times> (NodeConnectionType \<times> unit option list) list) list) list" where
  "shape = map_values (map_values (map_values (map (map_option (\<lambda>_. ())))))"

lemma map_of_map_values: "map_of (map_values f xs) k = map_option f (map_of xs k)"
  by (induction xs) (auto simp: map_values_def)

lemma keys_map_values [simp]: "keys_of (map_values f xs) = keys_of xs"
  by (simp add: map_values_def comp_def case_prod_unfold)

lemma update_map_values: "AList.update k (f v) (map_values f xs) = map_values f (AList.update k v xs)"
  by (induction xs) (auto simp: map_values_def)

lemma obj_insert_index_map_values: "obj_insert_index k (f v) (map_values f xs) = map_values f (obj_insert_index k v xs)"
  by (induction xs) (auto simp: map_values_def)

lemma obj_set_map_values: "obj_set k (f v) (map_values f xs) = map_values f (obj_set k v xs)"
proof -
  have "fst ` set (map_values f xs) = fst ` set xs" by (force simp: map_values_def)
  moreover have "map_values f xs @ [(k, f v)] = map_values f (xs @ [(k, v)])" by (simp add: map_values_def)
  ultimately show ?thesis by (simp add: obj_set_def update_map_values obj_insert_index_map_values)
qed

lemma idx_set_map_values: "idx_set k (f v) (map_values f xs) = map_values f (idx_set k v xs)"
  by (induction xs) (auto simp: map_values_def)

lemma arr_set_map: "arr_set (f hole) (map f xs) i (f v) = map f (arr_set hole xs i v)"
  by (simp add: arr_set_def map_update)

lemma shape_put_waiting:
  "shape (put_waiting nm r t i v w) = put_waiting nm r t i (map_option (\<lambda>_. ()) v) (shape w)"
proof -
  let ?u = "map_option (\<lambda>_. ())"
  have none: "None = ?u None" by simp
  have list: "arr_set None (map ?u l) i (?u v) = map ?u (arr_set None l i v)" for l :: "'a option list"
    using arr_set_map [of ?u None l i v] by simp
  show ?thesis
    unfolding put_waiting_def shape_def Let_def
    by (simp add: map_of_map_values list [symmetric] obj_set_map_values [symmetric] idx_set_map_values [symmetric]
        update_map_values [symmetric] split: option.split) (auto simp: map_values_def)
qed

lemma add_waiting_group_ok:
  assumes "\<forall>c \<in> set (grp_connections grp). \<exists>d. getIncomingDataFromAnyRun rd (node_name (gc_from c)) (gc_type c) (gc_outputIndex c) = Inr d"
    and "shape (st_waiting s) = shape (st_waitingSource s)"
  shows "\<exists>s'. add_waiting_group n rd grp s = Inr s' \<and> shape (st_waiting s') = shape (st_waitingSource s') \<and> st_stack s' = st_stack s"
  unfolding add_waiting_group_def Let_def
proof (rule fold_res_inv [where I = "\<lambda>s'. shape (st_waiting s') = shape (st_waitingSource s') \<and> st_stack s' = st_stack s"], goal_cases)
  case (2 c s')
  with assms(1) obtain d where
    d: "getIncomingDataFromAnyRun rd (node_name (gc_from c)) (gc_type c) (gc_outputIndex c) = Inr d" by blast
  show ?case
    using 2 by (cases d) (auto simp: d addWaitingExecution_def addWaitingExecutionSource_def shape_put_waiting)
qed (simp add: assms(2))

text \<open>What a connection brings in: pinned items, or the items of the first run that has some.\<close>

definition incoming_of :: "IRunData \<Rightarrow> IPinData \<Rightarrow> GraphConnection \<Rightarrow> (INodeExecutionData list \<times> nat) option" where
  "incoming_of rd pin c =
     (case map_of pin (node_name (gc_from c)) of
        Some items \<Rightarrow> Some (items, 0)
      | None \<Rightarrow>
          if map_of rd (node_name (gc_from c)) = None then None
          else (case getIncomingDataFromAnyRun rd (node_name (gc_from c)) (gc_type c) (gc_outputIndex c) of
              Inr found \<Rightarrow> found | Inl _ \<Rightarrow> None))"

definition group_entry :: "INode \<Rightarrow> IRunData \<Rightarrow> IPinData \<Rightarrow> SourceConnectionGroup \<Rightarrow> IExecuteData" where
  "group_entry n rd pin grp = \<lparr>ex_node = n,
     ex_data = [(MainType, map (\<lambda>c. map_option fst (incoming_of rd pin c)) (grp_connections grp))],
     ex_source = Some [(MainType, map (\<lambda>c. map_option (\<lambda>x. source_of c (snd x)) (incoming_of rd pin c)) (grp_connections grp))],
     ex_metadata = None\<rparr>"

lemma fold_add_incoming:
  assumes "\<forall>c \<in> set cs. incoming_of rd pin c \<noteq> None"
  shows "\<exists>ds ss. fold_res (add_incoming rd pin) cs (ds0, ss0) = Inr (ds0 @ ds, ss0 @ ss)
    \<and> map Some ds = map (\<lambda>c. map_option fst (incoming_of rd pin c)) cs
    \<and> map Some ss = map (\<lambda>c. map_option (\<lambda>x. source_of c (snd x)) (incoming_of rd pin c)) cs"
  using assms
proof (induction cs arbitrary: ds0 ss0)
  case (Cons c cs)
  from Cons.prems obtain items i where inc: "incoming_of rd pin c = Some (items, i)" by auto
  then have step: "add_incoming rd pin c (ds0, ss0) = Inr (ds0 @ [items], ss0 @ [source_of c i])"
    by (auto simp: incoming_of_def add_incoming_def split: option.splits sum.splits if_splits)
  from Cons.IH [of "ds0 @ [items]" "ss0 @ [source_of c i]"] Cons.prems obtain ds ss where
    "fold_res (add_incoming rd pin) cs (ds0 @ [items], ss0 @ [source_of c i]) = Inr (ds0 @ items # ds, ss0 @ source_of c i # ss)"
    "map Some ds = map (\<lambda>c. map_option fst (incoming_of rd pin c)) cs"
    "map Some ss = map (\<lambda>c. map_option (\<lambda>x. source_of c (snd x)) (incoming_of rd pin c)) cs" by auto
  with step inc show ?case by (intro exI [of _ "items # ds"] exI [of _ "source_of c i # ss"]) simp
qed simp

lemma add_complete_group_ok:
  assumes "\<forall>c \<in> set (grp_connections grp). incoming_of rd pin c \<noteq> None"
  shows "add_complete_group n rd pin grp s = Inr (s\<lparr>st_stack := st_stack s @ [group_entry n rd pin grp]\<rparr>)"
  using fold_add_incoming [OF assms, of "[]" "[]"] by (auto simp: add_complete_group_def group_entry_def)

text \<open>
  Run data that feeds the start nodes: every output they are connected to can be read, and has items
  in some run if its node has run data and no pinned data.
\<close>

definition feeds :: "DirectedGraph \<Rightarrow> IRunData \<Rightarrow> IPinData \<Rightarrow> INode \<Rightarrow> bool" where
  "feeds g rd pin n \<longleftrightarrow> (\<forall>c \<in> edges g. gc_to c = n \<longrightarrow>
     (\<exists>d. getIncomingDataFromAnyRun rd (node_name (gc_from c)) (gc_type c) (gc_outputIndex c) = Inr d)
     \<and> (has_data rd pin c \<longrightarrow> incoming_of rd pin c \<noteq> None))"

definition stack_entries :: "(string \<Rightarrow> string \<Rightarrow> int) \<Rightarrow> DirectedGraph \<Rightarrow> IRunData \<Rightarrow> IPinData \<Rightarrow> INode \<Rightarrow> IExecuteData list" where
  "stack_entries lc g rd pin n =
     (if \<exists>c \<in> edges g. gc_to c = n \<and> gc_type c = MainType
      then map (group_entry n rd pin) (filter grp_complete (getSourceDataGroups lc g n rd pin))
      else [start_entry n])"

lemma add_start_node_ok:
  assumes n: "node_in g n" and feeds: "feeds g rd pin n" and shape: "shape (st_waiting s) = shape (st_waitingSource s)"
  shows "\<exists>s'. add_start_node lc g rd pin n s = Inr s' \<and> shape (st_waiting s') = shape (st_waitingSource s')
    \<and> st_stack s' = st_stack s @ stack_entries lc g rd pin n"
proof (cases "\<exists>c \<in> edges g. gc_to c = n \<and> gc_type c = MainType")
  case False
  then have "filter (\<lambda>c. gc_type c = MainType) (filter (\<lambda>c. gc_to c = n) (values_of (dg_connections g))) = []"
    by (auto simp: filter_empty_conv)
  moreover have "stack_entries lc g rd pin n = [start_entry n]" unfolding stack_entries_def if_not_P [OF False] ..
  ultimately show ?thesis using n shape by (simp add: add_start_node_def getDirectParentConnections_def)
next
  case True
  let ?groups = "getSourceDataGroups lc g n rd pin"
  note spec = getSourceDataGroups_spec [of lc g n rd pin]
  have in_edges: "c \<in> edges g \<and> gc_to c = n" if "grp \<in> set ?groups" "c \<in> set (grp_connections grp)" for grp c
  proof -
    have "c \<in> set (concat (map grp_connections ?groups))" using that by auto
    also have "\<dots> = set_mset (mset (concat (map grp_connections ?groups)))" by simp
    finally show ?thesis unfolding conjunct2 [OF spec] set_mset_mset set_filter by blast
  qed
  have step: "\<exists>s'. (if grp_complete grp then add_complete_group n rd pin grp s else add_waiting_group n rd grp s) = Inr s'
      \<and> shape (st_waiting s') = shape (st_waitingSource s')
      \<and> st_stack s' = st_stack s @ (if grp_complete grp then [group_entry n rd pin grp] else [])"
    if grp: "grp \<in> set ?groups" and shape: "shape (st_waiting s) = shape (st_waitingSource s)" for grp s
  proof (cases "grp_complete grp")
    case True
    have "incoming_of rd pin c \<noteq> None" if c: "c \<in> set (grp_connections grp)" for c
    proof -
      have "has_data rd pin c" using conjunct1 [OF spec] grp True c by (auto simp: group_ok_def)
      with in_edges [OF grp c] feeds show ?thesis unfolding feeds_def by blast
    qed
    then show ?thesis using add_complete_group_ok shape True by simp
  next
    case False
    have "\<forall>c \<in> set (grp_connections grp). \<exists>d. getIncomingDataFromAnyRun rd (node_name (gc_from c)) (gc_type c) (gc_outputIndex c) = Inr d"
      using in_edges [OF grp] feeds unfolding feeds_def by blast
    from add_waiting_group_ok [OF this shape] False show ?thesis by simp
  qed
  have fold: "\<exists>s'. fold_res (\<lambda>grp s. if grp_complete grp then add_complete_group n rd pin grp s
        else add_waiting_group n rd grp s) gs s = Inr s' \<and> shape (st_waiting s') = shape (st_waitingSource s')
      \<and> st_stack s' = st_stack s @ map (group_entry n rd pin) (filter grp_complete gs)"
    if "set gs \<subseteq> set ?groups" "shape (st_waiting s) = shape (st_waitingSource s)" for gs s
    using that
  proof (induction gs arbitrary: s)
    case (Cons grp gs)
    with step [of grp s] obtain s1 where
      s1: "(if grp_complete grp then add_complete_group n rd pin grp s else add_waiting_group n rd grp s) = Inr s1"
      "shape (st_waiting s1) = shape (st_waitingSource s1)"
      "st_stack s1 = st_stack s @ (if grp_complete grp then [group_entry n rd pin grp] else [])" by auto
    from Cons.IH [OF _ s1(2)] Cons.prems(1) s1(1,3) show ?case by (cases "grp_complete grp") simp_all
  qed simp
  from True obtain c where "c \<in> set (filter (\<lambda>c. gc_type c = MainType) (filter (\<lambda>c. gc_to c = n) (values_of (dg_connections g))))"
    by (auto simp del: set_map)
  then have "filter (\<lambda>c. gc_type c = MainType) (filter (\<lambda>c. gc_to c = n) (values_of (dg_connections g))) \<noteq> []"
    by (metis empty_iff list.set(1))
  moreover have "stack_entries lc g rd pin n = map (group_entry n rd pin) (filter grp_complete ?groups)"
    unfolding stack_entries_def if_P [OF True] ..
  ultimately show ?thesis
    using fold [OF subset_refl shape] n by (simp add: add_start_node_def getDirectParentConnections_def)
qed

lemma recreateNodeExecutionStack_spec:
  assumes enabled: "\<forall>n \<in> set (values_of (dg_nodes g)). disabled n \<noteq> Some True"
    and starts: "\<forall>n \<in> set starts. node_in g n \<and> feeds g rd pin n"
  shows "\<exists>s. recreateNodeExecutionStack lc g starts rd pin = Inr s
    \<and> st_stack s = concat (map (stack_entries lc g rd pin) starts)
    \<and> shape (st_waiting s) = shape (st_waitingSource s)"
proof -
  have "\<exists>s'. fold_res (add_start_node lc g rd pin) ns s = Inr s' \<and> shape (st_waiting s') = shape (st_waitingSource s')
      \<and> st_stack s' = st_stack s @ concat (map (stack_entries lc g rd pin) ns)"
    if "\<forall>n \<in> set ns. node_in g n \<and> feeds g rd pin n" "shape (st_waiting s) = shape (st_waitingSource s)" for ns s
    using that
  proof (induction ns arbitrary: s)
    case (Cons n ns)
    with add_start_node_ok [of g n rd pin s lc] obtain s1 where
      s1: "add_start_node lc g rd pin n s = Inr s1" "shape (st_waiting s1) = shape (st_waitingSource s1)"
      "st_stack s1 = st_stack s @ stack_entries lc g rd pin n" by auto
    from Cons.IH [OF _ s1(2)] Cons.prems(1) s1(1,3) show ?case by simp
  qed simp
  from this [OF starts, of "\<lparr>st_stack = [], st_waiting = [], st_waitingSource = []\<rparr>"] enabled show ?thesis
    by (auto simp: recreateNodeExecutionStack_def shape_def map_values_def simp del: set_map)
qed

section \<open>Properties\<close>

text \<open>
  C15: the connections into a node are divided into groups, each connection with data and each main
  connection in exactly one of them; a group holds connections of consecutive inputs, at most one
  for each, and is complete exactly if all of them have data. The division ends for every graph.
\<close>

theorem getSourceDataGroups_partition:
  "(\<forall>grp \<in> set (getSourceDataGroups localeCompare g node runData pinData). group_ok (has_data runData pinData) grp)
    \<and> mset (concat (map grp_connections (getSourceDataGroups localeCompare g node runData pinData)))
      = mset (filter (\<lambda>c. gc_to c = node \<and> (has_data runData pinData c \<or> gc_type c = MainType))
          (values_of (dg_connections g)))"
  by (rule getSourceDataGroups_spec)

theorem getSourceDataGroups_partition_witness:
  "\<exists>grp. grp \<in> set (getSourceDataGroups (\<lambda>_ _. 0) example_graph node_A example_run [])
    \<and> grp_connections grp = [edge node_T node_A] \<and> grp_complete grp"
proof -
  let ?groups = "getSourceDataGroups (\<lambda>_ _. 0) example_graph node_A example_run []"
  note parts = getSourceDataGroups_partition [of "\<lambda>_ _. 0" example_graph node_A example_run "[]"]
  have "filter (\<lambda>c. gc_to c = node_A \<and> (has_data example_run [] c \<or> gc_type c = MainType))
      (values_of (dg_connections example_graph)) = [edge node_T node_A]"
    by (simp add: example_graph_def graph_of_def example_nodes_defs)
  then have one: "concat (map grp_connections ?groups) = [edge node_T node_A]"
    using conjunct2 [OF parts] by simp
  then have "edge node_T node_A \<in> set (concat (map grp_connections ?groups))" by simp
  then obtain grp where grp: "grp \<in> set ?groups" "edge node_T node_A \<in> set (grp_connections grp)" by auto
  then obtain gs hs where "?groups = gs @ grp # hs" by (meson split_list)
  with one grp(2) have "grp_connections grp = [edge node_T node_A]" by (auto simp: append_eq_Cons_conv)
  moreover from this grp(1) parts have "grp_complete grp"
    by (auto simp: group_ok_def has_data_def example_run_def example_nodes_defs)
  ultimately show ?thesis using grp(1) by blast
qed



text \<open>A node whose two inputs come from a run without items and a run with one.\<close>

definition gap_graph :: DirectedGraph where
  "gap_graph = graph_of [node_T, node_A, node_B]
     [edge node_A node_B, (edge node_T node_B)\<lparr>gc_inputIndex := 1\<rparr>]"

definition gap_run :: IRunData where
  "gap_run = [(''T'', [example_task]), (''A'', [example_task\<lparr>td_data := Some [(MainType, [Some []])]\<rparr>])]"

text \<open>
  when a source ran without items on the output in question, its source is put on the entry but
  no items are: the entry has two sources and one list of items, and the items of the second input
  arrive at the first.
\<close>

theorem recreateNodeExecutionStack_misaligned:
  "\<exists>s e. recreateNodeExecutionStack (\<lambda>_ _. 0) gap_graph [node_B] gap_run [] = Inr s \<and> st_stack s = [e]
    \<and> map (\<lambda>(t, l). (t, length l)) (ex_data e) = [(MainType, 1)]
    \<and> map_option (map (\<lambda>(t, l). (t, length l))) (ex_source e) = Some [(MainType, 2)]"
proof -
  have "(case recreateNodeExecutionStack (\<lambda>_ _. 0) gap_graph [node_B] gap_run [] of
      Inl _ \<Rightarrow> None
    | Inr s \<Rightarrow> Some (map (\<lambda>e. (map (\<lambda>(t, l). (t, length l)) (ex_data e),
        map_option (map (\<lambda>(t, l). (t, length l))) (ex_source e))) (st_stack s)))
      = Some [([(MainType, 1)], Some [(MainType, 2)])]" by code_simp
  then show ?thesis by (auto split: sum.splits)
qed

end
