(* ===== verification/EngineStart.thy ===== *)
theory EngineStart
  imports EngineRun PartialStack
begin

text \<open>
  How an execution is started: \<open>run\<close>, \<open>runPartialWorkflow\<close> and \<open>runPartialWorkflow2\<close> of
  \<open>workflow-execute.ts\<close>, each with the run data, the stack and the waiting stores it hands to
  \<open>processRunExecutionData\<close>.
\<close>

section \<open>A full execution\<close>

definition is_named :: "string option \<Rightarrow> bool" where
  "is_named name \<longleftrightarrow> name \<noteq> None \<and> name \<noteq> Some ''''"

definition first_data :: "ITaskDataConnections option \<Rightarrow> ITaskDataConnections" where
  "first_data triggerData = (case triggerData of None \<Rightarrow> [(MainType, [Some [empty_item]])] | Some d \<Rightarrow> d)"

definition run_start ::
    "Workflow \<Rightarrow> INode option \<Rightarrow> string option \<Rightarrow> IPinData \<Rightarrow> ITaskDataConnections option \<Rightarrow> RunExecutionData res" where
  "run_start w startNode destinationNode pinData triggerData =
     bind_res (case startNode of Some node \<Rightarrow> Inr (Some node) | None \<Rightarrow> getStartNode w destinationNode) (\<lambda>found.
       case found of
         None \<Rightarrow> Inl (ApplicationError ''No node to start the workflow from could be found'')
       | Some node \<Rightarrow>
           Inr (no_run\<lparr>rx_destinationNode := destinationNode,
             rx_runNodeFilter := (if is_named destinationNode
               then Some (getParentNodes w (the destinationNode) (OnlyType MainType) (-1) @ [the destinationNode]) else None),
             rx_pinData := pinData,
             rx_stack := [\<lparr>ex_node = node, ex_data = first_data triggerData, ex_source = None, ex_metadata = None\<rparr>]\<rparr>))"

definition run_workflow ::
    "'w engine_env \<Rightarrow> Workflow \<Rightarrow> INode option \<Rightarrow> string option \<Rightarrow> IPinData \<Rightarrow> ITaskDataConnections option
      \<Rightarrow> nat \<Rightarrow> 'w \<Rightarrow> (IRun \<times> 'w engine) option res" where
  "run_workflow env w startNode destinationNode pinData triggerData executionIndex world =
     bind_res (run_start w startNode destinationNode pinData triggerData) (\<lambda>s.
       processRunExecutionData env w s executionIndex world)"

section \<open>The first form of partial execution\<close>

definition recorded_items :: "IRunData \<Rightarrow> IConnection \<Rightarrow> INodeExecutionData list option" where
  "recorded_items rd c =
     (case tasks_of rd (conn_node c) of
        task # _ \<Rightarrow>
          (case Option.bind (td_data task) (\<lambda>d. map_of d (conn_type c)) of
             Some outputs \<Rightarrow> (case arr_get outputs (conn_index c) of Some d \<Rightarrow> d | None \<Rightarrow> None)
           | None \<Rightarrow> None)
      | [] \<Rightarrow> None)"

text \<open>One connection into a start node: its data, if any, and where they are from.\<close>

definition collect_input ::
    "Workflow \<Rightarrow> IRunData \<Rightarrow> IPinData option \<Rightarrow> StartNodeData \<Rightarrow> IConnection
      \<Rightarrow> INodeExecutionData list list \<times> ISourceData list \<Rightarrow> INodeExecutionData list list \<times> ISourceData list" where
  "collect_input w rd pinData startNode c acc =
     (case acc of (incomingData, sources) \<Rightarrow>
       let node = getNode w (conn_node c);
           pinned = Option.bind node (\<lambda>n. Option.bind pinData (\<lambda>pin. map_of pin (node_name n)));
           source = (case sn_sourceData startNode of Some d \<Rightarrow> d
             | None \<Rightarrow> \<lparr>previousNode = conn_node c, previousNodeOutput = None, previousNodeRun = None\<rparr>)
       in if Option.bind node disabled = Some True then acc
          else case pinned of
              Some items \<Rightarrow> (incomingData @ [items], sources @ [source])
            | None \<Rightarrow>
                if map_of rd (conn_node c) = None then acc
                else (case recorded_items rd c of
                    Some items \<Rightarrow> (incomingData @ [items], sources @ [source])
                  | None \<Rightarrow> (incomingData, sources @ [source])))"

text \<open>A start node that the workflow does not have makes the execution fail when its entry is read.\<close>

definition start_node_entry ::
    "Workflow \<Rightarrow> IRunData \<Rightarrow> IPinData option \<Rightarrow> StartNodeData \<Rightarrow> IExecuteData res" where
  "start_node_entry w rd pinData startNode =
     (case getNode w (sn_name startNode) of
        None \<Rightarrow> Inl TypeError
      | Some node \<Rightarrow>
          (case map_of (connectionsByDestinationNode w) (sn_name startNode) of
             None \<Rightarrow> Inr \<lparr>ex_node = node, ex_data = [(MainType, [Some [empty_item]])], ex_source = None, ex_metadata = None\<rparr>
           | Some byType \<Rightarrow>
               (case map_of byType MainType of
                  None \<Rightarrow> Inl TypeError
                | Some inputs \<Rightarrow>
                    (case fold (collect_input w rd pinData startNode) (concat (map conns_at inputs)) ([], []) of
                       (incomingData, sources) \<Rightarrow>
                         Inr \<lparr>ex_node = node, ex_data = [(MainType, map Some incomingData)],
                           ex_source = Some [(MainType, map Some sources)], ex_metadata = None\<rparr>))))"

definition push_waiting ::
    "string \<Rightarrow> NodeConnectionType \<Rightarrow> 'v option \<Rightarrow> 'v waiting_store \<Rightarrow> 'v waiting_store" where
  "push_waiting nodeName type v st =
     (let entry = (case entry_of st nodeName 0 of None \<Rightarrow> [] | Some e \<Rightarrow> e);
          values = (case map_of entry type of None \<Rightarrow> [] | Some l \<Rightarrow> l)
      in put_entry nodeName 0 (AList.update type (values @ [v]) entry) st)"

text \<open>
  One input of the destination: data recorded for it wait there. Run data without the output are a
  \<open>TypeError\<close>; an output past the end of the recorded ones, which is \<open>undefined\<close> in the code, is read as
  \<open>null\<close> here.
\<close>

definition wait_for_input ::
    "IRunData \<Rightarrow> string \<Rightarrow> IConnection \<Rightarrow> IWaitingForExecution \<times> IWaitingForExecutionSource
      \<Rightarrow> (IWaitingForExecution \<times> IWaitingForExecutionSource) res" where
  "wait_for_input rd destinationNode c acc =
     (case acc of (waiting, sources) \<Rightarrow>
       if map_of rd (conn_node c) = None
       then Inr (push_waiting destinationNode (conn_type c) None waiting,
                 push_waiting destinationNode (conn_type c) None sources)
       else (case tasks_of rd (conn_node c) of
           [] \<Rightarrow> Inl TypeError
         | task # _ \<Rightarrow>
             if Option.bind (td_data task) (\<lambda>d. map_of d (conn_type c)) = None then Inl TypeError
             else Inr (push_waiting destinationNode (conn_type c) (recorded_items rd c) waiting,
                       push_waiting destinationNode (conn_type c) (Some (parent_source (conn_node c) (conn_index c) 0)) sources)))"

definition wait_for_destination ::
    "Workflow \<Rightarrow> IRunData \<Rightarrow> string \<Rightarrow> IWaitingForExecution \<times> IWaitingForExecutionSource
      \<Rightarrow> (IWaitingForExecution \<times> IWaitingForExecutionSource) res" where
  "wait_for_destination w rd destinationNode acc =
     (case map_of (connectionsByDestinationNode w) destinationNode of
        None \<Rightarrow> Inr acc
      | Some byType \<Rightarrow>
          (case map_of byType MainType of
             None \<Rightarrow> Inl TypeError
           | Some inputs \<Rightarrow> fold_res (wait_for_input rd destinationNode) (concat (map conns_at inputs)) acc))"

text \<open>One start node: its entry, and once more the inputs of the destination.\<close>

definition start_at ::
    "Workflow \<Rightarrow> IRunData \<Rightarrow> string option \<Rightarrow> IPinData option \<Rightarrow> StartNodeData \<Rightarrow> RunExecutionData \<Rightarrow> RunExecutionData res" where
  "start_at w rd destinationNode pinData startNode s =
     bind_res (start_node_entry w rd pinData startNode) (\<lambda>entry.
       let s1 = s\<lparr>rx_stack := rx_stack s @ [entry]\<rparr> in
       if \<not> is_named destinationNode then Inr s1
       else let dest = the destinationNode in
         bind_res (wait_for_destination w rd dest (rx_waiting s1, rx_waitingSource s1)) (\<lambda>(waiting, sources).
           Inr (s1\<lparr>rx_waiting := waiting, rx_waitingSource := sources,
             rx_runNodeFilter := Some (filter (\<lambda>n. Option.bind (getNode w n) disabled \<noteq> Some True)
                 (getParentNodes w dest (OnlyType MainType) (-1)) @ [dest])\<rparr>)))"

definition runPartialWorkflow_start ::
    "Workflow \<Rightarrow> IRunData \<Rightarrow> StartNodeData list \<Rightarrow> string option \<Rightarrow> IPinData option \<Rightarrow> RunExecutionData res" where
  "runPartialWorkflow_start w rd startNodes destinationNode pinData =
     fold_res (start_at w rd destinationNode pinData) startNodes
       (no_run\<lparr>rx_destinationNode := destinationNode, rx_runData := rd,
         rx_pinData := (case pinData of None \<Rightarrow> [] | Some pin \<Rightarrow> pin)\<rparr>)"

definition runPartialWorkflow ::
    "'w engine_env \<Rightarrow> Workflow \<Rightarrow> IRunData \<Rightarrow> StartNodeData list \<Rightarrow> string option \<Rightarrow> IPinData option \<Rightarrow> 'w
      \<Rightarrow> (IRun \<times> 'w engine) option res" where
  "runPartialWorkflow env w rd startNodes destinationNode pinData world =
     bind_res (runPartialWorkflow_start w rd startNodes destinationNode pinData) (\<lambda>s.
       processRunExecutionData env w s (getNextExecutionIndex rd) world)"

section \<open>The second form of partial execution\<close>

text \<open>
  Whether a node is a tool. Of plain outputs only the first counts, as the search ends there; outputs that
  are an expression have a character there.
\<close>

fun tool_output :: "output_config list \<Rightarrow> bool" where
  "tool_output [] = False"
| "tool_output (PlainOutput type # outputs) = (type = AiTool)"
| "tool_output (OutputConfiguration type # outputs) = (type = Some AiTool \<or> tool_output outputs)"

definition isTool :: "INodeType \<Rightarrow> IDataObject \<Rightarrow> bool" where
  "isTool description params =
     (if str_includes ''vectorStore'' (nt_name description)
      then map_of params ''mode'' = Some (JStr ''retrieve-as-tool'')
      else case nt_outputs description of None \<Rightarrow> False | Some outputs \<Rightarrow> tool_output outputs)"

text \<open>
  What is outside a partial execution: the order of strings, the sort, and the default parameters that a
  new workflow gives its nodes.
\<close>

record partial_env =
  pe_localeCompare :: "string \<Rightarrow> string \<Rightarrow> int"
  pe_sort :: sort_fun
  pe_defaults :: "INodeType \<Rightarrow> INode \<Rightarrow> IDataObject option"

text \<open>
  A workflow that is built from a graph shares the nodes with it, and gives them their default parameters:
  the graph holds the nodes as they are afterwards.
\<close>

definition shared_node :: "Workflow \<Rightarrow> INode \<Rightarrow> INode" where
  "shared_node w n = (case getNode w (node_name n) of None \<Rightarrow> n | Some node \<Rightarrow> node)"

definition share_nodes :: "Workflow \<Rightarrow> DirectedGraph \<Rightarrow> DirectedGraph" where
  "share_nodes w g = g\<lparr>dg_nodes := map (\<lambda>(k, n). (k, shared_node w n)) (dg_nodes g),
     dg_connections := map (\<lambda>(k, c). (k, c\<lparr>gc_from := shared_node w (gc_from c), gc_to := shared_node w (gc_to c)\<rparr>)) (dg_connections g)\<rparr>"

definition rebuild :: "partial_env \<Rightarrow> Workflow \<Rightarrow> DirectedGraph \<Rightarrow> Workflow res" where
  "rebuild pe w g = toWorkflow (pe_defaults pe) (nodeTypes w) (executionOrder w) (wf_pinData w) g"

text \<open>The destination as a tool: the graph is rewired and the executor is the new destination.\<close>

definition as_tool ::
    "partial_env \<Rightarrow> Workflow \<Rightarrow> INode \<Rightarrow> AiAgentRequest option \<Rightarrow> DirectedGraph \<Rightarrow> (Workflow \<times> DirectedGraph \<times> INode) res" where
  "as_tool pe w destination agentRequest graph =
     bind_res (rewireGraph destination graph agentRequest) (\<lambda>(rewired_graph, _).
     bind_res (rebuild pe w rewired_graph) (\<lambda>w'.
       case getNode w' TOOL_EXECUTOR_NODE_NAME of
         None \<Rightarrow> Inl (OperationalError ''ToolExecutor can not be found'')
       | Some toolExecutorNode \<Rightarrow> Inr (w', share_nodes w' rewired_graph, toolExecutorNode)))"

text \<open>The run data of a partial execution, on the stack and the waiting stores built for it.\<close>

definition partial_state ::
    "string \<Rightarrow> string option \<Rightarrow> DirectedGraph \<Rightarrow> IRunData \<Rightarrow> IPinData \<Rightarrow> ExecutionStack \<Rightarrow> RunExecutionData" where
  "partial_state destinationName originalDestination graph rd pinData stack =
     no_run\<lparr>rx_destinationNode := Some destinationName, rx_originalDestinationNode := originalDestination,
       rx_runNodeFilter := Some (map node_name (values_of (dg_nodes graph))),
       rx_runData := rd, rx_pinData := pinData,
       rx_stack := st_stack stack, rx_waiting := st_waiting stack, rx_waitingSource := st_waitingSource stack\<rparr>"

text \<open>What is executed: the workflow, the run data, and the execution index when it is set anew.\<close>

type_synonym partial_plan = "Workflow \<times> RunExecutionData \<times> nat option"

text \<open>A destination without parents is executed alone.\<close>

definition plan_single ::
    "partial_env \<Rightarrow> Workflow \<Rightarrow> DirectedGraph \<Rightarrow> INode \<Rightarrow> IRunData \<Rightarrow> IPinData \<Rightarrow> partial_plan res" where
  "plan_single pe w graph destination rd pinData =
     bind_res (filterDisabledNodes graph) (\<lambda>enabled.
     bind_res (findSubgraph enabled destination destination) (\<lambda>subgraph.
     bind_res (cleanRunData rd subgraph [destination]) (\<lambda>rd'.
     bind_res (recreateNodeExecutionStack (pe_localeCompare pe) subgraph [destination] rd' pinData) (\<lambda>stack.
     bind_res (rebuild pe w subgraph) (\<lambda>w'.
       Inr (w', partial_state (node_name destination) None subgraph rd' pinData stack, None))))))"

definition plan_from_trigger ::
    "partial_env \<Rightarrow> Workflow \<Rightarrow> DirectedGraph \<Rightarrow> INode \<Rightarrow> string \<Rightarrow> IRunData \<Rightarrow> IPinData \<Rightarrow> string list \<Rightarrow> partial_plan res" where
  "plan_from_trigger pe w graph destination originalDestination rd pinData dirtyNodeNames =
     bind_res (findTriggerForPartialExecution (pe_sort pe) w (node_name destination) rd) (\<lambda>found.
       case found of
         None \<Rightarrow> Inl (UserError ''Connect a trigger to run this node'')
       | Some trigger \<Rightarrow>
           bind_res (filterDisabledNodes graph) (\<lambda>enabled.
           bind_res (findSubgraph enabled destination trigger) (\<lambda>subgraph.
           bind_res (cleanRunData rd subgraph (getNodesByNames subgraph dirtyNodeNames)) (\<lambda>rd1.
           bind_res (findStartNodes subgraph trigger destination pinData rd1) (\<lambda>startNodes.
           bind_res (handleCycles subgraph startNodes trigger) (\<lambda>startNodes'.
           bind_res (cleanRunData rd1 subgraph startNodes') (\<lambda>rd2.
           bind_res (recreateNodeExecutionStack (pe_localeCompare pe) subgraph startNodes' rd2 pinData) (\<lambda>stack.
             Inr (w, partial_state (node_name destination) (Some originalDestination) subgraph rd2 pinData stack,
               Some (getNextExecutionIndex rd2))))))))))"

definition runPartialWorkflow2_plan ::
    "partial_env \<Rightarrow> Workflow \<Rightarrow> IRunData \<Rightarrow> IPinData \<Rightarrow> string list \<Rightarrow> string option \<Rightarrow> AiAgentRequest option \<Rightarrow> partial_plan res" where
  "runPartialWorkflow2_plan pe w rd pinData dirtyNodeNames destinationName agentRequest =
     (if \<not> is_named destinationName then Inl AssertionError
      else case getNode w (the destinationName) of
          None \<Rightarrow> Inl AssertionError
        | Some destination \<Rightarrow>
            bind_res (fromWorkflow w) (\<lambda>graph.
              case node_type_of w destination of
                None \<Rightarrow> Inl TypeError
              | Some type \<Rightarrow>
                  if isTool type (parameters destination)
                  then bind_res (as_tool pe w destination agentRequest graph) (\<lambda>(w', graph', toolExecutorNode).
                    plan_from_trigger pe w' graph' toolExecutorNode (the destinationName) rd pinData dirtyNodeNames)
                  else bind_res (getDirectParentConnections graph destination) (\<lambda>parents.
                    if parents = [] then plan_single pe w graph destination rd pinData
                    else plan_from_trigger pe w graph destination (the destinationName) rd pinData dirtyNodeNames)))"

definition runPartialWorkflow2 ::
    "'w engine_env \<Rightarrow> partial_env \<Rightarrow> Workflow \<Rightarrow> IRunData \<Rightarrow> IPinData \<Rightarrow> string list \<Rightarrow> string option \<Rightarrow> AiAgentRequest option
      \<Rightarrow> nat \<Rightarrow> 'w \<Rightarrow> (IRun \<times> 'w engine) option res" where
  "runPartialWorkflow2 env pe w rd pinData dirtyNodeNames destinationName agentRequest executionIndex world =
     bind_res (runPartialWorkflow2_plan pe w rd pinData dirtyNodeNames destinationName agentRequest) (\<lambda>(w', s, index).
       processRunExecutionData env w' s (case index of None \<Rightarrow> executionIndex | Some i \<Rightarrow> i) world)"

section \<open>Only what the destination needs\<close>

lemma grows_from_nothing:
  assumes "grows s s'" and "rx_runData s = []" and "rx_runNodeFilter s = Some names" and "tasks_of (rx_runData s') n \<noteq> []"
  shows "n \<in> set names"
proof -
  obtain new where "tasks_of (rx_runData s') n = tasks_of (rx_runData s) n @ new" "on_filter s n \<or> new = []"
    using assms(1) by (auto simp: grows_def)
  with assms(2-4) show ?thesis by (auto simp: tasks_of_def on_filter_def)
qed

lemma numbered_Nil [simp]: "numbered i []"
  by (simp add: numbered_def tasks_of_def)

lemma new_engine_simps [simp]:
  "en_data (new_engine s i world) = s" "en_index (new_engine s i world) = i"
  by (simp_all add: new_engine_def)

text \<open>C5: An execution with a destination runs no other nodes than the destination and its ancestors over
  main connections, whatever it is started with, and gives each run an execution index of its own.\<close>

theorem run_executes_only_ancestors:
  assumes "run_start w startNode (Some dest) pinData triggerData = Inr s" and "dest \<noteq> ''''" and "wf_workflow w"
    and "run_loop env w (new_engine s i world) = Some (err, st')" and "tasks_of (rx_runData (en_data st')) n \<noteq> []"
  shows "(n = dest \<or> (n, dest) \<in> (into_rel (connectionsBySourceNode w) {MainType})\<^sup>+)
    \<and> numbered (en_index st') (rx_runData (en_data st'))"
proof -
  obtain node where "s = no_run\<lparr>rx_destinationNode := Some dest,
      rx_runNodeFilter := Some (getParentNodes w dest (OnlyType MainType) (-1) @ [dest]), rx_pinData := pinData,
      rx_stack := [\<lparr>ex_node = node, ex_data = first_data triggerData, ex_source = None, ex_metadata = None\<rparr>]\<rparr>"
    using assms(1,2) by (auto simp: run_start_def is_named_def bind_res_Inr_iff split: option.splits)
  then have s: "rx_runData s = []" "rx_runNodeFilter s = Some (getParentNodes w dest (OnlyType MainType) (-1) @ [dest])"
    by (simp_all add: no_run_def)
  have grown: "grows s (en_data st')" "numbered (en_index st') (rx_runData (en_data st'))"
    using run_loop_grows [OF assms(4)] s(1) by simp_all
  from grows_from_nothing [OF grown(1) s assms(5)] have "n \<in> set (getParentNodes w dest (OnlyType MainType) (-1) @ [dest])" by blast
  with grown(2) getParentNodes_reachable [OF assms(3), of dest "OnlyType MainType"] show ?thesis by auto
qed

lemma run_executes_only_ancestors_witness:
  "\<exists>s err st'. run_start example_workflow None (Some ''A'') [] None = Inr s
    \<and> run_loop steady_env example_workflow (new_engine s 0 0) = Some (err, st')
    \<and> (''T'', ''A'') \<in> (into_rel (connectionsBySourceNode example_workflow) {MainType})\<^sup>+"
proof -
  let ?check = "case run_start example_workflow None (Some ''A'') [] None of Inl _ \<Rightarrow> False
    | Inr s \<Rightarrow> (case run_loop steady_env example_workflow (new_engine s 0 0) of None \<Rightarrow> False
        | Some (err, st') \<Rightarrow> tasks_of (rx_runData (en_data st')) ''T'' \<noteq> [])"
  have ?check by code_simp
  then obtain s err st' where run: "run_start example_workflow None (Some ''A'') [] None = Inr s"
    "run_loop steady_env example_workflow (new_engine s 0 0) = Some (err, st')" "tasks_of (rx_runData (en_data st')) ''T'' \<noteq> []"
    by (auto split: sum.splits option.splits)
  with run_executes_only_ancestors [OF run(1) _ wf_example_workflow run(2,3)] show ?thesis by auto
qed

section \<open>What a partial execution keeps\<close>

text \<open>Cleaning drops the runs of a node or leaves them.\<close>

definition drops_runs :: "IRunData \<Rightarrow> IRunData \<Rightarrow> bool" where
  "drops_runs rd rd' \<longleftrightarrow> (\<forall>n. map_of rd' n = None \<or> map_of rd' n = map_of rd n) \<and> (distinct (keys_of rd) \<longrightarrow> distinct (keys_of rd'))"

lemma drops_runs_refl: "drops_runs rd rd"
  by (simp add: drops_runs_def)

lemma drops_runs_trans: "drops_runs a b \<Longrightarrow> drops_runs b c \<Longrightarrow> drops_runs a c"
  unfolding drops_runs_def by metis

lemma drops_runs_delete: "drops_runs rd (AList.delete n rd)"
  by (auto simp: drops_runs_def map_of_delete distinct_delete)

lemma drops_runs_filter: "distinct (keys_of rd) \<Longrightarrow> drops_runs rd (filter (\<lambda>(n, _). P n) rd)"
proof -
  have "map_of (filter (\<lambda>(n, _). P n) rd) n = (if P n then map_of rd n else None)" for n
    by (induction rd) auto
  then show ?thesis by (simp add: drops_runs_def distinct_map_filter)
qed

lemma drops_runs_fold:
  "fold_res f xs rd = Inr rd' \<Longrightarrow> (\<And>x rd rd'. f x rd = Inr rd' \<Longrightarrow> drops_runs rd rd') \<Longrightarrow> drops_runs rd rd'"
  by (rule fold_res_keeps [where I = "drops_runs rd"]) (auto intro: drops_runs_refl drops_runs_trans)

lemma clean_sub_nodes_drops: "drops_runs rd (clean_sub_nodes cs rd)"
proof (induction cs arbitrary: rd)
  case (Cons c cs)
  have "clean_sub_nodes (c # cs) rd
      = clean_sub_nodes cs (if gc_type c = MainType then rd else AList.delete (node_name (gc_from c)) rd)"
    by (simp add: clean_sub_nodes_def)
  with Cons drops_runs_trans [OF drops_runs_delete Cons] show ?case by (cases "gc_type c = MainType") simp_all
qed (simp add: clean_sub_nodes_def drops_runs_refl)

lemma clean_one_drops: "clean_one g n rd = Inr rd' \<Longrightarrow> drops_runs rd rd'"
  by (auto simp: clean_one_def bind_res_Inr_iff intro: drops_runs_trans [OF drops_runs_delete clean_sub_nodes_drops])

lemma clean_behind_drops: "clean_behind g n rd = Inr rd' \<Longrightarrow> drops_runs rd rd'"
  by (auto simp: clean_behind_def bind_res_Inr_iff
      intro: drops_runs_trans [OF drops_runs_delete drops_runs_trans [OF clean_one_drops drops_runs_fold [OF _ clean_one_drops]]])

lemma cleanRunData_drops:
  assumes "cleanRunData rd g ns = Inr rd'" and "distinct (keys_of rd)"
  shows "drops_runs rd rd'" and "distinct (keys_of rd')"
proof -
  obtain rd1 where fold: "fold_res (clean_behind g) ns rd = Inr rd1" and rd': "rd' = filter (\<lambda>(n, _). hasNode g n) rd1"
    using assms(1) by (auto simp: cleanRunData_def bind_res_Inr_iff)
  have "drops_runs rd rd1" by (rule drops_runs_fold [OF fold clean_behind_drops])
  moreover from this have "distinct (keys_of rd1)" using assms(2) by (simp add: drops_runs_def)
  ultimately show "drops_runs rd rd'" using drops_runs_trans [OF _ drops_runs_filter] unfolding rd' by blast
  with assms(2) show "distinct (keys_of rd')" by (simp add: drops_runs_def)
qed

lemma drops_runs_numbered:
  assumes "drops_runs rd rd'" and "numbered i rd" and "distinct (keys_of rd')"
  shows "numbered (getNextExecutionIndex rd') rd'"
proof -
  have tasks: "tasks_of rd' n = [] \<or> tasks_of rd' n = tasks_of rd n" for n
    using assms(1) by (metis drops_runs_def option.simps(4) tasks_of_def)
  have "k < getNextExecutionIndex rd'" if t: "t \<in> set (tasks_of rd' n)" "td_executionIndex t = Some k" for n t k
  proof -
    from t(1) obtain ts where "map_of rd' n = Some ts" "t \<in> set ts"
      by (cases "map_of rd' n") (simp_all add: tasks_of_def)
    then show ?thesis using getNextExecutionIndex_fresh [OF map_of_SomeD _ t(2)] by blast
  qed
  moreover have "n = m \<and> a = b" if "a < length (tasks_of rd' n)" "b < length (tasks_of rd' m)"
      "td_executionIndex (tasks_of rd' n ! a) = Some k" "td_executionIndex (tasks_of rd' m ! b) = Some k" for n m a b k
  proof -
    have "tasks_of rd' n = tasks_of rd n" "tasks_of rd' m = tasks_of rd m" using tasks [of n] tasks [of m] that(1,2) by auto
    with that assms(2) show ?thesis unfolding numbered_def by (metis (no_types, lifting))
  qed
  ultimately show ?thesis unfolding numbered_def by blast
qed

lemma plan_from_trigger_state:
  assumes "plan_from_trigger pe w g destination original rd pinData dirty = Inr (w', s, index)" and "distinct (keys_of rd)"
  obtains subgraph :: DirectedGraph where "rx_runNodeFilter s = Some (map node_name (values_of (dg_nodes subgraph)))"
    and "drops_runs rd (rx_runData s)" and "index = Some (getNextExecutionIndex (rx_runData s))" and "distinct (keys_of (rx_runData s))"
    and "w' = w"
proof -
  obtain subgraph :: DirectedGraph and rd1 rd2 ns1 ns2 stack where clean: "cleanRunData rd subgraph ns1 = Inr rd1" "cleanRunData rd1 subgraph ns2 = Inr rd2"
    and s: "s = partial_state (node_name destination) (Some original) subgraph rd2 pinData stack"
    and i: "index = Some (getNextExecutionIndex rd2)" and "w' = w"
    using assms(1) by (auto simp: plan_from_trigger_def bind_res_Inr_iff split: option.splits)
  note c1 = cleanRunData_drops [OF clean(1) assms(2)]
  note c2 = cleanRunData_drops [OF clean(2) c1(2)]
  show ?thesis
    by (rule that [of subgraph]) (use i \<open>w' = w\<close> c2 drops_runs_trans [OF c1(1) c2(1)] in \<open>simp_all add: s partial_state_def\<close>)
qed


definition plain_pe :: partial_env where
  "plain_pe = \<lparr>pe_localeCompare = (\<lambda>_ _. 0), pe_sort = js_sort, pe_defaults = (\<lambda>_ _. Some [])\<rparr>"

definition earlier_run :: IRunData where
  "earlier_run = [(''T'', [example_task\<lparr>td_executionIndex := Some 3\<rparr>]), (''A'', [example_task\<lparr>td_executionIndex := Some 4\<rparr>])]"

lemma numbered_earlier: "numbered 5 earlier_run"
proof -
  have "tasks_of earlier_run n = (if n = ''T'' then [example_task\<lparr>td_executionIndex := Some 3\<rparr>]
      else if n = ''A'' then [example_task\<lparr>td_executionIndex := Some 4\<rparr>] else [])" for n
    by (simp add: tasks_of_def earlier_run_def)
  then show ?thesis by (auto simp: numbered_def)
qed


section \<open>Inputs that wait twice\<close>

text \<open>A merge node that requires all its inputs, and both nodes before it as start nodes.\<close>

definition strict_merge :: Workflow where
  "strict_merge = merge_workflow\<lparr>nodeTypes := (\<lambda>ty _. Some ((example_type ty)\<lparr>nt_inputs := (if ty = ''merge'' then 2 else 1),
     nt_requiredInputs := (if ty = ''merge'' then Some (RequiredCount 2) else None)\<rparr>))\<rparr>"

definition both_inputs :: "StartNodeData list" where
  "both_inputs = map (\<lambda>n. \<lparr>sn_name = n, sn_sourceData = None\<rparr>) [''P'', ''Q'']"

text \<open>With several start nodes the inputs of the destination are put to wait once for every start node: here the
  merge node gets four inputs, of which only two can ever arrive, and the execution ends without it although both of
  its inputs have data.\<close>

theorem partial_waiting_repeated:
  "\<exists>s st'. runPartialWorkflow_start strict_merge [] both_inputs (Some ''M'') None = Inr s
    \<and> main_of (rx_waiting s) ''M'' 0 = Some [None, None, None, None]
    \<and> run_loop steady_env strict_merge (new_engine s 0 0) = Some (None, st')
    \<and> keys_of (rx_runData (en_data st')) = [''P'', ''Q'']
    \<and> map_option (map Option.is_none) (main_of (rx_waiting (en_data st')) ''M'' 0) = Some [False, False, True, True]"
proof -
  have "case runPartialWorkflow_start strict_merge [] both_inputs (Some ''M'') None of Inl _ \<Rightarrow> False
    | Inr s \<Rightarrow> main_of (rx_waiting s) ''M'' 0 = Some [None, None, None, None]
      \<and> (case run_loop steady_env strict_merge (new_engine s 0 0) of
          Some (None, st') \<Rightarrow> keys_of (rx_runData (en_data st')) = [''P'', ''Q'']
            \<and> map_option (map Option.is_none) (main_of (rx_waiting (en_data st')) ''M'' 0) = Some [False, False, True, True]
        | _ \<Rightarrow> False)" by code_simp
  then show ?thesis by (auto split: sum.splits option.splits)
qed

end
