(* ===== verification/Concurrency.thy ===== *)
theory Concurrency
  imports Interfaces
begin

text \<open>
  Concurrency control of production and evaluation executions
  (\<open>packages/cli/src/concurrency\<close>): the queue that lets executions through while there is
  capacity and holds back the others in order (\<open>concurrency-queue.ts\<close>), and the service with
  one queue per kind of execution (\<open>concurrency-control.service.ts\<close>). The promise an execution
  waits for is its place in the queue: it is resolved when the queue releases it.
\<close>

section \<open>The queue\<close>

datatype queue_event =
    ConcurrencyCheck int
  | ExecutionThrottled string
  | ExecutionReleased string

record ConcurrencyQueue =
  capacity :: int
  queue :: "string list"

definition new_queue :: "nat \<Rightarrow> ConcurrencyQueue" where
  "new_queue limit = \<lparr>capacity = int limit, queue = []\<rparr>"

text \<open>The result of \<open>enqueue\<close> says whether the execution may go on or has to wait.\<close>

datatype admission = LetThrough | Wait

definition enqueue :: "string \<Rightarrow> ConcurrencyQueue \<Rightarrow> ConcurrencyQueue \<times> admission \<times> queue_event list" where
  "enqueue executionId q =
     (let q1 = q\<lparr>capacity := capacity q - 1\<rparr>;
          check = ConcurrencyCheck (capacity q1)
      in if capacity q1 < 0
         then (q1\<lparr>queue := queue q1 @ [executionId]\<rparr>, Wait, [check, ExecutionThrottled executionId])
         else (q1, LetThrough, [check]))"

definition currentCapacity :: "ConcurrencyQueue \<Rightarrow> int" where
  "currentCapacity q = capacity q"

definition resolveNext :: "ConcurrencyQueue \<Rightarrow> ConcurrencyQueue \<times> queue_event list" where
  "resolveNext q = (case queue q of
       [] \<Rightarrow> (q, [])
     | executionId # rest \<Rightarrow> (q\<lparr>queue := rest\<rparr>, [ExecutionReleased executionId]))"

definition dequeue :: "ConcurrencyQueue \<Rightarrow> ConcurrencyQueue \<times> queue_event list" where
  "dequeue q = resolveNext (q\<lparr>capacity := capacity q + 1\<rparr>)"

definition remove :: "string \<Rightarrow> ConcurrencyQueue \<Rightarrow> ConcurrencyQueue \<times> queue_event list" where
  "remove executionId q =
     (case find_index (\<lambda>item. item = executionId) (queue q) of
        Some index \<Rightarrow> resolveNext (q\<lparr>queue := arr_remove (queue q) index, capacity := capacity q + 1\<rparr>)
      | None \<Rightarrow> (q, []))"

definition getAll :: "ConcurrencyQueue \<Rightarrow> string list" where
  "getAll q = set_of (queue q)"

definition has :: "string \<Rightarrow> ConcurrencyQueue \<Rightarrow> bool" where
  "has executionId q \<longleftrightarrow> executionId \<in> set (queue q)"

section \<open>The service\<close>

datatype ConcurrencyQueueType = Production | Evaluation

record ConcurrencyControl =
  isEnabled :: bool
  limits :: "(ConcurrencyQueueType \<times> int) list"
  queues :: "(ConcurrencyQueueType \<times> ConcurrencyQueue) list"

definition CLOUD_TEMP_PRODUCTION_LIMIT :: int where
  "CLOUD_TEMP_PRODUCTION_LIMIT = 999"

definition limitsToReport :: "int list" where
  "limitsToReport = map (\<lambda>t. CLOUD_TEMP_PRODUCTION_LIMIT - t) [5, 10, 20, 50, 100, 200]"

definition shouldReport :: "bool \<Rightarrow> int \<Rightarrow> bool" where
  "shouldReport on_cloud cap \<longleftrightarrow> on_cloud \<and> cap \<in> set limitsToReport"

text \<open>The constructor, for the two limits of the configuration and whether its mode is the queue mode.\<close>

definition new_control :: "int \<Rightarrow> int \<Rightarrow> bool \<Rightarrow> ConcurrencyControl res" where
  "new_control productionLimit evaluationLimit queue_mode =
     (let configured = [(Production, productionLimit), (Evaluation, evaluationLimit)];
          ls = map (\<lambda>(type, limit). (type, if limit < -1 then -1 else limit)) configured
      in if \<exists>(type, limit) \<in> set configured. limit = 0
         then Inl (UserError ''Concurrency limit set to invalid value'')
         else if (\<forall>(type, limit) \<in> set ls. limit = -1) \<or> queue_mode
         then Inr \<lparr>isEnabled = False, limits = ls, queues = []\<rparr>
         else Inr \<lparr>isEnabled = True, limits = ls,
           queues = map (\<lambda>(type, limit). (type, new_queue (nat limit))) (filter (\<lambda>(type, limit). 0 < limit) ls)\<rparr>)"

text \<open>The kind of queue of an execution mode. All modes of the program are covered.\<close>

definition queue_type :: "WorkflowExecuteMode \<Rightarrow> ConcurrencyQueueType option" where
  "queue_type mode = (case mode of
       ModeWebhook \<Rightarrow> Some Production | ModeTrigger \<Rightarrow> Some Production | ModeEvaluation \<Rightarrow> Some Evaluation
     | _ \<Rightarrow> None)"

definition getQueue :: "WorkflowExecuteMode \<Rightarrow> ConcurrencyControl \<Rightarrow> ConcurrencyQueue option" where
  "getQueue mode c = Option.bind (queue_type mode) (map_of (queues c))"

definition isUnlimited :: "WorkflowExecuteMode \<Rightarrow> ConcurrencyControl \<Rightarrow> bool" where
  "isUnlimited mode c \<longleftrightarrow> getQueue mode c = None"

definition put_queue :: "WorkflowExecuteMode \<Rightarrow> ConcurrencyQueue \<Rightarrow> ConcurrencyControl \<Rightarrow> ConcurrencyControl" where
  "put_queue mode q c =
     (case queue_type mode of None \<Rightarrow> c | Some type \<Rightarrow> c\<lparr>queues := AList.update type q (queues c)\<rparr>)"

definition control_has :: "string \<Rightarrow> ConcurrencyControl \<Rightarrow> bool" where
  "control_has executionId c \<longleftrightarrow> isEnabled c \<and> (\<exists>q \<in> set (values_of (queues c)). has executionId q)"

definition throttle :: "WorkflowExecuteMode \<Rightarrow> string \<Rightarrow> ConcurrencyControl \<Rightarrow> ConcurrencyControl \<times> admission \<times> queue_event list" where
  "throttle mode executionId c =
     (if \<not> isEnabled c \<or> isUnlimited mode c then (c, LetThrough, [])
      else case getQueue mode c of
        None \<Rightarrow> (c, LetThrough, [])
      | Some q \<Rightarrow> (case enqueue executionId q of (q', adm, events) \<Rightarrow> (put_queue mode q' c, adm, events)))"

definition release :: "WorkflowExecuteMode \<Rightarrow> ConcurrencyControl \<Rightarrow> ConcurrencyControl \<times> queue_event list" where
  "release mode c =
     (if \<not> isEnabled c \<or> isUnlimited mode c then (c, [])
      else case getQueue mode c of
        None \<Rightarrow> (c, [])
      | Some q \<Rightarrow> (case dequeue q of (q', events) \<Rightarrow> (put_queue mode q' c, events)))"

definition control_remove :: "WorkflowExecuteMode \<Rightarrow> string \<Rightarrow> ConcurrencyControl \<Rightarrow> ConcurrencyControl \<times> queue_event list" where
  "control_remove mode executionId c =
     (if \<not> isEnabled c \<or> isUnlimited mode c then (c, [])
      else case getQueue mode c of
        None \<Rightarrow> (c, [])
      | Some q \<Rightarrow> (case remove executionId q of (q', events) \<Rightarrow> (put_queue mode q' c, events)))"

text \<open>
  \<open>removeAll\<close> removes what was in a queue when it began; the last component are the executions
  that are cancelled in the database.
\<close>

fun remove_each :: "string list \<Rightarrow> ConcurrencyQueue \<Rightarrow> ConcurrencyQueue \<times> queue_event list" where
  "remove_each [] q = (q, [])"
| "remove_each (executionId # ids) q = (case remove executionId q of (q1, events) \<Rightarrow>
     (case remove_each ids q1 of (q2, events2) \<Rightarrow> (q2, events @ events2)))"

definition removeAll :: "string list \<Rightarrow> ConcurrencyControl \<Rightarrow> ConcurrencyControl \<times> queue_event list \<times> string list" where
  "removeAll executionIdsToCancel c =
     (if \<not> isEnabled c then (c, [], [])
      else (c\<lparr>queues := map (\<lambda>(type, q). (type, fst (remove_each (getAll q) q))) (queues c)\<rparr>,
        concat (map (\<lambda>(type, q). snd (remove_each (getAll q) q)) (queues c)), executionIdsToCancel))"

definition disable :: "ConcurrencyControl \<Rightarrow> ConcurrencyControl" where
  "disable c = c\<lparr>isEnabled := False\<rparr>"

section \<open>Admission in order, up to a limit\<close>

datatype 'id work = Arrive 'id | Finish 'id

fun work_step :: "('id \<Rightarrow> 's \<Rightarrow> 's) \<Rightarrow> ('id \<Rightarrow> 's \<Rightarrow> 's) \<Rightarrow> 'id work \<Rightarrow> 's \<Rightarrow> 's" where
  "work_step arrive finish (Arrive i) s = arrive i s"
| "work_step arrive finish (Finish i) s = finish i s"

definition work_run :: "('id \<Rightarrow> 's \<Rightarrow> 's) \<Rightarrow> ('id \<Rightarrow> 's \<Rightarrow> 's) \<Rightarrow> 'id work list \<Rightarrow> 's \<Rightarrow> 's" where
  "work_run arrive finish = fold (work_step arrive finish)"

fun arrivals :: "'id work list \<Rightarrow> 'id list" where
  "arrivals [] = []"
| "arrivals (Arrive i # ws) = i # arrivals ws"
| "arrivals (Finish _ # ws) = arrivals ws"

text \<open>
  What the engine expects of a limiter: an arrival starts at once while fewer than \<open>limit\<close>
  executions run and waits otherwise; when one finishes the first that waits takes its place.
\<close>

locale admission_control =
  fixes limit :: nat
    and arrive finish :: "'id \<Rightarrow> 's \<Rightarrow> 's"
    and running waiting started :: "'s \<Rightarrow> 'id list"
    and ok :: "'s \<Rightarrow> bool"
  assumes arrive_ok: "ok s \<Longrightarrow> ok (arrive i s)"
    and finish_ok: "ok s \<Longrightarrow> ok (finish i s)"
    and arrive_free: "ok s \<Longrightarrow> length (running s) < limit \<Longrightarrow> running (arrive i s) = running s @ [i]
      \<and> waiting (arrive i s) = waiting s \<and> started (arrive i s) = started s @ [i]"
    and arrive_full: "ok s \<Longrightarrow> \<not> length (running s) < limit \<Longrightarrow> running (arrive i s) = running s
      \<and> waiting (arrive i s) = waiting s @ [i] \<and> started (arrive i s) = started s"
    and finish_next: "ok s \<Longrightarrow> i \<in> set (running s) \<Longrightarrow> waiting s = w # ws \<Longrightarrow>
      running (finish i s) = remove1 i (running s) @ [w] \<and> waiting (finish i s) = ws \<and> started (finish i s) = started s @ [w]"
    and finish_idle: "ok s \<Longrightarrow> i \<in> set (running s) \<Longrightarrow> waiting s = [] \<Longrightarrow>
      running (finish i s) = remove1 i (running s) \<and> waiting (finish i s) = [] \<and> started (finish i s) = started s"
    and finish_unknown: "i \<notin> set (running s) \<Longrightarrow> finish i s = s"
    and work_conserving: "ok s \<Longrightarrow> length (running s) \<le> limit \<and> (waiting s \<noteq> [] \<longrightarrow> length (running s) = limit)"
begin

lemma run_ok: "ok s \<Longrightarrow> ok (work_run arrive finish ws s)"
proof (induction ws arbitrary: s)
  case (Cons w ws)
  then have "ok (work_step arrive finish w s)" by (cases w) (auto intro: arrive_ok finish_ok)
  with Cons show ?case by (simp add: work_run_def)
qed (simp add: work_run_def)

lemma step_order:
  assumes "ok s"
  shows "started s @ waiting s @ arrivals [w]
    = started (work_step arrive finish w s) @ waiting (work_step arrive finish w s)"
proof (cases w)
  case (Arrive i)
  show ?thesis
  proof (cases "length (running s) < limit")
    case True
    with work_conserving [OF assms] have "waiting s = []" by auto
    with arrive_free [OF assms True, of i] Arrive show ?thesis by simp
  next
    case False
    from arrive_full [OF assms this, of i] Arrive show ?thesis by simp
  qed
next
  case (Finish i)
  show ?thesis
  proof (cases "i \<in> set (running s)")
    case True
    with finish_next [OF assms True] finish_idle [OF assms True] Finish show ?thesis by (cases "waiting s") auto
  next
    case False
    with finish_unknown Finish show ?thesis by simp
  qed
qed

lemma run_in_order:
  "ok s \<Longrightarrow> started s @ waiting s @ arrivals ws = started (work_run arrive finish ws s) @ waiting (work_run arrive finish ws s)"
proof (induction ws arbitrary: s)
  case (Cons w ws)
  let ?s = "work_step arrive finish w s"
  have "arrivals (w # ws) = arrivals [w] @ arrivals ws" by (cases w) simp_all
  then have "started s @ waiting s @ arrivals (w # ws) = started ?s @ waiting ?s @ arrivals ws"
    using step_order [OF Cons.prems, of w] by (metis append.assoc)
  moreover have "ok ?s" using run_ok [OF Cons.prems, of "[w]"] by (simp add: work_run_def)
  ultimately show ?case using Cons.IH by (simp add: work_run_def)
qed (simp add: work_run_def)

lemma run_bounded:
  assumes "ok s"
  shows "length (running (work_run arrive finish ws s)) \<le> limit"
    and "waiting (work_run arrive finish ws s) \<noteq> [] \<Longrightarrow> length (running (work_run arrive finish ws s)) = limit"
  using work_conserving [OF run_ok [OF assms]] by blast+

lemma drained:
  assumes "0 < limit"
  shows "ok s \<Longrightarrow> n \<le> length (waiting s) \<Longrightarrow>
    waiting (((\<lambda>s. finish (hd (running s)) s) ^^ n) s) = drop n (waiting s)
    \<and> started (((\<lambda>s. finish (hd (running s)) s) ^^ n) s) = started s @ take n (waiting s)"
proof (induction n arbitrary: s)
  case (Suc n)
  then obtain w ws where w: "waiting s = w # ws" by (cases "waiting s") auto
  with work_conserving [OF Suc.prems(1)] assms have "running s \<noteq> []" by auto
  then have "hd (running s) \<in> set (running s)" by simp
  from finish_next [OF Suc.prems(1) this w] Suc.IH [OF finish_ok [OF Suc.prems(1)]] Suc.prems(2) w
  show ?case by (simp add: funpow_Suc_right del: funpow.simps)
qed simp

end

section \<open>The queue admits in order\<close>

text \<open>A queue together with the executions it has let go on, those that still run and all of them.\<close>

record load =
  ld_queue :: ConcurrencyQueue
  ld_running :: "string list"
  ld_started :: "string list"

fun released :: "queue_event list \<Rightarrow> string list" where
  "released [] = []"
| "released (ExecutionReleased i # es) = i # released es"
| "released (_ # es) = released es"

definition go_on :: "string list \<Rightarrow> load \<Rightarrow> load" where
  "go_on ids s = s\<lparr>ld_running := ld_running s @ ids, ld_started := ld_started s @ ids\<rparr>"

definition load_arrive :: "string \<Rightarrow> load \<Rightarrow> load" where
  "load_arrive i s = (case enqueue i (ld_queue s) of (q, adm, events) \<Rightarrow>
     go_on (if adm = LetThrough then [i] else []) (s\<lparr>ld_queue := q\<rparr>))"

definition load_finish :: "string \<Rightarrow> load \<Rightarrow> load" where
  "load_finish i s =
     (if i \<in> set (ld_running s)
      then (case dequeue (ld_queue s) of (q, events) \<Rightarrow>
        go_on (released events) (s\<lparr>ld_queue := q, ld_running := remove1 i (ld_running s)\<rparr>))
      else s)"

definition load_remove :: "string \<Rightarrow> load \<Rightarrow> load" where
  "load_remove i s = (case remove i (ld_queue s) of (q, events) \<Rightarrow> go_on (released events) (s\<lparr>ld_queue := q\<rparr>))"

definition new_load :: "nat \<Rightarrow> load" where
  "new_load limit = \<lparr>ld_queue = new_queue limit, ld_running = [], ld_started = []\<rparr>"

text \<open>What is used of the capacity is what runs and what waits.\<close>

definition accounted :: "nat \<Rightarrow> load \<Rightarrow> bool" where
  "accounted limit s \<longleftrightarrow>
     capacity (ld_queue s) + int (length (ld_running s)) + int (length (queue (ld_queue s))) = int limit"

definition load_ok :: "nat \<Rightarrow> load \<Rightarrow> bool" where
  "load_ok limit s \<longleftrightarrow> accounted limit s \<and> length (ld_running s) \<le> limit
     \<and> (queue (ld_queue s) \<noteq> [] \<longrightarrow> length (ld_running s) = limit)"

lemmas load_defs = load_arrive_def load_finish_def load_remove_def go_on_def enqueue_def dequeue_def
  remove_def resolveNext_def

lemma accounted_remove:
  assumes "accounted limit s"
  shows "accounted limit (load_remove i s)"
proof (cases "find_index (\<lambda>item. item = i) (queue (ld_queue s))")
  case None
  with assms show ?thesis by (simp add: accounted_def load_defs)
next
  case (Some index)
  let ?rest = "arr_remove (queue (ld_queue s)) index"
  from find_index_Some [OF Some] have "length ?rest + 1 = length (queue (ld_queue s))"
    by (auto simp: length_arr_remove)
  with assms Some show ?thesis
    by (cases ?rest) (simp_all add: accounted_def load_defs)
qed

lemma load_ok_arrive: "load_ok limit s \<Longrightarrow> load_ok limit (load_arrive i s)"
  by (auto simp: load_ok_def accounted_def load_defs Let_def)

lemma load_ok_finish:
  assumes "load_ok limit s"
  shows "load_ok limit (load_finish i s)"
proof (cases "i \<in> set (ld_running s)")
  case True
  then have "length (remove1 i (ld_running s)) + 1 = length (ld_running s)"
    by (auto simp: length_remove1 dest: length_pos_if_in_set)
  with assms True show ?thesis
    by (cases "queue (ld_queue s)") (auto simp: load_ok_def accounted_def load_defs simp del: length_remove1)
qed (use assms in \<open>simp add: load_defs\<close>)

interpretation limiter: admission_control limit load_arrive load_finish ld_running "\<lambda>s. queue (ld_queue s)" ld_started "load_ok limit"
  for limit
  by unfold_locales (rule load_ok_arrive load_ok_finish, assumption
    | auto simp: load_ok_def accounted_def load_defs Let_def split: list.splits)+

lemma load_ok_new: "load_ok limit (new_load limit)"
  by (simp add: load_ok_def accounted_def new_load_def new_queue_def)

text \<open>C13: However executions arrive and finish, the executions that have started, followed by those that
  wait, are the arrivals in their order; the number that runs is the limit, or less only when nothing
  waits; and the capacity the queue counts is the limit less those that run or wait.\<close>

theorem queue_admits_in_order_up_to_limit:
  fixes limit :: nat and ws :: "string work list"
  defines "s \<equiv> work_run load_arrive load_finish ws (new_load limit)"
  shows "ld_started s @ queue (ld_queue s) = arrivals ws
    \<and> length (ld_running s) = min limit (length (ld_running s) + length (queue (ld_queue s)))
    \<and> currentCapacity (ld_queue s) = int limit - int (length (ld_running s)) - int (length (queue (ld_queue s)))"
proof -
  have ok: "load_ok limit s"
    unfolding s_def by (rule limiter.run_ok [OF load_ok_new])
  have "ld_started s @ queue (ld_queue s) = arrivals ws"
    using limiter.run_in_order [OF load_ok_new [of limit], of ws]
    unfolding s_def by (simp add: new_load_def new_queue_def)
  with ok show ?thesis
    by (cases "queue (ld_queue s)") (auto simp: load_ok_def accounted_def currentCapacity_def)
qed

text \<open>C32: With a limit above zero every execution that waits is started: when the executions that run
  finish one after the other, as many as wait, all arrivals have started and nothing waits.\<close>

theorem waiting_executions_start:
  fixes n :: nat and ws :: "string work list"
  defines "s \<equiv> work_run load_arrive load_finish ws (new_load (Suc n))"
  defines "s' \<equiv> ((\<lambda>s. load_finish (hd (ld_running s)) s) ^^ length (queue (ld_queue s))) s"
  shows "ld_started s' = arrivals ws \<and> queue (ld_queue s') = []"
  using limiter.drained [OF zero_less_Suc limiter.run_ok [OF load_ok_new [of "Suc n"], of ws] order_refl]
    limiter.run_in_order [OF load_ok_new [of "Suc n"], of ws]
  unfolding s_def s'_def by (simp add: new_load_def new_queue_def)

section \<open>What removing an execution from the queue does\<close>

text \<open>Removing the first of two executions that wait starts the other one although no execution
  has finished, so that one more than the limit runs.\<close>

theorem remove_exceeds_limit:
  assumes "load_ok limit s" and "queue (ld_queue s) = i # w # ws"
  shows "ld_running (load_remove i s) = ld_running s @ [w] \<and> length (ld_running (load_remove i s)) = limit + 1"
  using assms by (simp add: load_ok_def load_defs arr_remove_def)

lemma remove_exceeds_limit_witness:
  "length (ld_running (load_remove ''b''
    (work_run load_arrive load_finish [Arrive ''a'', Arrive ''b'', Arrive ''c''] (new_load 1)))) = 2"
proof -
  let ?s = "work_run load_arrive load_finish [Arrive ''a'', Arrive ''b'', Arrive ''c''] (new_load 1)"
  have "queue (ld_queue ?s) = [''b'', ''c'']" by code_simp
  from remove_exceeds_limit [OF limiter.run_ok [OF load_ok_new] this, THEN conjunct2]
  show ?thesis by (simp only: one_add_one)
qed

fun second_each :: "'a list \<Rightarrow> 'a list" where
  "second_each (_ # y # ys) = y # second_each ys"
| "second_each _ = []"

lemma remove_missing: "i \<notin> set (queue q) \<Longrightarrow> remove i q = (q, [])"
  by (auto simp: remove_def find_index_None split: option.splits dest!: find_index_Some)

lemma remove_first: "queue q = i # rest \<Longrightarrow>
    remove i q = resolveNext (q\<lparr>queue := rest, capacity := capacity q + 1\<rparr>)"
  by (simp add: remove_def arr_remove_def)

lemma remove_each_released:
  "distinct xs \<Longrightarrow> queue q = xs \<Longrightarrow> queue (fst (remove_each xs q)) = []
    \<and> released (snd (remove_each xs q)) = second_each xs"
proof (induction xs arbitrary: q rule: second_each.induct)
  case (1 x y ys)
  let ?q = "q\<lparr>queue := ys, capacity := capacity q + 1\<rparr>"
  have "remove x q = (?q, [ExecutionReleased y])"
    using 1 by (simp add: remove_first resolveNext_def)
  moreover have "remove y ?q = (?q, [])"
    using 1 by (intro remove_missing) simp
  moreover have "queue (fst (remove_each ys ?q)) = [] \<and> released (snd (remove_each ys ?q)) = second_each ys"
    using 1 by simp
  ultimately show ?case
    by (cases "remove_each ys ?q") simp
qed (simp_all add: remove_first resolveNext_def)

text \<open>Emptying the queues lets every other execution that waits in them go on: the removal of each
  one releases its successor, which is then no longer there to be removed.\<close>

theorem removeAll_starts_every_other:
  assumes "isEnabled c" and "queues c = [(type, q)]" and "distinct (queue q)"
  shows "released (fst (snd (removeAll ids c))) = second_each (queue q)
    \<and> getAll (snd (hd (queues (fst (removeAll ids c))))) = []"
proof -
  have "getAll q = queue q"
    using assms(3) by (simp add: getAll_def set_of_distinct)
  with remove_each_released [OF assms(3) refl] assms(1,2) show ?thesis
    by (simp add: removeAll_def getAll_def set_of_def)
qed

lemma removeAll_starts_every_other_witness:
  "released (fst (snd (removeAll [] \<lparr>isEnabled = True, limits = [(Production, 1)],
    queues = [(Production, \<lparr>capacity = -3, queue = [''b'', ''c'', ''d'', ''e'']\<rparr>)]\<rparr>))) = [''c'', ''e'']"
  using removeAll_starts_every_other [of "\<lparr>isEnabled = True, limits = [(Production, 1)],
      queues = [(Production, \<lparr>capacity = -3, queue = [''b'', ''c'', ''d'', ''e'']\<rparr>)]\<rparr>" Production
    "\<lparr>capacity = -3, queue = [''b'', ''c'', ''d'', ''e'']\<rparr>" "[]", THEN conjunct1]
  by simp

section \<open>Each kind of execution has its own queue\<close>

datatype control_op =
    Throttle WorkflowExecuteMode string
  | Release WorkflowExecuteMode
  | Remove WorkflowExecuteMode string

fun op_mode :: "control_op \<Rightarrow> WorkflowExecuteMode" where
  "op_mode (Throttle mode _) = mode"
| "op_mode (Release mode) = mode"
| "op_mode (Remove mode _) = mode"

fun control_step :: "control_op \<Rightarrow> ConcurrencyControl \<Rightarrow> ConcurrencyControl" where
  "control_step (Throttle mode i) c = fst (throttle mode i c)"
| "control_step (Release mode) c = fst (release mode c)"
| "control_step (Remove mode i) c = fst (control_remove mode i c)"

fun queue_step :: "control_op \<Rightarrow> ConcurrencyQueue \<Rightarrow> ConcurrencyQueue" where
  "queue_step (Throttle _ i) q = fst (enqueue i q)"
| "queue_step (Release _) q = fst (dequeue q)"
| "queue_step (Remove _ i) q = fst (remove i q)"

lemma control_step_queues:
  assumes "isEnabled c"
  shows "isEnabled (control_step x c)
    \<and> map_of (queues (control_step x c)) type
      = (if queue_type (op_mode x) = Some type then map_option (queue_step x) (map_of (queues c) type)
         else map_of (queues c) type)"
  using assms
  by (cases x) (auto simp: throttle_def release_def control_remove_def isUnlimited_def getQueue_def put_queue_def
      update_conv bind_eq_None_conv split: option.splits prod.splits bind_splits)

text \<open>The service keeps the kinds of executions apart: after any sequence of operations on an
  enabled service, the queue of a kind is what the operations of that kind alone make of it, and a
  kind without a queue never gets one.\<close>

theorem service_keeps_kinds_apart:
  assumes "isEnabled c"
  shows "map_of (queues (fold control_step xs c)) type
    = map_option (fold queue_step (filter (\<lambda>x. queue_type (op_mode x) = Some type) xs)) (map_of (queues c) type)"
  using assms
proof (induction xs arbitrary: c)
  case (Cons x xs)
  from control_step_queues [OF Cons.prems] Cons.IH show ?case
    by (auto simp: option.map_comp comp_def)
qed (simp add: option.map_id)

lemma service_keeps_kinds_apart_witness:
  "map_of (queues (fold control_step
      [Throttle ModeWebhook ''a'', Throttle ModeEvaluation ''b'', Throttle ModeTrigger ''c'', Throttle ModeManual ''d'']
      \<lparr>isEnabled = True, limits = [(Production, 1), (Evaluation, 2)],
        queues = [(Production, new_queue 1), (Evaluation, new_queue 2)]\<rparr>)) Production
    = Some \<lparr>capacity = -1, queue = [''c'']\<rparr>"
  by (subst service_keeps_kinds_apart) (simp_all add: queue_type_def new_queue_def enqueue_def Let_def)

end
