(* ===== verification/ActiveExecutions.thy ===== *)
theory ActiveExecutions
  imports Concurrency
begin

text \<open>
  The executions of a process (\<open>packages/cli/src/active-executions.ts\<close>) on top of the concurrency
  control. An execution is an object that the store of active executions refers to by its id; the
  callback of its promise holds on to the object itself. Asynchronous operations are split where
  they wait: an added execution is pending until the queue admits it and the database has it.
\<close>

section \<open>State\<close>

datatype promise = Pending | Resolved | Rejected

text \<open>A promise settles once.\<close>

definition settled_as :: "promise \<Rightarrow> promise \<Rightarrow> promise" where
  "settled_as v p = (if p = Pending then v else p)"

record add_data =
  ad_mode :: WorkflowExecuteMode
  ad_retryOf :: "string option"
  ad_workflowId :: string

text \<open>\<open>x_removed\<close> says that the callback of the post-execution promise has run.\<close>

record exec_object =
  x_id :: string
  x_data :: add_data
  x_startedAt :: int
  x_status :: ExecutionStatus
  x_promise :: promise
  x_response :: "nat option"
  x_workflow :: bool
  x_removed :: bool

record pending_add =
  pa_id :: string
  pa_data :: add_data
  pa_admitted :: bool

text \<open>
  \<open>ac_failed\<close> holds the modes of the executions whose database update failed after the queue had
  admitted them, \<open>ac_cancelled\<close> the workflow executions that were told to cancel.
\<close>

record active =
  ac_objects :: "exec_object list"
  ac_active :: "(string \<times> nat) list"
  ac_responses :: "promise list"
  ac_pending :: "pending_add list"
  ac_control :: ConcurrencyControl
  ac_regular :: bool
  ac_cancelled :: "nat list"
  ac_failed :: "WorkflowExecuteMode list"

definition new_active :: "ConcurrencyControl \<Rightarrow> bool \<Rightarrow> active" where
  "new_active control regular = \<lparr>ac_objects = [], ac_active = [], ac_responses = [], ac_pending = [],
     ac_control = control, ac_regular = regular, ac_cancelled = [], ac_failed = []\<rparr>"

definition active_has :: "string \<Rightarrow> active \<Rightarrow> bool" where
  "active_has executionId s \<longleftrightarrow> map_of (ac_active s) executionId \<noteq> None"

definition getExecutionOrFail :: "string \<Rightarrow> active \<Rightarrow> nat res" where
  "getExecutionOrFail executionId s =
     (case map_of (ac_active s) executionId of
        None \<Rightarrow> Inl (UnexpectedError ''No active execution found'')
      | Some k \<Rightarrow> Inr k)"

definition change_object :: "nat \<Rightarrow> (exec_object \<Rightarrow> exec_object) \<Rightarrow> active \<Rightarrow> active" where
  "change_object k f s = s\<lparr>ac_objects := (if k < length (ac_objects s) then (ac_objects s)[k := f (ac_objects s ! k)] else ac_objects s)\<rparr>"

section \<open>Adding an execution\<close>

text \<open>The queue of a kind released executions: the first that waits under each id goes on.\<close>

definition waits_as :: "ConcurrencyQueueType option \<Rightarrow> pending_add \<Rightarrow> bool" where
  "waits_as type p \<longleftrightarrow> \<not> pa_admitted p \<and> queue_type (ad_mode (pa_data p)) = type"

fun admit_first :: "ConcurrencyQueueType option \<Rightarrow> string \<Rightarrow> pending_add list \<Rightarrow> pending_add list" where
  "admit_first type executionId [] = []"
| "admit_first type executionId (p # ps) =
     (if waits_as type p \<and> pa_id p = executionId then p\<lparr>pa_admitted := True\<rparr> # ps
      else p # admit_first type executionId ps)"

fun admit_events :: "ConcurrencyQueueType option \<Rightarrow> queue_event list \<Rightarrow> pending_add list \<Rightarrow> pending_add list" where
  "admit_events type [] ps = ps"
| "admit_events type (ExecutionReleased executionId # es) ps = admit_events type es (admit_first type executionId ps)"
| "admit_events type (_ # es) ps = admit_events type es ps"

text \<open>Up to the queue: a new execution (which the database has given its id) is only throttled in regular mode.\<close>

definition request_add :: "add_data \<Rightarrow> string \<Rightarrow> bool \<Rightarrow> active \<Rightarrow> active" where
  "request_add d executionId is_new s =
     (if is_new \<and> \<not> ac_regular s
      then s\<lparr>ac_pending := ac_pending s @ [\<lparr>pa_id = executionId, pa_data = d, pa_admitted = True\<rparr>]\<rparr>
      else case throttle (ad_mode d) executionId (ac_control s) of
          (control, admission, events) \<Rightarrow> s\<lparr>ac_control := control,
            ac_pending := ac_pending s @ [\<lparr>pa_id = executionId, pa_data = d, pa_admitted = (admission = LetThrough)\<rparr>]\<rparr>)"

text \<open>From the update of the database on: an execution that resumes takes over the start and the response.\<close>

definition enter :: "nat \<Rightarrow> int \<Rightarrow> active \<Rightarrow> active" where
  "enter i now s =
     (let p = ac_pending s ! i;
          resuming = map_option (\<lambda>k. ac_objects s ! k) (map_of (ac_active s) (pa_id p));
          x = \<lparr>x_id = pa_id p, x_data = pa_data p,
               x_startedAt = (case resuming of None \<Rightarrow> now | Some r \<Rightarrow> x_startedAt r), x_status = StRunning,
               x_promise = Pending, x_response = Option.bind resuming x_response, x_workflow = False, x_removed = False\<rparr>
      in s\<lparr>ac_pending := arr_remove (ac_pending s) i, ac_objects := ac_objects s @ [x],
           ac_active := obj_set (pa_id p) (length (ac_objects s)) (ac_active s)\<rparr>)"

text \<open>The database update fails: \<open>add\<close> throws and the place in the queue stays taken.\<close>

definition fail_add :: "nat \<Rightarrow> active \<Rightarrow> active" where
  "fail_add i s = s\<lparr>ac_failed := ad_mode (pa_data (ac_pending s ! i)) # ac_failed s,
     ac_pending := arr_remove (ac_pending s) i\<rparr>"

text \<open>The callback of the post-execution promise.\<close>

definition run_finally :: "nat \<Rightarrow> active \<Rightarrow> active" where
  "run_finally k s =
     (let x = ac_objects s ! k; mode = ad_mode (x_data x) in
      case release mode (ac_control s) of
        (control, events) \<Rightarrow>
          (let s1 = (change_object k (\<lambda>x. x\<lparr>x_removed := True\<rparr>) s)\<lparr>ac_control := control,
                 ac_pending := admit_events (queue_type mode) events (ac_pending s)\<rparr>
           in if x_status x = StWaiting then change_object k (\<lambda>x. x\<lparr>x_workflow := False\<rparr>) s1
              else s1\<lparr>ac_active := AList.delete (x_id x) (ac_active s)\<rparr>))"

section \<open>Operations on an active execution\<close>

definition attachWorkflowExecution :: "string \<Rightarrow> active \<Rightarrow> active res" where
  "attachWorkflowExecution executionId s =
     bind_res (getExecutionOrFail executionId s) (\<lambda>k. Inr (change_object k (\<lambda>x. x\<lparr>x_workflow := True\<rparr>) s))"

definition attachResponsePromise :: "string \<Rightarrow> active \<Rightarrow> active res" where
  "attachResponsePromise executionId s =
     bind_res (getExecutionOrFail executionId s) (\<lambda>k.
       Inr ((change_object k (\<lambda>x. x\<lparr>x_response := Some (length (ac_responses s))\<rparr>) s)\<lparr>ac_responses := ac_responses s @ [Pending]\<rparr>))"

definition settle_response :: "promise \<Rightarrow> nat option \<Rightarrow> active \<Rightarrow> active" where
  "settle_response v response s =
     (case response of
        None \<Rightarrow> s
      | Some r \<Rightarrow> s\<lparr>ac_responses := (if r < length (ac_responses s) then (ac_responses s)[r := settled_as v (ac_responses s ! r)]
          else ac_responses s)\<rparr>)"

definition resolveResponsePromise :: "string \<Rightarrow> active \<Rightarrow> active" where
  "resolveResponsePromise executionId s =
     (case map_of (ac_active s) executionId of
        None \<Rightarrow> s
      | Some k \<Rightarrow> settle_response Resolved (x_response (ac_objects s ! k)) s)"

definition settle_execution :: "promise \<Rightarrow> nat \<Rightarrow> active \<Rightarrow> active" where
  "settle_execution v k = change_object k (\<lambda>x. x\<lparr>x_promise := settled_as v (x_promise x)\<rparr>)"

definition stopExecution :: "string \<Rightarrow> active \<Rightarrow> active" where
  "stopExecution executionId s =
     (case map_of (ac_active s) executionId of
        None \<Rightarrow> s
      | Some k \<Rightarrow>
          (let x = ac_objects s ! k; s1 = settle_response Rejected (x_response x) s in
           if x_status x = StWaiting then s1\<lparr>ac_active := AList.delete executionId (ac_active s1)\<rparr>
           else settle_execution Rejected k
             (if x_workflow x then s1\<lparr>ac_cancelled := ac_cancelled s1 @ [k]\<rparr> else s1)))"

definition finalizeExecution :: "string \<Rightarrow> active \<Rightarrow> active" where
  "finalizeExecution executionId s =
     (case map_of (ac_active s) executionId of None \<Rightarrow> s | Some k \<Rightarrow> settle_execution Resolved k s)"

definition resolveExecutionResponsePromise :: "string \<Rightarrow> active \<Rightarrow> active" where
  "resolveExecutionResponsePromise executionId s =
     (case map_of (ac_active s) executionId of
        None \<Rightarrow> s
      | Some k \<Rightarrow>
          (if x_status (ac_objects s ! k) \<noteq> StWaiting then settle_response Resolved (x_response (ac_objects s ! k)) s else s))"

definition getPostExecutePromise :: "string \<Rightarrow> active \<Rightarrow> promise res" where
  "getPostExecutePromise executionId s =
     bind_res (getExecutionOrFail executionId s) (\<lambda>k. Inr (x_promise (ac_objects s ! k)))"

record execution_summary =
  es_id :: string
  es_data :: add_data
  es_startedAt :: int
  es_status :: ExecutionStatus

definition getActiveExecutions :: "active \<Rightarrow> execution_summary list" where
  "getActiveExecutions s = map (\<lambda>(executionId, k). let x = ac_objects s ! k in
     \<lparr>es_id = executionId, es_data = x_data x, es_startedAt = x_startedAt x, es_status = x_status x\<rparr>) (ac_active s)"

definition setStatus :: "string \<Rightarrow> ExecutionStatus \<Rightarrow> active \<Rightarrow> active res" where
  "setStatus executionId status s =
     bind_res (getExecutionOrFail executionId s) (\<lambda>k. Inr (change_object k (\<lambda>x. x\<lparr>x_status := status\<rparr>) s))"

definition getStatus :: "string \<Rightarrow> active \<Rightarrow> ExecutionStatus res" where
  "getStatus executionId s = bind_res (getExecutionOrFail executionId s) (\<lambda>k. Inr (x_status (ac_objects s ! k)))"

section \<open>Shutdown\<close>

text \<open>One execution: cancelled when it has a response promise or all are to be, otherwise removed when it waits or is new.\<close>

definition shut_down_one :: "bool \<Rightarrow> string \<Rightarrow> active \<times> string list \<Rightarrow> active \<times> string list" where
  "shut_down_one cancelAll executionId acc =
     (case acc of (s, toCancel) \<Rightarrow>
       case map_of (ac_active s) executionId of
         None \<Rightarrow> acc
       | Some k \<Rightarrow>
           (let x = ac_objects s ! k in
            if x_response x \<noteq> None \<or> (ac_regular s \<and> cancelAll)
            then (stopExecution executionId s, toCancel @ [executionId])
            else if x_status x = StWaiting \<or> x_status x = StNew
            then (s\<lparr>ac_active := AList.delete executionId (ac_active s)\<rparr>, toCancel)
            else acc))"

text \<open>The executions that \<open>removeAll\<close> lets go on, one queue after the other.\<close>

definition admit_removed :: "ConcurrencyControl \<Rightarrow> pending_add list \<Rightarrow> pending_add list" where
  "admit_removed c ps =
     (if isEnabled c then fold (\<lambda>(type, q). admit_events (Some type) (snd (remove_each (getAll q) q))) (queues c) ps else ps)"

text \<open>Up to the loop that waits for the active executions. The second component are the executions that are
  cancelled in the database.\<close>

definition shutdown :: "bool \<Rightarrow> active \<Rightarrow> active \<times> string list" where
  "shutdown cancelAll s =
     (let s1 = (if ac_regular s then s\<lparr>ac_control := disable (ac_control s)\<rparr> else s) in
      case fold (shut_down_one cancelAll) (keys_of (ac_active s1)) (s1, []) of
        (s2, toCancel) \<Rightarrow>
          (case removeAll toCancel (ac_control s2) of
             (control, events, cancelled) \<Rightarrow>
               (s2\<lparr>ac_control := control, ac_pending := admit_removed (ac_control s2) (ac_pending s2)\<rparr>, cancelled)))"

definition shutdown_finished :: "active \<Rightarrow> bool" where
  "shutdown_finished s \<longleftrightarrow> ac_active s = []"

section \<open>The service in use\<close>

text \<open>
  Any order of the operations: requests, the continuation of admitted ones (which may fail), operations on
  active executions, and the callbacks of settled promises.
\<close>

inductive active_step :: "active \<Rightarrow> active \<Rightarrow> bool" where
  Request: "active_step s (request_add d executionId is_new s)"
| Enter: "i < length (ac_pending s) \<Longrightarrow> pa_admitted (ac_pending s ! i) \<Longrightarrow> active_step s (enter i now s)"
| Fail: "i < length (ac_pending s) \<Longrightarrow> pa_admitted (ac_pending s ! i) \<Longrightarrow> active_step s (fail_add i s)"
| Attach: "attachWorkflowExecution executionId s = Inr s' \<Longrightarrow> active_step s s'"
| AttachResponse: "attachResponsePromise executionId s = Inr s' \<Longrightarrow> active_step s s'"
| Respond: "active_step s (resolveResponsePromise executionId s)"
| Respond_redirect: "active_step s (resolveExecutionResponsePromise executionId s)"
| Status: "setStatus executionId status s = Inr s' \<Longrightarrow> active_step s s'"
| Stop: "active_step s (stopExecution executionId s)"
| Finalize: "active_step s (finalizeExecution executionId s)"
| Callback: "k < length (ac_objects s) \<Longrightarrow> x_promise (ac_objects s ! k) \<noteq> Pending \<Longrightarrow> \<not> x_removed (ac_objects s ! k)
    \<Longrightarrow> active_step s (run_finally k s)"
| Shutdown: "active_step s (fst (shutdown cancelAll s))"

inductive active_steps :: "active \<Rightarrow> active \<Rightarrow> bool" where
  Here: "active_steps s s"
| Further: "active_steps s s1 \<Longrightarrow> active_step s1 s2 \<Longrightarrow> active_steps s s2"

section \<open>Who holds a place in the queue\<close>

definition of_type :: "ConcurrencyQueueType \<Rightarrow> add_data \<Rightarrow> bool" where
  "of_type t d \<longleftrightarrow> queue_type (ad_mode d) = Some t"

definition admitted_adds :: "ConcurrencyQueueType \<Rightarrow> active \<Rightarrow> nat" where
  "admitted_adds t s = length (filter (\<lambda>p. pa_admitted p \<and> of_type t (pa_data p)) (ac_pending s))"

definition unfinished :: "ConcurrencyQueueType \<Rightarrow> active \<Rightarrow> nat" where
  "unfinished t s = length (filter (\<lambda>x. \<not> x_removed x \<and> of_type t (x_data x)) (ac_objects s))"

definition failed_adds :: "ConcurrencyQueueType \<Rightarrow> active \<Rightarrow> nat" where
  "failed_adds t s = length (filter (\<lambda>mode. queue_type mode = Some t) (ac_failed s))"

definition places :: "ConcurrencyQueueType \<Rightarrow> active \<Rightarrow> nat" where
  "places t s = admitted_adds t s + unfinished t s + failed_adds t s"

definition waiting_ids :: "ConcurrencyQueueType \<Rightarrow> pending_add list \<Rightarrow> string list" where
  "waiting_ids t ps = map pa_id (filter (waits_as (Some t)) ps)"

text \<open>
  While the control is enabled every queue accounts for its places, and holds the pending executions in
  order; when one waits no place is free.
\<close>

definition queue_accounts :: "int \<Rightarrow> nat \<Rightarrow> string list \<Rightarrow> ConcurrencyQueue \<Rightarrow> bool" where
  "queue_accounts limit used ids q \<longleftrightarrow> queue q = ids \<and> capacity q + int (length ids) = limit - int used
     \<and> (if ids = [] then 0 \<le> capacity q else capacity q = - int (length ids))"

definition limit_of :: "ConcurrencyControl \<Rightarrow> ConcurrencyQueueType \<Rightarrow> int" where
  "limit_of c t = (case map_of (limits c) t of None \<Rightarrow> 0 | Some l \<Rightarrow> l)"

definition accounted :: "active \<Rightarrow> bool" where
  "accounted s \<longleftrightarrow> (isEnabled (ac_control s) \<longrightarrow> ac_regular s \<and>
     (\<forall>t q. map_of (queues (ac_control s)) t = Some q \<longrightarrow>
       queue_accounts (limit_of (ac_control s) t) (places t s) (waiting_ids t (ac_pending s)) q))"

lemma enqueue_accounts:
  assumes "queue_accounts l u ids q" and "enqueue i q = (q', adm, ev)"
  shows "adm = LetThrough \<and> queue_accounts l (Suc u) ids q' \<or> adm = Wait \<and> queue_accounts l u (ids @ [i]) q'"
  using assms by (cases "ids = []") (auto simp: enqueue_def queue_accounts_def Let_def split: if_splits)

lemma dequeue_accounts:
  assumes "queue_accounts l (Suc u) ids q" and "dequeue q = (q', ev)"
  shows "ids = [] \<and> ev = [] \<and> queue_accounts l u [] q'
    \<or> (\<exists>i rest. ids = i # rest \<and> ev = [ExecutionReleased i] \<and> queue_accounts l (Suc u) rest q')"
  using assms by (cases ids) (auto simp: dequeue_def resolveNext_def queue_accounts_def)

lemma admit_first_waiting:
  "waiting_ids t ps = i # rest \<Longrightarrow> waiting_ids t (admit_first (Some t) i ps) = rest
    \<and> length (filter (\<lambda>p. pa_admitted p \<and> of_type t (pa_data p)) (admit_first (Some t) i ps))
      = Suc (length (filter (\<lambda>p. pa_admitted p \<and> of_type t (pa_data p)) ps))"
  by (induction ps) (auto simp: waiting_ids_def waits_as_def of_type_def split: if_splits)

lemma admit_first_other:
  assumes "t' \<noteq> t"
  shows "waiting_ids t' (admit_first (Some t) i ps) = waiting_ids t' ps
    \<and> filter (\<lambda>p. pa_admitted p \<and> of_type t' (pa_data p)) (admit_first (Some t) i ps)
      = filter (\<lambda>p. pa_admitted p \<and> of_type t' (pa_data p)) ps"
  using assms by (induction ps) (auto simp: waiting_ids_def waits_as_def of_type_def)

section \<open>Steps that move no place\<close>

definition same_places :: "active \<Rightarrow> active \<Rightarrow> bool" where
  "same_places s s' \<longleftrightarrow> ac_control s' = ac_control s \<and> ac_pending s' = ac_pending s \<and> ac_failed s' = ac_failed s
     \<and> ac_regular s' = ac_regular s
     \<and> map (\<lambda>x. (x_removed x, x_data x)) (ac_objects s') = map (\<lambda>x. (x_removed x, x_data x)) (ac_objects s)"

lemma unfinished_map: "unfinished t s
    = length (filter (\<lambda>(removed, d). \<not> removed \<and> of_type t d) (map (\<lambda>x. (x_removed x, x_data x)) (ac_objects s)))"
  by (simp add: unfinished_def filter_map comp_def)

lemma same_places_accounted: "same_places s s' \<Longrightarrow> accounted s \<Longrightarrow> accounted s'"
  by (simp add: accounted_def same_places_def places_def unfinished_map admitted_adds_def failed_adds_def)

lemma same_places_refl [simp]: "same_places s s"
  by (simp add: same_places_def)

lemma same_places_trans: "same_places s s1 \<Longrightarrow> same_places s1 s2 \<Longrightarrow> same_places s s2"
  by (simp add: same_places_def)

lemma same_places_change:
  assumes "\<And>x. x_removed (f x) = x_removed x \<and> x_data (f x) = x_data x"
  shows "same_places s (change_object k f s)"
proof -
  have "map (\<lambda>x. (x_removed x, x_data x)) (xs[k := f (xs ! k)]) = map (\<lambda>x. (x_removed x, x_data x)) xs" if "k < length xs" for xs
    using that assms by (simp add: map_update list_update_same_conv)
  then show ?thesis by (simp add: change_object_def same_places_def)
qed

lemma same_places_updates [simp]:
  "same_places s (s'\<lparr>ac_active := a\<rparr>) = same_places s s'"
  "same_places s (s'\<lparr>ac_responses := r\<rparr>) = same_places s s'"
  "same_places s (s'\<lparr>ac_cancelled := c\<rparr>) = same_places s s'"
  by (simp_all add: same_places_def)

lemma same_places_settle_response [simp]: "same_places s (settle_response v r s)"
  by (simp add: settle_response_def split: option.split)

lemma same_places_settle_execution [simp]: "same_places s (settle_execution v k s)"
  unfolding settle_execution_def by (rule same_places_change) simp

lemma stopExecution_places [simp]: "same_places s (stopExecution executionId s)"
proof (cases "map_of (ac_active s) executionId")
  case (Some k)
  let ?s = "settle_response Rejected (x_response (ac_objects s ! k)) s"
  have "same_places s (if x_workflow (ac_objects s ! k) then ?s\<lparr>ac_cancelled := ac_cancelled ?s @ [k]\<rparr> else ?s)" by simp
  from same_places_trans [OF this same_places_settle_execution] Some show ?thesis
    by (simp add: stopExecution_def Let_def)
qed (simp add: stopExecution_def)

lemma operations_places:
  "attachWorkflowExecution executionId s = Inr s' \<Longrightarrow> same_places s s'"
  "attachResponsePromise executionId s = Inr s' \<Longrightarrow> same_places s s'"
  "setStatus executionId status s = Inr s' \<Longrightarrow> same_places s s'"
  "same_places s (resolveResponsePromise executionId s)"
  "same_places s (resolveExecutionResponsePromise executionId s)"
  "same_places s (finalizeExecution executionId s)"
  by (auto simp: attachWorkflowExecution_def attachResponsePromise_def setStatus_def resolveResponsePromise_def
      resolveExecutionResponsePromise_def finalizeExecution_def bind_res_Inr_iff same_places_change split: option.split)

section \<open>Steps that move a place\<close>

lemma throttle_cases:
  assumes "throttle mode i c = (c', adm, ev)" and "isEnabled c"
  obtains (Free) "getQueue mode c = None" "c' = c" "adm = LetThrough"
  | (Queue) t q q' where "queue_type mode = Some t" "map_of (queues c) t = Some q" "enqueue i q = (q', adm, ev)"
      "c' = c\<lparr>queues := AList.update t q' (queues c)\<rparr>"
proof (cases "getQueue mode c")
  case None
  with assms show ?thesis by (intro Free) (simp_all add: throttle_def isUnlimited_def)
next
  case (Some q)
  then obtain t where t: "queue_type mode = Some t" "map_of (queues c) t = Some q" by (auto simp: getQueue_def bind_eq_Some_conv)
  obtain q' adm' ev' where e: "enqueue i q = (q', adm', ev')" by (cases "enqueue i q") auto
  have "throttle mode i c = (c\<lparr>queues := AList.update t q' (queues c)\<rparr>, adm', ev')"
    using assms(2) Some t e by (simp add: throttle_def isUnlimited_def put_queue_def)
  with assms(1) e show ?thesis by (intro Queue [OF t]) auto
qed

lemma release_cases:
  assumes "release mode c = (c', ev)" and "isEnabled c"
  obtains (Free) "getQueue mode c = None" "c' = c" "ev = []"
  | (Queue) t q q' where "queue_type mode = Some t" "map_of (queues c) t = Some q" "dequeue q = (q', ev)"
      "c' = c\<lparr>queues := AList.update t q' (queues c)\<rparr>"
proof (cases "getQueue mode c")
  case None
  with assms show ?thesis by (intro Free) (simp_all add: release_def isUnlimited_def)
next
  case (Some q)
  then obtain t where t: "queue_type mode = Some t" "map_of (queues c) t = Some q" by (auto simp: getQueue_def bind_eq_Some_conv)
  obtain q' ev' where e: "dequeue q = (q', ev')" by (cases "dequeue q")
  have "release mode c = (c\<lparr>queues := AList.update t q' (queues c)\<rparr>, ev')"
    using assms(2) Some t e by (simp add: release_def isUnlimited_def put_queue_def)
  with assms(1) e show ?thesis by (intro Queue [OF t]) auto
qed

text \<open>What has to hold of the queue of one kind, and that it does when the control is as given.\<close>

lemma accountedI:
  assumes "isEnabled (ac_control s') \<Longrightarrow> ac_regular s'"
    and "\<And>t q. isEnabled (ac_control s') \<Longrightarrow> map_of (queues (ac_control s')) t = Some q \<Longrightarrow>
      queue_accounts (limit_of (ac_control s') t) (places t s') (waiting_ids t (ac_pending s')) q"
  shows "accounted s'"
  using assms by (simp add: accounted_def)

lemma request_add_accounted:
  assumes acc: "accounted s"
  shows "accounted (request_add d i is_new s)"
proof -
  let ?c = "ac_control s"
  let ?p = "\<lambda>adm. \<lparr>pa_id = i, pa_data = d, pa_admitted = adm\<rparr>"
  show ?thesis
  proof (cases "isEnabled ?c \<and> ac_regular s")
    case False
    then have "\<not> isEnabled (ac_control (request_add d i is_new s))"
      using acc by (auto simp: accounted_def request_add_def throttle_def)
    then show ?thesis by (simp add: accounted_def)
  next
    case True
    obtain c' adm ev where thr: "throttle (ad_mode d) i ?c = (c', adm, ev)" by (cases "throttle (ad_mode d) i ?c") auto
    let ?s = "s\<lparr>ac_control := c', ac_pending := ac_pending s @ [?p (adm = LetThrough)]\<rparr>"
    have s': "request_add d i is_new s = ?s" using True thr by (simp add: request_add_def)
    have old: "queue_accounts (limit_of ?c t) (places t s) (waiting_ids t (ac_pending s)) q"
      if "map_of (queues ?c) t = Some q" for t q using acc True that by (simp add: accounted_def)
    have add: "places t ?s = places t s + (if adm = LetThrough \<and> of_type t d then 1 else 0)"
      "waiting_ids t (ac_pending ?s) = waiting_ids t (ac_pending s) @ (if adm \<noteq> LetThrough \<and> of_type t d then [i] else [])" for t
      by (auto simp: places_def admitted_adds_def unfinished_def failed_adds_def waiting_ids_def waits_as_def of_type_def)
    from thr True have "isEnabled ?c" by simp
    with thr have "accounted ?s"
    proof (cases rule: throttle_cases)
      case Free
      show ?thesis
      proof (rule accountedI)
        fix t q assume "map_of (queues (ac_control ?s)) t = Some q"
        with Free have q: "map_of (queues ?c) t = Some q" by simp
        with Free(1) have "\<not> of_type t d" by (auto simp: getQueue_def of_type_def)
        with old [OF q] Free show "queue_accounts (limit_of (ac_control ?s) t) (places t ?s) (waiting_ids t (ac_pending ?s)) q"
          unfolding add by simp
      qed (use True in simp)
    next
      case (Queue t0 q0 q')
      show ?thesis
      proof (rule accountedI)
        fix t q assume q: "map_of (queues (ac_control ?s)) t = Some q"
        show "queue_accounts (limit_of (ac_control ?s) t) (places t ?s) (waiting_ids t (ac_pending ?s)) q"
        proof (cases "t = t0")
          case True
          with q Queue(4) have "q = q'" by (simp add: update_conv')
          with enqueue_accounts [OF old [OF Queue(2)] Queue(3)] show ?thesis
            unfolding add using True Queue(1,4) by (auto simp: of_type_def limit_of_def)
        next
          case False
          with q Queue(4) have "map_of (queues ?c) t = Some q" by (simp add: update_conv')
          from old [OF this] show ?thesis unfolding add using False Queue(1,4) by (simp add: of_type_def limit_of_def)
        qed
      qed (use True in simp)
    qed
    then show ?thesis unfolding s' .
  qed
qed

lemma waiting_ids_remove:
  assumes "i < length ps" and "pa_admitted (ps ! i)"
  shows "waiting_ids t (arr_remove ps i) = waiting_ids t ps"
    and "length (filter (\<lambda>p. pa_admitted p \<and> of_type t (pa_data p)) ps)
      = length (filter (\<lambda>p. pa_admitted p \<and> of_type t (pa_data p)) (arr_remove ps i)) + (if of_type t (pa_data (ps ! i)) then 1 else 0)"
proof -
  have split: "ps = take i ps @ ps ! i # drop (Suc i) ps" using assms(1) by (simp add: id_take_nth_drop)
  have r: "arr_remove ps i = take i ps @ drop (Suc i) ps" by (simp add: arr_remove_def)
  show "waiting_ids t (arr_remove ps i) = waiting_ids t ps"
    using assms(2) unfolding r by (subst (3) split) (simp add: waiting_ids_def waits_as_def)
  show "length (filter (\<lambda>p. pa_admitted p \<and> of_type t (pa_data p)) ps)
      = length (filter (\<lambda>p. pa_admitted p \<and> of_type t (pa_data p)) (arr_remove ps i)) + (if of_type t (pa_data (ps ! i)) then 1 else 0)"
    using assms(2) unfolding r by (subst (1) split) simp
qed

lemma moved_accounted:
  assumes "accounted s" and "ac_control s' = ac_control s" and "ac_regular s' = ac_regular s"
    and "\<And>t. places t s' = places t s" and "\<And>t. waiting_ids t (ac_pending s') = waiting_ids t (ac_pending s)"
  shows "accounted s'"
  using assms by (simp add: accounted_def)

lemma enter_accounted:
  assumes "accounted s" and "i < length (ac_pending s)" and "pa_admitted (ac_pending s ! i)"
  shows "accounted (enter i now s)"
  by (rule moved_accounted [OF assms(1)])
    (simp_all add: enter_def Let_def places_def admitted_adds_def unfinished_def failed_adds_def
      waiting_ids_remove [OF assms(2,3)])

lemma fail_add_accounted:
  assumes "accounted s" and "i < length (ac_pending s)" and "pa_admitted (ac_pending s ! i)"
  shows "accounted (fail_add i s)"
  by (rule moved_accounted [OF assms(1)])
    (simp_all add: fail_add_def places_def admitted_adds_def unfinished_def failed_adds_def
      waiting_ids_remove [OF assms(2,3)] of_type_def [of _ "pa_data (ac_pending s ! i)"])

lemma shutdown_accounted:
  assumes "accounted s"
  shows "accounted (fst (shutdown cancelAll s))"
proof -
  let ?s1 = "if ac_regular s then s\<lparr>ac_control := disable (ac_control s)\<rparr> else s"
  have off: "\<not> isEnabled (ac_control ?s1)" using assms by (auto simp: accounted_def disable_def)
  have keep: "ac_control (fst (fold (shut_down_one cancelAll) ids acc)) = ac_control (fst acc)" for ids acc
  proof (induction ids arbitrary: acc)
    case (Cons a ids)
    have "ac_control (fst (shut_down_one cancelAll a acc)) = ac_control (fst acc)"
      using stopExecution_places by (auto simp: shut_down_one_def same_places_def Let_def split: prod.split option.split)
    with Cons show ?case by simp
  qed simp
  have "\<not> isEnabled (ac_control (fst (shutdown cancelAll s)))"
    using off keep [of "keys_of (ac_active ?s1)" "(?s1, [])"]
    by (auto simp: shutdown_def Let_def removeAll_def split: prod.splits if_splits)
  then show ?thesis by (simp add: accounted_def)
qed

lemma places_finally:
  assumes "k < length (ac_objects s)" and "\<not> x_removed (ac_objects s ! k)"
  shows "unfinished t s = unfinished t (change_object k (\<lambda>x. x\<lparr>x_removed := True\<rparr>) s)
    + (if of_type t (x_data (ac_objects s ! k)) then 1 else 0)"
proof -
  let ?xs = "ac_objects s"
  have split: "?xs = take k ?xs @ ?xs ! k # drop (Suc k) ?xs" using assms(1) by (simp add: id_take_nth_drop)
  have upd: "?xs[k := x] = take k ?xs @ x # drop (Suc k) ?xs" for x using assms(1) by (rule upd_conv_take_nth_drop)
  show ?thesis unfolding unfinished_def change_object_def using assms
    by (subst (1) split) (simp add: upd)
qed

lemma run_finally_parts:
  assumes "release (ad_mode (x_data (ac_objects s ! k))) (ac_control s) = (c', ev)"
  shows "ac_control (run_finally k s) = c'" and "ac_regular (run_finally k s) = ac_regular s" and "ac_failed (run_finally k s) = ac_failed s"
    and "ac_pending (run_finally k s) = admit_events (queue_type (ad_mode (x_data (ac_objects s ! k)))) ev (ac_pending s)"
    and "unfinished t (run_finally k s) = unfinished t (change_object k (\<lambda>x. x\<lparr>x_removed := True\<rparr>) s)"
proof -
  have twice: "unfinished t (change_object k (\<lambda>x. x\<lparr>x_workflow := False\<rparr>) s) = unfinished t s" for s
    using same_places_change [of "\<lambda>x. x\<lparr>x_workflow := False\<rparr>" s k] by (simp add: unfinished_map same_places_def)
  have ext: "unfinished t (s\<lparr>ac_control := c, ac_pending := p\<rparr>) = unfinished t s" "unfinished t (s\<lparr>ac_active := a\<rparr>) = unfinished t s"
    for s c p a by (simp_all add: unfinished_def)
  show "ac_control (run_finally k s) = c'" and "ac_regular (run_finally k s) = ac_regular s" and "ac_failed (run_finally k s) = ac_failed s"
    and "ac_pending (run_finally k s) = admit_events (queue_type (ad_mode (x_data (ac_objects s ! k)))) ev (ac_pending s)"
    and "unfinished t (run_finally k s) = unfinished t (change_object k (\<lambda>x. x\<lparr>x_removed := True\<rparr>) s)"
    using assms by (simp_all add: run_finally_def Let_def twice ext) (simp_all add: change_object_def)
qed

lemma run_finally_accounted:
  assumes acc: "accounted s" and k: "k < length (ac_objects s)" "\<not> x_removed (ac_objects s ! k)"
  shows "accounted (run_finally k s)"
proof (cases "isEnabled (ac_control s)")
  case False
  then have "release mode (ac_control s) = (ac_control s, [])" for mode by (simp add: release_def)
  with False run_finally_parts(1) [of s k] show ?thesis by (simp add: accounted_def)
next
  case True
  let ?c = "ac_control s" and ?d = "x_data (ac_objects s ! k)" and ?s = "run_finally k s"
  obtain c' ev where rel: "release (ad_mode ?d) ?c = (c', ev)" by (cases "release (ad_mode ?d) ?c")
  note parts = run_finally_parts [OF rel]
  have reg: "ac_regular s" and old: "queue_accounts (limit_of ?c t) (places t s) (waiting_ids t (ac_pending s)) q"
    if "map_of (queues ?c) t = Some q" for t q using acc True that by (simp_all add: accounted_def)
  have reg: "ac_regular s" using acc True by (simp add: accounted_def)
  have less: "places t s = admitted_adds t s + unfinished t ?s + failed_adds t ?s + (if of_type t ?d then 1 else 0)" for t
    using places_finally [OF k, of t] by (simp add: places_def parts failed_adds_def)
  from rel True show ?thesis
  proof (cases rule: release_cases)
    case Free
    show ?thesis
    proof (rule accountedI)
      fix t q assume "map_of (queues (ac_control ?s)) t = Some q"
      with Free have q: "map_of (queues ?c) t = Some q" by (simp add: parts)
      with Free(1) have "\<not> of_type t ?d" by (auto simp: getQueue_def of_type_def)
      with old [OF q] Free less [of t] show "queue_accounts (limit_of (ac_control ?s) t) (places t ?s) (waiting_ids t (ac_pending ?s)) q"
        by (simp add: places_def [of t ?s] admitted_adds_def parts)
    qed (use reg in \<open>simp add: parts\<close>)
  next
    case (Queue t0 q0 q')
    have less0: "places t0 s = Suc (admitted_adds t0 s + unfinished t0 ?s + failed_adds t0 ?s)"
      using less [of t0] Queue(1) by (simp add: of_type_def)
    show ?thesis
    proof (rule accountedI)
      fix t q assume q: "map_of (queues (ac_control ?s)) t = Some q"
      have lim: "limit_of (ac_control ?s) t = limit_of ?c t" using Queue(4) by (simp add: parts limit_of_def)
      have pend: "ac_pending ?s = admit_events (Some t0) ev (ac_pending s)" using Queue(1) by (simp add: parts)
      from dequeue_accounts [OF old [OF Queue(2), unfolded less0] Queue(3)]
      show "queue_accounts (limit_of (ac_control ?s) t) (places t ?s) (waiting_ids t (ac_pending ?s)) q"
      proof (elim disjE exE conjE)
        assume none: "ev = []" "waiting_ids t0 (ac_pending s) = []"
          and free: "queue_accounts (limit_of ?c t0) (admitted_adds t0 s + unfinished t0 ?s + failed_adds t0 ?s) [] q'"
        show ?thesis
        proof (cases "t = t0")
          case True
          with q Queue(4) have "q = q'" by (simp add: parts update_conv')
          with free none True lim pend show ?thesis by (simp add: places_def admitted_adds_def)
        next
          case False
          with q Queue(4) have "map_of (queues ?c) t = Some q" by (simp add: parts update_conv')
          from old [OF this] less [of t] none False lim pend Queue(1) show ?thesis
            by (simp add: places_def [of t ?s] admitted_adds_def of_type_def)
        qed
      next
        fix i rest assume next_one: "waiting_ids t0 (ac_pending s) = i # rest" "ev = [ExecutionReleased i]"
          and full: "queue_accounts (limit_of ?c t0) (Suc (admitted_adds t0 s + unfinished t0 ?s + failed_adds t0 ?s)) rest q'"
        show ?thesis
        proof (cases "t = t0")
          case True
          with q Queue(4) have "q = q'" by (simp add: parts update_conv')
          moreover have "places t0 ?s = Suc (admitted_adds t0 s + unfinished t0 ?s + failed_adds t0 ?s)"
            using admit_first_waiting [OF next_one(1)] by (simp add: places_def admitted_adds_def pend next_one(2))
          ultimately show ?thesis using full True lim pend next_one(2) admit_first_waiting [OF next_one(1)] by simp
        next
          case False
          with q Queue(4) have "map_of (queues ?c) t = Some q" by (simp add: parts update_conv')
          from old [OF this] less [of t] False lim pend next_one(2) Queue(1) admit_first_other [OF False, of i "ac_pending s"] show ?thesis
            by (simp add: places_def [of t ?s] admitted_adds_def of_type_def)
        qed
      qed
    qed (use reg in \<open>simp add: parts\<close>)
  qed
qed

lemma active_step_accounted: "active_step s s' \<Longrightarrow> accounted s \<Longrightarrow> accounted s'"
proof (induction rule: active_step.induct)
  case (Callback k s)
  then show ?case by (intro run_finally_accounted)
qed (auto intro: request_add_accounted enter_accounted fail_add_accounted shutdown_accounted
    same_places_accounted operations_places stopExecution_places)

lemma active_steps_accounted: "active_steps s s' \<Longrightarrow> accounted s \<Longrightarrow> accounted s'"
  by (induction rule: active_steps.induct) (auto intro: active_step_accounted)

section \<open>Limits\<close>

lemma limits_step: "active_step s s' \<Longrightarrow> limits (ac_control s') = limits (ac_control s)"
proof (induction rule: active_step.induct)
  case (Request s d executionId is_new)
  then show ?case
    by (auto simp: request_add_def throttle_def put_queue_def split: prod.split option.split)
next
  case (Callback k s)
  obtain c' ev where "release (ad_mode (x_data (ac_objects s ! k))) (ac_control s) = (c', ev)"
    by (cases "release (ad_mode (x_data (ac_objects s ! k))) (ac_control s)")
  moreover from this have "limits c' = limits (ac_control s)"
    by (auto simp: release_def put_queue_def split: if_splits option.splits prod.splits)
  ultimately show ?case using run_finally_parts(1) by simp
next
  case (Shutdown s cancelAll)
  have keep: "limits (ac_control (fst (fold (shut_down_one cancelAll) ids acc))) = limits (ac_control (fst acc))" for ids acc
  proof (induction ids arbitrary: acc)
    case (Cons a ids)
    have "ac_control (fst (shut_down_one cancelAll a acc)) = ac_control (fst acc)"
      using stopExecution_places by (auto simp: shut_down_one_def same_places_def Let_def split: prod.split option.split)
    with Cons show ?case by simp
  qed simp
  show ?case
    using keep [of "keys_of (ac_active s)" "(s\<lparr>ac_control := disable (ac_control s)\<rparr>, [])"] keep [of "keys_of (ac_active s)" "(s, [])"]
    by (auto simp: shutdown_def Let_def removeAll_def disable_def split: prod.split)
qed (use operations_places stopExecution_places in \<open>auto simp: same_places_def enter_def fail_add_def Let_def\<close>)

lemma limits_steps: "active_steps s s' \<Longrightarrow> limits (ac_control s') = limits (ac_control s)"
  by (induction rule: active_steps.induct) (auto dest: limits_step)

lemma new_active_accounted:
  assumes "new_control productionLimit evaluationLimit (\<not> regular) = Inr c"
  shows "accounted (new_active c regular)"
proof -
  have "(\<forall>t q. map_of (queues c) t = Some q \<longrightarrow> queue_accounts (limit_of c t) 0 [] q) \<and> regular" if "isEnabled c"
    using assms that
    by (auto simp: new_control_def Let_def limit_of_def queue_accounts_def new_queue_def split: if_splits)
  then show ?thesis
    by (simp add: accounted_def new_active_def places_def admitted_adds_def unfinished_def failed_adds_def waiting_ids_def)
qed

lemma places_bounded:
  assumes "accounted s" and "isEnabled (ac_control s)" and "map_of (queues (ac_control s)) t = Some q"
  shows "int (places t s) \<le> limit_of (ac_control s) t \<and> queue q = waiting_ids t (ac_pending s)
    \<and> (queue q \<noteq> [] \<longrightarrow> int (places t s) = limit_of (ac_control s) t)"
proof -
  have "queue_accounts (limit_of (ac_control s) t) (places t s) (waiting_ids t (ac_pending s)) q"
    using assms by (simp add: accounted_def)
  then show ?thesis by (cases "waiting_ids t (ac_pending s) = []") (auto simp: queue_accounts_def)
qed


section \<open>Places that are never given back\<close>

text \<open>An execution that the store no longer refers to, and whose promise has not settled.\<close>

definition orphan :: "nat \<Rightarrow> active \<Rightarrow> bool" where
  "orphan k s \<longleftrightarrow> k < length (ac_objects s) \<and> x_promise (ac_objects s ! k) = Pending \<and> \<not> x_removed (ac_objects s ! k)
     \<and> k \<notin> snd ` set (ac_active s)"

text \<open>Later states: the objects that were there and are not referred to stay as they are.\<close>

definition leaves :: "nat \<Rightarrow> active \<Rightarrow> active \<Rightarrow> bool" where
  "leaves k s s' \<longleftrightarrow> (k < length (ac_objects s) \<longrightarrow> k \<notin> snd ` set (ac_active s) \<longrightarrow>
     k < length (ac_objects s') \<and> ac_objects s' ! k = ac_objects s ! k \<and> k \<notin> snd ` set (ac_active s'))"

lemma leaves_refl [simp]: "leaves k s s"
  by (simp add: leaves_def)

lemma leaves_trans: "leaves k s s1 \<Longrightarrow> leaves k s1 s2 \<Longrightarrow> leaves k s s2"
  by (simp add: leaves_def)

lemma leaves_change: "j \<in> snd ` set (ac_active s) \<Longrightarrow> leaves k s (change_object j f s)"
  by (cases "j = k") (auto simp: leaves_def change_object_def)

lemma leaves_updates [simp]:
  "leaves k s (s'\<lparr>ac_responses := r\<rparr>) = leaves k s s'"
  "leaves k s (s'\<lparr>ac_cancelled := c\<rparr>) = leaves k s s'"
  "leaves k s (s'\<lparr>ac_control := d\<rparr>) = leaves k s s'"
  "leaves k s (s'\<lparr>ac_pending := p\<rparr>) = leaves k s s'"
  "leaves k s (s'\<lparr>ac_failed := m\<rparr>) = leaves k s s'"
  by (simp_all add: leaves_def)

lemma leaves_settle_response [simp]: "leaves k s (settle_response v r s)"
  by (simp add: settle_response_def split: option.split)

lemma settle_response_active [simp]: "ac_active (settle_response v r s) = ac_active s"
  by (simp add: settle_response_def split: option.split)

lemma key_image: "map_of xs k = Some v \<Longrightarrow> v \<in> snd ` set xs"
  by (force dest: map_of_SomeD)

lemma leaves_delete: "leaves k s s' \<Longrightarrow> leaves k s (s'\<lparr>ac_active := AList.delete i (ac_active s')\<rparr>)"
  by (auto simp: leaves_def AList.delete_eq)

lemma stopExecution_leaves: "leaves k s (stopExecution i s)"
proof (cases "map_of (ac_active s) i")
  case (Some j)
  let ?s = "settle_response Rejected (x_response (ac_objects s ! j)) s"
  let ?t = "if x_workflow (ac_objects s ! j) then ?s\<lparr>ac_cancelled := ac_cancelled ?s @ [j]\<rparr> else ?s"
  have "leaves k ?t (settle_execution Rejected j ?t)"
    unfolding settle_execution_def using key_image [OF Some] by (intro leaves_change) simp
  then have "leaves k s (settle_execution Rejected j ?t)" by (rule leaves_trans [rotated]) simp
  moreover have "leaves k s (?s\<lparr>ac_active := AList.delete i (ac_active ?s)\<rparr>)" by (rule leaves_delete) simp
  ultimately show ?thesis using Some by (simp add: stopExecution_def Let_def)
qed (simp add: stopExecution_def)

lemma operations_leave:
  "attachWorkflowExecution i s = Inr s' \<Longrightarrow> leaves k s s'"
  "attachResponsePromise i s = Inr s' \<Longrightarrow> leaves k s s'"
  "setStatus i status s = Inr s' \<Longrightarrow> leaves k s s'"
  "leaves k s (resolveResponsePromise i s)"
  "leaves k s (resolveExecutionResponsePromise i s)"
  "leaves k s (finalizeExecution i s)"
  by (auto simp: attachWorkflowExecution_def attachResponsePromise_def setStatus_def resolveResponsePromise_def
      resolveExecutionResponsePromise_def finalizeExecution_def getExecutionOrFail_def settle_execution_def bind_res_Inr_iff
      intro!: leaves_change key_image split: option.splits)

lemma enter_leaves: "leaves k s (enter i now s)"
proof -
  have "set (obj_set a (length (ac_objects s)) (ac_active s)) \<subseteq> insert (a, length (ac_objects s)) (set (ac_active s))" for a
  proof -
    have "set (obj_insert_index a v xs) \<subseteq> insert (a, v) (set xs)" for v :: nat and xs
      by (induction a v xs rule: obj_insert_index.induct) auto
    moreover have "set (AList.update a v xs) \<subseteq> insert (a, v) (set xs)" for v :: nat and xs
      by (induction xs) auto
    ultimately show ?thesis by (auto simp: obj_set_def)
  qed
  then show ?thesis by (fastforce simp: leaves_def enter_def Let_def nth_append)
qed

lemma shutdown_leaves: "leaves k s (fst (shutdown cancelAll s))"
proof -
  have one: "leaves k (fst acc) (fst (shut_down_one cancelAll i acc))" for i acc
    using stopExecution_leaves leaves_delete [OF leaves_refl]
    by (auto simp: shut_down_one_def Let_def split: prod.split option.split)
  have all: "leaves k (fst acc) (fst (fold (shut_down_one cancelAll) ids acc))" for ids acc
  proof (induction ids arbitrary: acc)
    case (Cons i ids)
    from leaves_trans [OF one Cons, of acc i] show ?case by simp
  qed simp
  show ?thesis
    using all [of "(if ac_regular s then s\<lparr>ac_control := disable (ac_control s)\<rparr> else s, [])" "keys_of (ac_active s)"]
    by (auto simp: shutdown_def Let_def leaves_def split: prod.split)
qed

lemma run_finally_leaves: "j \<noteq> k \<Longrightarrow> leaves k s (run_finally j s)"
  by (auto simp: run_finally_def Let_def leaves_def change_object_def AList.delete_eq split: prod.split)

lemma orphan_step: "active_step s s' \<Longrightarrow> orphan k s \<Longrightarrow> orphan k s' \<and> x_data (ac_objects s' ! k) = x_data (ac_objects s ! k)"
proof -
  have keeps: "leaves k s s' \<Longrightarrow> orphan k s \<Longrightarrow> orphan k s' \<and> x_data (ac_objects s' ! k) = x_data (ac_objects s ! k)" for s s'
    by (simp add: leaves_def orphan_def)
  have req: "leaves k s (request_add d i is_new s)" for d i is_new s
    by (simp add: request_add_def split: prod.split)
  have fl: "leaves k s (fail_add i s)" for i s by (simp add: fail_add_def)
  show "active_step s s' \<Longrightarrow> orphan k s \<Longrightarrow> orphan k s' \<and> x_data (ac_objects s' ! k) = x_data (ac_objects s ! k)"
  proof (induction rule: active_step.induct)
    case (Callback j s)
    then have "j \<noteq> k" by (auto simp: orphan_def)
    with Callback show ?case by (intro keeps run_finally_leaves)
  qed (auto intro!: keeps req fl intro: operations_leave stopExecution_leaves enter_leaves shutdown_leaves)
qed

lemma orphan_steps: "active_steps s s' \<Longrightarrow> orphan k s \<Longrightarrow> orphan k s' \<and> x_data (ac_objects s' ! k) = x_data (ac_objects s ! k)"
  by (induction rule: active_steps.induct) (auto dest: orphan_step)

section \<open>Examples\<close>

definition one_at_a_time :: ConcurrencyControl where
  "one_at_a_time = \<lparr>isEnabled = True, limits = [(Production, 1), (Evaluation, -1)], queues = [(Production, new_queue 1)]\<rparr>"

lemma one_at_a_time: "new_control 1 (-1) (\<not> True) = Inr one_at_a_time"
  by code_simp

definition hook_data :: add_data where
  "hook_data = \<lparr>ad_mode = ModeWebhook, ad_retryOf = None, ad_workflowId = ''w''\<rparr>"

text \<open>Two executions are requested, and the first is entered.\<close>

definition two_requests :: active where
  "two_requests = enter 0 0 (request_add hook_data ''2'' True (request_add hook_data ''1'' True (new_active one_at_a_time True)))"

lemma two_requests_steps: "active_steps (new_active one_at_a_time True) two_requests"
proof -
  let ?s = "request_add hook_data ''2'' True (request_add hook_data ''1'' True (new_active one_at_a_time True))"
  have "active_steps (new_active one_at_a_time True) ?s" 
    by (rule active_steps.Further [OF active_steps.Further [OF active_steps.Here active_step.Request] active_step.Request])
  moreover have "active_step ?s two_requests" unfolding two_requests_def by (rule active_step.Enter) code_simp+
  ultimately show ?thesis by (rule active_steps.Further)
qed


text \<open>The first asked to wait and is stopped before its run has ended.\<close>

definition stopped_waiting :: active where
  "stopped_waiting = stopExecution ''1'' (case setStatus ''1'' StWaiting two_requests of Inl _ \<Rightarrow> two_requests | Inr s \<Rightarrow> s)"



text \<open>The execution that waits for a response is cancelled in the process, but not in the database.\<close>

lemma shutdown_cancelled: "accounted s \<Longrightarrow> snd (shutdown cancelAll s) = []"
proof -
  assume acc: "accounted s"
  let ?s1 = "if ac_regular s then s\<lparr>ac_control := disable (ac_control s)\<rparr> else s"
  have off: "\<not> isEnabled (ac_control ?s1)" using acc by (auto simp: accounted_def disable_def)
  have "ac_control (fst (fold (shut_down_one cancelAll) ids acc)) = ac_control (fst acc)" for ids acc
  proof (induction ids arbitrary: acc)
    case (Cons a ids)
    have "ac_control (fst (shut_down_one cancelAll a acc)) = ac_control (fst acc)"
      using stopExecution_places by (auto simp: shut_down_one_def same_places_def Let_def split: prod.split option.split)
    with Cons show ?case by simp
  qed simp
  from this [of "keys_of (ac_active ?s1)" "(?s1, [])"] off show ?thesis
    by (auto simp: shutdown_def Let_def removeAll_def split: prod.splits)
qed

text \<open>On shutdown no execution is cancelled in the database: the concurrency control is disabled before it is asked
  to remove the cancelled executions, and then does nothing. Here the execution with a response promise is stopped.\<close>

theorem shutdown_cancels_nothing:
  assumes "new_control productionLimit evaluationLimit (\<not> regular) = Inr c" and "active_steps (new_active c regular) s"
  shows "snd (shutdown cancelAll s) = []"
  using active_steps_accounted [OF assms(2) new_active_accounted [OF assms(1)]] by (rule shutdown_cancelled)

lemma shutdown_cancels_nothing_witness:
  "(case attachResponsePromise ''1'' two_requests of Inl _ \<Rightarrow> False
    | Inr s \<Rightarrow> ac_responses (fst (shutdown False s)) = [Rejected] \<and> snd (shutdown False s) = [])"
proof -
  have "case attachResponsePromise ''1'' two_requests of Inl _ \<Rightarrow> False | Inr s \<Rightarrow> ac_responses (fst (shutdown False s)) = [Rejected]"
    by code_simp
  then obtain s where s: "attachResponsePromise ''1'' two_requests = Inr s" "ac_responses (fst (shutdown False s)) = [Rejected]"
    by (auto split: sum.splits)
  have "active_steps (new_active one_at_a_time True) s"
    using s(1) by (intro active_steps.Further [OF two_requests_steps] active_step.AttachResponse)
  from shutdown_cancels_nothing [OF one_at_a_time this] s show ?thesis by simp
qed

end
