(* ===== verification/TaskBroker.thy ===== *)
theory TaskBroker
  imports Prelude
begin

text \<open>
  The task broker (\<open>packages/cli/src/task-runners/task-broker/task-broker.service.ts\<close>): it matches
  the tasks that requesters ask for with the offers of runners, lets both sides accept, and passes their
  messages on. \<open>acceptOffer\<close> is a thread that waits twice, for the runner and for the requester; the
  handlers and timers settle the promise it waits for, and it goes on in a step of its own. Requests are
  objects that the list of pending requests and the threads share.
\<close>

section \<open>State\<close>

record TaskRunner =
  tr_id :: string
  tr_taskTypes :: "string list"

record Task =
  tk_id :: string
  tk_runnerId :: string
  tk_requesterId :: string
  tk_taskType :: string
  tk_timeout :: bool

record TaskOffer =
  off_offerId :: string
  off_runnerId :: string
  off_taskType :: string
  off_validFor :: int
  off_validUntil :: int

record TaskRequest =
  rq_requestId :: string
  rq_requesterId :: string
  rq_taskType :: string
  rq_acceptInProgress :: bool

datatype 'p to_runner =
    RunnerRegistered
  | TaskOfferAccept string string
  | TaskCancel string string
  | TaskSettings string 'p
  | TaskDataResponse string string 'p
  | NodeTypesResponse string string 'p
  | RpcResponse string string string 'p

datatype 'p to_requester =
    TaskReady string string
  | TaskDone string 'p
  | TaskError string
  | RpcRequest string string string 'p
  | TaskDataRequest string string 'p
  | NodeTypesRequest string string 'p

text \<open>What the promises of a thread are settled with.\<close>

datatype runner_answer = RunnerAccepts | RunnerRejects string | RunnerDefers | RunnerTimedOut

datatype 'p requester_answer = RequesterSettings 'p | RequesterRejects string | RequesterTimedOut

datatype 'p stage =
    AskRunner "runner_answer option"
  | AskRequester "'p requester_answer option"
  | Ended

record 'p accept_thread =
  th_task :: string
  th_offer :: TaskOffer
  th_request :: nat
  th_stage :: "'p stage"

text \<open>The maps of callbacks hold task ids; \<open>br_ids\<close> counts the ids that were drawn.\<close>

record 'p broker =
  br_runners :: "(string \<times> TaskRunner) list"
  br_requesters :: "string list"
  br_tasks :: "(string \<times> Task) list"
  br_runnerAccepts :: "string list"
  br_requesterAccepts :: "string list"
  br_offers :: "TaskOffer list"
  br_pending :: "nat list"
  br_requests :: "TaskRequest list"
  br_threads :: "'p accept_thread list"
  br_ids :: nat
  br_toRunner :: "(string \<times> 'p to_runner) list"
  br_toRequester :: "(string \<times> 'p to_requester) list"
  br_timedOut :: nat

text \<open>The constructor refuses a timeout that is not positive.\<close>

definition new_broker :: "int \<Rightarrow> 'p broker res" where
  "new_broker taskTimeout =
     (if taskTimeout \<le> 0 then Inl (UserError ''Task timeout must be greater than 0'')
      else Inr \<lparr>br_runners = [], br_requesters = [], br_tasks = [], br_runnerAccepts = [], br_requesterAccepts = [],
        br_offers = [], br_pending = [], br_requests = [], br_threads = [], br_ids = 0, br_toRunner = [],
        br_toRequester = [], br_timedOut = 0\<rparr>)"

section \<open>Messages\<close>

definition messageRunner :: "string \<Rightarrow> 'p to_runner \<Rightarrow> 'p broker \<Rightarrow> 'p broker" where
  "messageRunner runnerId message b =
     (if map_of (br_runners b) runnerId = None then b else b\<lparr>br_toRunner := br_toRunner b @ [(runnerId, message)]\<rparr>)"

definition messageRequester :: "string \<Rightarrow> 'p to_requester \<Rightarrow> 'p broker \<Rightarrow> 'p broker" where
  "messageRequester requesterId message b =
     (if requesterId \<notin> set (br_requesters b) then b
      else b\<lparr>br_toRequester := br_toRequester b @ [(requesterId, message)]\<rparr>)"

section \<open>Matching offers and requests\<close>

definition expireTasks :: "int \<Rightarrow> 'p broker \<Rightarrow> 'p broker" where
  "expireTasks now b = b\<lparr>br_offers := filter (\<lambda>offer. off_validFor offer = -1 \<or> \<not> off_validUntil offer < now) (br_offers b)\<rparr>"

definition set_in_progress :: "nat \<Rightarrow> bool \<Rightarrow> 'p broker \<Rightarrow> 'p broker" where
  "set_in_progress r flag b =
     b\<lparr>br_requests := (br_requests b)[r := (br_requests b ! r)\<lparr>rq_acceptInProgress := flag\<rparr>]\<rparr>"

text \<open>\<open>acceptOffer\<close> up to the runner's answer.\<close>

definition acceptOffer :: "(nat \<Rightarrow> string) \<Rightarrow> TaskOffer \<Rightarrow> nat \<Rightarrow> 'p broker \<Rightarrow> 'p broker" where
  "acceptOffer nanoid offer r b =
     (let taskId = nanoid (br_ids b) in
      messageRunner (off_runnerId offer) (TaskOfferAccept (off_offerId offer) taskId)
        (b\<lparr>br_ids := Suc (br_ids b), br_runnerAccepts := br_runnerAccepts b @ [taskId],
           br_threads := br_threads b @ [\<lparr>th_task = taskId, th_offer = offer, th_request = r, th_stage = AskRunner None\<rparr>]\<rparr>))"

definition settle_request :: "(nat \<Rightarrow> string) \<Rightarrow> nat \<Rightarrow> 'p broker \<Rightarrow> 'p broker" where
  "settle_request nanoid r b =
     (let request = br_requests b ! r in
      if rq_acceptInProgress request then b
      else case find_index (\<lambda>o'. off_taskType o' = rq_taskType request) (br_offers b) of
          None \<Rightarrow> b
        | Some offerIndex \<Rightarrow>
            acceptOffer nanoid (br_offers b ! offerIndex) r
              ((set_in_progress r True b)\<lparr>br_offers := arr_remove (br_offers b) offerIndex\<rparr>))"

definition settleTasks :: "(nat \<Rightarrow> string) \<Rightarrow> int \<Rightarrow> 'p broker \<Rightarrow> 'p broker" where
  "settleTasks nanoid now b = (let b1 = expireTasks now b in fold (settle_request nanoid) (br_pending b1) b1)"

definition taskRequested :: "(nat \<Rightarrow> string) \<Rightarrow> int \<Rightarrow> TaskRequest \<Rightarrow> 'p broker \<Rightarrow> 'p broker" where
  "taskRequested nanoid now request b =
     settleTasks nanoid now (b\<lparr>br_pending := br_pending b @ [length (br_requests b)], br_requests := br_requests b @ [request]\<rparr>)"

definition taskOffered :: "(nat \<Rightarrow> string) \<Rightarrow> int \<Rightarrow> TaskOffer \<Rightarrow> 'p broker \<Rightarrow> 'p broker" where
  "taskOffered nanoid now offer b = settleTasks nanoid now (b\<lparr>br_offers := br_offers b @ [offer]\<rparr>)"

section \<open>Ending a task\<close>

definition cancelTask :: "string \<Rightarrow> string \<Rightarrow> 'p broker \<Rightarrow> 'p broker" where
  "cancelTask taskId reason b =
     (case map_of (br_tasks b) taskId of
        None \<Rightarrow> b
      | Some task \<Rightarrow> messageRunner (tk_runnerId task) (TaskCancel taskId reason) (b\<lparr>br_tasks := AList.delete taskId (br_tasks b)\<rparr>))"

definition failTask :: "string \<Rightarrow> 'p broker \<Rightarrow> 'p broker" where
  "failTask taskId b =
     (case map_of (br_tasks b) taskId of
        None \<Rightarrow> b
      | Some task \<Rightarrow> messageRequester (tk_requesterId task) (TaskError taskId) (b\<lparr>br_tasks := AList.delete taskId (br_tasks b)\<rparr>))"

definition taskDoneHandler :: "string \<Rightarrow> 'p \<Rightarrow> 'p broker \<Rightarrow> 'p broker" where
  "taskDoneHandler taskId d b =
     (case map_of (br_tasks b) taskId of
        None \<Rightarrow> b
      | Some task \<Rightarrow> (messageRequester (tk_requesterId task) (TaskDone (tk_id task) d) b)\<lparr>br_tasks := AList.delete (tk_id task) (br_tasks b)\<rparr>)"

definition taskErrorHandler :: "string \<Rightarrow> 'p broker \<Rightarrow> 'p broker" where
  "taskErrorHandler taskId b =
     (case map_of (br_tasks b) taskId of
        None \<Rightarrow> b
      | Some task \<Rightarrow> (messageRequester (tk_requesterId task) (TaskError (tk_id task)) b)\<lparr>br_tasks := AList.delete (tk_id task) (br_tasks b)\<rparr>)"

definition getRunnerOrFailTask :: "string \<Rightarrow> 'p broker \<Rightarrow> (js_error + TaskRunner) \<times> 'p broker" where
  "getRunnerOrFailTask taskId b =
     (case map_of (br_tasks b) taskId of
        None \<Rightarrow> (Inl (UnexpectedError ''Cannot find runner, failed to find task''), b)
      | Some task \<Rightarrow>
          (case map_of (br_runners b) (tk_runnerId task) of
             None \<Rightarrow> (Inl (UnexpectedError ''Cannot find runner, failed to find runner''), failTask taskId b)
           | Some runner \<Rightarrow> (Inr runner, b)))"

text \<open>The timer of a task; \<open>internal\<close> is the mode in which the runner is a child process.\<close>

definition handleTaskTimeout :: "bool \<Rightarrow> string \<Rightarrow> 'p broker \<Rightarrow> 'p broker" where
  "handleTaskTimeout internal taskId b =
     (case map_of (br_tasks b) taskId of
        None \<Rightarrow> b
      | Some task \<Rightarrow> taskErrorHandler taskId
          (if internal then b\<lparr>br_timedOut := Suc (br_timedOut b)\<rparr>
           else messageRunner (tk_runnerId task) (TaskCancel taskId ''Task execution timed out'') b))"

definition sendTaskSettings :: "string \<Rightarrow> 'p \<Rightarrow> 'p broker \<Rightarrow> js_error option \<times> 'p broker" where
  "sendTaskSettings taskId settings b =
     (case getRunnerOrFailTask taskId b of
        (Inl e, b1) \<Rightarrow> (Some e, b1)
      | (Inr runner, b1) \<Rightarrow>
          (case map_of (br_tasks b1) taskId of
             None \<Rightarrow> (None, b1)
           | Some task \<Rightarrow> (None, messageRunner (tr_id runner) (TaskSettings taskId settings)
               (b1\<lparr>br_tasks := AList.update taskId (task\<lparr>tk_timeout := True\<rparr>) (br_tasks b1)\<rparr>))))"

section \<open>Answers\<close>

text \<open>A callback settles the promise of its thread, if that is still waiting, and is removed.\<close>

definition answer_runner :: "string \<Rightarrow> runner_answer \<Rightarrow> 'p accept_thread \<Rightarrow> 'p accept_thread" where
  "answer_runner taskId a th =
     (if th_task th = taskId \<and> th_stage th = AskRunner None then th\<lparr>th_stage := AskRunner (Some a)\<rparr> else th)"

definition answer_requester :: "string \<Rightarrow> 'p requester_answer \<Rightarrow> 'p accept_thread \<Rightarrow> 'p accept_thread" where
  "answer_requester taskId a th =
     (if th_task th = taskId \<and> th_stage th = AskRequester None then th\<lparr>th_stage := AskRequester (Some a)\<rparr> else th)"

definition runner_callback :: "string \<Rightarrow> runner_answer \<Rightarrow> 'p broker \<Rightarrow> 'p broker" where
  "runner_callback taskId a b =
     (if taskId \<notin> set (br_runnerAccepts b) then b
      else b\<lparr>br_threads := map (answer_runner taskId a) (br_threads b), br_runnerAccepts := filter (\<lambda>i. i \<noteq> taskId) (br_runnerAccepts b)\<rparr>)"

definition requester_callback :: "string \<Rightarrow> 'p requester_answer \<Rightarrow> 'p broker \<Rightarrow> 'p broker" where
  "requester_callback taskId a b =
     (if taskId \<notin> set (br_requesterAccepts b) then b
      else b\<lparr>br_threads := map (answer_requester taskId a) (br_threads b),
             br_requesterAccepts := filter (\<lambda>i. i \<noteq> taskId) (br_requesterAccepts b)\<rparr>)"

definition handleRunnerAccept :: "string \<Rightarrow> 'p broker \<Rightarrow> 'p broker" where
  "handleRunnerAccept taskId = runner_callback taskId RunnerAccepts"

definition handleRunnerReject :: "string \<Rightarrow> string \<Rightarrow> 'p broker \<Rightarrow> 'p broker" where
  "handleRunnerReject taskId reason = runner_callback taskId (RunnerRejects reason)"

definition handleRunnerDeferred :: "string \<Rightarrow> 'p broker \<Rightarrow> 'p broker" where
  "handleRunnerDeferred taskId = runner_callback taskId RunnerDefers"

definition handleRequesterAccept :: "string \<Rightarrow> 'p \<Rightarrow> 'p broker \<Rightarrow> 'p broker" where
  "handleRequesterAccept taskId settings = requester_callback taskId (RequesterSettings settings)"

definition handleRequesterReject :: "string \<Rightarrow> string \<Rightarrow> 'p broker \<Rightarrow> 'p broker" where
  "handleRequesterReject taskId reason = requester_callback taskId (RequesterRejects reason)"

text \<open>The timers of the promises leave the callbacks in their maps.\<close>

definition runner_accept_timeout :: "string \<Rightarrow> 'p broker \<Rightarrow> 'p broker" where
  "runner_accept_timeout taskId b = b\<lparr>br_threads := map (answer_runner taskId RunnerTimedOut) (br_threads b)\<rparr>"

definition requester_accept_timeout :: "string \<Rightarrow> 'p broker \<Rightarrow> 'p broker" where
  "requester_accept_timeout taskId b = b\<lparr>br_threads := map (answer_requester taskId RequesterTimedOut) (br_threads b)\<rparr>"

section \<open>Threads that go on\<close>

definition set_stage :: "nat \<Rightarrow> 'p stage \<Rightarrow> 'p broker \<Rightarrow> 'p broker" where
  "set_stage k stage b = b\<lparr>br_threads := (br_threads b)[k := (br_threads b ! k)\<lparr>th_stage := stage\<rparr>]\<rparr>"

text \<open>The runner accepted: the task exists, its request is no longer pending, and the requester is asked.\<close>

definition start_task :: "nat \<Rightarrow> 'p broker \<Rightarrow> 'p broker" where
  "start_task k b =
     (let th = br_threads b ! k; request = br_requests b ! th_request th; taskId = th_task th;
          task = \<lparr>tk_id = taskId, tk_runnerId = off_runnerId (th_offer th), tk_requesterId = rq_requesterId request,
            tk_taskType = off_taskType (th_offer th), tk_timeout = False\<rparr>;
          b1 = b\<lparr>br_tasks := AList.update taskId task (br_tasks b)\<rparr>
      in case find_index (\<lambda>r. rq_requestId (br_requests b ! r) = rq_requestId request) (br_pending b) of
           None \<Rightarrow> set_stage k Ended b1
         | Some requestIndex \<Rightarrow>
             set_stage k (AskRequester None)
               (messageRequester (rq_requesterId request) (TaskReady (rq_requestId request) taskId)
                 (b1\<lparr>br_pending := arr_remove (br_pending b) requestIndex,
                     br_requesterAccepts := br_requesterAccepts b @ [taskId]\<rparr>)))"

definition after_runner :: "nat \<Rightarrow> runner_answer \<Rightarrow> 'p broker \<Rightarrow> 'p broker" where
  "after_runner k a b =
     (let r = th_request (br_threads b ! k); idle = set_stage k Ended (set_in_progress r False b) in
      case a of
        RunnerAccepts \<Rightarrow> start_task k b
      | RunnerDefers \<Rightarrow> idle\<lparr>br_pending := br_pending b @ [r]\<rparr>
      | _ \<Rightarrow> idle)"

text \<open>The requester answered: its settings go to the runner, otherwise the task is cancelled.\<close>

definition after_requester :: "nat \<Rightarrow> 'p requester_answer \<Rightarrow> 'p broker \<Rightarrow> 'p broker" where
  "after_requester k a b =
     (let taskId = th_task (br_threads b ! k); b0 = set_stage k Ended b in
      case a of
        RequesterSettings settings \<Rightarrow>
          (case sendTaskSettings taskId settings b0 of
             (None, b1) \<Rightarrow> b1
           | (Some e, b1) \<Rightarrow> cancelTask taskId ''Unknown reason'' b1)
      | RequesterRejects reason \<Rightarrow> cancelTask taskId reason b0
      | RequesterTimedOut \<Rightarrow> cancelTask taskId ''Unknown reason'' b0)"

section \<open>Runners and requesters\<close>

definition registerRunner :: "TaskRunner \<Rightarrow> 'p broker \<Rightarrow> 'p broker" where
  "registerRunner runner b =
     messageRunner (tr_id runner) RunnerRegistered (b\<lparr>br_runners := AList.update (tr_id runner) runner (br_runners b)\<rparr>)"

definition disconnect_reason :: "string \<Rightarrow> string \<Rightarrow> string" where
  "disconnect_reason runnerId message = ''The Task Runner ('' @ runnerId @ '') has disconnected: '' @ message"

definition deregisterRunner :: "string \<Rightarrow> string \<Rightarrow> 'p broker \<Rightarrow> 'p broker" where
  "deregisterRunner runnerId message b =
     (let b1 = b\<lparr>br_runners := AList.delete runnerId (br_runners b),
            br_offers := filter (\<lambda>offer. off_runnerId offer \<noteq> runnerId) (br_offers b)\<rparr>
      in fold (\<lambda>task b. handleRunnerReject (tk_id task) (disconnect_reason runnerId message) (failTask (tk_id task) b))
           (filter (\<lambda>task. tk_runnerId task = runnerId) (values_of (br_tasks b1))) b1)"

definition registerRequester :: "string \<Rightarrow> 'p broker \<Rightarrow> 'p broker" where
  "registerRequester requesterId b = b\<lparr>br_requesters := set_add requesterId (br_requesters b)\<rparr>"

definition deregisterRequester :: "string \<Rightarrow> 'p broker \<Rightarrow> 'p broker" where
  "deregisterRequester requesterId b = b\<lparr>br_requesters := filter (\<lambda>i. i \<noteq> requesterId) (br_requesters b)\<rparr>"

text \<open>A request of the runner for its task is passed on to the requester.\<close>

definition ask_requester :: "string \<Rightarrow> 'p to_requester \<Rightarrow> 'p broker \<Rightarrow> 'p broker" where
  "ask_requester taskId message b =
     (case map_of (br_tasks b) taskId of None \<Rightarrow> b | Some task \<Rightarrow> messageRequester (tk_requesterId task) message b)"

definition handleRpcRequest :: "string \<Rightarrow> string \<Rightarrow> string \<Rightarrow> 'p \<Rightarrow> 'p broker \<Rightarrow> 'p broker" where
  "handleRpcRequest taskId callId name params = ask_requester taskId (RpcRequest taskId callId name params)"

definition handleDataRequest :: "string \<Rightarrow> string \<Rightarrow> 'p \<Rightarrow> 'p broker \<Rightarrow> 'p broker" where
  "handleDataRequest taskId requestId params = ask_requester taskId (TaskDataRequest taskId requestId params)"

definition handleNodeTypesRequest :: "string \<Rightarrow> string \<Rightarrow> 'p \<Rightarrow> 'p broker \<Rightarrow> 'p broker" where
  "handleNodeTypesRequest taskId requestId params = ask_requester taskId (NodeTypesRequest taskId requestId params)"

text \<open>The answer goes to the runner whose id is that of the requester.\<close>

definition handleResponse :: "string \<Rightarrow> string \<Rightarrow> 'p \<Rightarrow> 'p broker \<Rightarrow> 'p broker" where
  "handleResponse taskId requestId d b =
     (case map_of (br_tasks b) taskId of
        None \<Rightarrow> b
      | Some task \<Rightarrow> messageRunner (tk_requesterId task) (TaskDataResponse taskId requestId d) b)"

text \<open>A response of the requester goes to the runner of the task, or fails.\<close>

definition answer_task :: "string \<Rightarrow> 'p to_runner \<Rightarrow> 'p broker \<Rightarrow> 'p broker" where
  "answer_task taskId message b =
     (case getRunnerOrFailTask taskId b of
        (Inl e, b1) \<Rightarrow> b1
      | (Inr runner, b1) \<Rightarrow> messageRunner (tr_id runner) message b1)"

definition handleRequesterRpcResponse :: "string \<Rightarrow> string \<Rightarrow> string \<Rightarrow> 'p \<Rightarrow> 'p broker \<Rightarrow> 'p broker" where
  "handleRequesterRpcResponse taskId callId status d = answer_task taskId (RpcResponse taskId callId status d)"

definition handleRequesterDataResponse :: "string \<Rightarrow> string \<Rightarrow> 'p \<Rightarrow> 'p broker \<Rightarrow> 'p broker" where
  "handleRequesterDataResponse taskId requestId d = answer_task taskId (TaskDataResponse taskId requestId d)"

definition handleRequesterNodeTypesResponse :: "string \<Rightarrow> string \<Rightarrow> 'p \<Rightarrow> 'p broker \<Rightarrow> 'p broker" where
  "handleRequesterNodeTypesResponse taskId requestId d = answer_task taskId (NodeTypesResponse taskId requestId d)"

datatype 'p runner_message =
    MTaskAccepted string
  | MTaskRejected string string
  | MTaskDeferred string
  | MTaskOffer string string int
  | MTaskDone string 'p
  | MTaskError string
  | MTaskDataRequest string string 'p
  | MNodeTypesRequest string string 'p
  | MRpc string string string 'p
  | MInfo

datatype 'p requester_message =
    MTaskSettings string 'p
  | MTaskCancel string string
  | MTaskRequest string string
  | MTaskDataResponse string string 'p
  | MNodeTypesResponse string string 'p
  | MRpcResponse string string string 'p

definition onRunnerMessage :: "(nat \<Rightarrow> string) \<Rightarrow> int \<Rightarrow> string \<Rightarrow> 'p runner_message \<Rightarrow> 'p broker \<Rightarrow> 'p broker" where
  "onRunnerMessage nanoid now runnerId message b =
     (if map_of (br_runners b) runnerId = None then b
      else case message of
        MTaskAccepted taskId \<Rightarrow> handleRunnerAccept taskId b
      | MTaskRejected taskId reason \<Rightarrow> handleRunnerReject taskId reason b
      | MTaskDeferred taskId \<Rightarrow> handleRunnerDeferred taskId b
      | MTaskOffer offerId taskType validFor \<Rightarrow> taskOffered nanoid now
          \<lparr>off_offerId = offerId, off_runnerId = runnerId, off_taskType = taskType, off_validFor = validFor,
           off_validUntil = (if validFor = -1 then 0 else now + validFor * 1000000)\<rparr> b
      | MTaskDone taskId d \<Rightarrow> taskDoneHandler taskId d b
      | MTaskError taskId \<Rightarrow> taskErrorHandler taskId b
      | MTaskDataRequest taskId requestId params \<Rightarrow> handleDataRequest taskId requestId params b
      | MNodeTypesRequest taskId requestId params \<Rightarrow> handleNodeTypesRequest taskId requestId params b
      | MRpc taskId callId name params \<Rightarrow> handleRpcRequest taskId callId name params b
      | MInfo \<Rightarrow> b)"

definition onRequesterMessage :: "(nat \<Rightarrow> string) \<Rightarrow> int \<Rightarrow> string \<Rightarrow> 'p requester_message \<Rightarrow> 'p broker \<Rightarrow> 'p broker" where
  "onRequesterMessage nanoid now requesterId message b =
     (case message of
        MTaskSettings taskId settings \<Rightarrow> handleRequesterAccept taskId settings b
      | MTaskCancel taskId reason \<Rightarrow> cancelTask taskId reason b
      | MTaskRequest taskType requestId \<Rightarrow> taskRequested nanoid now
          \<lparr>rq_requestId = requestId, rq_requesterId = requesterId, rq_taskType = taskType, rq_acceptInProgress = False\<rparr> b
      | MTaskDataResponse taskId requestId d \<Rightarrow> handleRequesterDataResponse taskId requestId d b
      | MNodeTypesResponse taskId requestId d \<Rightarrow> handleRequesterNodeTypesResponse taskId requestId d b
      | MRpcResponse taskId callId status d \<Rightarrow> handleRequesterRpcResponse taskId callId status d b)"

inductive broker_step :: "(nat \<Rightarrow> string) \<Rightarrow> 'p broker \<Rightarrow> 'p broker \<Rightarrow> bool" for nanoid where
  Runner: "broker_step nanoid b (registerRunner runner b)"
| Runner_gone: "broker_step nanoid b (deregisterRunner runnerId message b)"
| Requester: "broker_step nanoid b (registerRequester requesterId b)"
| Requester_gone: "broker_step nanoid b (deregisterRequester requesterId b)"
| Runner_message: "broker_step nanoid b (onRunnerMessage nanoid now runnerId rm b)"
| Requester_message: "broker_step nanoid b (onRequesterMessage nanoid now requesterId qm b)"
| Runner_timer: "broker_step nanoid b (runner_accept_timeout taskId b)"
| Requester_timer: "broker_step nanoid b (requester_accept_timeout taskId b)"
| Task_timer: "broker_step nanoid b (handleTaskTimeout internal taskId b)"
| After_runner: "k < length (br_threads b) \<Longrightarrow> th_stage (br_threads b ! k) = AskRunner (Some a) \<Longrightarrow> broker_step nanoid b (after_runner k a b)"
| After_requester: "k < length (br_threads b) \<Longrightarrow> th_stage (br_threads b ! k) = AskRequester (Some qa) \<Longrightarrow>
    broker_step nanoid b (after_requester k qa b)"

inductive broker_steps :: "(nat \<Rightarrow> string) \<Rightarrow> 'p broker \<Rightarrow> 'p broker \<Rightarrow> bool" for nanoid where
  Here: "broker_steps nanoid b b"
| Further: "broker_steps nanoid b b1 \<Longrightarrow> broker_step nanoid b1 b2 \<Longrightarrow> broker_steps nanoid b b2"

section \<open>Matching in order\<close>

text \<open>The first occurrence of every element.\<close>

fun firsts :: "'a list \<Rightarrow> 'a list" where
  "firsts [] = []"
| "firsts (x # xs) = x # filter (\<lambda>y. y \<noteq> x) (firsts xs)"

definition request_type :: "'p broker \<Rightarrow> nat \<Rightarrow> string" where
  "request_type b r = rq_taskType (br_requests b ! r)"

text \<open>The requests of a list that no runner was asked for, each once.\<close>

definition idle_requests :: "'p broker \<Rightarrow> nat list \<Rightarrow> nat list" where
  "idle_requests b rs = firsts (filter (\<lambda>r. \<not> rq_acceptInProgress (br_requests b ! r)) rs)"

definition offers_of :: "string \<Rightarrow> TaskOffer list \<Rightarrow> TaskOffer list" where
  "offers_of t = filter (\<lambda>offer. off_taskType offer = t)"

definition matches :: "string \<Rightarrow> 'p accept_thread list \<Rightarrow> (nat \<times> TaskOffer) list" where
  "matches t ths = map (\<lambda>th. (th_request th, th_offer th)) (filter (\<lambda>th. off_taskType (th_offer th) = t) ths)"

lemma set_firsts [simp]: "set (firsts xs) = set xs"
  by (induction xs) auto

lemma filter_firsts: "filter P (firsts xs) = firsts (filter P xs)"
proof (induction xs)
  case (Cons x xs)
  have "filter P (filter (\<lambda>y. y \<noteq> x) (firsts xs)) = filter (\<lambda>y. y \<noteq> x) (firsts (filter P xs))"
    by (simp add: Cons.IH [symmetric] conj_commute)
  moreover have "filter (\<lambda>y. y \<noteq> x) (firsts (filter P xs)) = firsts (filter P xs)" if "\<not> P x"
    using that by (auto intro!: filter_True)
  ultimately show ?case by simp
qed simp

lemma find_index_splits:
  "find_index P xs = Some i \<Longrightarrow> i < length xs \<and> P (xs ! i) \<and> filter P xs = xs ! i # filter P (arr_remove xs i)"
proof (induction xs arbitrary: i)
  case (Cons x xs)
  show ?case
  proof (cases "P x")
    case True
    with Cons.prems show ?thesis by (simp add: arr_remove_def)
  next
    case False
    with Cons.prems obtain j where j: "find_index P xs = Some j" "i = Suc j" by (auto split: option.splits)
    from Cons.IH [OF j(1)] False show ?thesis by (simp add: j(2) arr_remove_def)
  qed
qed simp

lemma filter_other: "i < length xs \<Longrightarrow> \<not> Q (xs ! i) \<Longrightarrow> filter Q (arr_remove xs i) = filter Q xs"
proof -
  assume i: "i < length xs" "\<not> Q (xs ! i)"
  then have "filter Q (take i xs @ xs ! i # drop (Suc i) xs) = filter Q (arr_remove xs i)" by (simp add: arr_remove_def)
  then show ?thesis using i by (simp add: id_take_nth_drop [symmetric])
qed

lemma acceptOffer_simps [simp]:
  "br_offers (acceptOffer nanoid offer r b) = br_offers b"
  "br_requests (acceptOffer nanoid offer r b) = br_requests b"
  "br_pending (acceptOffer nanoid offer r b) = br_pending b"
  "br_tasks (acceptOffer nanoid offer r b) = br_tasks b"
  "br_ids (acceptOffer nanoid offer r b) = Suc (br_ids b)"
  "br_runnerAccepts (acceptOffer nanoid offer r b) = br_runnerAccepts b @ [nanoid (br_ids b)]"
  "br_threads (acceptOffer nanoid offer r b) = br_threads b @
    [\<lparr>th_task = nanoid (br_ids b), th_offer = offer, th_request = r, th_stage = AskRunner None\<rparr>]"
  by (simp_all add: acceptOffer_def messageRunner_def Let_def)

lemma set_in_progress_simps [simp]:
  "br_offers (set_in_progress r f b) = br_offers b"
  "br_pending (set_in_progress r f b) = br_pending b"
  "br_threads (set_in_progress r f b) = br_threads b"
  "br_tasks (set_in_progress r f b) = br_tasks b"
  "br_ids (set_in_progress r f b) = br_ids b"
  "br_runnerAccepts (set_in_progress r f b) = br_runnerAccepts b"
  "length (br_requests (set_in_progress r f b)) = length (br_requests b)"
  by (simp_all add: set_in_progress_def)

lemma nth_set_in_progress:
  "br_requests (set_in_progress r f b) ! i =
    (if i = r \<and> r < length (br_requests b) then (br_requests b ! r)\<lparr>rq_acceptInProgress := f\<rparr> else br_requests b ! i)"
  by (cases "r < length (br_requests b)") (auto simp: set_in_progress_def list_update_beyond)

lemma request_fields_kept [simp]:
  "rq_taskType (br_requests (set_in_progress r f b) ! i) = rq_taskType (br_requests b ! i)"
  "rq_requesterId (br_requests (set_in_progress r f b) ! i) = rq_requesterId (br_requests b ! i)"
  by (simp_all add: nth_set_in_progress)

lemma in_progress_after [simp]:
  "r < length (br_requests b) \<Longrightarrow>
    rq_acceptInProgress (br_requests (set_in_progress r f b) ! i) = (if i = r then f else rq_acceptInProgress (br_requests b ! i))"
  by (simp add: nth_set_in_progress)

lemma settle_request_cases:
  obtains (Skip) "settle_request nanoid r b = b"
      "rq_acceptInProgress (br_requests b ! r) \<or> offers_of (request_type b r) (br_offers b) = []"
  | (Match) i where "\<not> rq_acceptInProgress (br_requests b ! r)" "i < length (br_offers b)"
      "off_taskType (br_offers b ! i) = request_type b r"
      "offers_of (request_type b r) (br_offers b) = br_offers b ! i # offers_of (request_type b r) (arr_remove (br_offers b) i)"
      "settle_request nanoid r b = acceptOffer nanoid (br_offers b ! i) r
        ((set_in_progress r True b)\<lparr>br_offers := arr_remove (br_offers b) i\<rparr>)"
proof (cases "rq_acceptInProgress (br_requests b ! r)")
  case True
  then show ?thesis by (intro Skip) (simp_all add: settle_request_def Let_def)
next
  case False
  let ?P = "\<lambda>offer. off_taskType offer = rq_taskType (br_requests b ! r)"
  show ?thesis
  proof (cases "find_index ?P (br_offers b)")
    case None
    then have "offers_of (request_type b r) (br_offers b) = []"
      by (simp add: find_index_None offers_of_def request_type_def filter_empty_conv)
    with None False show ?thesis by (intro Skip) (simp_all add: settle_request_def Let_def)
  next
    case (Some i)
    from find_index_splits [OF Some] False Some show ?thesis
      by (intro Match [of i]) (simp_all add: settle_request_def Let_def offers_of_def request_type_def)
  qed
qed

text \<open>The requests of one type that are matched, and the offers that are left.\<close>

definition matched_well :: "string \<Rightarrow> nat list \<Rightarrow> 'p broker \<Rightarrow> 'p broker \<Rightarrow> bool" where
  "matched_well t rs b b' \<longleftrightarrow> (\<exists>new. br_threads b' = br_threads b @ new
     \<and> matches t new = zip (filter (\<lambda>r. request_type b r = t) (idle_requests b rs)) (offers_of t (br_offers b)))
     \<and> offers_of t (br_offers b') = drop (length (filter (\<lambda>r. request_type b r = t) (idle_requests b rs))) (offers_of t (br_offers b))"

lemma settle_requests_match:
  "\<forall>r \<in> set rs. r < length (br_requests b) \<Longrightarrow> matched_well t rs b (fold (settle_request nanoid) rs b)"
proof (induction rs arbitrary: b)
  case Nil
  show ?case by (simp add: matched_well_def idle_requests_def matches_def)
next
  case (Cons r rs)
  let ?idle = "\<lambda>b rs. filter (\<lambda>r. request_type b r = t) (idle_requests b rs)"
  show ?case
  proof (cases rule: settle_request_cases [where nanoid = nanoid and r = r and b = b])
    case Skip
    have IH: "matched_well t rs b (fold (settle_request nanoid) rs b)" using Cons by simp
    show ?thesis
    proof (cases "rq_acceptInProgress (br_requests b ! r) \<or> request_type b r \<noteq> t")
      case True
      have "?idle b (r # rs) = ?idle b rs"
      proof (cases "rq_acceptInProgress (br_requests b ! r)")
        case True
        then show ?thesis by (simp add: idle_requests_def)
      next
        case False
        with \<open>rq_acceptInProgress (br_requests b ! r) \<or> request_type b r \<noteq> t\<close> have "request_type b r \<noteq> t" by simp
        then show ?thesis by (auto simp: idle_requests_def intro!: filter_cong)
      qed
      with IH Skip(1) show ?thesis by (simp add: matched_well_def)
    next
      case False
      with Skip(2) have "offers_of t (br_offers b) = []" by auto
      with IH Skip(1) show ?thesis by (simp add: matched_well_def)
    qed
  next
    case (Match i)
    let ?b = "settle_request nanoid r b" and ?o = "br_offers b ! i"
    have r: "r < length (br_requests b)" and rs: "\<forall>r \<in> set rs. r < length (br_requests ?b)"
      using Cons.prems by (simp_all add: Match(5))
    have type: "request_type ?b = request_type b" by (simp add: request_type_def Match(5) fun_eq_iff)
    have idle: "idle_requests ?b rs = filter (\<lambda>x. x \<noteq> r) (idle_requests b rs)"
      unfolding idle_requests_def filter_firsts using r by (simp add: Match(5)) (rule arg_cong [where f = firsts], auto intro: filter_cong)
    have first: "idle_requests b (r # rs) = r # idle_requests ?b rs" unfolding idle using Match(1) by (simp add: idle_requests_def)
    from Cons.IH [OF rs] obtain new where new: "br_threads (fold (settle_request nanoid) rs ?b) = br_threads ?b @ new"
      and m: "matches t new = zip (?idle ?b rs) (offers_of t (br_offers ?b))"
      and left: "offers_of t (br_offers (fold (settle_request nanoid) rs ?b)) = drop (length (?idle ?b rs)) (offers_of t (br_offers ?b))"
      unfolding matched_well_def by blast
    let ?th = "\<lparr>th_task = nanoid (br_ids b), th_offer = ?o, th_request = r, th_stage = AskRunner None\<rparr>"
    have threads: "br_threads ?b = br_threads b @ [?th]" by (simp add: Match(5))
    show ?thesis
    proof (cases "request_type b r = t")
      case True
      from Match(4) True have offers: "offers_of t (br_offers b) = ?o # offers_of t (br_offers ?b)" by (simp add: Match(5))
      have "matches t (?th # new) = zip (?idle b (r # rs)) (offers_of t (br_offers b))"
        using m Match(3) True by (simp add: matches_def first type offers)
      with new threads left True show ?thesis by (auto simp: matched_well_def first type offers)
    next
      case False
      then have same: "offers_of t (br_offers ?b) = offers_of t (br_offers b)"
        using Match(2,3) by (simp add: Match(5) offers_of_def filter_other)
      have "matches t (?th # new) = zip (?idle b (r # rs)) (offers_of t (br_offers b))"
        using m False Match(3) by (simp add: matches_def first type same)
      with new threads left False show ?thesis by (auto simp: matched_well_def first type same)
    qed
  qed
qed

text \<open>
  C25: Between one requester message or offer and the next, the broker serves requests in their order: for
  every task type, the runners asked by \<open>settleTasks\<close> are those of the valid offers of that type, in the
  order of the offers, for the pending requests of that type no runner is being asked for, in their order;
  the offers beyond the number of such requests remain.
\<close>

theorem settleTasks_pairs_in_order:
  assumes "\<forall>r \<in> set (br_pending b). r < length (br_requests b)"
  shows "\<exists>new. br_threads (settleTasks nanoid now b) = br_threads b @ new
    \<and> matches t new = zip (filter (\<lambda>r. request_type b r = t) (idle_requests b (br_pending b))) (offers_of t (br_offers (expireTasks now b)))
    \<and> offers_of t (br_offers (settleTasks nanoid now b)) =
       drop (length (filter (\<lambda>r. request_type b r = t) (idle_requests b (br_pending b)))) (offers_of t (br_offers (expireTasks now b)))"
proof -
  let ?b = "expireTasks now b"
  have same: "request_type ?b = request_type b" "idle_requests ?b = idle_requests b" "br_pending ?b = br_pending b" "br_threads ?b = br_threads b"
    by (simp_all add: expireTasks_def request_type_def idle_requests_def fun_eq_iff)
  have "\<forall>r \<in> set (br_pending ?b). r < length (br_requests ?b)" using assms by (simp add: expireTasks_def)
  from settle_requests_match [OF this, of t nanoid] show ?thesis
    unfolding matched_well_def same by (auto simp: settleTasks_def Let_def same)
qed

section \<open>Tasks and their origin\<close>

text \<open>The stages in which the callback of the runner may still be registered.\<close>

definition awaits_runner :: "'p stage \<Rightarrow> bool" where
  "awaits_runner s \<longleftrightarrow> s = AskRunner None \<or> s = AskRunner (Some RunnerTimedOut) \<or> s = Ended"

definition thread_core :: "'p accept_thread \<Rightarrow> string \<times> TaskOffer \<times> nat" where
  "thread_core th = (th_task th, th_offer th, th_request th)"

definition request_core :: "TaskRequest \<Rightarrow> string \<times> string" where
  "request_core request = (rq_requesterId request, rq_taskType request)"

definition task_core :: "Task \<Rightarrow> string \<times> string \<times> string \<times> string" where
  "task_core task = (tk_id task, tk_runnerId task, tk_requesterId task, tk_taskType task)"

lemmas core_defs = thread_core_def request_core_def task_core_def

text \<open>The task that an acceptance makes.\<close>

definition core_of_thread :: "'p broker \<Rightarrow> 'p accept_thread \<Rightarrow> string \<times> string \<times> string \<times> string" where
  "core_of_thread b th =
     (th_task th, off_runnerId (th_offer th), rq_requesterId (br_requests b ! th_request th), rq_taskType (br_requests b ! th_request th))"

definition wf_threads :: "(nat \<Rightarrow> string) \<Rightarrow> 'p broker \<Rightarrow> bool" where
  "wf_threads nanoid b \<longleftrightarrow>
     map th_task (br_threads b) = map nanoid [0..<br_ids b]
     \<and> (\<forall>th \<in> set (br_threads b). th_request th < length (br_requests b)
         \<and> off_taskType (th_offer th) = rq_taskType (br_requests b ! th_request th)
         \<and> (th_task th \<in> set (br_runnerAccepts b) \<longrightarrow> awaits_runner (th_stage th)))"

definition wf_tasks :: "'p broker \<Rightarrow> bool" where
  "wf_tasks b \<longleftrightarrow> (\<forall>(taskId, task) \<in> set (br_tasks b). tk_id task = taskId \<and> taskId \<notin> set (br_runnerAccepts b)
     \<and> task_core task \<in> core_of_thread b ` set (br_threads b))"

definition wf_broker :: "(nat \<Rightarrow> string) \<Rightarrow> 'p broker \<Rightarrow> bool" where
  "wf_broker nanoid b \<longleftrightarrow> wf_threads nanoid b \<and> wf_tasks b \<and> (\<forall>r \<in> set (br_pending b). r < length (br_requests b))"

lemmas wf_broker_defs = wf_broker_def wf_threads_def wf_tasks_def

text \<open>Steps that make no task, no thread and no request.\<close>

definition settles :: "'p broker \<Rightarrow> 'p broker \<Rightarrow> bool" where
  "settles b b' \<longleftrightarrow> br_ids b' = br_ids b
     \<and> map thread_core (br_threads b') = map thread_core (br_threads b)
     \<and> map request_core (br_requests b') = map request_core (br_requests b)
     \<and> set (br_pending b') \<subseteq> set (br_pending b) \<union> th_request ` set (br_threads b)
     \<and> set (br_runnerAccepts b') \<subseteq> set (br_runnerAccepts b)
     \<and> (\<forall>(taskId, task) \<in> set (br_tasks b'). \<exists>task0. (taskId, task0) \<in> set (br_tasks b) \<and> task_core task = task_core task0)
     \<and> (\<forall>i < length (br_threads b). th_task (br_threads b ! i) \<in> set (br_runnerAccepts b') \<longrightarrow>
          awaits_runner (th_stage (br_threads b ! i)) \<longrightarrow> awaits_runner (th_stage (br_threads b' ! i)))"

lemma map_core_nth:
  assumes "map f ys = map f xs" "i < length xs"
  shows "i < length ys" "f (ys ! i) = f (xs ! i)"
proof -
  show i: "i < length ys" using assms map_eq_imp_length_eq [OF assms(1)] by simp
  then show "f (ys ! i) = f (xs ! i)" using assms by (metis nth_map)
qed

lemma settlesI:
  "br_ids b' = br_ids b \<Longrightarrow> map thread_core (br_threads b') = map thread_core (br_threads b) \<Longrightarrow>
   map request_core (br_requests b') = map request_core (br_requests b) \<Longrightarrow>
   set (br_pending b') \<subseteq> set (br_pending b) \<union> th_request ` set (br_threads b) \<Longrightarrow>
   set (br_runnerAccepts b') \<subseteq> set (br_runnerAccepts b) \<Longrightarrow>
   (\<And>taskId task. (taskId, task) \<in> set (br_tasks b') \<Longrightarrow> \<exists>task0. (taskId, task0) \<in> set (br_tasks b) \<and> task_core task = task_core task0) \<Longrightarrow>
   (\<And>i. i < length (br_threads b) \<Longrightarrow> th_task (br_threads b ! i) \<in> set (br_runnerAccepts b') \<Longrightarrow>
      awaits_runner (th_stage (br_threads b ! i)) \<Longrightarrow> awaits_runner (th_stage (br_threads b' ! i))) \<Longrightarrow> settles b b'"
  unfolding settles_def by blast

lemma settles_refl [simp]: "settles b b"
  by (rule settlesI) auto

text \<open>A step that changes only tasks, by removing some, and messages.\<close>

lemma settles_tasks:
  assumes "br_ids b' = br_ids b" "br_threads b' = br_threads b" "br_requests b' = br_requests b" "br_pending b' = br_pending b"
    "br_runnerAccepts b' = br_runnerAccepts b" "set (br_tasks b') \<subseteq> set (br_tasks b)"
  shows "settles b b'"
  by (rule settlesI) (use assms in auto)

lemma settles_requests:
  assumes "settles b b'" "r < length (br_requests b)"
  shows "r < length (br_requests b')" "rq_requesterId (br_requests b' ! r) = rq_requesterId (br_requests b ! r)"
    "rq_taskType (br_requests b' ! r) = rq_taskType (br_requests b ! r)"
  using map_core_nth [of request_core "br_requests b'" "br_requests b" r] assms by (auto simp: settles_def request_core_def)

lemma settles_threads:
  assumes "settles b b'" "th' \<in> set (br_threads b')"
  obtains th where "th \<in> set (br_threads b)" "thread_core th' = thread_core th"
    "th_task th \<in> set (br_runnerAccepts b') \<Longrightarrow> awaits_runner (th_stage th) \<Longrightarrow> awaits_runner (th_stage th')"
proof -
  from assms(1) have cores: "map thread_core (br_threads b') = map thread_core (br_threads b)" by (simp add: settles_def)
  from assms(2) obtain i where i: "i < length (br_threads b')" "th' = br_threads b' ! i" by (auto simp: in_set_conv_nth)
  from map_core_nth [OF cores [symmetric] i(1)] have "i < length (br_threads b)" "thread_core (br_threads b ! i) = thread_core th'" by (simp_all add: i(2))
  with assms(1) i(2) show ?thesis by (intro that [of "br_threads b ! i"]) (auto simp: settles_def)
qed

lemma settles_thread_back:
  assumes "settles b b'" "th \<in> set (br_threads b)"
  obtains th' where "th' \<in> set (br_threads b')" "thread_core th' = thread_core th"
proof -
  from assms(1) have "set (map thread_core (br_threads b')) = set (map thread_core (br_threads b))" by (simp only: settles_def)
  then have "thread_core ` set (br_threads b') = thread_core ` set (br_threads b)" by simp
  with assms(2) have "thread_core th \<in> thread_core ` set (br_threads b')" by simp
  then show ?thesis by (rule imageE) (rule that, simp_all)
qed

lemma wf_settles:
  assumes wf: "wf_broker nanoid b" and s: "settles b b'"
  shows "wf_broker nanoid b'"
proof -
  have ids: "map th_task (br_threads b') = map th_task (br_threads b)"
  proof -
    have "map fst (map thread_core (br_threads b')) = map fst (map thread_core (br_threads b))" using s by (simp add: settles_def)
    then show ?thesis by (simp add: thread_core_def comp_def)
  qed
  have accepts: "set (br_runnerAccepts b') \<subseteq> set (br_runnerAccepts b)" using s by (simp add: settles_def)
  have "wf_threads nanoid b'"
    unfolding wf_threads_def
  proof (intro conjI)
    show "map th_task (br_threads b') = map nanoid [0..<br_ids b']"
      using wf s by (simp add: ids wf_broker_defs settles_def)
    show "\<forall>th' \<in> set (br_threads b'). th_request th' < length (br_requests b')
        \<and> off_taskType (th_offer th') = rq_taskType (br_requests b' ! th_request th')
        \<and> (th_task th' \<in> set (br_runnerAccepts b') \<longrightarrow> awaits_runner (th_stage th'))"
    proof
      fix th' assume "th' \<in> set (br_threads b')"
      from settles_threads [OF s this] obtain th where th: "th \<in> set (br_threads b)" "thread_core th' = thread_core th"
        "th_task th \<in> set (br_runnerAccepts b') \<Longrightarrow> awaits_runner (th_stage th) \<Longrightarrow> awaits_runner (th_stage th')"
        by blast
      moreover from wf th(1) have old: "th_request th < length (br_requests b)"
        "off_taskType (th_offer th) = rq_taskType (br_requests b ! th_request th)"
        "th_task th \<in> set (br_runnerAccepts b) \<longrightarrow> awaits_runner (th_stage th)" by (simp_all add: wf_broker_defs)
      moreover from th(2) have same: "th_request th' = th_request th" "th_offer th' = th_offer th" "th_task th' = th_task th"
        by (simp_all add: thread_core_def)
      ultimately show "th_request th' < length (br_requests b') \<and> off_taskType (th_offer th') = rq_taskType (br_requests b' ! th_request th')
          \<and> (th_task th' \<in> set (br_runnerAccepts b') \<longrightarrow> awaits_runner (th_stage th'))"
        using accepts by (auto simp: same settles_requests [OF s])
    qed
  qed
  moreover have "wf_tasks b'"
    unfolding wf_tasks_def
  proof (intro ballI, clarify)
    fix taskId task assume "(taskId, task) \<in> set (br_tasks b')"
    with s obtain task0 where t: "(taskId, task0) \<in> set (br_tasks b)" "task_core task = task_core task0" unfolding settles_def by blast
    with wf have old: "tk_id task0 = taskId" "taskId \<notin> set (br_runnerAccepts b)" "task_core task0 \<in> core_of_thread b ` set (br_threads b)"
      unfolding wf_broker_defs by blast+
    then obtain th where th: "th \<in> set (br_threads b)" "task_core task0 = core_of_thread b th" by blast
    obtain th' where th': "th' \<in> set (br_threads b')" "thread_core th' = thread_core th" by (rule settles_thread_back [OF s th(1)])
    have "th_request th < length (br_requests b)" using wf th(1) by (simp add: wf_broker_defs)
    with th'(2) have "core_of_thread b' th' = core_of_thread b th"
      by (auto simp: core_of_thread_def thread_core_def settles_requests [OF s])
    with th(2) t(2) have "task_core task = core_of_thread b' th'" by simp
    with th'(1) have "task_core task \<in> core_of_thread b' ` set (br_threads b')" by simp
    with old t(2) accepts show "tk_id task = taskId \<and> taskId \<notin> set (br_runnerAccepts b') \<and> task_core task \<in> core_of_thread b' ` set (br_threads b')"
      by (auto simp: task_core_def)
  qed
  moreover have "\<forall>r \<in> set (br_pending b'). r < length (br_requests b')"
  proof
    fix r assume "r \<in> set (br_pending b')"
    with s wf have "r < length (br_requests b)" by (auto simp: settles_def wf_broker_defs)
    then show "r < length (br_requests b')" by (rule settles_requests(1) [OF s])
  qed
  ultimately show ?thesis by (simp add: wf_broker_def)
qed

section \<open>Every step keeps the invariant\<close>

lemma messageRunner_simps [simp]:
  "br_ids (messageRunner i m b) = br_ids b" "br_threads (messageRunner i m b) = br_threads b"
  "br_requests (messageRunner i m b) = br_requests b" "br_pending (messageRunner i m b) = br_pending b"
  "br_runnerAccepts (messageRunner i m b) = br_runnerAccepts b" "br_tasks (messageRunner i m b) = br_tasks b"
  "br_offers (messageRunner i m b) = br_offers b" "br_runners (messageRunner i m b) = br_runners b"
  by (simp_all add: messageRunner_def)

lemma messageRequester_simps [simp]:
  "br_ids (messageRequester i m b) = br_ids b" "br_threads (messageRequester i m b) = br_threads b"
  "br_requests (messageRequester i m b) = br_requests b" "br_pending (messageRequester i m b) = br_pending b"
  "br_runnerAccepts (messageRequester i m b) = br_runnerAccepts b" "br_tasks (messageRequester i m b) = br_tasks b"
  "br_offers (messageRequester i m b) = br_offers b" "br_runners (messageRequester i m b) = br_runners b"
  by (simp_all add: messageRequester_def)

lemma delete_subset: "set (AList.delete k xs) \<subseteq> set xs"
  by (auto simp: AList.delete_eq)

lemma set_update_subset: "set (AList.update k v xs) \<subseteq> insert (k, v) (set xs)"
  by (induction xs) (auto split: if_splits)

lemma wf_task_handlers [simp]:
  assumes "wf_broker nanoid b"
  shows "wf_broker nanoid (messageRunner i m b)" "wf_broker nanoid (messageRequester i mq b)"
    "wf_broker nanoid (cancelTask taskId reason b)" "wf_broker nanoid (failTask taskId b)"
    "wf_broker nanoid (taskDoneHandler taskId d b)" "wf_broker nanoid (taskErrorHandler taskId b)"
    "wf_broker nanoid (handleTaskTimeout internal taskId b)" "wf_broker nanoid (snd (getRunnerOrFailTask taskId b))"
proof -
  show "wf_broker nanoid (messageRunner i m b)" "wf_broker nanoid (messageRequester i mq b)"
    by (rule wf_settles [OF assms settles_tasks]; simp)+
  show "wf_broker nanoid (cancelTask taskId reason b)"
    by (rule wf_settles [OF assms settles_tasks]) (simp_all add: cancelTask_def delete_subset split: option.split)
  show failed: "wf_broker nanoid (failTask taskId b)"
    by (rule wf_settles [OF assms settles_tasks]) (simp_all add: failTask_def delete_subset split: option.split)
  show "wf_broker nanoid (taskDoneHandler taskId d b)"
    by (rule wf_settles [OF assms settles_tasks]) (simp_all add: taskDoneHandler_def delete_subset split: option.split)
  show "wf_broker nanoid (taskErrorHandler taskId b)"
    by (rule wf_settles [OF assms settles_tasks]) (simp_all add: taskErrorHandler_def delete_subset split: option.split)
  show "wf_broker nanoid (handleTaskTimeout internal taskId b)"
    by (rule wf_settles [OF assms settles_tasks]) (simp_all add: handleTaskTimeout_def taskErrorHandler_def delete_subset split: option.split)
  show "wf_broker nanoid (snd (getRunnerOrFailTask taskId b))"
    using failed assms by (simp add: getRunnerOrFailTask_def split: option.split)
qed

lemma settles_settings: "settles b (snd (sendTaskSettings taskId settings b))"
proof (cases "getRunnerOrFailTask taskId b")
  case (Pair answer b1)
  then have b1: "settles b b1"
    by (intro settles_tasks) (auto simp: getRunnerOrFailTask_def failTask_def split: option.splits dest: set_mp [OF delete_subset])
  show ?thesis
  proof (cases answer)
    case (Inl e)
    with Pair b1 show ?thesis by (simp add: sendTaskSettings_def)
  next
    case (Inr runner)
    with Pair have "b1 = b" by (auto simp: getRunnerOrFailTask_def split: option.splits)
    with Pair Inr show ?thesis
      by (intro settlesI) (auto simp: sendTaskSettings_def task_core_def dest!: map_of_SomeD set_mp [OF set_update_subset] split: option.splits)
  qed
qed

lemma awaits_runner_simps [simp]:
  "awaits_runner (AskRunner None)" "awaits_runner (AskRunner (Some RunnerTimedOut))" "awaits_runner Ended"
  "\<not> awaits_runner (AskRequester a)"
  by (simp_all add: awaits_runner_def)

lemma answers_keep [simp]:
  "thread_core (answer_runner i a th) = thread_core th" "thread_core (answer_requester i qa th) = thread_core th"
  "th_task (answer_runner i a th) = th_task th" "th_task (answer_requester i qa th) = th_task th"
  by (simp_all add: thread_core_def answer_runner_def answer_requester_def)

lemma map_thread_core_answers [simp]:
  "map (thread_core \<circ> answer_runner i a) = map thread_core" "map (thread_core \<circ> answer_requester i qa) = map thread_core"
  by (simp_all add: comp_def)

lemma settles_answers [simp]:
  "settles b (runner_callback taskId a b)" "settles b (requester_callback taskId qa b)"
  "settles b (runner_accept_timeout taskId b)" "settles b (requester_accept_timeout taskId b)"
  by (rule settlesI; auto simp: runner_callback_def requester_callback_def runner_accept_timeout_def requester_accept_timeout_def
        answer_runner_def answer_requester_def split: if_splits)+

lemma nth_set_stage:
  "br_threads (set_stage k stage b) ! i =
    (if i = k \<and> k < length (br_threads b) then (br_threads b ! k)\<lparr>th_stage := stage\<rparr> else br_threads b ! i)"
  by (cases "k < length (br_threads b)") (auto simp: set_stage_def list_update_beyond)

lemma set_stage_simps [simp]:
  "length (br_threads (set_stage k stage b)) = length (br_threads b)" "br_requests (set_stage k stage b) = br_requests b"
  "br_tasks (set_stage k stage b) = br_tasks b" "br_runnerAccepts (set_stage k stage b) = br_runnerAccepts b"
  "br_pending (set_stage k stage b) = br_pending b" "br_ids (set_stage k stage b) = br_ids b"
  by (simp_all add: set_stage_def)

lemma settles_set_stage:
  assumes "awaits_runner stage \<or> \<not> awaits_runner (th_stage (br_threads b ! k))"
  shows "settles b (set_stage k stage b)"
proof (rule settlesI)
  show "map thread_core (br_threads (set_stage k stage b)) = map thread_core (br_threads b)"
    by (rule nth_equalityI) (simp_all add: nth_set_stage thread_core_def)
  fix i assume i: "i < length (br_threads b)" "awaits_runner (th_stage (br_threads b ! i))"
  then show "awaits_runner (th_stage (br_threads (set_stage k stage b) ! i))"
    using assms by (cases "i = k") (simp_all add: set_stage_def)
qed (auto simp: set_stage_def)

lemma settles_set_in_progress [simp]: "settles b (set_in_progress r f b)"
proof (rule settlesI)
  show "map request_core (br_requests (set_in_progress r f b)) = map request_core (br_requests b)"
    by (rule nth_equalityI) (simp_all add: request_core_def)
qed auto

lemma settles_expireTasks [simp]: "settles b (expireTasks now b)"
  by (rule settles_tasks) (simp_all add: expireTasks_def)

lemma wf_acceptOffer:
  assumes wf: "wf_broker nanoid b" and inj: "inj nanoid" and r: "r < length (br_requests b)"
    and type: "off_taskType offer = request_type b r"
  shows "wf_broker nanoid (acceptOffer nanoid offer r b)"
proof -
  let ?i = "nanoid (br_ids b)"
  have ids: "th_task ` set (br_threads b) = nanoid ` {..<br_ids b}"
    using wf by (metis wf_broker_def wf_threads_def set_map set_upt atLeast0LessThan)
  have fresh: "?i \<notin> th_task ` set (br_threads b)"
    unfolding ids using inj by (auto simp: inj_eq)
  have "wf_threads nanoid (acceptOffer nanoid offer r b)"
    unfolding wf_threads_def
  proof (intro conjI)
    show "map th_task (br_threads (acceptOffer nanoid offer r b)) = map nanoid [0..<br_ids (acceptOffer nanoid offer r b)]"
      using wf by (simp add: wf_broker_def wf_threads_def)
    have "\<forall>th \<in> set (br_threads b). th_request th < length (br_requests b)
        \<and> off_taskType (th_offer th) = rq_taskType (br_requests b ! th_request th)
        \<and> (th_task th \<in> set (br_runnerAccepts b) \<longrightarrow> awaits_runner (th_stage th))"
      using wf unfolding wf_broker_def wf_threads_def by (elim conjE)
    moreover have "\<forall>th \<in> set (br_threads b). th_task th \<noteq> ?i" using fresh by (auto simp: image_iff)
    moreover note r type
    ultimately show "\<forall>th \<in> set (br_threads (acceptOffer nanoid offer r b)).
        th_request th < length (br_requests (acceptOffer nanoid offer r b))
        \<and> off_taskType (th_offer th) = rq_taskType (br_requests (acceptOffer nanoid offer r b) ! th_request th)
        \<and> (th_task th \<in> set (br_runnerAccepts (acceptOffer nanoid offer r b)) \<longrightarrow> awaits_runner (th_stage th))"
      by (auto simp: request_type_def)
  qed
  moreover have "wf_tasks (acceptOffer nanoid offer r b)"
    unfolding wf_tasks_def
  proof (clarify)
    fix taskId task assume "(taskId, task) \<in> set (br_tasks (acceptOffer nanoid offer r b))"
    with wf have t: "tk_id task = taskId" "taskId \<notin> set (br_runnerAccepts b)" "task_core task \<in> core_of_thread b ` set (br_threads b)"
      by (auto simp: wf_broker_defs)
    then have "taskId \<in> th_task ` set (br_threads b)" by (auto simp: core_defs core_of_thread_def)
    with fresh have "taskId \<noteq> ?i" by blast
    moreover have "core_of_thread (acceptOffer nanoid offer r b) = core_of_thread b" by (simp add: core_of_thread_def fun_eq_iff)
    ultimately show "tk_id task = taskId \<and> taskId \<notin> set (br_runnerAccepts (acceptOffer nanoid offer r b))
        \<and> task_core task \<in> core_of_thread (acceptOffer nanoid offer r b) ` set (br_threads (acceptOffer nanoid offer r b))"
      using t by auto
  qed
  ultimately show ?thesis using wf by (simp add: wf_broker_def)
qed

lemma wf_settle_request:
  assumes wf: "wf_broker nanoid b" and inj: "inj nanoid" and r: "r < length (br_requests b)"
  shows "wf_broker nanoid (settle_request nanoid r b) \<and> length (br_requests (settle_request nanoid r b)) = length (br_requests b)"
proof (cases rule: settle_request_cases [where nanoid = nanoid and r = r and b = b])
  case Skip
  with wf show ?thesis by simp
next
  case (Match i)
  let ?b = "(set_in_progress r True b)\<lparr>br_offers := arr_remove (br_offers b) i\<rparr>"
  have "wf_broker nanoid ?b"
    by (rule wf_settles [OF wf_settles [OF wf settles_set_in_progress] settles_tasks]) simp_all
  then have "wf_broker nanoid (acceptOffer nanoid (br_offers b ! i) r ?b)"
    using inj r Match(3) by (intro wf_acceptOffer) (simp_all add: request_type_def)
  then show ?thesis by (simp add: Match(5))
qed

lemma wf_settleTasks [simp]:
  assumes wf: "wf_broker nanoid b" and inj: "inj nanoid"
  shows "wf_broker nanoid (settleTasks nanoid now b)"
proof -
  have fold: "wf_broker nanoid (fold (settle_request nanoid) rs b)"
    if "wf_broker nanoid b" "\<forall>r \<in> set rs. r < length (br_requests b)" for rs and b :: "'p broker"
    using that
  proof (induction rs arbitrary: b)
    case (Cons r rs)
    from wf_settle_request [OF Cons.prems(1) inj] Cons.prems(2) show ?case by (auto intro: Cons.IH)
  qed simp
  have wf': "wf_broker nanoid (expireTasks now b)" by (rule wf_settles [OF wf settles_expireTasks])
  then show ?thesis unfolding settleTasks_def Let_def by (rule fold) (use wf' in \<open>simp add: wf_broker_def\<close>)
qed

lemma wf_taskRequested [simp]:
  assumes wf: "wf_broker nanoid b" and inj: "inj nanoid"
  shows "wf_broker nanoid (taskRequested nanoid now request b)"
proof -
  let ?b = "b\<lparr>br_pending := br_pending b @ [length (br_requests b)], br_requests := br_requests b @ [request]\<rparr>"
  have old: "br_requests ?b ! th_request th = br_requests b ! th_request th" if "th \<in> set (br_threads b)" for th
    using wf that by (simp add: wf_broker_def wf_threads_def nth_append)
  have "wf_threads nanoid ?b" using wf old unfolding wf_broker_def wf_threads_def by auto
  moreover have "core_of_thread ?b ` set (br_threads b) = core_of_thread b ` set (br_threads b)"
    using old by (auto simp: core_of_thread_def intro!: image_cong)
  with wf have "wf_tasks ?b" unfolding wf_broker_def wf_tasks_def by auto
  ultimately have "wf_broker nanoid ?b" using wf by (auto simp: wf_broker_def)
  then show ?thesis unfolding taskRequested_def using inj by (rule wf_settleTasks)
qed

lemma wf_taskOffered [simp]:
  assumes wf: "wf_broker nanoid b" and inj: "inj nanoid"
  shows "wf_broker nanoid (taskOffered nanoid now offer b)"
  unfolding taskOffered_def by (rule wf_settleTasks [OF wf_settles [OF wf settles_tasks] inj]) simp_all

text \<open>The thread that goes on after the runner accepted is the only source of tasks.\<close>

lemma wf_new_task:
  assumes wf: "wf_broker nanoid b" and th: "th \<in> set (br_threads b)" "th_task th \<notin> set (br_runnerAccepts b)"
    and task: "task_core task = core_of_thread b th"
  shows "wf_broker nanoid (b\<lparr>br_tasks := AList.update (th_task th) task (br_tasks b)\<rparr>)"
proof -
  let ?b = "b\<lparr>br_tasks := AList.update (th_task th) task (br_tasks b)\<rparr>"
  have "core_of_thread ?b = core_of_thread b" by (simp add: core_of_thread_def fun_eq_iff)
  moreover have "tk_id task = th_task th" using task by (simp add: task_core_def core_of_thread_def)
  ultimately have "wf_tasks ?b"
    using wf th task unfolding wf_broker_def wf_tasks_def
    by (auto dest!: set_mp [OF set_update_subset])
  with wf show ?thesis by (simp add: wf_broker_def wf_threads_def)
qed

lemma wf_start_task:
  assumes wf: "wf_broker nanoid b" and k: "k < length (br_threads b)" "th_stage (br_threads b ! k) = AskRunner (Some RunnerAccepts)"
  shows "wf_broker nanoid (start_task k b)"
proof -
  let ?th = "br_threads b ! k" and ?request = "br_requests b ! th_request (br_threads b ! k)"
  let ?task = "\<lparr>tk_id = th_task ?th, tk_runnerId = off_runnerId (th_offer ?th), tk_requesterId = rq_requesterId ?request,
    tk_taskType = off_taskType (th_offer ?th), tk_timeout = False\<rparr>"
  let ?b = "b\<lparr>br_tasks := AList.update (th_task ?th) ?task (br_tasks b)\<rparr>"
  have th: "?th \<in> set (br_threads b)" using k(1) by simp
  with wf k(2) have waits: "th_task ?th \<notin> set (br_runnerAccepts b)" "off_taskType (th_offer ?th) = rq_taskType ?request"
    by (auto simp: wf_broker_defs awaits_runner_def)
  have wf1: "wf_broker nanoid ?b"
    using wf th waits(1) by (rule wf_new_task) (simp add: task_core_def core_of_thread_def waits(2))
  have last: "wf_broker nanoid (set_stage k stage b')" if "wf_broker nanoid b'" "br_threads b' = br_threads b" for stage b'
    by (rule wf_settles [OF that(1) settles_set_stage]) (simp add: that(2) k(2) awaits_runner_def)
  show ?thesis
  proof (cases "find_index (\<lambda>r. rq_requestId (br_requests b ! r) = rq_requestId ?request) (br_pending b)")
    case None
    then show ?thesis by (simp add: start_task_def Let_def last [OF wf1])
  next
    case (Some i)
    let ?c = "messageRequester (rq_requesterId ?request) (TaskReady (rq_requestId ?request) (th_task ?th))
      (?b\<lparr>br_pending := arr_remove (br_pending b) i, br_requesterAccepts := br_requesterAccepts b @ [th_task ?th]\<rparr>)"
    have "settles ?b ?c"
      by (rule settlesI) (auto simp: arr_remove_def dest: in_set_takeD in_set_dropD)
    from wf_settles [OF wf1 this] have "wf_broker nanoid ?c" .
    with Some show ?thesis by (simp add: start_task_def Let_def last)
  qed
qed

lemma wf_after_runner:
  assumes wf: "wf_broker nanoid b" and k: "k < length (br_threads b)" "th_stage (br_threads b ! k) = AskRunner (Some a)"
  shows "wf_broker nanoid (after_runner k a b)"
proof -
  let ?r = "th_request (br_threads b ! k)"
  let ?idle = "set_stage k Ended (set_in_progress ?r False b)"
  have idle: "wf_broker nanoid ?idle"
    by (rule wf_settles [OF wf_settles [OF wf settles_set_in_progress] settles_set_stage]) simp
  have "br_threads ?idle ! k \<in> set (br_threads ?idle)" using k(1) by (intro nth_mem) simp
  moreover have "th_request (br_threads ?idle ! k) = ?r" using k(1) by (simp add: nth_set_stage)
  ultimately have request: "?r \<in> th_request ` set (br_threads ?idle)" by (metis imageI)
  have "settles ?idle (?idle\<lparr>br_pending := br_pending b @ [?r]\<rparr>)"
    by (rule settlesI) (use request in auto)
  from wf_settles [OF idle this] idle wf_start_task [OF wf k(1)] k(2) show ?thesis
    by (auto simp: after_runner_def Let_def split: runner_answer.split)
qed

lemma wf_after_requester:
  assumes wf: "wf_broker nanoid b"
  shows "wf_broker nanoid (after_requester k qa b)"
proof -
  let ?b = "set_stage k Ended b"
  have wf0: "wf_broker nanoid ?b" by (rule wf_settles [OF wf settles_set_stage]) simp
  show ?thesis
  proof (cases qa)
    case (RequesterSettings settings)
    from wf_settles [OF wf0 settles_settings] have "wf_broker nanoid (snd (sendTaskSettings (th_task (br_threads b ! k)) settings ?b))" .
    with RequesterSettings show ?thesis by (auto simp: after_requester_def Let_def split: prod.split option.split)
  qed (use wf0 in \<open>simp_all add: after_requester_def\<close>)
qed

text \<open>Failing tasks whose runner acceptance is no longer open answers no acceptance.\<close>

lemma fail_tasks:
  assumes "\<forall>task \<in> set ts. tk_id task \<notin> set (br_runnerAccepts b)"
  shows "let b' = fold (\<lambda>task b. handleRunnerReject (tk_id task) reason (failTask (tk_id task) b)) ts b in
    br_tasks b' = filter (\<lambda>(i, _). i \<notin> tk_id ` set ts) (br_tasks b) \<and> br_threads b' = br_threads b \<and> br_ids b' = br_ids b
    \<and> br_runnerAccepts b' = br_runnerAccepts b \<and> br_offers b' = br_offers b \<and> br_runners b' = br_runners b
    \<and> br_requests b' = br_requests b \<and> br_pending b' = br_pending b"
  using assms
proof (induction ts arbitrary: b)
  case (Cons task ts)
  let ?b = "failTask (tk_id task) b"
  have same: "br_threads ?b = br_threads b" "br_ids ?b = br_ids b" "br_runnerAccepts ?b = br_runnerAccepts b" "br_offers ?b = br_offers b"
    "br_runners ?b = br_runners b" "br_requests ?b = br_requests b" "br_pending ?b = br_pending b"
    by (simp_all add: failTask_def split: option.split)
  have "filter (\<lambda>(i, _). i \<noteq> tk_id task) (br_tasks b) = br_tasks b" if "map_of (br_tasks b) (tk_id task) = None"
    using that by (force simp: map_of_eq_None_iff intro!: filter_True)
  then have tasks: "br_tasks ?b = filter (\<lambda>(i, _). i \<noteq> tk_id task) (br_tasks b)"
    by (auto simp: failTask_def AList.delete_eq intro!: filter_cong split: option.split)
  have "handleRunnerReject (tk_id task) reason ?b = ?b"
    using Cons.prems by (simp add: handleRunnerReject_def runner_callback_def same)
  moreover have "filter (\<lambda>(i, _). i \<notin> tk_id ` set ts) (filter (\<lambda>(i, _). i \<noteq> tk_id task) (br_tasks b))
      = filter (\<lambda>(i, _). i \<notin> tk_id ` set (task # ts)) (br_tasks b)"
    by (auto intro!: filter_cong)
  ultimately show ?case using Cons.IH [of ?b] Cons.prems by (simp add: same tasks Let_def)
qed simp

text \<open>Two tasks with one id have one origin.\<close>

lemma task_core_unique:
  assumes wf: "wf_broker nanoid b" and inj: "inj nanoid" and t: "(i, t) \<in> set (br_tasks b)" "(i, t') \<in> set (br_tasks b)"
  shows "task_core t = task_core t'"
proof -
  have "map th_task (br_threads b) = map nanoid [0..<br_ids b]" using wf by (simp add: wf_broker_def wf_threads_def)
  moreover have "distinct (map nanoid [0..<br_ids b])" using inj by (simp add: distinct_map inj_on_subset [OF inj])
  ultimately have distinct: "inj_on th_task (set (br_threads b))" by (metis distinct_map)
  from wf t have origin: "task_core t \<in> core_of_thread b ` set (br_threads b)" "task_core t' \<in> core_of_thread b ` set (br_threads b)"
    and "tk_id t = i" "tk_id t' = i"
    unfolding wf_broker_def wf_tasks_def by blast+
  from origin obtain th th' where th: "th \<in> set (br_threads b)" "th' \<in> set (br_threads b)"
      "task_core t = core_of_thread b th" "task_core t' = core_of_thread b th'" by blast
  have "th_task th = tk_id t" "th_task th' = tk_id t'" using th(3,4) by (simp_all add: task_core_def core_of_thread_def)
  with \<open>tk_id t = i\<close> \<open>tk_id t' = i\<close> have "th = th'" by (intro inj_onD [OF distinct _ th(1,2)]) simp
  with th show ?thesis by simp
qed

lemma deregister_effect:
  assumes wf: "wf_broker nanoid b" and inj: "inj nanoid" and b'_def: "b' = deregisterRunner runnerId message b"
  shows "br_tasks b' = filter (\<lambda>(_, task). tk_runnerId task \<noteq> runnerId) (br_tasks b)"
    "br_offers b' = filter (\<lambda>offer. off_runnerId offer \<noteq> runnerId) (br_offers b)" "map_of (br_runners b') runnerId = None"
    "br_threads b' = br_threads b" "br_runnerAccepts b' = br_runnerAccepts b" "br_ids b' = br_ids b"
    "br_requests b' = br_requests b" "br_pending b' = br_pending b"
proof -
  let ?b = "b\<lparr>br_runners := AList.delete runnerId (br_runners b),
    br_offers := filter (\<lambda>offer. off_runnerId offer \<noteq> runnerId) (br_offers b)\<rparr>"
  let ?ts = "filter (\<lambda>task. tk_runnerId task = runnerId) (values_of (br_tasks b))"
  have keys: "tk_id task = taskId \<and> taskId \<notin> set (br_runnerAccepts b)" if "(taskId, task) \<in> set (br_tasks b)" for taskId task
    using wf that by (auto simp: wf_broker_defs)
  then have "\<forall>task \<in> set ?ts. tk_id task \<notin> set (br_runnerAccepts ?b)" by auto
  note fail = fail_tasks [OF this, of "disconnect_reason runnerId message", unfolded Let_def]
  have b': "b' = fold (\<lambda>task b. handleRunnerReject (tk_id task) (disconnect_reason runnerId message) (failTask (tk_id task) b)) ?ts ?b"
    by (simp add: b'_def deregisterRunner_def)
  have gone: "i \<in> tk_id ` set ?ts \<longleftrightarrow> tk_runnerId task = runnerId" if t: "(i, task) \<in> set (br_tasks b)" for i task
  proof
    assume "i \<in> tk_id ` set ?ts"
    then obtain j task' where t': "(j, task') \<in> set (br_tasks b)" "tk_runnerId task' = runnerId" "i = tk_id task'" by auto
    with keys have "(i, task') \<in> set (br_tasks b)" by blast
    from task_core_unique [OF wf inj this t] t'(2) show "tk_runnerId task = runnerId" by (simp add: task_core_def)
  next
    assume "tk_runnerId task = runnerId"
    with t keys [OF t] show "i \<in> tk_id ` set ?ts" by force
  qed
  show "br_tasks b' = filter (\<lambda>(_, task). tk_runnerId task \<noteq> runnerId) (br_tasks b)"
    unfolding b' using fail gone by (auto intro!: filter_cong)
  show "br_offers b' = filter (\<lambda>offer. off_runnerId offer \<noteq> runnerId) (br_offers b)" "map_of (br_runners b') runnerId = None"
    "br_threads b' = br_threads b" "br_runnerAccepts b' = br_runnerAccepts b" "br_ids b' = br_ids b"
    "br_requests b' = br_requests b" "br_pending b' = br_pending b"
    unfolding b' using fail by (simp_all add: delete_conv')
qed

lemma wf_deregisterRunner:
  assumes wf: "wf_broker nanoid b" and inj: "inj nanoid"
  shows "wf_broker nanoid (deregisterRunner runnerId message b)"
  by (rule wf_settles [OF wf settles_tasks]) (simp_all add: deregister_effect [OF wf inj refl])

lemma wf_answer_task:
  assumes "wf_broker nanoid b"
  shows "wf_broker nanoid (answer_task taskId m b)"
  using wf_task_handlers(8) [OF assms, of taskId] by (auto simp: answer_task_def split: prod.split sum.split)

lemma wf_onRunnerMessage:
  assumes wf: "wf_broker nanoid b" and inj: "inj nanoid"
  shows "wf_broker nanoid (onRunnerMessage nanoid now runnerId rm b)"
  using wf inj wf_settles [OF wf settles_answers(1)]
  by (cases rm) (simp_all add: onRunnerMessage_def handleRunnerAccept_def handleRunnerReject_def handleRunnerDeferred_def
      handleDataRequest_def handleNodeTypesRequest_def handleRpcRequest_def ask_requester_def split: option.split)

lemma wf_onRequesterMessage:
  assumes wf: "wf_broker nanoid b" and inj: "inj nanoid"
  shows "wf_broker nanoid (onRequesterMessage nanoid now requesterId qm b)"
  using wf inj wf_settles [OF wf settles_answers(2)]
  by (cases qm) (simp_all add: onRequesterMessage_def handleRequesterAccept_def handleRequesterDataResponse_def
      handleRequesterNodeTypesResponse_def handleRequesterRpcResponse_def wf_answer_task)

lemma wf_step:
  assumes "broker_step nanoid b b'" "wf_broker nanoid b" "inj nanoid"
  shows "wf_broker nanoid b'"
  using assms
proof (cases rule: broker_step.cases)
  case (Runner runner)
  show ?thesis unfolding Runner by (rule wf_settles [OF assms(2) settles_tasks]) (simp_all add: registerRunner_def)
next
  case (Requester requesterId)
  show ?thesis unfolding Requester by (rule wf_settles [OF assms(2) settles_tasks]) (simp_all add: registerRequester_def)
next
  case (Requester_gone requesterId)
  show ?thesis unfolding Requester_gone by (rule wf_settles [OF assms(2) settles_tasks]) (simp_all add: deregisterRequester_def)
qed (use assms in \<open>simp_all add: wf_deregisterRunner wf_onRunnerMessage wf_onRequesterMessage wf_after_runner wf_after_requester
    wf_settles [OF _ settles_answers(3)] wf_settles [OF _ settles_answers(4)]\<close>)

lemma wf_new_broker: "new_broker timeout = Inr b \<Longrightarrow> wf_broker nanoid b"
  by (auto simp: new_broker_def wf_broker_defs split: if_splits)

lemma wf_steps:
  assumes "broker_steps nanoid b0 b" "new_broker timeout = Inr b0" "inj nanoid"
  shows "wf_broker nanoid b"
  using assms by (induction rule: broker_steps.induct) (auto intro: wf_new_broker wf_step)

text \<open>
  C24: Every task of a broker comes from one acceptance, under the id drawn for it: its runner is the one
  that made the offer, its requester the one that made the request, and offer and request have its type.
\<close>

theorem tasks_come_from_acceptances:
  assumes "inj nanoid" "new_broker timeout = Inr b0" "broker_steps nanoid b0 b" "(taskId, task) \<in> set (br_tasks b)"
  shows "tk_id task = taskId \<and> (\<exists>!th. th \<in> set (br_threads b) \<and> th_task th = taskId)
    \<and> (\<exists>th \<in> set (br_threads b). th_task th = taskId \<and> tk_runnerId task = off_runnerId (th_offer th)
        \<and> tk_requesterId task = rq_requesterId (br_requests b ! th_request th)
        \<and> tk_taskType task = off_taskType (th_offer th)
        \<and> off_taskType (th_offer th) = rq_taskType (br_requests b ! th_request th))"
proof -
  note wf = wf_steps [OF assms(3,2,1)]
  from wf have "map th_task (br_threads b) = map nanoid [0..<br_ids b]" by (simp add: wf_broker_def wf_threads_def)
  moreover have "distinct (map nanoid [0..<br_ids b])" using assms(1) by (simp add: distinct_map inj_on_subset [OF assms(1)])
  ultimately have distinct: "inj_on th_task (set (br_threads b))" by (metis distinct_map)
  from wf assms(4) have id: "tk_id task = taskId" and "task_core task \<in> core_of_thread b ` set (br_threads b)"
    unfolding wf_broker_def wf_tasks_def by blast+
  then obtain th where th: "th \<in> set (br_threads b)" "task_core task = core_of_thread b th" by blast
  have "off_taskType (th_offer th) = rq_taskType (br_requests b ! th_request th)"
    using wf th(1) by (simp add: wf_broker_def wf_threads_def)
  with th id distinct show ?thesis
    by (auto simp: task_core_def core_of_thread_def intro!: bexI [of _ th] dest: inj_onD)
qed

text \<open>
  C26: When a runner disconnects, the broker drops its offers, forgets it and fails exactly the tasks it was
  running; every acceptance that still waits for an answer keeps waiting, also those that wait for
  this runner, since the reject of the loop only reaches tasks that were accepted before.
\<close>

theorem deregisterRunner_fails_its_tasks:
  assumes "inj nanoid" "new_broker timeout = Inr b0" "broker_steps nanoid b0 b"
  shows "br_tasks (deregisterRunner runnerId message b) = filter (\<lambda>(_, task). tk_runnerId task \<noteq> runnerId) (br_tasks b)
    \<and> br_offers (deregisterRunner runnerId message b) = filter (\<lambda>offer. off_runnerId offer \<noteq> runnerId) (br_offers b)
    \<and> map_of (br_runners (deregisterRunner runnerId message b)) runnerId = None
    \<and> br_threads (deregisterRunner runnerId message b) = br_threads b
    \<and> br_runnerAccepts (deregisterRunner runnerId message b) = br_runnerAccepts b"
  by (simp add: deregister_effect [OF wf_steps [OF assms(3,2,1)] assms(1) refl])

section \<open>An example\<close>

definition letters :: "nat \<Rightarrow> string" where
  "letters n = replicate n (CHR ''t'')"

lemma letters_inj: "inj letters"
  by (rule injI) (simp add: letters_def)

text \<open>Two runners, a requester whose two requests they are asked for; the first runner accepted.\<close>

definition example_offer :: "string \<Rightarrow> string \<Rightarrow> nat runner_message" where
  "example_offer offerId taskType = MTaskOffer offerId taskType (-1)"

definition example_broker :: "nat broker" where
  "example_broker =
     (case new_broker 60 of Inr b0 \<Rightarrow>
        after_runner 0 RunnerAccepts (onRunnerMessage letters 0 ''r1'' (MTaskAccepted '''')
          (onRunnerMessage letters 0 ''r2'' (example_offer ''o2'' ''js'') (onRunnerMessage letters 0 ''r1'' (example_offer ''o1'' ''js'')
            (onRequesterMessage letters 0 ''q'' (MTaskRequest ''js'' ''b'') (onRequesterMessage letters 0 ''q'' (MTaskRequest ''js'' ''a'')
              (registerRequester ''q'' (registerRunner \<lparr>tr_id = ''r2'', tr_taskTypes = [''js'']\<rparr>
                (registerRunner \<lparr>tr_id = ''r1'', tr_taskTypes = [''js'']\<rparr> b0)))))))))"

definition example_start :: "nat broker" where
  "example_start = (case new_broker 60 of Inr b \<Rightarrow> b)"

lemma example_start: "new_broker 60 = Inr example_start"
  by (simp add: example_start_def new_broker_def)

lemma example_reached: "broker_steps letters example_start example_broker"
proof -
  let ?b = "onRunnerMessage letters 0 ''r1'' (MTaskAccepted '''')
    (onRunnerMessage letters 0 ''r2'' (example_offer ''o2'' ''js'') (onRunnerMessage letters 0 ''r1'' (example_offer ''o1'' ''js'')
      (onRequesterMessage letters 0 ''q'' (MTaskRequest ''js'' ''b'') (onRequesterMessage letters 0 ''q'' (MTaskRequest ''js'' ''a'')
        (registerRequester ''q'' (registerRunner \<lparr>tr_id = ''r2'', tr_taskTypes = [''js'']\<rparr>
          (registerRunner \<lparr>tr_id = ''r1'', tr_taskTypes = [''js'']\<rparr> example_start)))))))"
  have steps: "broker_steps letters example_start ?b"
    by (rule broker_steps.Further [OF _ broker_step.Runner_message] broker_steps.Further [OF _ broker_step.Requester_message]
          broker_steps.Further [OF _ broker_step.Requester] broker_steps.Further [OF _ broker_step.Runner] broker_steps.Here)+
  have "0 < length (br_threads ?b)" "th_stage (br_threads ?b ! 0) = AskRunner (Some RunnerAccepts)"
    by code_simp+
  from broker_steps.Further [OF steps broker_step.After_runner [OF this]] show ?thesis
    by (simp only: example_broker_def example_start_def new_broker_def) simp
qed

lemma example_tasks: "br_tasks example_broker = [('''', \<lparr>tk_id = '''', tk_runnerId = ''r1'', tk_requesterId = ''q'', tk_taskType = ''js'', tk_timeout = False\<rparr>)]"
  by code_simp

lemma tasks_come_from_acceptances_witness:
  "inj letters \<and> broker_steps letters example_start example_broker \<and> (\<exists>!th. th \<in> set (br_threads example_broker) \<and> th_task th = '''')"
  using tasks_come_from_acceptances [OF letters_inj example_start example_reached, of "''''"] letters_inj example_reached
  by (simp add: example_tasks)

text \<open>The second runner disconnects before it answers: its acceptance stays open, the task of the first runner stays.\<close>

lemma deregisterRunner_fails_its_tasks_witness:
  "map th_stage (br_threads (deregisterRunner ''r2'' ''closed'' example_broker)) = [AskRequester None, AskRunner None]
    \<and> br_tasks (deregisterRunner ''r2'' ''closed'' example_broker) = br_tasks example_broker"
proof -
  have "map th_stage (br_threads example_broker) = [AskRequester None, AskRunner None]" by code_simp
  then show ?thesis
    using deregisterRunner_fails_its_tasks [OF letters_inj example_start example_reached, of "''r2''" "''closed''"]
    by (simp add: example_tasks)
qed

lemma settleTasks_pairs_in_order_witness:
  "\<exists>new. br_threads (settleTasks letters 0 example_broker) = br_threads example_broker @ new \<and> matches ''js'' new = []"
proof -
  have "\<forall>r \<in> set (br_pending example_broker). r < length (br_requests example_broker)"
      "offers_of ''js'' (br_offers (expireTasks 0 example_broker)) = []" by code_simp+
  with settleTasks_pairs_in_order [of example_broker letters 0 "''js''"] show ?thesis by auto
qed

text \<open>
  A deferred request is pushed on the list of pending requests although it is still there; when it is
  served, only one entry is removed, and the other stays, marked as in progress, for ever.
\<close>

definition deferred_broker :: "nat broker" where
  "deferred_broker =
     after_runner 2 RunnerAccepts (onRunnerMessage letters 0 ''r2'' (MTaskAccepted ''tt'')
       (onRunnerMessage letters 0 ''r2'' (example_offer ''o3'' ''js'')
         (after_runner 1 RunnerDefers (onRunnerMessage letters 0 ''r2'' (MTaskDeferred ''t'') example_broker))))"

lemma deferred_request_stays_pending:
  "br_pending deferred_broker = [1] \<and> rq_acceptInProgress (br_requests deferred_broker ! 1)
    \<and> map th_stage (br_threads deferred_broker) = [AskRequester None, Ended, AskRequester None]"
  by code_simp

end
