(* ===== verification/RunnerProcess.thy ===== *)
theory RunnerProcess
  imports TaskBroker
begin

text \<open>
  The task runner (\<open>packages/@n8n/task-runner/src/task-runner.ts\<close> and \<open>task-state.ts\<close>): the
  process at the other end of the task broker. It offers to execute tasks, holds the state of those it accepted, and
  answers for each. Tasks are objects that the map of running tasks and the continuations of
  their executions share; what executing a task does is outside, so an execution ends, or asks the broker for
  something, by a step of its own.
\<close>

section \<open>State\<close>

datatype TaskStatus = WaitingForSettings | Running | AbortingCancelled | AbortingTimeout

text \<open>The abort signal holds its reason; the timer is set until it fires or is cleared.\<close>

record TaskState =
  ts_taskId :: string
  ts_status :: TaskStatus
  ts_abort :: "string option"
  ts_timer :: bool

text \<open>What a promise of the executing code is settled with.\<close>

datatype 'p settled = Resolved 'p | RejectedWith 'p | TaskCancelledError string

datatype 'p outcome = Succeeded 'p | Failed

record runner_opts =
  ro_taskType :: string
  ro_maxConcurrency :: int
  ro_idleTimeout :: int

text \<open>Random ids and validity times, and the clock in nanoseconds; what \<open>JSON.stringify\<close> accepts.\<close>

record 'p runner_env =
  re_nanoid :: "nat \<Rightarrow> string"
  re_random :: "nat \<Rightarrow> int"
  re_clock :: "nat \<Rightarrow> int"
  re_sendable :: "'p \<Rightarrow> bool"

text \<open>
  Open offers are kept with the time they are valid until, requests with the task that made them.
  \<open>rp_failures\<close> counts the statuses the code does not expect.
\<close>

record 'p runner =
  rp_canSendOffers :: bool
  rp_offerInterval :: bool
  rp_runningTasks :: "(string \<times> nat) list"
  rp_tasks :: "TaskState list"
  rp_executing :: "nat list"
  rp_openOffers :: "(string \<times> int) list"
  rp_dataRequests :: "(string \<times> string) list"
  rp_nodeTypesRequests :: "(string \<times> string) list"
  rp_rpcCalls :: "string list"
  rp_settled :: "(string \<times> 'p settled) list"
  rp_idleTimer :: bool
  rp_idleEvents :: nat
  rp_ids :: nat
  rp_sent :: "'p runner_message list"
  rp_failures :: nat

definition resetIdleTimer :: "runner_opts \<Rightarrow> 'p runner \<Rightarrow> 'p runner" where
  "resetIdleTimer opts r = (if ro_idleTimeout opts = 0 then r else r\<lparr>rp_idleTimer := True\<rparr>)"

definition new_runner :: "runner_opts \<Rightarrow> 'p runner" where
  "new_runner opts = resetIdleTimer opts
     \<lparr>rp_canSendOffers = False, rp_offerInterval = False, rp_runningTasks = [], rp_tasks = [], rp_executing = [],
      rp_openOffers = [], rp_dataRequests = [], rp_nodeTypesRequests = [], rp_rpcCalls = [], rp_settled = [],
      rp_idleTimer = False, rp_idleEvents = 0, rp_ids = 0, rp_sent = [], rp_failures = 0\<rparr>"

definition send :: "'p runner_message \<Rightarrow> 'p runner \<Rightarrow> 'p runner" where
  "send m r = r\<lparr>rp_sent := rp_sent r @ [m]\<rparr>"

section \<open>Offers\<close>

definition stopTaskOffers :: "'p runner \<Rightarrow> 'p runner" where
  "stopTaskOffers r = r\<lparr>rp_canSendOffers := False, rp_offerInterval := False\<rparr>"

definition startTaskOffers :: "'p runner \<Rightarrow> 'p runner" where
  "startTaskOffers r = r\<lparr>rp_canSendOffers := True, rp_offerInterval := True\<rparr>"

definition deleteStaleOffers :: "int \<Rightarrow> 'p runner \<Rightarrow> 'p runner" where
  "deleteStaleOffers now r = r\<lparr>rp_openOffers := filter (\<lambda>(_, validUntil). \<not> validUntil < now) (rp_openOffers r)\<rparr>"

definition msToNs :: "int \<Rightarrow> int" where
  "msToNs ms = ms * 1000000"

definition send_offer :: "'p runner_env \<Rightarrow> runner_opts \<Rightarrow> 'p runner \<Rightarrow> 'p runner" where
  "send_offer env opts r =
     (let validForInMs = 5000 + re_random env (rp_ids r);
          validUntil = re_clock env (rp_ids r) + msToNs (validForInMs + 100);
          offerId = re_nanoid env (rp_ids r)
      in send (MTaskOffer offerId (ro_taskType opts) validForInMs)
           (r\<lparr>rp_ids := Suc (rp_ids r), rp_openOffers := AList.update offerId validUntil (rp_openOffers r)\<rparr>))"

definition sendOffers :: "'p runner_env \<Rightarrow> runner_opts \<Rightarrow> int \<Rightarrow> 'p runner \<Rightarrow> 'p runner" where
  "sendOffers env opts now r =
     (let r1 = deleteStaleOffers now r;
          offersToSend = ro_maxConcurrency opts - int (length (rp_openOffers r1) + length (rp_runningTasks r1))
      in if \<not> rp_canSendOffers r1 then r1 else (send_offer env opts ^^ nat offersToSend) r1)"

section \<open>Tasks\<close>

definition set_task :: "nat \<Rightarrow> (TaskState \<Rightarrow> TaskState) \<Rightarrow> 'p runner \<Rightarrow> 'p runner" where
  "set_task k f r = r\<lparr>rp_tasks := (rp_tasks r)[k := f (rp_tasks r ! k)]\<rparr>"

definition hasOpenTaskSlots :: "runner_opts \<Rightarrow> 'p runner \<Rightarrow> bool" where
  "hasOpenTaskSlots opts r \<longleftrightarrow> int (length (rp_runningTasks r)) < ro_maxConcurrency opts"

definition new_task :: "string \<Rightarrow> TaskState" where
  "new_task taskId = \<lparr>ts_taskId = taskId, ts_status = WaitingForSettings, ts_abort = None, ts_timer = True\<rparr>"

definition offerAccepted :: "runner_opts \<Rightarrow> string \<Rightarrow> string \<Rightarrow> 'p runner \<Rightarrow> 'p runner" where
  "offerAccepted opts offerId taskId r =
     (if \<not> hasOpenTaskSlots opts r
      then send (MTaskRejected taskId ''No open task slots - runner already at capacity'')
             (r\<lparr>rp_openOffers := AList.delete offerId (rp_openOffers r)\<rparr>)
      else if map_of (rp_openOffers r) offerId = None
      then send (MTaskRejected taskId ''Offer expired - not accepted within validity window'') r
      else let r1 = resetIdleTimer opts (r\<lparr>rp_openOffers := AList.delete offerId (rp_openOffers r)\<rparr>)
           in send (MTaskAccepted taskId)
                (r1\<lparr>rp_tasks := rp_tasks r1 @ [new_task taskId],
                    rp_runningTasks := AList.update taskId (length (rp_tasks r1)) (rp_runningTasks r1)\<rparr>))"

definition finishTask :: "'p runner_env \<Rightarrow> runner_opts \<Rightarrow> int \<Rightarrow> nat \<Rightarrow> 'p runner \<Rightarrow> 'p runner" where
  "finishTask env opts now k r =
     (let r1 = set_task k (\<lambda>t. t\<lparr>ts_timer := False\<rparr>) r
      in resetIdleTimer opts (sendOffers env opts now
           (r1\<lparr>rp_runningTasks := AList.delete (ts_taskId (rp_tasks r ! k)) (rp_runningTasks r1)\<rparr>)))"

text \<open>Every data and node type request of the task is rejected; calls are not.\<close>

definition cancelTaskRequests :: "string \<Rightarrow> string \<Rightarrow> 'p runner \<Rightarrow> 'p runner" where
  "cancelTaskRequests taskId reason r =
     (let of_task = filter (\<lambda>(_, t). t = taskId); others = filter (\<lambda>(_, t). t \<noteq> taskId) in
      r\<lparr>rp_settled := rp_settled r @ map (\<lambda>(requestId, _). (requestId, TaskCancelledError reason))
          (of_task (rp_dataRequests r) @ of_task (rp_nodeTypesRequests r)),
        rp_dataRequests := others (rp_dataRequests r), rp_nodeTypesRequests := others (rp_nodeTypesRequests r)\<rparr>)"

definition unexpected :: "'p runner \<Rightarrow> 'p runner" where
  "unexpected r = r\<lparr>rp_failures := Suc (rp_failures r)\<rparr>"

definition abort_task :: "TaskStatus \<Rightarrow> string \<Rightarrow> TaskState \<Rightarrow> TaskState" where
  "abort_task status reason t = t\<lparr>ts_status := status, ts_abort := Some reason\<rparr>"

definition taskCancelled :: "'p runner_env \<Rightarrow> runner_opts \<Rightarrow> int \<Rightarrow> string \<Rightarrow> string \<Rightarrow> 'p runner \<Rightarrow> 'p runner" where
  "taskCancelled env opts now taskId reason r =
     (case map_of (rp_runningTasks r) taskId of
        None \<Rightarrow> r
      | Some k \<Rightarrow>
          (case ts_status (rp_tasks r ! k) of
             WaitingForSettings \<Rightarrow> finishTask env opts now k r
           | AbortingTimeout \<Rightarrow> r
           | AbortingCancelled \<Rightarrow> r
           | Running \<Rightarrow> cancelTaskRequests taskId reason (set_task k (abort_task AbortingCancelled ''cancelled'') r)))"

definition taskTimedOut :: "'p runner_env \<Rightarrow> runner_opts \<Rightarrow> int \<Rightarrow> string \<Rightarrow> 'p runner \<Rightarrow> 'p runner" where
  "taskTimedOut env opts now taskId r =
     (case map_of (rp_runningTasks r) taskId of
        None \<Rightarrow> r
      | Some k \<Rightarrow>
          (case ts_status (rp_tasks r ! k) of
             WaitingForSettings \<Rightarrow> finishTask env opts now k (send (MTaskError taskId) r)
           | AbortingTimeout \<Rightarrow> unexpected r
           | Running \<Rightarrow> cancelTaskRequests taskId ''timeout'' (set_task k (abort_task AbortingTimeout ''timeout'') r)
           | AbortingCancelled \<Rightarrow> r))"

definition receivedSettings :: "string \<Rightarrow> 'p runner \<Rightarrow> 'p runner" where
  "receivedSettings taskId r =
     (case map_of (rp_runningTasks r) taskId of
        None \<Rightarrow> r
      | Some k \<Rightarrow>
          (case ts_status (rp_tasks r ! k) of
             WaitingForSettings \<Rightarrow>
               (set_task k (\<lambda>t. t\<lparr>ts_status := Running\<rparr>) r)\<lparr>rp_executing := rp_executing r @ [k]\<rparr>
           | _ \<Rightarrow> unexpected r))"

definition taskExecutionFailed :: "'p runner_env \<Rightarrow> runner_opts \<Rightarrow> int \<Rightarrow> nat \<Rightarrow> 'p runner \<Rightarrow> 'p runner" where
  "taskExecutionFailed env opts now k r =
     (let t = rp_tasks r ! k in
      finishTask env opts now k
        (case ts_status t of
           WaitingForSettings \<Rightarrow> unexpected r
         | AbortingCancelled \<Rightarrow> r
         | _ \<Rightarrow> send (MTaskError (ts_taskId t)) r))"

text \<open>When the data cannot be sent, the handler of failures runs after the task was finished.\<close>

definition taskExecutionSucceeded :: "'p runner_env \<Rightarrow> runner_opts \<Rightarrow> int \<Rightarrow> nat \<Rightarrow> 'p \<Rightarrow> 'p runner \<Rightarrow> 'p runner" where
  "taskExecutionSucceeded env opts now k d r =
     (let t = rp_tasks r ! k in
      case ts_status t of
        WaitingForSettings \<Rightarrow> taskExecutionFailed env opts now k (finishTask env opts now k (unexpected r))
      | AbortingCancelled \<Rightarrow> finishTask env opts now k r
      | _ \<Rightarrow> if re_sendable env d then finishTask env opts now k (send (MTaskDone (ts_taskId t) d) r)
            else taskExecutionFailed env opts now k (finishTask env opts now k r))"

definition execution_ended :: "'p runner_env \<Rightarrow> runner_opts \<Rightarrow> int \<Rightarrow> nat \<Rightarrow> 'p outcome \<Rightarrow> 'p runner \<Rightarrow> 'p runner" where
  "execution_ended env opts now k outcome r =
     (let r1 = r\<lparr>rp_executing := filter (\<lambda>i. i \<noteq> k) (rp_executing r)\<rparr> in
      case outcome of Succeeded d \<Rightarrow> taskExecutionSucceeded env opts now k d r1 | Failed \<Rightarrow> taskExecutionFailed env opts now k r1)"

section \<open>Requests of the executing code\<close>

text \<open>The promise of a request is settled by the response, after which its entry is deleted.\<close>

definition requestData :: "'p runner_env \<Rightarrow> string \<Rightarrow> 'p \<Rightarrow> 'p runner \<Rightarrow> 'p runner" where
  "requestData env taskId params r =
     (let requestId = re_nanoid env (rp_ids r) in
      send (MTaskDataRequest taskId requestId params)
        (r\<lparr>rp_ids := Suc (rp_ids r), rp_dataRequests := AList.update requestId taskId (rp_dataRequests r)\<rparr>))"

definition requestNodeTypes :: "'p runner_env \<Rightarrow> string \<Rightarrow> 'p \<Rightarrow> 'p runner \<Rightarrow> 'p runner" where
  "requestNodeTypes env taskId params r =
     (let requestId = re_nanoid env (rp_ids r) in
      send (MNodeTypesRequest taskId requestId params)
        (r\<lparr>rp_ids := Suc (rp_ids r), rp_nodeTypesRequests := AList.update requestId taskId (rp_nodeTypesRequests r)\<rparr>))"

definition makeRpcCall :: "'p runner_env \<Rightarrow> string \<Rightarrow> string \<Rightarrow> 'p \<Rightarrow> 'p runner \<Rightarrow> 'p runner" where
  "makeRpcCall env taskId name params r =
     (let callId = re_nanoid env (rp_ids r); r1 = r\<lparr>rp_ids := Suc (rp_ids r)\<rparr> in
      if \<not> re_sendable env params then r1\<lparr>rp_rpcCalls := filter (\<lambda>i. i \<noteq> callId) (rp_rpcCalls r)\<rparr>
      else send (MRpc taskId callId name params) (r1\<lparr>rp_rpcCalls := set_add callId (rp_rpcCalls r)\<rparr>))"

definition processDataResponse :: "string \<Rightarrow> 'p \<Rightarrow> 'p runner \<Rightarrow> 'p runner" where
  "processDataResponse requestId d r =
     (if map_of (rp_dataRequests r) requestId = None then r
      else r\<lparr>rp_settled := rp_settled r @ [(requestId, Resolved d)], rp_dataRequests := AList.delete requestId (rp_dataRequests r)\<rparr>)"

definition processNodeTypesResponse :: "string \<Rightarrow> 'p \<Rightarrow> 'p runner \<Rightarrow> 'p runner" where
  "processNodeTypesResponse requestId nodeTypes r =
     (if map_of (rp_nodeTypesRequests r) requestId = None then r
      else r\<lparr>rp_settled := rp_settled r @ [(requestId, Resolved nodeTypes)],
             rp_nodeTypesRequests := AList.delete requestId (rp_nodeTypesRequests r)\<rparr>)"

definition handleRpcResponse :: "string \<Rightarrow> string \<Rightarrow> 'p \<Rightarrow> 'p runner \<Rightarrow> 'p runner" where
  "handleRpcResponse callId status d r =
     (if callId \<notin> set (rp_rpcCalls r) then r
      else r\<lparr>rp_settled := rp_settled r @ [(callId, if status = ''success'' then Resolved d else RejectedWith d)],
             rp_rpcCalls := filter (\<lambda>i. i \<noteq> callId) (rp_rpcCalls r)\<rparr>)"

section \<open>Messages, timers and the end\<close>

definition onMessage :: "'p runner_env \<Rightarrow> runner_opts \<Rightarrow> int \<Rightarrow> 'p to_runner \<Rightarrow> 'p runner \<Rightarrow> 'p runner" where
  "onMessage env opts now m r =
     (case m of
        RunnerRegistered \<Rightarrow> startTaskOffers r
      | TaskOfferAccept offerId taskId \<Rightarrow> offerAccepted opts offerId taskId r
      | TaskCancel taskId reason \<Rightarrow> taskCancelled env opts now taskId reason r
      | TaskSettings taskId settings \<Rightarrow> receivedSettings taskId r
      | TaskDataResponse taskId requestId d \<Rightarrow> processDataResponse requestId d r
      | RpcResponse taskId callId status d \<Rightarrow> handleRpcResponse callId status d r
      | NodeTypesResponse taskId requestId d \<Rightarrow> processNodeTypesResponse requestId d r)"

text \<open>The web socket server asks a runner that connects for its name and types.\<close>

definition info_request :: "'p runner \<Rightarrow> 'p runner" where
  "info_request r = send MInfo r"

text \<open>The timer of a task fires once.\<close>

definition timer_fires :: "'p runner_env \<Rightarrow> runner_opts \<Rightarrow> int \<Rightarrow> nat \<Rightarrow> 'p runner \<Rightarrow> 'p runner" where
  "timer_fires env opts now k r =
     taskTimedOut env opts now (ts_taskId (rp_tasks r ! k)) (set_task k (\<lambda>t. t\<lparr>ts_timer := False\<rparr>) r)"

definition idle_timer_fires :: "'p runner \<Rightarrow> 'p runner" where
  "idle_timer_fires r =
     (if rp_runningTasks r = [] then r\<lparr>rp_idleTimer := False, rp_idleEvents := Suc (rp_idleEvents r)\<rparr>
      else r\<lparr>rp_idleTimer := False\<rparr>)"

definition clearIdleTimer :: "'p runner \<Rightarrow> 'p runner" where
  "clearIdleTimer r = r\<lparr>rp_idleTimer := False\<rparr>"

text \<open>\<open>stop\<close> up to its wait, and what the wait answers: whether all tasks are done, or an error.\<close>

definition stop_runner :: "'p runner \<Rightarrow> 'p runner" where
  "stop_runner r = stopTaskOffers (clearIdleTimer r)"

definition waitUntilAllTasksAreDone :: "int \<Rightarrow> 'p runner \<Rightarrow> bool res" where
  "waitUntilAllTasksAreDone elapsed r =
     (if rp_runningTasks r = [] then Inr True
      else if 30000 < elapsed then Inl (ApplicationError ''Timeout while waiting for tasks to finish'')
      else Inr False)"

inductive runner_step :: "'p runner_env \<Rightarrow> runner_opts \<Rightarrow> 'p runner \<Rightarrow> 'p runner \<Rightarrow> bool" for env opts where
  Message: "runner_step env opts r (onMessage env opts now m r)"
| Info: "runner_step env opts r (info_request r)"
| Interval: "rp_offerInterval r \<Longrightarrow> runner_step env opts r (sendOffers env opts now r)"
| Timer: "k < length (rp_tasks r) \<Longrightarrow> ts_timer (rp_tasks r ! k) \<Longrightarrow> runner_step env opts r (timer_fires env opts now k r)"
| Execution_ended: "k \<in> set (rp_executing r) \<Longrightarrow> runner_step env opts r (execution_ended env opts now k outcome r)"
| Request_data: "k \<in> set (rp_executing r) \<Longrightarrow> runner_step env opts r (requestData env (ts_taskId (rp_tasks r ! k)) params r)"
| Request_types: "k \<in> set (rp_executing r) \<Longrightarrow> runner_step env opts r (requestNodeTypes env (ts_taskId (rp_tasks r ! k)) params r)"
| Rpc: "k \<in> set (rp_executing r) \<Longrightarrow> runner_step env opts r (makeRpcCall env (ts_taskId (rp_tasks r ! k)) name params r)"
| Idle: "rp_idleTimer r \<Longrightarrow> runner_step env opts r (idle_timer_fires r)"
| Closed: "runner_step env opts r (stopTaskOffers r)"
| Stop: "runner_step env opts r (stop_runner r)"

inductive runner_steps :: "'p runner_env \<Rightarrow> runner_opts \<Rightarrow> 'p runner \<Rightarrow> 'p runner \<Rightarrow> bool" for env opts where
  Here: "runner_steps env opts r r"
| Further: "runner_steps env opts r r1 \<Longrightarrow> runner_step env opts r1 r2 \<Longrightarrow> runner_steps env opts r r2"

section \<open>Capacity\<close>

text \<open>The places of a runner: open offers and running tasks.\<close>

definition load_of :: "'p runner \<Rightarrow> nat" where
  "load_of r = length (rp_openOffers r) + length (rp_runningTasks r)"

lemma length_update: "length (AList.update k v xs) = (if k \<in> fst ` set xs then length xs else Suc (length xs))"
  by (induction xs) auto

lemma length_delete_bound: "length (AList.delete k xs) \<le> length xs"
  by (simp add: AList.delete_eq)

lemma offer_deleted: "map_of xs k \<noteq> None \<Longrightarrow> length (AList.delete k xs) < length xs"
proof (induction xs)
  case (Cons x xs)
  then show ?case using length_delete_bound [of k xs] by (auto split: if_splits)
qed simp

lemma send_simps [simp]:
  "rp_canSendOffers (send m r) = rp_canSendOffers r" "rp_offerInterval (send m r) = rp_offerInterval r"
  "rp_runningTasks (send m r) = rp_runningTasks r" "rp_tasks (send m r) = rp_tasks r" "rp_executing (send m r) = rp_executing r"
  "rp_openOffers (send m r) = rp_openOffers r" "rp_sent (send m r) = rp_sent r @ [m]" "rp_ids (send m r) = rp_ids r"
  "rp_failures (send m r) = rp_failures r" "load_of (send m r) = load_of r"
  by (simp_all add: send_def load_of_def)

lemma resetIdleTimer_simps [simp]:
  "rp_canSendOffers (resetIdleTimer opts r) = rp_canSendOffers r" "rp_offerInterval (resetIdleTimer opts r) = rp_offerInterval r"
  "rp_runningTasks (resetIdleTimer opts r) = rp_runningTasks r" "rp_tasks (resetIdleTimer opts r) = rp_tasks r"
  "rp_executing (resetIdleTimer opts r) = rp_executing r" "rp_openOffers (resetIdleTimer opts r) = rp_openOffers r"
  "rp_sent (resetIdleTimer opts r) = rp_sent r" "rp_ids (resetIdleTimer opts r) = rp_ids r"
  "rp_failures (resetIdleTimer opts r) = rp_failures r" "load_of (resetIdleTimer opts r) = load_of r"
  by (simp_all add: resetIdleTimer_def load_of_def)

lemma set_task_simps [simp]:
  "rp_canSendOffers (set_task k f r) = rp_canSendOffers r" "rp_offerInterval (set_task k f r) = rp_offerInterval r"
  "rp_runningTasks (set_task k f r) = rp_runningTasks r" "rp_executing (set_task k f r) = rp_executing r"
  "rp_openOffers (set_task k f r) = rp_openOffers r" "rp_sent (set_task k f r) = rp_sent r" "rp_ids (set_task k f r) = rp_ids r"
  "rp_tasks (set_task k f r) = (rp_tasks r)[k := f (rp_tasks r ! k)]" "load_of (set_task k f r) = load_of r"
  by (simp_all add: set_task_def load_of_def)

lemma cancelTaskRequests_simps [simp]:
  "rp_canSendOffers (cancelTaskRequests i m r) = rp_canSendOffers r" "rp_runningTasks (cancelTaskRequests i m r) = rp_runningTasks r"
  "rp_tasks (cancelTaskRequests i m r) = rp_tasks r" "rp_executing (cancelTaskRequests i m r) = rp_executing r"
  "rp_openOffers (cancelTaskRequests i m r) = rp_openOffers r" "rp_sent (cancelTaskRequests i m r) = rp_sent r"
  "rp_ids (cancelTaskRequests i m r) = rp_ids r" "load_of (cancelTaskRequests i m r) = load_of r"
  by (simp_all add: cancelTaskRequests_def load_of_def Let_def)

lemma send_offer_simps [simp]:
  "rp_canSendOffers (send_offer env opts r) = rp_canSendOffers r" "rp_runningTasks (send_offer env opts r) = rp_runningTasks r"
  "rp_tasks (send_offer env opts r) = rp_tasks r" "rp_executing (send_offer env opts r) = rp_executing r"
  "rp_ids (send_offer env opts r) = Suc (rp_ids r)"
  by (simp_all add: send_offer_def Let_def)

lemma send_offers_simps [simp]:
  "rp_canSendOffers ((send_offer env opts ^^ n) r) = rp_canSendOffers r"
  "rp_runningTasks ((send_offer env opts ^^ n) r) = rp_runningTasks r"
  "rp_tasks ((send_offer env opts ^^ n) r) = rp_tasks r" "rp_executing ((send_offer env opts ^^ n) r) = rp_executing r"
  "rp_ids ((send_offer env opts ^^ n) r) = rp_ids r + n"
  by (induction n) simp_all

lemma deleteStaleOffers_simps [simp]:
  "rp_canSendOffers (deleteStaleOffers now r) = rp_canSendOffers r" "rp_runningTasks (deleteStaleOffers now r) = rp_runningTasks r"
  "rp_tasks (deleteStaleOffers now r) = rp_tasks r" "rp_executing (deleteStaleOffers now r) = rp_executing r"
  "rp_ids (deleteStaleOffers now r) = rp_ids r" "rp_sent (deleteStaleOffers now r) = rp_sent r"
  by (simp_all add: deleteStaleOffers_def)

lemma sendOffers_simps [simp]:
  "rp_runningTasks (sendOffers env opts now r) = rp_runningTasks r" "rp_tasks (sendOffers env opts now r) = rp_tasks r"
  "rp_executing (sendOffers env opts now r) = rp_executing r" "rp_canSendOffers (sendOffers env opts now r) = rp_canSendOffers r"
  "rp_ids r \<le> rp_ids (sendOffers env opts now r)"
  by (simp_all add: sendOffers_def Let_def)

lemma send_offers_load: "load_of ((send_offer env opts ^^ n) r) \<le> load_of r + n"
proof (induction n)
  case (Suc n)
  have "load_of (send_offer env opts r) \<le> Suc (load_of r)" for r :: "'a runner"
    by (simp add: load_of_def send_offer_def Let_def length_update)
  then show ?case using Suc by (simp add: order.trans [OF _ le_SucI])  (meson Suc_le_mono order.trans)
qed simp

lemma deleteStaleOffers_load: "load_of (deleteStaleOffers now r) \<le> load_of r"
  by (simp add: load_of_def deleteStaleOffers_def)

definition within_capacity :: "runner_opts \<Rightarrow> 'p runner \<Rightarrow> bool" where
  "within_capacity opts r \<longleftrightarrow> int (load_of r) \<le> ro_maxConcurrency opts"

lemma capacity_le: "within_capacity opts r \<Longrightarrow> load_of r' \<le> load_of r \<Longrightarrow> within_capacity opts r'"
  by (simp add: within_capacity_def)

lemma sendOffers_capacity:
  assumes "within_capacity opts r"
  shows "within_capacity opts (sendOffers env opts now r)"
proof -
  let ?r = "deleteStaleOffers now r"
  have r: "int (load_of ?r) \<le> ro_maxConcurrency opts"
    using capacity_le [OF assms deleteStaleOffers_load] by (simp add: within_capacity_def)
  have "load_of ((send_offer env opts ^^ nat (ro_maxConcurrency opts - int (load_of ?r))) ?r)
      \<le> load_of ?r + nat (ro_maxConcurrency opts - int (load_of ?r))" by (rule send_offers_load)
  with r have "int (load_of ((send_offer env opts ^^ nat (ro_maxConcurrency opts - int (load_of ?r))) ?r)) \<le> ro_maxConcurrency opts"
    by linarith
  with r show ?thesis by (simp add: within_capacity_def sendOffers_def Let_def load_of_def [symmetric])
qed

lemma finishTask_capacity: "within_capacity opts r \<Longrightarrow> within_capacity opts (finishTask env opts now k r)"
proof -
  assume "within_capacity opts r"
  then have "within_capacity opts ((set_task k (\<lambda>t. t\<lparr>ts_timer := False\<rparr>) r)
      \<lparr>rp_runningTasks := AList.delete (ts_taskId (rp_tasks r ! k)) (rp_runningTasks (set_task k (\<lambda>t. t\<lparr>ts_timer := False\<rparr>) r))\<rparr>)"
    by (rule capacity_le) (simp add: load_of_def length_delete_bound)
  from sendOffers_capacity [OF this] show ?thesis by (simp add: finishTask_def Let_def within_capacity_def)
qed

lemma offerAccepted_capacity:
  assumes "within_capacity opts r"
  shows "within_capacity opts (offerAccepted opts offerId taskId r)"
proof -
  have "load_of (offerAccepted opts offerId taskId r) \<le> load_of r"
    using offer_deleted [of "rp_openOffers r" offerId] length_delete_bound [of offerId "rp_openOffers r"]
    by (auto simp: offerAccepted_def load_of_def Let_def length_update)
  with assms show ?thesis by (rule capacity_le)
qed

lemma load_frames [simp]:
  "load_of (unexpected r) = load_of r" "load_of (startTaskOffers r) = load_of r" "load_of (stopTaskOffers r) = load_of r"
  "load_of (processDataResponse i d r) = load_of r" "load_of (processNodeTypesResponse i d r) = load_of r"
  "load_of (handleRpcResponse i status d r) = load_of r" "load_of (receivedSettings i r) = load_of r"
  "load_of (requestData env i d r) = load_of r" "load_of (requestNodeTypes env i d r) = load_of r"
  "load_of (makeRpcCall env i name d r) = load_of r" "load_of (idle_timer_fires r) = load_of r"
  "load_of (clearIdleTimer r) = load_of r" "load_of (r\<lparr>rp_executing := ks\<rparr>) = load_of r"
  by (simp_all add: unexpected_def startTaskOffers_def stopTaskOffers_def processDataResponse_def processNodeTypesResponse_def
      handleRpcResponse_def receivedSettings_def requestData_def requestNodeTypes_def makeRpcCall_def idle_timer_fires_def
      clearIdleTimer_def load_of_def set_task_def send_def Let_def split: option.split TaskStatus.split)

lemma task_ends_capacity:
  assumes "within_capacity opts r"
  shows "within_capacity opts (taskCancelled env opts now i reason r)" "within_capacity opts (taskTimedOut env opts now i r)"
    "within_capacity opts (taskExecutionFailed env opts now k r)" "within_capacity opts (taskExecutionSucceeded env opts now k d r)"
    "within_capacity opts (execution_ended env opts now k outcome r)"
proof -
  have frame: "within_capacity opts r'" if "load_of r' = load_of r" "within_capacity opts r" for r r' :: "'a runner"
    using that by (simp add: within_capacity_def)
  show "within_capacity opts (taskCancelled env opts now i reason r)"
    using assms by (auto simp: taskCancelled_def split: option.split TaskStatus.split intro!: finishTask_capacity intro: frame)
  show "within_capacity opts (taskTimedOut env opts now i r)"
    using assms by (auto simp: taskTimedOut_def split: option.split TaskStatus.split intro!: finishTask_capacity intro: frame)
  have failed: "within_capacity opts (taskExecutionFailed env opts now k r)" if "within_capacity opts r" for r :: "'a runner"
    using that by (auto simp: taskExecutionFailed_def Let_def split: TaskStatus.split intro!: finishTask_capacity intro: frame)
  show "within_capacity opts (taskExecutionFailed env opts now k r)" using assms by (rule failed)
  have succeeded: "within_capacity opts (taskExecutionSucceeded env opts now k d r)" if "within_capacity opts r" for r :: "'a runner" and d
    using that by (auto simp: taskExecutionSucceeded_def Let_def split: TaskStatus.split intro!: finishTask_capacity failed intro: frame)
  show "within_capacity opts (taskExecutionSucceeded env opts now k d r)" using assms by (rule succeeded)
  have "within_capacity opts (r\<lparr>rp_executing := ks\<rparr>)" for ks using assms by (rule frame [rotated]) simp
  then show "within_capacity opts (execution_ended env opts now k outcome r)"
    by (auto simp: execution_ended_def Let_def split: outcome.split intro: failed succeeded)
qed

lemma step_capacity:
  assumes "runner_step env opts r r'" "within_capacity opts r"
  shows "within_capacity opts r'"
  using assms
proof (cases rule: runner_step.cases)
  case (Message now m)
  then show ?thesis using assms(2)
    by (cases m) (simp_all add: onMessage_def offerAccepted_capacity task_ends_capacity, simp_all add: within_capacity_def)
next
  case (Timer k now)
  have "within_capacity opts (set_task k (\<lambda>t. t\<lparr>ts_timer := False\<rparr>) r)" using assms(2) by (simp add: within_capacity_def)
  then show ?thesis unfolding Timer timer_fires_def by (rule task_ends_capacity)
qed (simp_all add: sendOffers_capacity task_ends_capacity, simp_all add: within_capacity_def info_request_def stop_runner_def)

lemma steps_capacity: "runner_steps env opts r r' \<Longrightarrow> within_capacity opts r \<Longrightarrow> within_capacity opts r'"
  by (induction rule: runner_steps.induct) (auto dest: step_capacity)

lemma new_runner_capacity: "0 \<le> ro_maxConcurrency opts \<Longrightarrow> within_capacity opts (new_runner opts)"
  by (simp add: within_capacity_def new_runner_def load_of_def)

text \<open>The ids of open offers were drawn before, so that a new offer does not replace one.\<close>

definition drawn_offers :: "'p runner_env \<Rightarrow> 'p runner \<Rightarrow> bool" where
  "drawn_offers env r \<longleftrightarrow> fst ` set (rp_openOffers r) \<subseteq> re_nanoid env ` {..<rp_ids r}"

lemma drawn_frame:
  assumes "drawn_offers env r" "fst ` set (rp_openOffers r') \<subseteq> fst ` set (rp_openOffers r)" "rp_ids r \<le> rp_ids r'"
  shows "drawn_offers env r'"
proof -
  have "re_nanoid env ` {..<rp_ids r} \<subseteq> re_nanoid env ` {..<rp_ids r'}" using assms(3) by (intro image_mono) simp
  with assms(1,2) show ?thesis unfolding drawn_offers_def by (meson order.trans)
qed

lemma send_offer_drawn: "drawn_offers env r \<Longrightarrow> drawn_offers env (send_offer env opts r)"
  by (auto simp: drawn_offers_def send_offer_def Let_def dom_update lessThan_Suc)

lemma send_offers_drawn:
  assumes "drawn_offers env r"
  shows "drawn_offers env ((send_offer env opts ^^ n) r)"
    "inj (re_nanoid env) \<Longrightarrow> load_of ((send_offer env opts ^^ n) r) = load_of r + n"
proof -
  have drawn: "drawn_offers env ((send_offer env opts ^^ n) r)" for n
    using assms by (induction n) (simp_all add: send_offer_drawn)
  then show "drawn_offers env ((send_offer env opts ^^ n) r)" .
  assume inj: "inj (re_nanoid env)"
  have one: "load_of (send_offer env opts r) = Suc (load_of r)" if "drawn_offers env r" for r
  proof -
    have "re_nanoid env (rp_ids r) \<notin> fst ` set (rp_openOffers r)"
      using that inj by (auto simp: drawn_offers_def inj_eq)
    then show ?thesis by (simp add: load_of_def send_offer_def Let_def length_update)
  qed
  show "load_of ((send_offer env opts ^^ n) r) = load_of r + n"
    by (induction n) (simp_all add: one [OF drawn])
qed

lemma deleteStaleOffers_drawn: "drawn_offers env r \<Longrightarrow> drawn_offers env (deleteStaleOffers now r)"
  by (erule drawn_frame) (auto simp: deleteStaleOffers_def)

lemma sendOffers_drawn: "drawn_offers env r \<Longrightarrow> drawn_offers env (sendOffers env opts now r)"
  by (simp add: sendOffers_def Let_def deleteStaleOffers_drawn send_offers_drawn(1))

lemma sendOffers_refill:
  assumes "drawn_offers env r" "inj (re_nanoid env)" "within_capacity opts r" "rp_canSendOffers r"
  shows "int (load_of (sendOffers env opts now r)) = ro_maxConcurrency opts"
proof -
  let ?r = "deleteStaleOffers now r"
  have "int (load_of ?r) \<le> ro_maxConcurrency opts"
    using capacity_le [OF assms(3) deleteStaleOffers_load] by (simp add: within_capacity_def)
  with send_offers_drawn(2) [OF deleteStaleOffers_drawn [OF assms(1), of now] assms(2), of _ opts] assms(4)
  show ?thesis by (simp add: sendOffers_def Let_def load_of_def [symmetric])
qed

lemma finishTask_drawn: "drawn_offers env r \<Longrightarrow> drawn_offers env (finishTask env opts now k r)"
proof -
  let ?r = "(set_task k (\<lambda>t. t\<lparr>ts_timer := False\<rparr>) r)
      \<lparr>rp_runningTasks := AList.delete (ts_taskId (rp_tasks r ! k)) (rp_runningTasks (set_task k (\<lambda>t. t\<lparr>ts_timer := False\<rparr>) r))\<rparr>"
  assume "drawn_offers env r"
  then have "drawn_offers env ?r" by (rule drawn_frame) simp_all
  from sendOffers_drawn [OF this, of opts now] show ?thesis by (simp add: finishTask_def Let_def drawn_offers_def)
qed

lemma drawn_frames [simp]:
  assumes "drawn_offers env r"
  shows "drawn_offers env (unexpected r)" "drawn_offers env (startTaskOffers r)" "drawn_offers env (stopTaskOffers r)"
    "drawn_offers env (processDataResponse i d r)" "drawn_offers env (processNodeTypesResponse i d r)"
    "drawn_offers env (handleRpcResponse i status d r)" "drawn_offers env (receivedSettings i r)"
    "drawn_offers env (requestData env i d r)" "drawn_offers env (requestNodeTypes env i d r)"
    "drawn_offers env (makeRpcCall env i name d r)" "drawn_offers env (idle_timer_fires r)" "drawn_offers env (clearIdleTimer r)"
    "drawn_offers env (r\<lparr>rp_executing := ks\<rparr>)" "drawn_offers env (send m r)" "drawn_offers env (set_task k f r)"
    "drawn_offers env (cancelTaskRequests i reason r)" "drawn_offers env (offerAccepted opts i j r)"
  by (rule drawn_frame [OF assms]; auto simp: unexpected_def startTaskOffers_def stopTaskOffers_def processDataResponse_def
      processNodeTypesResponse_def handleRpcResponse_def receivedSettings_def requestData_def requestNodeTypes_def makeRpcCall_def
      idle_timer_fires_def clearIdleTimer_def offerAccepted_def Let_def AList.delete_eq split: option.split TaskStatus.split)+

lemma step_drawn:
  assumes "runner_step env opts r r'" "drawn_offers env r"
  shows "drawn_offers env r'"
proof -
  have failed: "drawn_offers env (taskExecutionFailed env opts now k r)" if "drawn_offers env r" for r k now
    using that by (auto simp: taskExecutionFailed_def Let_def split: TaskStatus.split intro!: finishTask_drawn)
  have succeeded: "drawn_offers env (taskExecutionSucceeded env opts now k d r)" if "drawn_offers env r" for r k now d
    using that by (auto simp: taskExecutionSucceeded_def Let_def split: TaskStatus.split intro!: finishTask_drawn failed)
  have ends: "drawn_offers env (taskCancelled env opts now i reason r)" "drawn_offers env (taskTimedOut env opts now i r)"
    if "drawn_offers env r" for r i now reason
    using that by (auto simp: taskCancelled_def taskTimedOut_def split: option.split TaskStatus.split intro!: finishTask_drawn)
  from assms show ?thesis
  proof (cases rule: runner_step.cases)
    case (Message now m)
    with assms(2) show ?thesis by (cases m) (simp_all add: onMessage_def ends)
  next
    case (Execution_ended k now outcome)
    with assms(2) show ?thesis by (auto simp: execution_ended_def Let_def split: outcome.split intro!: failed succeeded)
  qed (use assms(2) in \<open>simp_all add: sendOffers_drawn timer_fires_def ends info_request_def stop_runner_def\<close>)
qed

lemma steps_drawn: "runner_steps env opts r r' \<Longrightarrow> drawn_offers env r \<Longrightarrow> drawn_offers env r'"
  by (induction rule: runner_steps.induct) (auto dest: step_drawn)

lemma new_runner_drawn: "drawn_offers env (new_runner opts)"
  by (simp add: new_runner_def drawn_offers_def)

text \<open>
  C21: A runner never promises more than it can do: its open offers and running tasks together are at most its
  concurrency; and while it may offer at all, sending offers fills every place that is free.
\<close>

theorem runner_keeps_capacity:
  assumes "0 \<le> ro_maxConcurrency opts" "runner_steps env opts (new_runner opts) r"
  shows "int (length (rp_openOffers r) + length (rp_runningTasks r)) \<le> ro_maxConcurrency opts
    \<and> (inj (re_nanoid env) \<longrightarrow> rp_canSendOffers r \<longrightarrow>
        int (length (rp_openOffers (sendOffers env opts now r)) + length (rp_runningTasks (sendOffers env opts now r)))
          = ro_maxConcurrency opts)"
proof -
  note capacity = steps_capacity [OF assms(2) new_runner_capacity [OF assms(1)]]
  then show ?thesis using sendOffers_refill [OF steps_drawn [OF assms(2) new_runner_drawn] _ capacity] by (simp add: within_capacity_def load_of_def)
qed

text \<open>
  An offer is a commitment: as long as it is open, an acceptance by the broker is answered by
  accepting the task, which then waits for its settings; the answer that there is no free place is only given to
  offers that are no longer open.
\<close>

theorem open_offers_are_honoured:
  assumes "0 \<le> ro_maxConcurrency opts" "runner_steps env opts (new_runner opts) r" "map_of (rp_openOffers r) offerId \<noteq> None"
  shows "rp_sent (offerAccepted opts offerId taskId r) = rp_sent r @ [MTaskAccepted taskId]
    \<and> map_of (rp_openOffers (offerAccepted opts offerId taskId r)) offerId = None
    \<and> (\<exists>k. map_of (rp_runningTasks (offerAccepted opts offerId taskId r)) taskId = Some k
        \<and> rp_tasks (offerAccepted opts offerId taskId r) ! k = new_task taskId)"
proof -
  have "rp_openOffers r \<noteq> []" using assms(3) by auto
  with steps_capacity [OF assms(2) new_runner_capacity [OF assms(1)]] have "hasOpenTaskSlots opts r"
    by (cases "rp_openOffers r") (auto simp: within_capacity_def load_of_def hasOpenTaskSlots_def)
  with assms(3) show ?thesis by (auto simp: offerAccepted_def Let_def update_conv' delete_conv')
qed

section \<open>The life of a task\<close>

fun is_final :: "string \<Rightarrow> 'p runner_message \<Rightarrow> bool" where
  "is_final taskId (MTaskDone i d) = (i = taskId)"
| "is_final taskId (MTaskError i) = (i = taskId)"
| "is_final taskId m = False"

text \<open>How many results and errors were sent for a task.\<close>

definition finals :: "string \<Rightarrow> 'p runner \<Rightarrow> nat" where
  "finals taskId r = length (filter (is_final taskId) (rp_sent r))"

definition task_ids :: "'p runner \<Rightarrow> string list" where
  "task_ids r = map ts_taskId (rp_tasks r)"

definition status_of :: "'p runner \<Rightarrow> nat \<Rightarrow> TaskStatus" where
  "status_of r k = ts_status (rp_tasks r ! k)"

definition is_running :: "'p runner \<Rightarrow> nat \<Rightarrow> bool" where
  "is_running r k \<longleftrightarrow> map_of (rp_runningTasks r) (ts_taskId (rp_tasks r ! k)) = Some k"

text \<open>What was sent for a task that ended in a status.\<close>

fun ended_with :: "TaskStatus \<Rightarrow> nat \<Rightarrow> bool" where
  "ended_with WaitingForSettings n = (n \<le> 1)"
| "ended_with AbortingCancelled n = (n = 0)"
| "ended_with _ n = (n = 1)"

definition task_ok :: "'p runner \<Rightarrow> nat \<Rightarrow> bool" where
  "task_ok r k \<longleftrightarrow>
     (if is_running r k
      then finals (ts_taskId (rp_tasks r ! k)) r = 0 \<and> (k \<in> set (rp_executing r) \<longleftrightarrow> status_of r k \<noteq> WaitingForSettings)
        \<and> \<not> (ts_timer (rp_tasks r ! k) \<and> status_of r k = AbortingTimeout)
      else ended_with (status_of r k) (finals (ts_taskId (rp_tasks r ! k)) r) \<and> k \<notin> set (rp_executing r) \<and> \<not> ts_timer (rp_tasks r ! k))"

definition wf_runner :: "'p runner \<Rightarrow> bool" where
  "wf_runner r \<longleftrightarrow> distinct (task_ids r)
     \<and> (\<forall>i k. map_of (rp_runningTasks r) i = Some k \<longrightarrow> k < length (rp_tasks r) \<and> ts_taskId (rp_tasks r ! k) = i)
     \<and> (\<forall>k \<in> set (rp_executing r). k < length (rp_tasks r))
     \<and> (\<forall>i. i \<notin> set (task_ids r) \<longrightarrow> finals i r = 0)
     \<and> (\<forall>k < length (rp_tasks r). task_ok r k)"

lemma wf_runnerD:
  assumes "wf_runner r"
  shows "distinct (task_ids r)" "map_of (rp_runningTasks r) i = Some k \<Longrightarrow> k < length (rp_tasks r) \<and> ts_taskId (rp_tasks r ! k) = i"
    "k \<in> set (rp_executing r) \<Longrightarrow> k < length (rp_tasks r)" "i \<notin> set (task_ids r) \<Longrightarrow> finals i r = 0"
    "k < length (rp_tasks r) \<Longrightarrow> task_ok r k"
  using assms unfolding wf_runner_def by blast+

text \<open>Steps that neither change tasks nor send results.\<close>

lemma wf_frame:
  assumes "wf_runner r" "rp_tasks r' = rp_tasks r" "rp_runningTasks r' = rp_runningTasks r" "rp_executing r' = rp_executing r"
    "\<And>i. finals i r' = finals i r"
  shows "wf_runner r'"
  using assms(1) unfolding wf_runner_def task_ok_def is_running_def status_of_def task_ids_def assms(2-5) .

lemma finals_send [simp]: "finals i (send m r) = finals i r + (if is_final i m then 1 else 0)"
  by (simp add: finals_def)

lemma finals_send_offers [simp]: "finals i ((send_offer env opts ^^ n) r) = finals i r"
proof (induction n)
  case (Suc n)
  have "finals i (send_offer env opts r) = finals i r" for r :: "'a runner"
    by (simp add: send_offer_def Let_def) (simp add: finals_def)
  with Suc show ?case by simp
qed simp

lemma finals_frames [simp]:
  "finals i (sendOffers env opts now r) = finals i r" "finals i (resetIdleTimer opts r) = finals i r"
  "finals i (set_task k f r) = finals i r" "finals i (cancelTaskRequests j reason r) = finals i r"
  "finals i (r\<lparr>rp_executing := ks\<rparr>) = finals i r" "finals i (r\<lparr>rp_runningTasks := xs\<rparr>) = finals i r"
  "finals i (r\<lparr>rp_openOffers := os\<rparr>) = finals i r" "finals i (r\<lparr>rp_tasks := ts\<rparr>) = finals i r"
  by (simp_all add: sendOffers_def Let_def) (simp_all add: finals_def deleteStaleOffers_def)

text \<open>The index of a task is determined by its id.\<close>

lemma task_index:
  "wf_runner r \<Longrightarrow> k < length (rp_tasks r) \<Longrightarrow> j < length (rp_tasks r) \<Longrightarrow>
    ts_taskId (rp_tasks r ! k) = ts_taskId (rp_tasks r ! j) \<longleftrightarrow> k = j"
  using nth_eq_iff_index_eq [of "task_ids r" k j] by (simp add: wf_runner_def task_ids_def)

text \<open>One task changes, the others stay as they are.\<close>

lemma wf_one_task:
  assumes wf: "wf_runner r" and k: "k < length (rp_tasks r)" and t: "ts_taskId t = ts_taskId (rp_tasks r ! k)"
    and tasks: "rp_tasks r' = (rp_tasks r)[k := t]"
    and running: "\<And>i. map_of (rp_runningTasks r') i = (if i = ts_taskId t then run else map_of (rp_runningTasks r) i)"
    and run: "run = None \<or> run = Some k"
    and executing: "\<And>j. j \<noteq> k \<Longrightarrow> j \<in> set (rp_executing r') \<longleftrightarrow> j \<in> set (rp_executing r)"
    and finals: "\<And>i. i \<noteq> ts_taskId t \<Longrightarrow> finals i r' = finals i r"
    and ok: "task_ok r' k"
  shows "wf_runner r'"
  unfolding wf_runner_def
proof (intro conjI allI impI ballI)
  have ids: "task_ids r' = task_ids r"
    using k t by (auto simp: task_ids_def tasks map_update list_update_same_conv)
  show "distinct (task_ids r')" using wf by (simp add: ids wf_runner_def)
  have own: "ts_taskId t \<in> set (task_ids r)" using k by (simp add: t task_ids_def)
  show "finals i r' = 0" if "i \<notin> set (task_ids r')" for i
  proof -
    have "i \<notin> set (task_ids r)" using that by (simp only: ids not_False_eq_True)
    with own have "i \<noteq> ts_taskId t" by blast
    then show ?thesis using wf_runnerD(4) [OF wf \<open>i \<notin> set (task_ids r)\<close>] by (simp add: finals)
  qed
  fix i j assume "map_of (rp_runningTasks r') i = Some j"
  then show "j < length (rp_tasks r')" "ts_taskId (rp_tasks r' ! j) = i"
    using run k t wf_runnerD(2) [OF wf, of i j] by (auto simp: running tasks nth_list_update split: if_splits)
next
  fix j assume "j \<in> set (rp_executing r')"
  then show "j < length (rp_tasks r')" using executing [of j] k wf_runnerD(3) [OF wf, of j] by (cases "j = k") (auto simp: tasks)
next
  fix j assume j: "j < length (rp_tasks r')"
  show "task_ok r' j"
  proof (cases "j = k")
    case False
    with j have "task_ok r j" "ts_taskId (rp_tasks r ! j) \<noteq> ts_taskId t"
      using wf_runnerD(5) [OF wf, of j] task_index [OF wf _ k, of j] by (auto simp: tasks t)
    with False show ?thesis
      unfolding task_ok_def is_running_def status_of_def by (simp add: tasks running executing finals split: if_splits)
  qed (use ok in simp)
qed

lemma wf_finished:
  assumes wf: "wf_runner r" and k: "k < length (rp_tasks r)"
    and tasks: "rp_tasks r' = (rp_tasks r)[k := (rp_tasks r ! k)\<lparr>ts_timer := False\<rparr>]"
    and running: "\<And>i. map_of (rp_runningTasks r') i = (if i = ts_taskId (rp_tasks r ! k) then None else map_of (rp_runningTasks r) i)"
    and executing: "set (rp_executing r') = set (rp_executing r) - {k}"
    and finals: "\<And>i. i \<noteq> ts_taskId (rp_tasks r ! k) \<Longrightarrow> finals i r' = finals i r"
    and ended: "ended_with (status_of r k) (finals (ts_taskId (rp_tasks r ! k)) r')"
  shows "wf_runner r'"
proof (rule wf_one_task [where r = r and k = k and t = "(rp_tasks r ! k)\<lparr>ts_timer := False\<rparr>" and run = None])
  show "task_ok r' k"
    using ended k by (simp add: task_ok_def is_running_def status_of_def tasks running executing)
qed (use assms in auto)

lemma finishTask_simps [simp]:
  "rp_tasks (finishTask env opts now k r) = (rp_tasks r)[k := (rp_tasks r ! k)\<lparr>ts_timer := False\<rparr>]"
  "map_of (rp_runningTasks (finishTask env opts now k r)) i =
    (if i = ts_taskId (rp_tasks r ! k) then None else map_of (rp_runningTasks r) i)"
  "rp_executing (finishTask env opts now k r) = rp_executing r"
  "finals i (finishTask env opts now k r) = finals i r"
  by (auto simp: finishTask_def Let_def delete_conv')

text \<open>A task that is running in some map entry is the one with that id.\<close>

lemma running_task:
  assumes "wf_runner r" "map_of (rp_runningTasks r) i = Some k"
  shows "k < length (rp_tasks r)" "ts_taskId (rp_tasks r ! k) = i" "is_running r k"
  using wf_runnerD(2) [OF assms] assms(2) by (simp_all add: is_running_def)

lemma running_ok:
  assumes "wf_runner r" "k < length (rp_tasks r)" "is_running r k"
  shows "finals (ts_taskId (rp_tasks r ! k)) r = 0" "k \<in> set (rp_executing r) \<longleftrightarrow> status_of r k \<noteq> WaitingForSettings"
  using wf_runnerD(5) [OF assms(1,2)] assms(3) by (simp_all add: task_ok_def)

text \<open>A task that is executing runs, and has its settings.\<close>

lemma executing_ok:
  assumes "wf_runner r" "k \<in> set (rp_executing r)"
  shows "k < length (rp_tasks r)" "is_running r k" "status_of r k \<noteq> WaitingForSettings"
proof -
  show k: "k < length (rp_tasks r)" by (rule wf_runnerD(3) [OF assms])
  from wf_runnerD(5) [OF assms(1) k] assms(2) show "is_running r k" "status_of r k \<noteq> WaitingForSettings"
    by (auto simp: task_ok_def split: if_splits)
qed

text \<open>A change of the status of a running task.\<close>

lemma wf_status:
  assumes wf: "wf_runner r" and i: "map_of (rp_runningTasks r) i = Some k"
    and tasks: "rp_tasks r' = (rp_tasks r)[k := t]" and t: "ts_taskId t = i" "\<not> (ts_timer t \<and> ts_status t = AbortingTimeout)"
    and same: "rp_runningTasks r' = rp_runningTasks r" "\<And>i. finals i r' = finals i r"
    and executing: "set (rp_executing r') = (if ts_status t = WaitingForSettings then set (rp_executing r) else insert k (set (rp_executing r)))"
    and status: "ts_status t = WaitingForSettings \<Longrightarrow> status_of r k = WaitingForSettings"
  shows "wf_runner r'"
proof (rule wf_one_task [where r = r and k = k and t = t and run = "Some k"])
  note k = running_task [OF wf i]
  note ok = running_ok [OF wf k(1,3)]
  show "k < length (rp_tasks r)" "ts_taskId t = ts_taskId (rp_tasks r ! k)" using k t by simp_all
  show "map_of (rp_runningTasks r') j = (if j = ts_taskId t then Some k else map_of (rp_runningTasks r) j)" for j
    using i t(1) by (simp add: same)
  show "task_ok r' k"
    using i k ok t status by (auto simp: task_ok_def is_running_def status_of_def tasks same executing)
qed (use wf tasks same executing in auto)

lemma wf_taskCancelled:
  assumes wf: "wf_runner r"
  shows "wf_runner (taskCancelled env opts now taskId reason r)"
proof (cases "map_of (rp_runningTasks r) taskId")
  case None
  with wf show ?thesis by (simp add: taskCancelled_def)
next
  case (Some k)
  note k = running_task [OF wf Some]
  note ok = running_ok [OF wf k(1,3)]
  show ?thesis
  proof (cases "ts_status (rp_tasks r ! k)")
    case WaitingForSettings
    then have "wf_runner (finishTask env opts now k r)"
      by (intro wf_finished [OF wf k(1)]) (use ok in \<open>auto simp: status_of_def\<close>)
    with Some WaitingForSettings show ?thesis by (simp add: taskCancelled_def)
  next
    case Running
    have "wf_runner (cancelTaskRequests taskId reason (set_task k (abort_task AbortingCancelled ''cancelled'') r))"
      by (rule wf_status [OF wf Some, where t = "abort_task AbortingCancelled ''cancelled'' (rp_tasks r ! k)"]) (use k ok Running in \<open>auto simp: abort_task_def status_of_def\<close>)
    with Some Running show ?thesis by (simp add: taskCancelled_def)
  qed (use wf Some in \<open>simp_all add: taskCancelled_def\<close>)
qed

lemma wf_unexpected: "wf_runner r \<Longrightarrow> wf_runner (unexpected r)"
  by (erule wf_frame) (simp_all add: unexpected_def finals_def)

lemma wf_receivedSettings:
  assumes wf: "wf_runner r"
  shows "wf_runner (receivedSettings taskId r)"
proof (cases "map_of (rp_runningTasks r) taskId")
  case None
  with wf show ?thesis by (simp add: receivedSettings_def)
next
  case (Some k)
  note k = running_task [OF wf Some]
  show ?thesis
  proof (cases "ts_status (rp_tasks r ! k)")
    case WaitingForSettings
    have "wf_runner ((set_task k (\<lambda>t. t\<lparr>ts_status := Running\<rparr>) r)\<lparr>rp_executing := rp_executing r @ [k]\<rparr>)"
      by (rule wf_status [OF wf Some, where t = "(rp_tasks r ! k)\<lparr>ts_status := Running\<rparr>"]) (use k in auto)
    with Some WaitingForSettings show ?thesis by (simp add: receivedSettings_def)
  qed (use Some in \<open>simp_all add: receivedSettings_def wf_unexpected [OF wf]\<close>)
qed

text \<open>The timer of a task that no longer runs is not set, so it reaches only tasks that do.\<close>

lemma wf_timer_fires:
  assumes wf: "wf_runner r" and k: "k < length (rp_tasks r)" "ts_timer (rp_tasks r ! k)"
  shows "wf_runner (timer_fires env opts now k r)" "rp_failures (timer_fires env opts now k r) = rp_failures r"
proof -
  let ?i = "ts_taskId (rp_tasks r ! k)" and ?r = "set_task k (\<lambda>t. t\<lparr>ts_timer := False\<rparr>) r"
  from wf_runnerD(5) [OF wf k(1)] k(2) have running: "is_running r k" and status: "status_of r k \<noteq> AbortingTimeout"
    by (auto simp: task_ok_def split: if_splits)
  note ok = running_ok [OF wf k(1) running]
  have i: "map_of (rp_runningTasks r) ?i = Some k" using running by (simp add: is_running_def)
  show "wf_runner (timer_fires env opts now k r)"
  proof (cases "ts_status (rp_tasks r ! k)")
    case WaitingForSettings
    have "wf_runner (finishTask env opts now k (send (MTaskError ?i) ?r))"
      by (rule wf_finished [OF wf k(1)]) (use ok k WaitingForSettings in \<open>auto simp: status_of_def\<close>)
    with i k WaitingForSettings show ?thesis by (simp add: timer_fires_def taskTimedOut_def)
  next
    case Running
    have "wf_runner (cancelTaskRequests ?i ''timeout'' (set_task k (abort_task AbortingTimeout ''timeout'') ?r))"
      by (rule wf_status [OF wf i, where t = "abort_task AbortingTimeout ''timeout'' ((rp_tasks r ! k)\<lparr>ts_timer := False\<rparr>)"])
        (use k ok Running in \<open>auto simp: abort_task_def status_of_def\<close>)
    with i k Running show ?thesis by (simp add: timer_fires_def taskTimedOut_def)
  next
    case AbortingCancelled
    have "wf_runner ?r"
      by (rule wf_status [OF wf i, where t = "(rp_tasks r ! k)\<lparr>ts_timer := False\<rparr>"]) (use k ok AbortingCancelled in \<open>auto simp: status_of_def\<close>)
    with i k AbortingCancelled show ?thesis by (simp add: timer_fires_def taskTimedOut_def)
  next
    case AbortingTimeout
    with status show ?thesis by (simp add: status_of_def)
  qed
  have failures: "rp_failures (finishTask env opts now k r) = rp_failures r" for r :: "'a runner"
  proof -
    have "rp_failures ((send_offer env opts ^^ n) r) = rp_failures r" for n and r :: "'a runner"
      by (induction n) (simp_all add: send_offer_def Let_def)
    then show ?thesis by (simp add: finishTask_def sendOffers_def deleteStaleOffers_def set_task_def Let_def)
  qed
  show "rp_failures (timer_fires env opts now k r) = rp_failures r"
    using i k status by (auto simp: timer_fires_def taskTimedOut_def failures status_of_def cancelTaskRequests_def set_task_def Let_def
        split: TaskStatus.split)
qed

lemma wf_execution_ended:
  assumes wf: "wf_runner r" and k: "k \<in> set (rp_executing r)"
  shows "wf_runner (execution_ended env opts now k outcome r)"
proof -
  note ex = executing_ok [OF wf k]
  note ok = running_ok [OF wf ex(1,2)]
  let ?r = "r\<lparr>rp_executing := filter (\<lambda>i. i \<noteq> k) (rp_executing r)\<rparr>"
  have failed: "wf_runner (taskExecutionFailed env opts now k ?r)"
    by (rule wf_finished [OF wf ex(1)]) (use ex ok in \<open>auto simp: taskExecutionFailed_def status_of_def Let_def split: TaskStatus.split\<close>)
  have "wf_runner (taskExecutionSucceeded env opts now k d ?r)" for d
    by (rule wf_finished [OF wf ex(1)])
      (use ex ok in \<open>auto simp: taskExecutionSucceeded_def taskExecutionFailed_def status_of_def Let_def split: TaskStatus.split\<close>)
  with failed show ?thesis by (simp add: execution_ended_def Let_def split: outcome.split)
qed

lemma wf_offerAccepted:
  assumes wf: "wf_runner r" and ids: "distinct (task_ids (offerAccepted opts offerId taskId r))"
  shows "wf_runner (offerAccepted opts offerId taskId r)"
proof (cases "hasOpenTaskSlots opts r \<and> map_of (rp_openOffers r) offerId \<noteq> None")
  case False
  then show ?thesis
    by (intro wf_frame [OF wf]) (auto simp: offerAccepted_def)
next
  case True
  let ?r = "offerAccepted opts offerId taskId r"
  have r: "rp_tasks ?r = rp_tasks r @ [new_task taskId]" "rp_executing ?r = rp_executing r"
    "rp_runningTasks ?r = AList.update taskId (length (rp_tasks r)) (rp_runningTasks r)" "finals i ?r = finals i r" for i
    using True by (auto simp: offerAccepted_def Let_def)
  have fresh: "taskId \<notin> set (task_ids r)" using ids by (simp add: task_ids_def r new_task_def)
  have other: "ts_taskId (rp_tasks r ! j) \<noteq> taskId" if "j < length (rp_tasks r)" for j
    using fresh that by (auto simp: task_ids_def)
  show ?thesis
    unfolding wf_runner_def
  proof (intro conjI allI impI ballI)
    show "distinct (task_ids ?r)" by (rule ids)
    show "finals i ?r = 0" if "i \<notin> set (task_ids ?r)" for i
      using wf_runnerD(4) [OF wf, of i] that by (simp add: r(4)) (simp add: task_ids_def r)
    show "j < length (rp_tasks ?r)" if "j \<in> set (rp_executing ?r)" for j
      using wf_runnerD(3) [OF wf, of j] that by (simp add: r)
    show "j < length (rp_tasks ?r)" "ts_taskId (rp_tasks ?r ! j) = i" if "map_of (rp_runningTasks ?r) i = Some j" for i j
      using wf_runnerD(2) [OF wf, of i j] that by (auto simp: r update_conv' nth_append new_task_def split: if_splits)
    show "task_ok ?r j" if j: "j < length (rp_tasks ?r)" for j
    proof (cases "j = length (rp_tasks r)")
      case True
      have "j \<notin> set (rp_executing r)" using wf_runnerD(3) [OF wf, of j] True by auto
      then show ?thesis
        using wf_runnerD(4) [OF wf fresh] by (simp add: task_ok_def is_running_def status_of_def r True update_conv' new_task_def)
    next
      case False
      with j have "j < length (rp_tasks r)" by (simp add: r)
      with wf_runnerD(5) [OF wf this] other [OF this] show ?thesis
        unfolding task_ok_def is_running_def status_of_def by (simp add: r update_conv' nth_append split: if_splits)
    qed
  qed
qed

text \<open>Tasks are never forgotten, so ids that differ at the end differed before.\<close>

lemma ids_kept:
  "task_ids (finishTask env opts now k r) = task_ids r" "task_ids (unexpected r) = task_ids r" "task_ids (send m r) = task_ids r"
  "task_ids (r\<lparr>rp_executing := ks\<rparr>) = task_ids r" "(\<And>t. ts_taskId (f t) = ts_taskId t) \<Longrightarrow> task_ids (set_task k f r) = task_ids r"
  "task_ids (cancelTaskRequests i reason r) = task_ids r"
proof -
  have same: "map ts_taskId (ts[k := t]) = map ts_taskId ts" if "k < length ts \<Longrightarrow> ts_taskId t = ts_taskId (ts ! k)" for ts t
    using that by (cases "k < length ts") (simp_all add: map_update list_update_same_conv list_update_beyond)
  then show "task_ids (finishTask env opts now k r) = task_ids r"
    "(\<And>t. ts_taskId (f t) = ts_taskId t) \<Longrightarrow> task_ids (set_task k f r) = task_ids r" by (simp_all add: task_ids_def same)
qed (simp_all add: task_ids_def unexpected_def)

lemma ids_kept_frames:
  "task_ids (startTaskOffers r) = task_ids r" "task_ids (stopTaskOffers r) = task_ids r" "task_ids (sendOffers env opts now r) = task_ids r"
  "task_ids (processDataResponse i d r) = task_ids r" "task_ids (processNodeTypesResponse i d r) = task_ids r"
  "task_ids (handleRpcResponse i status d r) = task_ids r" "task_ids (idle_timer_fires r) = task_ids r"
  "task_ids (clearIdleTimer r) = task_ids r" "task_ids (requestData env i d r) = task_ids r"
  "task_ids (requestNodeTypes env i d r) = task_ids r" "task_ids (makeRpcCall env i name d r) = task_ids r"
  by (simp_all add: task_ids_def startTaskOffers_def stopTaskOffers_def processDataResponse_def processNodeTypesResponse_def
      handleRpcResponse_def idle_timer_fires_def clearIdleTimer_def requestData_def requestNodeTypes_def makeRpcCall_def Let_def)

lemma ids_kept_ends:
  "task_ids (taskCancelled env opts now i reason r) = task_ids r" "task_ids (taskTimedOut env opts now i r) = task_ids r"
  "task_ids (receivedSettings i r) = task_ids r" "task_ids (taskExecutionFailed env opts now k r) = task_ids r"
  "task_ids (taskExecutionSucceeded env opts now k d r) = task_ids r" "task_ids (execution_ended env opts now k outcome r) = task_ids r"
proof -
  show "task_ids (taskCancelled env opts now i reason r) = task_ids r" "task_ids (taskTimedOut env opts now i r) = task_ids r"
    "task_ids (receivedSettings i r) = task_ids r"
    by (simp_all add: taskCancelled_def taskTimedOut_def receivedSettings_def ids_kept abort_task_def split: option.split TaskStatus.split)
  have failed: "task_ids (taskExecutionFailed env opts now k r) = task_ids r" for r :: "'a runner"
    by (simp add: taskExecutionFailed_def Let_def ids_kept split: TaskStatus.split)
  then show "task_ids (taskExecutionFailed env opts now k r) = task_ids r" .
  have succeeded: "task_ids (taskExecutionSucceeded env opts now k d r) = task_ids r" for r :: "'a runner" and d
    by (simp add: taskExecutionSucceeded_def Let_def ids_kept failed split: TaskStatus.split)
  then show "task_ids (taskExecutionSucceeded env opts now k d r) = task_ids r" .
  show "task_ids (execution_ended env opts now k outcome r) = task_ids r"
    by (simp add: execution_ended_def Let_def failed succeeded ids_kept split: outcome.split)
qed

lemmas ids_simps = ids_kept ids_kept_frames ids_kept_ends

lemma ids_grow:
  assumes "runner_step env opts r r'"
  shows "\<exists>new. task_ids r' = task_ids r @ new"
  using assms
proof (cases rule: runner_step.cases)
  case (Message now m)
  show ?thesis
  proof (cases m)
    case (TaskOfferAccept offerId taskId)
    then show ?thesis by (auto simp: Message onMessage_def offerAccepted_def task_ids_def Let_def)
  qed (simp_all add: Message onMessage_def ids_simps)
qed (simp_all add: ids_simps timer_fires_def info_request_def stop_runner_def)

lemma wf_step_runner:
  assumes step: "runner_step env opts r r'" and wf: "wf_runner r" and ids: "distinct (task_ids r')"
  shows "wf_runner r'"
  using step
proof (cases rule: runner_step.cases)
  case (Message now m)
  note frame = wf_frame [OF wf]
  show ?thesis
    using wf ids by (cases m) (auto simp: Message onMessage_def wf_offerAccepted wf_taskCancelled wf_receivedSettings
        startTaskOffers_def processDataResponse_def processNodeTypesResponse_def handleRpcResponse_def finals_def intro!: frame)
next
  case (Interval now)
  show ?thesis unfolding Interval by (rule wf_frame [OF wf]) simp_all
qed (use wf in \<open>simp_all add: wf_timer_fires wf_execution_ended\<close>, (rule wf_frame [OF wf]; simp add: info_request_def stop_runner_def
    requestData_def requestNodeTypes_def makeRpcCall_def idle_timer_fires_def stopTaskOffers_def clearIdleTimer_def finals_def Let_def)+)

lemma wf_steps_runner:
  assumes "runner_steps env opts r0 r" "wf_runner r0" "distinct (task_ids r)"
  shows "wf_runner r"
  using assms
proof (induction rule: runner_steps.induct)
  case (Further r r1 r2)
  from ids_grow [OF Further.hyps(2)] Further.prems have "distinct (task_ids r1)" by auto
  with Further show ?case by (auto intro: wf_step_runner)
qed

lemma wf_new_runner: "wf_runner (new_runner opts)"
  by (simp add: wf_runner_def new_runner_def task_ids_def) (simp add: finals_def resetIdleTimer_def)


text \<open>The branch the code calls impossible is: a timer only fires for a task that it has not fired for.\<close>

lemma timeout_is_expected:
  assumes "runner_steps env opts (new_runner opts) r" "distinct (task_ids r)" "k < length (rp_tasks r)" "ts_timer (rp_tasks r ! k)"
  shows "rp_failures (timer_fires env opts now k r) = rp_failures r"
  using wf_timer_fires(2) [OF wf_steps_runner [OF assms(1) wf_new_runner assms(2)] assms(3,4)] .

section \<open>A run\<close>

text \<open>A runner with two places accepts two tasks; the data of the first cannot be sent.\<close>

definition example_runner_env :: "nat runner_env" where
  "example_runner_env = \<lparr>re_nanoid = letters, re_random = (\<lambda>_. 0), re_clock = (\<lambda>_. 0), re_sendable = (\<lambda>d. d \<noteq> 0)\<rparr>"

definition example_runner_opts :: runner_opts where
  "example_runner_opts = \<lparr>ro_taskType = ''js'', ro_maxConcurrency = 2, ro_idleTimeout = 0\<rparr>"

definition offering_runner :: "nat runner" where
  "offering_runner = sendOffers example_runner_env example_runner_opts 0 (startTaskOffers (new_runner example_runner_opts))"

abbreviation example_message :: "nat to_runner \<Rightarrow> nat runner \<Rightarrow> nat runner" where
  "example_message \<equiv> onMessage example_runner_env example_runner_opts 0"

definition working_runner :: "nat runner" where
  "working_runner = example_message (TaskSettings ''a'' 1) (example_message (TaskOfferAccept ''t'' ''b'')
     (example_message (TaskOfferAccept '''' ''a'') offering_runner))"

definition answered_runner :: "nat runner" where
  "answered_runner = execution_ended example_runner_env example_runner_opts 0 0 (Succeeded 0)
     (example_message (TaskCancel ''b'' ''gone'') working_runner)"

lemma offering_reached: "runner_steps example_runner_env example_runner_opts (new_runner example_runner_opts) offering_runner"
proof -
  have "runner_steps example_runner_env example_runner_opts (new_runner example_runner_opts)
      (example_message RunnerRegistered (new_runner example_runner_opts))"
    by (rule runner_steps.Further [OF runner_steps.Here runner_step.Message])
  moreover have "rp_offerInterval (example_message RunnerRegistered (new_runner example_runner_opts))" by code_simp
  ultimately have "runner_steps example_runner_env example_runner_opts (new_runner example_runner_opts)
      (sendOffers example_runner_env example_runner_opts 0 (example_message RunnerRegistered (new_runner example_runner_opts)))"
    by (intro runner_steps.Further [OF _ runner_step.Interval])
  then show ?thesis by (simp add: offering_runner_def onMessage_def)
qed

lemma answered_reached: "runner_steps example_runner_env example_runner_opts (new_runner example_runner_opts) answered_runner"
proof -
  have "runner_steps example_runner_env example_runner_opts (new_runner example_runner_opts)
      (example_message (TaskCancel ''b'' ''gone'') working_runner)"
    unfolding working_runner_def by (rule runner_steps.Further [OF _ runner_step.Message] offering_reached)+
  moreover have "0 \<in> set (rp_executing (example_message (TaskCancel ''b'' ''gone'') working_runner))" by code_simp
  ultimately show ?thesis unfolding answered_runner_def by (intro runner_steps.Further [OF _ runner_step.Execution_ended])
qed

lemma runner_keeps_capacity_witness:
  "int (length (rp_openOffers (sendOffers example_runner_env example_runner_opts 0 answered_runner))
    + length (rp_runningTasks (sendOffers example_runner_env example_runner_opts 0 answered_runner))) = 2"
proof -
  have "rp_canSendOffers answered_runner" by code_simp
  with runner_keeps_capacity [OF _ answered_reached, of 0] show ?thesis
    by (simp add: example_runner_opts_def example_runner_env_def letters_inj)
qed

lemma open_offers_are_honoured_witness:
  "rp_sent (offerAccepted example_runner_opts ''t'' ''b'' offering_runner) = rp_sent offering_runner @ [MTaskAccepted ''b'']"
proof -
  have "map_of (rp_openOffers offering_runner) ''t'' \<noteq> None" by code_simp
  with open_offers_are_honoured [OF _ offering_reached, of "''t''" "''b''"] show ?thesis by (simp add: example_runner_opts_def)
qed


end
