(* ===== verification/WaitTracker.thy ===== *)
theory WaitTracker
  imports Prelude
begin

text \<open>
  The tracker of waiting executions (\<open>packages/cli/src/wait-tracker.ts\<close>): the leader polls the database for executions
  that wait until a time soon to come, sets a timer for each, and resumes it when the timer fires. What
  the database answers and what becomes of a resumed execution come with the steps.
\<close>

section \<open>State\<close>

text \<open>
  A timer that is set has an id, the execution it resumes and its time; \<open>wt_mainTimer\<close> keeps the id of an
  interval also after it was cleared. Queries in flight are counted, starts that wait for the database are listed.
\<close>

record wait_timer =
  wm_id :: nat
  wm_executionId :: string
  wm_time :: int

record wait_tracker =
  wt_waiting :: "(string \<times> nat) list"
  wt_timers :: "wait_timer list"
  wt_mainTimer :: "nat option"
  wt_intervals :: "nat list"
  wt_ids :: nat
  wt_queries :: nat
  wt_starting :: "string list"
  wt_started :: "string list"
  wt_parents :: "(string \<times> string) list"
  wt_errors :: "js_error list"

text \<open>What the database knows of an execution that is resumed.\<close>

record stored_execution =
  se_finished :: bool
  se_workflowId :: "string option"
  se_parent :: "string option"

definition new_tracker :: wait_tracker where
  "new_tracker = \<lparr>wt_waiting = [], wt_timers = [], wt_mainTimer = None, wt_intervals = [], wt_ids = 0, wt_queries = 0,
     wt_starting = [], wt_started = [], wt_parents = [], wt_errors = []\<rparr>"

definition tracker_has :: "string \<Rightarrow> wait_tracker \<Rightarrow> bool" where
  "tracker_has executionId s \<longleftrightarrow> map_of (wt_waiting s) executionId \<noteq> None"

section \<open>Operations\<close>

definition clear_timer :: "nat \<Rightarrow> wait_tracker \<Rightarrow> wait_tracker" where
  "clear_timer t s = s\<lparr>wt_timers := filter (\<lambda>m. wm_id m \<noteq> t) (wt_timers s)\<rparr>"

text \<open>An interval is set and the first query is sent at once.\<close>

definition startTracking :: "wait_tracker \<Rightarrow> wait_tracker" where
  "startTracking s = s\<lparr>wt_mainTimer := Some (wt_ids s), wt_intervals := wt_intervals s @ [wt_ids s], wt_ids := Suc (wt_ids s),
     wt_queries := Suc (wt_queries s)\<rparr>"

definition init_tracker :: "bool \<Rightarrow> wait_tracker \<Rightarrow> wait_tracker" where
  "init_tracker isLeader s = (if isLeader then startTracking s else s)"

definition add_timer :: "string \<times> int \<Rightarrow> wait_tracker \<Rightarrow> wait_tracker" where
  "add_timer execution s =
     (case execution of (executionId, waitTill) \<Rightarrow>
        if tracker_has executionId s then s
        else s\<lparr>wt_waiting := obj_set executionId (wt_ids s) (wt_waiting s),
               wt_timers := wt_timers s @ [\<lparr>wm_id = wt_ids s, wm_executionId = executionId, wm_time = waitTill\<rparr>],
               wt_ids := Suc (wt_ids s)\<rparr>)"

text \<open>The answer of a query.\<close>

definition getWaitingExecutions :: "(string \<times> int) list \<Rightarrow> wait_tracker \<Rightarrow> wait_tracker" where
  "getWaitingExecutions executions s = fold add_timer executions (s\<lparr>wt_queries := wt_queries s - 1\<rparr>)"

definition stop_waiting :: "string \<Rightarrow> wait_tracker \<Rightarrow> wait_tracker" where
  "stop_waiting executionId s =
     (case map_of (wt_waiting s) executionId of
        None \<Rightarrow> s
      | Some t \<Rightarrow> (clear_timer t s)\<lparr>wt_waiting := AList.delete executionId (wt_waiting s)\<rparr>)"

text \<open>\<open>startExecution\<close> up to the database, and after it answered.\<close>

definition startExecution :: "string \<Rightarrow> wait_tracker \<Rightarrow> wait_tracker" where
  "startExecution executionId s =
     s\<lparr>wt_waiting := AList.delete executionId (wt_waiting s), wt_starting := wt_starting s @ [executionId]\<rparr>"

definition resume_check :: "stored_execution option \<Rightarrow> js_error + stored_execution" where
  "resume_check found =
     (case found of
        None \<Rightarrow> Inl (UnexpectedError ''Execution does not exist.'')
      | Some execution \<Rightarrow>
          if se_finished execution then Inl (UnexpectedError ''The execution did succeed and can so not be started again.'')
          else if se_workflowId execution = None then Inl (UnexpectedError ''Only saved workflows can be resumed.'')
          else Inr execution)"

definition resume_execution :: "string \<Rightarrow> stored_execution option \<Rightarrow> wait_tracker \<Rightarrow> wait_tracker" where
  "resume_execution executionId found s =
     (let s1 = s\<lparr>wt_starting := remove1 executionId (wt_starting s)\<rparr> in
      case resume_check found of
        Inl e \<Rightarrow> s1\<lparr>wt_errors := wt_errors s @ [e]\<rparr>
      | Inr execution \<Rightarrow>
          (let s2 = s1\<lparr>wt_started := wt_started s @ [executionId]\<rparr> in
           case se_parent execution of
             None \<Rightarrow> s2
           | Some parent \<Rightarrow> s2\<lparr>wt_parents := wt_parents s @ [(executionId, parent)]\<rparr>))"

definition timer_resumes :: "wait_timer \<Rightarrow> wait_tracker \<Rightarrow> wait_tracker" where
  "timer_resumes m s = startExecution (wm_executionId m) (clear_timer (wm_id m) s)"

definition child_completed :: "string \<times> string \<Rightarrow> wait_tracker \<Rightarrow> wait_tracker" where
  "child_completed p s = startExecution (snd p) (s\<lparr>wt_parents := remove1 p (wt_parents s)\<rparr>)"

text \<open>The timers are cleared, the entries stay.\<close>

definition stopTracking :: "wait_tracker \<Rightarrow> wait_tracker" where
  "stopTracking s =
     (case wt_mainTimer s of
        None \<Rightarrow> s
      | Some interval \<Rightarrow>
          fold clear_timer (map snd (wt_waiting s)) (s\<lparr>wt_intervals := filter (\<lambda>i. i \<noteq> interval) (wt_intervals s)\<rparr>))"

datatype wait_event =
    Init bool
  | Takeover
  | Poll
  | Answer "(string \<times> int) list"
  | Stop_waiting string
  | Fire wait_timer
  | Fetched string "stored_execution option"
  | Child_completed "string \<times> string"
  | Stepdown

text \<open>When an event can happen, and what it does.\<close>

fun wait_possible :: "wait_event \<Rightarrow> wait_tracker \<Rightarrow> bool" where
  "wait_possible Poll s = (wt_intervals s \<noteq> [])"
| "wait_possible (Answer executions) s = (0 < wt_queries s)"
| "wait_possible (Fire m) s = (m \<in> set (wt_timers s))"
| "wait_possible (Fetched i found) s = (i \<in> set (wt_starting s))"
| "wait_possible (Child_completed p) s = (p \<in> set (wt_parents s))"
| "wait_possible ev s = True"

fun wait_step :: "wait_event \<Rightarrow> wait_tracker \<Rightarrow> wait_tracker" where
  "wait_step (Init isLeader) s = init_tracker isLeader s"
| "wait_step Takeover s = startTracking s"
| "wait_step Poll s = s\<lparr>wt_queries := Suc (wt_queries s)\<rparr>"
| "wait_step (Answer executions) s = getWaitingExecutions executions s"
| "wait_step (Stop_waiting i) s = stop_waiting i s"
| "wait_step (Fire m) s = timer_resumes m s"
| "wait_step (Fetched i found) s = resume_execution i found s"
| "wait_step (Child_completed p) s = child_completed p s"
| "wait_step Stepdown s = stopTracking s"

text \<open>The runs of the tracker.\<close>

fun wait_run :: "wait_event list \<Rightarrow> wait_tracker \<Rightarrow> wait_tracker option" where
  "wait_run [] s = Some s"
| "wait_run (ev # evs) s = (if wait_possible ev s then wait_run evs (wait_step ev s) else None)"

section \<open>Timers of tracked executions\<close>

definition wf_timers :: "wait_tracker \<Rightarrow> bool" where
  "wf_timers s \<longleftrightarrow> distinct (map wm_id (wt_timers s)) \<and> (\<forall>m \<in> set (wt_timers s). wm_id m < wt_ids s)
     \<and> (\<forall>i t. map_of (wt_waiting s) i = Some t \<longrightarrow> t < wt_ids s \<and> (\<forall>m \<in> set (wt_timers s). wm_id m = t \<longrightarrow> wm_executionId m = i))"

text \<open>The timers of an execution are those of its entry; and its entry has a timer.\<close>

definition own_timers :: "string \<Rightarrow> wait_tracker \<Rightarrow> bool" where
  "own_timers i s \<longleftrightarrow> (\<forall>m \<in> set (wt_timers s). wm_executionId m = i \<longrightarrow> map_of (wt_waiting s) i = Some (wm_id m))"

definition entry_timed :: "string \<Rightarrow> wait_tracker \<Rightarrow> bool" where
  "entry_timed i s \<longleftrightarrow> (\<forall>t. map_of (wt_waiting s) i = Some t \<longrightarrow> (\<exists>m \<in> set (wt_timers s). wm_id m = t))"

definition stranded :: "string \<Rightarrow> wait_tracker \<Rightarrow> bool" where
  "stranded i s \<longleftrightarrow> tracker_has i s \<and> (\<forall>m \<in> set (wt_timers s). wm_executionId m \<noteq> i)"

lemmas timer_defs = wf_timers_def own_timers_def entry_timed_def stranded_def tracker_has_def

text \<open>An event that concerns another execution.\<close>

definition spares :: "string \<Rightarrow> wait_event \<Rightarrow> bool" where
  "spares i ev \<longleftrightarrow> ev \<noteq> Stop_waiting i \<and> (\<forall>c. ev \<noteq> Child_completed (c, i))"

lemma clear_timer_simps [simp]:
  "wt_timers (clear_timer t s) = filter (\<lambda>m. wm_id m \<noteq> t) (wt_timers s)" "wt_waiting (clear_timer t s) = wt_waiting s"
  "wt_ids (clear_timer t s) = wt_ids s" "wt_starting (clear_timer t s) = wt_starting s" "wt_started (clear_timer t s) = wt_started s"
  by (simp_all add: clear_timer_def)

lemma clear_timers_simps [simp]:
  "wt_timers (fold clear_timer ts s) = filter (\<lambda>m. wm_id m \<notin> set ts) (wt_timers s)"
  "wt_waiting (fold clear_timer ts s) = wt_waiting s" "wt_ids (fold clear_timer ts s) = wt_ids s"
  "wt_starting (fold clear_timer ts s) = wt_starting s" "wt_started (fold clear_timer ts s) = wt_started s"
  by (induction ts arbitrary: s) (simp_all add: conj_commute)

lemma stopTracking_simps [simp]:
  "wt_waiting (stopTracking s) = wt_waiting s" "wt_ids (stopTracking s) = wt_ids s"
  "wt_starting (stopTracking s) = wt_starting s" "wt_started (stopTracking s) = wt_started s"
  "wt_timers (stopTracking s) =
    (if wt_mainTimer s = None then wt_timers s else filter (\<lambda>m. wm_id m \<notin> snd ` set (wt_waiting s)) (wt_timers s))"
  by (simp_all add: stopTracking_def split: option.split)

text \<open>What an answer of the database leaves alone, whatever holds of one execution at a time.\<close>

lemma answer_induct:
  assumes "P (s\<lparr>wt_queries := wt_queries s - 1\<rparr>)" "\<And>execution s. P s \<Longrightarrow> P (add_timer execution s)"
  shows "P (getWaitingExecutions executions s)"
proof -
  have "P (fold add_timer executions s)" if "P s" for s
    using that by (induction executions arbitrary: s) (simp_all add: assms(2))
  with assms(1) show ?thesis by (simp add: getWaitingExecutions_def)
qed

lemma add_timer_cases:
  obtains "add_timer execution s = s" "tracker_has (fst execution) s"
  | "\<not> tracker_has (fst execution) s" "add_timer execution s =
      s\<lparr>wt_waiting := obj_set (fst execution) (wt_ids s) (wt_waiting s),
        wt_timers := wt_timers s @ [\<lparr>wm_id = wt_ids s, wm_executionId = fst execution, wm_time = snd execution\<rparr>],
        wt_ids := Suc (wt_ids s)\<rparr>"
  by (cases execution) (auto simp: add_timer_def split: if_splits)

lemma wf_clear: "wf_timers s \<Longrightarrow> wf_timers (clear_timer t s)"
  by (auto simp: wf_timers_def distinct_map intro: inj_on_subset)

lemma wf_same: "wf_timers s \<Longrightarrow> wt_timers s' = wt_timers s \<Longrightarrow> wt_waiting s' = wt_waiting s \<Longrightarrow> wt_ids s \<le> wt_ids s' \<Longrightarrow> wf_timers s'"
  unfolding wf_timers_def by (metis order.strict_trans2)

lemma wf_delete: "wf_timers s \<Longrightarrow> wf_timers (s\<lparr>wt_waiting := AList.delete i (wt_waiting s), wt_starting := js\<rparr>)"
  by (auto simp: wf_timers_def delete_conv')

lemma wf_delete_entry: "wf_timers s \<Longrightarrow> wf_timers (s\<lparr>wt_waiting := AList.delete i (wt_waiting s)\<rparr>)"
  by (auto simp: wf_timers_def delete_conv')

lemma wf_add_timer:
  assumes "wf_timers s"
  shows "wf_timers (add_timer execution s)"
proof (cases rule: add_timer_cases [where execution = execution and s = s])
  case 2
  with assms show ?thesis unfolding 2(2) by (auto simp: wf_timers_def store_simps less_SucI split: if_splits)
qed (use assms in simp)

lemma own_add_timer:
  assumes "own_timers i s"
  shows "own_timers i (add_timer execution s)"
proof (cases rule: add_timer_cases [where execution = execution and s = s])
  case 2
  with assms show ?thesis unfolding 2(2) by (auto simp: own_timers_def tracker_has_def store_simps)
qed (use assms in simp)

lemma entry_add_timer:
  assumes "entry_timed i s"
  shows "entry_timed i (add_timer execution s)"
proof (cases rule: add_timer_cases [where execution = execution and s = s])
  case 2
  with assms show ?thesis unfolding 2(2) by (auto simp: entry_timed_def store_simps)
qed (use assms in simp)

lemma stranded_add_timer:
  assumes "stranded i s"
  shows "stranded i (add_timer execution s)"
proof (cases rule: add_timer_cases [where execution = execution and s = s])
  case 2
  with assms show ?thesis unfolding 2(2) by (auto simp: stranded_def tracker_has_def store_simps)
qed (use assms in simp)

lemma resume_execution_simps [simp]:
  "wt_timers (resume_execution i found s) = wt_timers s" "wt_waiting (resume_execution i found s) = wt_waiting s"
  "wt_ids (resume_execution i found s) = wt_ids s"
  by (simp_all add: resume_execution_def Let_def split: sum.split option.split)

lemma step_wf_timers: "wf_timers s \<Longrightarrow> wf_timers (wait_step ev s)"
proof (cases ev)
  case (Answer executions)
  assume wf: "wf_timers s"
  show ?thesis unfolding Answer wait_step.simps
    by (rule answer_induct [where P = wf_timers]) (simp_all add: wf_add_timer wf_same [OF wf])
next
  case (Stop_waiting i)
  assume wf: "wf_timers s"
  show ?thesis
    using wf_delete_entry [OF wf_clear [OF wf], where i = i] wf by (simp add: Stop_waiting stop_waiting_def split: option.split)
next
  case (Fire m)
  assume wf: "wf_timers s"
  show ?thesis using wf_delete [OF wf_clear [OF wf]] by (simp add: Fire timer_resumes_def startExecution_def)
next
  case (Child_completed p)
  assume "wf_timers s"
  then have "wf_timers (s\<lparr>wt_parents := remove1 p (wt_parents s)\<rparr>)" by (rule wf_same) simp_all
  from wf_delete [OF this] show ?thesis by (simp add: Child_completed child_completed_def startExecution_def)
next
  case Stepdown
  assume "wf_timers s"
  then show ?thesis by (auto simp: Stepdown wf_timers_def distinct_map intro: inj_on_subset)
qed (auto elim: wf_same simp: init_tracker_def startTracking_def)

lemma step_own_timers:
  assumes "own_timers i s" "wf_timers s" "\<forall>c. ev \<noteq> Child_completed (c, i)" "wait_possible ev s"
  shows "own_timers i (wait_step ev s)"
proof (cases ev)
  case (Answer executions)
  show ?thesis unfolding Answer wait_step.simps
    by (rule answer_induct [where P = "own_timers i"]) (use assms(1) in \<open>simp add: own_timers_def\<close>, rule own_add_timer)
next
  case (Stop_waiting j)
  show ?thesis
  proof (cases "map_of (wt_waiting s) j")
    case (Some t)
    with assms(1) show ?thesis
      by (auto simp: Stop_waiting stop_waiting_def own_timers_def delete_conv')
  qed (use assms(1) in \<open>simp add: Stop_waiting stop_waiting_def\<close>)
next
  case (Fire m)
  have m: "wm_executionId m = i \<Longrightarrow> map_of (wt_waiting s) i = Some (wm_id m)"
    using assms(1,4) by (simp add: Fire own_timers_def)
  show ?thesis
    unfolding own_timers_def
  proof (intro ballI impI)
    fix m' assume m': "m' \<in> set (wt_timers (wait_step ev s))" "wm_executionId m' = i"
    then have "map_of (wt_waiting s) i = Some (wm_id m')" "wm_id m' \<noteq> wm_id m"
      using assms(1) by (simp_all add: Fire timer_resumes_def startExecution_def own_timers_def)
    with m show "map_of (wt_waiting (wait_step ev s)) i = Some (wm_id m')"
      by (auto simp: Fire timer_resumes_def startExecution_def delete_conv')
  qed
next
  case (Child_completed p)
  with assms(1,3) show ?thesis
    by (cases p) (auto simp: child_completed_def startExecution_def own_timers_def delete_conv' spares_def)
qed (use assms(1) in \<open>auto simp: own_timers_def init_tracker_def startTracking_def\<close>)

lemma step_entry_timed:
  assumes "entry_timed i s" "wf_timers s" "own_timers i s" "ev \<noteq> Stepdown" "wait_possible ev s"
  shows "entry_timed i (wait_step ev s)"
proof (cases ev)
  case (Answer executions)
  show ?thesis unfolding Answer wait_step.simps
    by (rule answer_induct [where P = "entry_timed i"]) (use assms(1) in \<open>simp add: entry_timed_def\<close>, rule entry_add_timer)
next
  case (Stop_waiting j)
  show ?thesis
  proof (cases "map_of (wt_waiting s) j")
    case (Some t)
    have "m \<in> set (wt_timers s) \<Longrightarrow> wm_id m = t \<Longrightarrow> wm_executionId m = j" for m
      using assms(2) Some by (auto simp: wf_timers_def)
    moreover have "map_of (wt_waiting s) i = Some t' \<Longrightarrow> m \<in> set (wt_timers s) \<Longrightarrow> wm_id m = t' \<Longrightarrow> wm_executionId m = i" for m t'
      using assms(2) by (auto simp: wf_timers_def)
    ultimately show ?thesis using assms(1) Some
      by (fastforce simp: Stop_waiting stop_waiting_def entry_timed_def delete_conv')
  qed (use assms(1) in \<open>simp add: Stop_waiting stop_waiting_def\<close>)
next
  case (Fire m)
  have "map_of (wt_waiting s) i = Some t \<Longrightarrow> m' \<in> set (wt_timers s) \<Longrightarrow> wm_id m' = t \<Longrightarrow> wm_executionId m' = i" for m' t
    using assms(2) by (auto simp: wf_timers_def)
  with assms(1,5) show ?thesis
    by (fastforce simp: Fire timer_resumes_def startExecution_def entry_timed_def delete_conv')
next
  case (Child_completed p)
  with assms(1) show ?thesis by (auto simp: child_completed_def startExecution_def entry_timed_def delete_conv')
qed (use assms(1,4) in \<open>auto simp: entry_timed_def init_tracker_def startTracking_def\<close>)

lemma step_stranded:
  assumes "stranded i s" "spares i ev" "wait_possible ev s" "i \<notin> set (wt_starting s)"
  shows "stranded i (wait_step ev s) \<and> i \<notin> set (wt_starting (wait_step ev s))
    \<and> count_list (wt_started (wait_step ev s)) i = count_list (wt_started s) i"
proof (cases ev)
  case (Answer executions)
  let ?P = "\<lambda>s'. stranded i s' \<and> wt_starting s' = wt_starting s \<and> wt_started s' = wt_started s"
  have "?P (getWaitingExecutions executions s)"
  proof (rule answer_induct [where P = ?P])
    fix execution s' assume "?P s'"
    then show "?P (add_timer execution s')"
      using stranded_add_timer [of i s' execution] by (auto simp: add_timer_def split: prod.splits)
  qed (use assms(1) in \<open>simp add: timer_defs\<close>)
  with assms(4) show ?thesis by (simp add: Answer)
next
  case (Fetched j found)
  have "j \<noteq> i" using assms(3,4) by (auto simp: Fetched)
  with assms(1,4) show ?thesis
    by (auto simp: Fetched timer_defs dest: notin_set_remove1)
      (auto simp: resume_execution_def Let_def dest: set_remove1_subset [THEN set_mp] split: sum.splits option.splits if_splits)
qed (use assms in \<open>auto simp: timer_defs spares_def init_tracker_def startTracking_def stop_waiting_def timer_resumes_def
    startExecution_def child_completed_def delete_conv' split: option.split\<close>)

section \<open>Runs of the tracker\<close>

lemma wait_run_append: "wait_run (evs @ evs') s = Option.bind (wait_run evs s) (wait_run evs')"
  by (induction evs arbitrary: s) simp_all

lemma run_timers:
  assumes "wait_run evs s = Some s'" "wf_timers s" "own_timers i s" "\<forall>ev \<in> set evs. \<forall>c. ev \<noteq> Child_completed (c, i)"
  shows "wf_timers s' \<and> own_timers i s'"
  using assms
proof (induction evs arbitrary: s)
  case (Cons ev evs)
  then show ?case using step_wf_timers [of s ev] step_own_timers [of i s ev] by (auto split: if_splits)
qed simp

lemma run_entry_timed:
  assumes "wait_run evs s = Some s'" "wf_timers s" "own_timers i s" "entry_timed i s"
    "\<forall>ev \<in> set evs. ev \<noteq> Stepdown \<and> (\<forall>c. ev \<noteq> Child_completed (c, i))"
  shows "entry_timed i s'"
  using assms
proof (induction evs arbitrary: s)
  case (Cons ev evs)
  then show ?case using step_wf_timers [of s ev] step_own_timers [of i s ev] step_entry_timed [of i s ev] by (auto split: if_splits)
qed simp

lemma run_stranded:
  assumes "wait_run evs s = Some s'" "stranded i s" "i \<notin> set (wt_starting s)" "\<forall>ev \<in> set evs. spares i ev"
  shows "stranded i s' \<and> count_list (wt_started s') i = count_list (wt_started s) i"
  using assms
proof (induction evs arbitrary: s)
  case (Cons ev evs)
  then show ?case using step_stranded [of i s ev] by (auto split: if_splits)
qed simp

lemma stopTracking_strands:
  assumes own: "own_timers i s" and "tracker_has i s" "wt_mainTimer s \<noteq> None"
  shows "stranded i (stopTracking s)"
proof -
  have "wm_executionId m \<noteq> i" if "m \<in> set (wt_timers (stopTracking s))" for m
  proof
    assume "wm_executionId m = i"
    with that assms(3) have "m \<in> set (wt_timers s)" "wm_id m \<notin> snd ` set (wt_waiting s)" by (auto split: if_splits)
    with own \<open>wm_executionId m = i\<close> have "(i, wm_id m) \<in> set (wt_waiting s)" by (auto simp: own_timers_def dest: map_of_SomeD)
    with \<open>wm_id m \<notin> snd ` set (wt_waiting s)\<close> show False by force
  qed
  with assms(2) show ?thesis by (simp add: stranded_def tracker_has_def)
qed

lemma new_tracker_timers: "wf_timers new_tracker" "own_timers i new_tracker" "entry_timed i new_tracker"
  by (simp_all add: timer_defs new_tracker_def)


text \<open>
  Stepping down as leader clears the timers of the tracked executions but keeps their entries: when the process is
  leader again, every poll takes such an execution for one that has a timer, so that it is never
  resumed, whatever happens, unless it is stopped or a sub-execution completes.
\<close>

theorem stepdown_strands_executions:
  assumes "wait_run evs new_tracker = Some s" "\<forall>ev \<in> set evs. \<forall>c. ev \<noteq> Child_completed (c, i)"
    and "tracker_has i s" "wt_mainTimer s \<noteq> None" "i \<notin> set (wt_starting s)"
    and "wait_run evs' (stopTracking s) = Some s'" "\<forall>ev \<in> set evs'. spares i ev"
  shows "tracker_has i s' \<and> (\<forall>m \<in> set (wt_timers s'). wm_executionId m \<noteq> i)
    \<and> count_list (wt_started s') i = count_list (wt_started s) i"
proof -
  have own: "own_timers i s" using run_timers [OF assms(1) new_tracker_timers(1,2)] assms(2) by auto
  show ?thesis
    using run_stranded [OF assms(6) stopTracking_strands [OF own assms(3,4)] _ assms(7)] assms(5) by (simp add: stranded_def)
qed

text \<open>An execution that waits when the leader changes back and forth.\<close>

definition tracked_before :: wait_tracker where
  "tracked_before = getWaitingExecutions [(''1'', 50)] (startTracking new_tracker)"

lemma tracked_before_reached: "wait_run [Takeover, Answer [(''1'', 50)]] new_tracker = Some tracked_before"
proof -
  have "0 < wt_queries (startTracking new_tracker)" by (simp add: startTracking_def)
  then show ?thesis by (simp only: wait_run.simps wait_possible.simps wait_step.simps tracked_before_def if_True)
qed

lemma tracked_before_facts:
  "tracker_has ''1'' tracked_before" "wt_mainTimer tracked_before \<noteq> None" "wt_starting tracked_before = []" "wt_started tracked_before = []"
  by code_simp+


lemma stepdown_strands_executions_witness:
  "\<exists>s'. wait_run [Takeover, Answer [(''1'', 50)], Poll, Answer [(''1'', 50)]] (stopTracking tracked_before) = Some s'
    \<and> tracker_has ''1'' s' \<and> wt_timers s' = [] \<and> wt_started s' = []"
proof -
  have "case wait_run [Takeover, Answer [(''1'', 50)], Poll, Answer [(''1'', 50)]] (stopTracking tracked_before) of
      None \<Rightarrow> False | Some s' \<Rightarrow> wt_timers s' = [] \<and> wt_started s' = []" by code_simp
  then obtain s' where s': "wait_run [Takeover, Answer [(''1'', 50)], Poll, Answer [(''1'', 50)]] (stopTracking tracked_before) = Some s'"
    "wt_timers s' = []" "wt_started s' = []" by (auto split: option.splits)
  have "tracker_has ''1'' s'"
    using stepdown_strands_executions [OF tracked_before_reached _ tracked_before_facts(1,2) _ s'(1)]
    by (simp add: tracked_before_facts spares_def)
  with s' show ?thesis by blast
qed

end
