(* ===== verification/MultiMain.thy ===== *)
theory MultiMain
  imports WaitTracker
begin

text \<open>
  The choice of a leader among several main processes (\<open>packages/cli/src/scaling/multi-main-setup.ee.ts\<close>):
  the process that sets a key with a time to live leads, renews the key at every check, and the others take over once
  the key is gone. The store of the key is the Redis server, whose four commands are modelled as documented; a check is split at
  its second command, since other processes run in between. What follows from the changes of leadership is shown for the tracker
  of waiting executions.
\<close>

section \<open>The key\<close>

text \<open>The holder of the key and the time the key expires.\<close>

type_synonym leader_key = "(string \<times> int) option"

definition key_get :: "int \<Rightarrow> leader_key \<Rightarrow> string option" where
  "key_get now key = (case key of None \<Rightarrow> None | Some (holder, expires) \<Rightarrow> if now < expires then Some holder else None)"

definition key_setIfNotExists :: "int \<Rightarrow> string \<Rightarrow> int \<Rightarrow> leader_key \<Rightarrow> bool \<times> leader_key" where
  "key_setIfNotExists now hostId ttl key = (if key_get now key = None then (True, Some (hostId, now + ttl)) else (False, key))"

definition key_setExpiration :: "int \<Rightarrow> int \<Rightarrow> leader_key \<Rightarrow> leader_key" where
  "key_setExpiration now ttl key = map_option (\<lambda>holder. (holder, now + ttl)) (key_get now key)"

definition key_clear :: "leader_key \<Rightarrow> leader_key" where
  "key_clear key = None"

section \<open>Processes\<close>

datatype instance_role = Unset | Leader | Follower

datatype leadership_event = LeaderTakeover | LeaderStepdown

text \<open>What a check does next.\<close>

datatype check_phase = NoCheck | Renewing | Claiming

record main_process =
  mp_role :: instance_role
  mp_phase :: check_phase
  mp_running :: bool
  mp_events :: "leadership_event list"

record cluster =
  cl_now :: int
  cl_key :: leader_key
  cl_mains :: "string \<Rightarrow> main_process"

definition new_cluster :: cluster where
  "new_cluster = \<lparr>cl_now = 0, cl_key = None,
     cl_mains = (\<lambda>_. \<lparr>mp_role = Unset, mp_phase = NoCheck, mp_running = False, mp_events = []\<rparr>)\<rparr>"

definition is_leader :: "string \<Rightarrow> cluster \<Rightarrow> bool" where
  "is_leader h c \<longleftrightarrow> mp_role (cl_mains c h) = Leader"

definition change_main :: "string \<Rightarrow> (main_process \<Rightarrow> main_process) \<Rightarrow> cluster \<Rightarrow> cluster" where
  "change_main h f c = c\<lparr>cl_mains := (cl_mains c)(h := f (cl_mains c h))\<rparr>"

definition emit_event :: "leadership_event \<Rightarrow> main_process \<Rightarrow> main_process" where
  "emit_event e m = m\<lparr>mp_events := mp_events m @ [e]\<rparr>"

definition tryBecomeLeader :: "int \<Rightarrow> string \<Rightarrow> cluster \<Rightarrow> cluster" where
  "tryBecomeLeader ttl h c =
     (case key_setIfNotExists (cl_now c) h ttl (cl_key c) of (keySetSuccessfully, key) \<Rightarrow>
        change_main h (\<lambda>m. if keySetSuccessfully then emit_event LeaderTakeover (m\<lparr>mp_role := Leader\<rparr>) else m\<lparr>mp_role := Follower\<rparr>)
          (c\<lparr>cl_key := key\<rparr>))"

definition init_main :: "int \<Rightarrow> string \<Rightarrow> cluster \<Rightarrow> cluster" where
  "init_main ttl h c = tryBecomeLeader ttl h (change_main h (\<lambda>m. m\<lparr>mp_running := True\<rparr>) c)"

text \<open>The check up to its second command.\<close>

definition checkLeader :: "string \<Rightarrow> cluster \<Rightarrow> cluster" where
  "checkLeader h c =
     (case key_get (cl_now c) (cl_key c) of
        None \<Rightarrow> change_main h (\<lambda>m. emit_event LeaderStepdown (m\<lparr>mp_role := Follower, mp_phase := Claiming\<rparr>)) c
      | Some leaderId \<Rightarrow>
          if leaderId = h then change_main h (\<lambda>m. m\<lparr>mp_phase := Renewing\<rparr>) c
          else if is_leader h c then change_main h (\<lambda>m. emit_event LeaderStepdown (m\<lparr>mp_role := Follower\<rparr>)) c
          else c)"

definition go_on_checking :: "int \<Rightarrow> string \<Rightarrow> cluster \<Rightarrow> cluster" where
  "go_on_checking ttl h c =
     (let c1 = change_main h (\<lambda>m. m\<lparr>mp_phase := NoCheck\<rparr>) c in
      case mp_phase (cl_mains c h) of
        NoCheck \<Rightarrow> c
      | Renewing \<Rightarrow> c1\<lparr>cl_key := key_setExpiration (cl_now c) ttl (cl_key c)\<rparr>
      | Claiming \<Rightarrow> tryBecomeLeader ttl h c1)"

definition shutdown_main :: "string \<Rightarrow> cluster \<Rightarrow> cluster" where
  "shutdown_main h c =
     (let c1 = change_main h (\<lambda>m. m\<lparr>mp_running := False, mp_phase := NoCheck\<rparr>) c in
      if is_leader h c then c1\<lparr>cl_key := key_clear (cl_key c)\<rparr> else c1)"

datatype cluster_event = StartMain string | Check string | GoOn string | Shutdown string | Elapse int

fun cluster_possible :: "cluster_event \<Rightarrow> cluster \<Rightarrow> bool" where
  "cluster_possible (StartMain h) c = (mp_role (cl_mains c h) = Unset)"
| "cluster_possible (Check h) c = (mp_running (cl_mains c h) \<and> mp_phase (cl_mains c h) = NoCheck)"
| "cluster_possible (GoOn h) c = (mp_running (cl_mains c h) \<and> mp_phase (cl_mains c h) \<noteq> NoCheck)"
| "cluster_possible (Shutdown h) c = mp_running (cl_mains c h)"
| "cluster_possible (Elapse d) c = (0 \<le> d)"

fun cluster_step :: "int \<Rightarrow> cluster_event \<Rightarrow> cluster \<Rightarrow> cluster" where
  "cluster_step ttl (StartMain h) c = init_main ttl h c"
| "cluster_step ttl (Check h) c = checkLeader h c"
| "cluster_step ttl (GoOn h) c = go_on_checking ttl h c"
| "cluster_step ttl (Shutdown h) c = shutdown_main h c"
| "cluster_step ttl (Elapse d) c = c\<lparr>cl_now := cl_now c + d\<rparr>"

fun cluster_run :: "int \<Rightarrow> cluster_event list \<Rightarrow> cluster \<Rightarrow> cluster option" where
  "cluster_run ttl [] c = Some c"
| "cluster_run ttl (ev # evs) c = (if cluster_possible ev c then cluster_run ttl evs (cluster_step ttl ev c) else None)"

section \<open>One leader\<close>

text \<open>Time passes a key that was still held.\<close>

fun lets_key_expire :: "cluster_event \<Rightarrow> cluster \<Rightarrow> bool" where
  "lets_key_expire (Elapse d) c = (key_get (cl_now c) (cl_key c) \<noteq> None \<and> key_get (cl_now c + d) (cl_key c) = None)"
| "lets_key_expire ev c = False"

text \<open>The runs in which that never happens: every leader renews its key in time.\<close>

fun renewed_run :: "int \<Rightarrow> cluster_event list \<Rightarrow> cluster \<Rightarrow> bool" where
  "renewed_run ttl [] c = True"
| "renewed_run ttl (ev # evs) c = (\<not> lets_key_expire ev c \<and> renewed_run ttl evs (cluster_step ttl ev c))"

definition leaders_hold_key :: "cluster \<Rightarrow> bool" where
  "leaders_hold_key c \<longleftrightarrow> (\<forall>h. mp_running (cl_mains c h) \<longrightarrow> is_leader h c \<longrightarrow> key_get (cl_now c) (cl_key c) = Some h)"

lemma change_main_simps [simp]:
  "cl_now (change_main h f c) = cl_now c" "cl_key (change_main h f c) = cl_key c"
  "cl_mains (change_main h f c) = (cl_mains c)(h := f (cl_mains c h))"
  by (simp_all add: change_main_def)

lemma emit_event_simps [simp]:
  "mp_role (emit_event e m) = mp_role m" "mp_phase (emit_event e m) = mp_phase m" "mp_running (emit_event e m) = mp_running m"
  "mp_events (emit_event e m) = mp_events m @ [e]"
  by (simp_all add: emit_event_def)

lemmas leadership_defs = init_main_def tryBecomeLeader_def key_setIfNotExists_def checkLeader_def go_on_checking_def shutdown_main_def
  key_clear_def is_leader_def

lemma step_leaders_hold_key:
  assumes hold: "leaders_hold_key c" and possible: "cluster_possible ev c" and kept: "\<not> lets_key_expire ev c" and ttl: "0 < ttl"
  shows "leaders_hold_key (cluster_step ttl ev c)"
proof -
  have leader: "key_get (cl_now c) (cl_key c) = Some h" if "mp_running (cl_mains c h)" "mp_role (cl_mains c h) = Leader" for h
    using hold that by (simp add: leaders_hold_key_def is_leader_def)
  have fresh: "key_get now (Some (h, now + ttl)) = Some h" for now h using ttl by (simp add: key_get_def)
  show ?thesis
  proof (cases ev)
    case (StartMain h)
    with possible show ?thesis
      using leader by (auto simp: leaders_hold_key_def leadership_defs fresh split: if_splits)
  next
    case (Check h)
    with leader show ?thesis by (auto simp: leaders_hold_key_def leadership_defs split: option.splits if_splits)
  next
    case (GoOn h)
    have renewed: "key_get (cl_now c) (key_setExpiration (cl_now c) ttl (cl_key c)) = key_get (cl_now c) (cl_key c)"
      using ttl by (cases "key_get (cl_now c) (cl_key c)") (simp_all add: key_setExpiration_def fresh, simp add: key_get_def)
    show ?thesis
      using leader GoOn by (auto simp: leaders_hold_key_def leadership_defs fresh renewed Let_def split: check_phase.splits if_splits)
  next
    case (Shutdown h)
    have "h' = h" if "mp_running (cl_mains c h')" "mp_role (cl_mains c h') = Leader" "mp_role (cl_mains c h) = Leader" for h'
      using leader [of h'] leader [of h] that possible by (simp add: Shutdown)
    with leader show ?thesis by (auto simp: Shutdown leaders_hold_key_def leadership_defs Let_def split: if_splits)
  next
    case (Elapse d)
    then have "key_get (cl_now c + d) (cl_key c) = key_get (cl_now c) (cl_key c)"
      using kept possible by (auto simp: key_get_def split: option.splits if_splits)
    with leader show ?thesis by (simp add: Elapse leaders_hold_key_def is_leader_def)
  qed
qed

lemma run_leaders_hold_key:
  assumes "cluster_run ttl evs c = Some c'" "leaders_hold_key c" "renewed_run ttl evs c" "0 < ttl"
  shows "leaders_hold_key c'"
  using assms
proof (induction evs arbitrary: c)
  case (Cons ev evs)
  then show ?case using step_leaders_hold_key [of c ev ttl] by (auto split: if_splits)
qed simp

text \<open>
  C22: As long as no held key expires, whatever the order of starts, checks and shutdowns, a running process that takes
  itself for the leader holds the key, so that at most one running process does.
\<close>

theorem one_leader_while_key_is_renewed:
  assumes "cluster_run ttl evs new_cluster = Some c" "renewed_run ttl evs new_cluster" "0 < ttl"
    and "mp_running (cl_mains c h)" "is_leader h c"
  shows "key_get (cl_now c) (cl_key c) = Some h \<and> (\<forall>h'. mp_running (cl_mains c h') \<longrightarrow> is_leader h' c \<longrightarrow> h' = h)"
proof -
  have "leaders_hold_key new_cluster" by (simp add: leaders_hold_key_def is_leader_def new_cluster_def)
  from run_leaders_hold_key [OF assms(1) this assms(2,3)] assms(4,5) show ?thesis unfolding leaders_hold_key_def by (metis option.inject)
qed

section \<open>The events of a process\<close>

definition no_double_takeover :: "leadership_event list \<Rightarrow> bool" where
  "no_double_takeover = successively (\<lambda>e e'. e = LeaderStepdown \<or> e' = LeaderStepdown)"

lemma no_double_takeover_append:
  "no_double_takeover (es @ [e]) \<longleftrightarrow> no_double_takeover es \<and> (e = LeaderStepdown \<or> es = [] \<or> last es = LeaderStepdown)"
  by (auto simp: no_double_takeover_def successively_append_iff)

definition events_ok :: "main_process \<Rightarrow> bool" where
  "events_ok m \<longleftrightarrow> no_double_takeover (mp_events m) \<and> (mp_role m = Leader \<longleftrightarrow> mp_events m \<noteq> [] \<and> last (mp_events m) = LeaderTakeover)
     \<and> (mp_phase m = Claiming \<longrightarrow> mp_role m = Follower)"

lemma step_events_ok:
  assumes "\<forall>h. events_ok (cl_mains c h)" "cluster_possible ev c"
  shows "\<forall>h. events_ok (cl_mains (cluster_step ttl ev c) h)"
proof
  fix h'
  have ok: "events_ok (cl_mains c h)" for h using assms(1) by blast
  have last: "es = [] \<or> last es = LeaderStepdown" if "\<not> (es \<noteq> [] \<and> last es = LeaderTakeover)" for es
    using that by (cases "last es") auto
  show "events_ok (cl_mains (cluster_step ttl ev c) h')"
  proof (cases ev)
    case (StartMain h)
    then show ?thesis
      using ok [of h] ok [of h'] assms(2) last [of "mp_events (cl_mains c h)"]
      by (auto simp: leadership_defs events_ok_def no_double_takeover_append)
  next
    case (GoOn h)
    then show ?thesis
      using ok [of h] ok [of h'] last [of "mp_events (cl_mains c h)"]
      by (auto simp: leadership_defs events_ok_def no_double_takeover_append Let_def split: check_phase.splits)
  qed (use ok [of h'] in \<open>auto simp: leadership_defs events_ok_def no_double_takeover_append Let_def split: option.splits\<close>)
qed

lemma run_events_ok:
  assumes "cluster_run ttl evs c = Some c'" "\<forall>h. events_ok (cl_mains c h)"
  shows "\<forall>h. events_ok (cl_mains c' h)"
  using assms
proof (induction evs arbitrary: c)
  case (Cons ev evs)
  then show ?case using step_events_ok [of c ev ttl] by (auto split: if_splits)
qed simp

text \<open>
  The services of a process are told of its leadership consistently: a process takes itself for the leader exactly
  if the last event it emitted was a takeover, and between two takeovers it always emitted a step-down.
\<close>

theorem leadership_events_are_consistent:
  assumes "cluster_run ttl evs new_cluster = Some c"
  shows "(is_leader h c \<longleftrightarrow> mp_events (cl_mains c h) \<noteq> [] \<and> last (mp_events (cl_mains c h)) = LeaderTakeover)
    \<and> no_double_takeover (mp_events (cl_mains c h))"
proof -
  have "\<forall>h. events_ok (cl_mains new_cluster h)" by (simp add: events_ok_def new_cluster_def no_double_takeover_def)
  from run_events_ok [OF assms this] show ?thesis by (simp add: events_ok_def is_leader_def)
qed

section \<open>The tracker of waiting executions under changes of leadership\<close>

text \<open>The handlers of the two events.\<close>

fun tracker_handler :: "leadership_event \<Rightarrow> wait_event" where
  "tracker_handler LeaderTakeover = Takeover"
| "tracker_handler LeaderStepdown = Stepdown"

lemma check_lost_key:
  assumes "is_leader h c" "mp_phase (cl_mains c h) = NoCheck" "key_get (cl_now c) (cl_key c) = None"
  shows "mp_events (cl_mains (go_on_checking ttl h (checkLeader h c)) h) = mp_events (cl_mains c h) @ [LeaderStepdown, LeaderTakeover]"
    "is_leader h (go_on_checking ttl h (checkLeader h c))"
  using assms by (simp_all add: leadership_defs Let_def)


section \<open>Examples\<close>

definition led_cluster :: cluster where
  "led_cluster = init_main 10 ''b'' (init_main 10 ''a'' new_cluster)"

lemma led_cluster_reached: "cluster_run 10 [StartMain ''a'', StartMain ''b''] new_cluster = Some led_cluster"
proof -
  have "mp_role (cl_mains new_cluster ''a'') = Unset" "mp_role (cl_mains (init_main 10 ''a'' new_cluster) ''b'') = Unset"
    by (simp_all add: new_cluster_def leadership_defs key_get_def)
  then show ?thesis by (simp add: led_cluster_def)
qed

lemma led_cluster_facts:
  "is_leader ''a'' led_cluster" "mp_running (cl_mains led_cluster ''a'')" "mp_phase (cl_mains led_cluster ''a'') = NoCheck"
  "cl_key led_cluster = Some (''a'', 10)" "cl_now led_cluster = 0"
  by (simp_all add: led_cluster_def new_cluster_def leadership_defs key_get_def)

lemma one_leader_while_key_is_renewed_witness:
  "is_leader ''a'' led_cluster \<and> key_get 0 (cl_key led_cluster) = Some ''a''"
proof -
  have "renewed_run 10 [StartMain ''a'', StartMain ''b''] new_cluster" by simp
  note leads = one_leader_while_key_is_renewed [OF led_cluster_reached this _ led_cluster_facts(2,1)]
  from conjunct1 [OF leads] show ?thesis by (simp add: led_cluster_facts)
qed

lemma leadership_events_are_consistent_witness:
  "mp_events (cl_mains led_cluster ''a'') \<noteq> []"
  using leadership_events_are_consistent [OF led_cluster_reached, of "''a''"] led_cluster_facts(1) by simp


text \<open>
  A process that no longer holds the key, but has not checked since, clears the key of its successor when it shuts
  down; then a third process takes over while the successor still leads.
\<close>

lemma late_shutdown_makes_two_leaders:
  "case cluster_run 10 [StartMain ''a'', StartMain ''b'', Elapse 10, Check ''b'', GoOn ''b'', Shutdown ''a'', StartMain ''d''] new_cluster of
     None \<Rightarrow> False
   | Some c \<Rightarrow> mp_running (cl_mains c ''b'') \<and> is_leader ''b'' c \<and> mp_running (cl_mains c ''d'') \<and> is_leader ''d'' c"
  by (simp add: new_cluster_def leadership_defs key_get_def Let_def)

end
