(* ===== verification/NodeDisplay.thy ===== *)
theory NodeDisplay
  imports Interfaces
begin

text \<open>
  When a parameter of a node is displayed, and in which order the parameters are resolved
  (\<open>packages/workflow/src/node-helpers.ts\<close>). Lookups by path and deep equality are
  those of a library, and matches of regular expressions those of the language; they come with an environment, as do the
  conversions to numbers of values that are neither numbers nor booleans, and what is asked of the node and its type.
\<close>

section \<open>Properties of node types\<close>

text \<open>A condition is a plain value, or \<open>_cnd\<close> with its first key and target.\<close>

datatype condition = PlainValue json | DisplayCondition string json

type_synonym display_rule = "(string \<times> condition list) list"

record IDisplayOptions =
  do_show :: "display_rule option"
  do_hide :: "display_rule option"

text \<open>\<open>prop_multiple\<close> is \<open>typeOptions.multipleValues\<close>; an option that is no property has only its name.\<close>

datatype INodeProperties =
  NodeProperties (prop_name: string) (prop_type: string) (prop_multiple: "bool option") (prop_default: json)
    (prop_display: "IDisplayOptions option") (prop_options: "property_option list option")
and property_option = PropertyOption string | SubProperty INodeProperties | PropertyCollection string "INodeProperties list"

record display_env =
  de_isEqual :: "json option \<Rightarrow> json option \<Rightarrow> bool"
  de_get :: "IDataObject \<Rightarrow> string \<Rightarrow> json option"
  de_regex :: "string \<Rightarrow> json option \<Rightarrow> bool res"
  de_number :: "json \<Rightarrow> rat option"
  de_typeVersion :: "rat option"
  de_typeName :: "string option"

section \<open>Values of JavaScript\<close>

text \<open>\<open>===\<close> of a value and a constant of a description: objects are different objects.\<close>

fun same_value :: "json option \<Rightarrow> json \<Rightarrow> bool" where
  "same_value (Some (JArr _)) _ = False"
| "same_value (Some (JObj _)) _ = False"
| "same_value (Some x) y = (x = y)"
| "same_value None _ = False"

definition to_number :: "display_env \<Rightarrow> json option \<Rightarrow> rat option" where
  "to_number env v =
     (case v of
        None \<Rightarrow> None
      | Some JNull \<Rightarrow> Some 0
      | Some (JBool b) \<Rightarrow> Some (if b then 1 else 0)
      | Some (JNum n) \<Rightarrow> Some n
      | Some x \<Rightarrow> de_number env x)"

fun str_less :: "string \<Rightarrow> string \<Rightarrow> bool" where
  "str_less _ [] = False"
| "str_less [] (_ # _) = True"
| "str_less (c # s) (d # t) = (if c = d then str_less s t else (of_char c :: nat) < of_char d)"

text \<open>The relational operators: strings by their characters, everything else by number; with NaN they are false.\<close>

definition js_less :: "display_env \<Rightarrow> json option \<Rightarrow> json option \<Rightarrow> bool" where
  "js_less env v w =
     (case (v, w) of
        (Some (JStr s), Some (JStr t)) \<Rightarrow> str_less s t
      | _ \<Rightarrow> (case (to_number env v, to_number env w) of (Some m, Some n) \<Rightarrow> m < n | _ \<Rightarrow> False))"

definition js_less_eq :: "display_env \<Rightarrow> json option \<Rightarrow> json option \<Rightarrow> bool" where
  "js_less_eq env v w =
     (case (v, w) of
        (Some (JStr s), Some (JStr t)) \<Rightarrow> \<not> str_less t s
      | _ \<Rightarrow> (case (to_number env v, to_number env w) of (Some m, Some n) \<Rightarrow> m \<le> n | _ \<Rightarrow> False))"

fun str_starts :: "string \<Rightarrow> string \<Rightarrow> bool" where
  "str_starts _ [] = True"
| "str_starts [] (_ # _) = False"
| "str_starts (c # s) (d # t) = (c = d \<and> str_starts s t)"

fun str_includes :: "string \<Rightarrow> string \<Rightarrow> bool" where
  "str_includes [] t = (t = [])"
| "str_includes (c # s) t = (str_starts (c # s) t \<or> str_includes s t)"

text \<open>\<open>some\<close> and \<open>every\<close> of a test that may raise: they stop at the first answer.\<close>

fun some_res :: "('a \<Rightarrow> bool res) \<Rightarrow> 'a list \<Rightarrow> bool res" where
  "some_res p [] = Inr False"
| "some_res p (x # xs) = bind_res (p x) (\<lambda>b. if b then Inr True else some_res p xs)"

fun every_res :: "('a \<Rightarrow> bool res) \<Rightarrow> 'a list \<Rightarrow> bool res" where
  "every_res p [] = Inr True"
| "every_res p (x # xs) = bind_res (p x) (\<lambda>b. if b then every_res p xs else Inr False)"

section \<open>Conditions\<close>

text \<open>The string of a method; calling it on anything else raises.\<close>

definition string_method :: "(string \<Rightarrow> string \<Rightarrow> bool) \<Rightarrow> json option \<Rightarrow> json \<Rightarrow> bool res" where
  "string_method f v target = (case (v, target) of (Some (JStr s), JStr t) \<Rightarrow> Inr (f s t) | _ \<Rightarrow> Inl TypeError)"

definition field_of :: "json \<Rightarrow> string \<Rightarrow> json option" where
  "field_of v k = (case v of JObj kv \<Rightarrow> map_of kv k | _ \<Rightarrow> None)"

definition check_condition :: "display_env \<Rightarrow> string \<Rightarrow> json \<Rightarrow> json option \<Rightarrow> bool res" where
  "check_condition env key target v =
     (if key = ''eq'' then Inr (de_isEqual env v (Some target))
      else if key = ''not'' then Inr (\<not> de_isEqual env v (Some target))
      else if key = ''gte'' then Inr (js_less_eq env (Some target) v)
      else if key = ''lte'' then Inr (js_less_eq env v (Some target))
      else if key = ''gt'' then Inr (js_less env (Some target) v)
      else if key = ''lt'' then Inr (js_less env v (Some target))
      else if key = ''between'' then
        (if target = JNull then Inl TypeError
         else Inr (js_less_eq env (field_of target ''from'') v \<and> js_less_eq env v (field_of target ''to'')))
      else if key = ''includes'' then
        (case v of Some (JArr xs) \<Rightarrow> Inr (list_ex (\<lambda>x. same_value (Some x) target) xs) | _ \<Rightarrow> string_method str_includes v target)
      else if key = ''startsWith'' then string_method str_starts v target
      else if key = ''endsWith'' then string_method (\<lambda>s t. str_starts (rev s) (rev t)) v target
      else if key = ''regex'' then (case target of JStr t \<Rightarrow> de_regex env t v | _ \<Rightarrow> Inl TypeError)
      else if key = ''exists'' then Inr (v \<noteq> None \<and> v \<noteq> Some JNull \<and> v \<noteq> Some (JStr ''''))
      else Inr False)"

definition checkConditions :: "display_env \<Rightarrow> condition list \<Rightarrow> json option list \<Rightarrow> bool res" where
  "checkConditions env conditions actualValues =
     some_res (\<lambda>c. case c of
         DisplayCondition key target \<Rightarrow> every_res (check_condition env key target) actualValues
       | PlainValue x \<Rightarrow> Inr (list_ex (\<lambda>v. same_value v x) actualValues)) conditions"

definition ends_with :: "string \<Rightarrow> string \<Rightarrow> bool" where
  "ends_with s t = str_starts (rev s) (rev t)"

text \<open>The values a rule looks at; a resource locator stands for its value.\<close>

definition getPropertyValues :: "display_env \<Rightarrow> IDataObject \<Rightarrow> string \<Rightarrow> IDataObject \<Rightarrow> json option list" where
  "getPropertyValues env nodeValues propertyName nodeValuesRoot =
     (let value =
        (if propertyName \<noteq> [] \<and> hd propertyName = CHR ''/'' then de_get env nodeValuesRoot (tl propertyName)
         else if propertyName = ''@version'' then Some (JNum (case de_typeVersion env of None \<Rightarrow> 0 | Some v \<Rightarrow> v))
         else if propertyName = ''@tool'' then
           Some (JBool (case de_typeName env of None \<Rightarrow> False | Some name \<Rightarrow> ends_with name ''Tool''))
         else de_get env nodeValues propertyName);
        value' =
        (case value of
           Some (JObj kv) \<Rightarrow> (case map_of kv ''__rl'' of
               Some rl \<Rightarrow> if json_truthy rl then map_of kv ''value'' else value
             | None \<Rightarrow> value)
         | _ \<Rightarrow> value)
      in case value' of Some (JArr xs) \<Rightarrow> map Some xs | _ \<Rightarrow> [value'])"

definition is_expression :: "json option \<Rightarrow> bool" where
  "is_expression v = (case v of Some (JStr (c # s)) \<Rightarrow> c = CHR ''='' | _ \<Rightarrow> False)"

text \<open>The rules of \<open>show\<close>: the answer, if one of them decides.\<close>

fun show_rules :: "display_env \<Rightarrow> IDataObject \<Rightarrow> IDataObject \<Rightarrow> display_rule \<Rightarrow> bool option res" where
  "show_rules env nodeValues rootValues [] = Inr None"
| "show_rules env nodeValues rootValues ((propertyName, conditions) # rules) =
     (let values = getPropertyValues env nodeValues propertyName rootValues in
      if list_ex is_expression values then Inr (Some True)
      else if values = [] then Inr (Some False)
      else bind_res (checkConditions env conditions values) (\<lambda>ok.
        if ok then show_rules env nodeValues rootValues rules else Inr (Some False)))"

fun hide_rules :: "display_env \<Rightarrow> IDataObject \<Rightarrow> IDataObject \<Rightarrow> display_rule \<Rightarrow> bool res" where
  "hide_rules env nodeValues rootValues [] = Inr True"
| "hide_rules env nodeValues rootValues ((propertyName, conditions) # rules) =
     (let values = getPropertyValues env nodeValues propertyName rootValues in
      if values = [] then hide_rules env nodeValues rootValues rules
      else bind_res (checkConditions env conditions values) (\<lambda>hidden.
        if hidden then Inr False else hide_rules env nodeValues rootValues rules))"

definition display_options :: "display_env \<Rightarrow> IDataObject \<Rightarrow> IDisplayOptions option \<Rightarrow> IDataObject \<Rightarrow> bool res" where
  "display_options env nodeValues options rootValues =
     (case options of
        None \<Rightarrow> Inr True
      | Some d \<Rightarrow>
          bind_res (show_rules env nodeValues rootValues (case do_show d of None \<Rightarrow> [] | Some rules \<Rightarrow> rules)) (\<lambda>answer.
            case answer of
              Some b \<Rightarrow> Inr b
            | None \<Rightarrow> hide_rules env nodeValues rootValues (case do_hide d of None \<Rightarrow> [] | Some rules \<Rightarrow> rules)))"

definition displayParameter :: "display_env \<Rightarrow> IDataObject \<Rightarrow> INodeProperties \<Rightarrow> IDataObject option \<Rightarrow> bool res" where
  "displayParameter env nodeValues parameter rootValues =
     display_options env nodeValues (prop_display parameter) (case rootValues of None \<Rightarrow> nodeValues | Some r \<Rightarrow> r)"

section \<open>Dependencies\<close>

definition rule_names :: "IDisplayOptions \<Rightarrow> string list" where
  "rule_names d = concat (map (\<lambda>r. case r of None \<Rightarrow> [] | Some rules \<Rightarrow> keys_of rules) [do_show d, do_hide d])"

definition add_dependency :: "string \<Rightarrow> string list \<Rightarrow> string list" where
  "add_dependency n deps = (if n \<in> set deps \<or> (n \<noteq> [] \<and> hd n = CHR ''@'') then deps else deps @ [n])"

definition add_dependencies :: "INodeProperties \<Rightarrow> (string \<times> string list) list \<Rightarrow> (string \<times> string list) list" where
  "add_dependencies p dependencies =
     (let name = prop_name p; deps = (case map_of dependencies name of None \<Rightarrow> [] | Some deps \<Rightarrow> deps) in
      obj_set name (case prop_display p of None \<Rightarrow> deps | Some d \<Rightarrow> fold add_dependency (rule_names d) deps) dependencies)"

definition getParameterDependencies :: "INodeProperties list \<Rightarrow> (string \<times> string list) list" where
  "getParameterDependencies props = fold add_dependencies props []"

text \<open>
  The order: an index whose dependencies are not all resolved is queued again, once for each that is missing, and
  yet is added to the order at once. \<open>lastIndexReduction\<close> starts at \<open>- 1\<close>.
\<close>

definition missing_dependencies :: "string list \<Rightarrow> string list \<Rightarrow> string list" where
  "missing_dependencies resolved deps = filter (\<lambda>d. d \<notin> set resolved \<and> \<not> (d \<noteq> [] \<and> hd d = CHR ''/'')) deps"

record resolve_state =
  rs_executionOrder :: "nat list"
  rs_indexToResolve :: "nat list"
  rs_resolved :: "string list"
  rs_lastIndexLength :: nat
  rs_lastIndexReduction :: int
  rs_iterations :: nat

definition resolved_index :: "nat \<Rightarrow> string \<Rightarrow> resolve_state \<Rightarrow> resolve_state" where
  "resolved_index index name s = s\<lparr>rs_executionOrder := rs_executionOrder s @ [index], rs_resolved := rs_resolved s @ [name]\<rparr>"

definition unresolved_message :: string where
  "unresolved_message = ''Could not resolve parameter dependencies. Max iterations reached! Hint: If `displayOptions` are specified in any child parameter of a parent `collection` or `fixedCollection`, remove the `displayOptions` from the child parameter.''"

text \<open>One iteration, for the index taken from the queue.\<close>

definition resolve_step :: "INodeProperties list \<Rightarrow> (string \<times> string list) list \<Rightarrow> nat \<Rightarrow> resolve_state \<Rightarrow> resolve_state res" where
  "resolve_step props dependencies index s =
     (let s0 = s\<lparr>rs_iterations := Suc (rs_iterations s), rs_indexToResolve := tl (rs_indexToResolve s)\<rparr>;
          name = prop_name (props ! index)
      in case map_of dependencies name of
           None \<Rightarrow> Inl TypeError
         | Some deps \<Rightarrow>
             if deps = [] then Inr (resolved_index index name s0)
             else
               (let missing = missing_dependencies (rs_resolved s) deps;
                    s1 = resolved_index index name (s0\<lparr>rs_indexToResolve := rs_indexToResolve s0 @ map (\<lambda>_. index) missing\<rparr>);
                    n = length (rs_indexToResolve s1);
                    reduction = (if n < rs_lastIndexLength s then int (rs_iterations s1) else rs_lastIndexReduction s)
                in if reduction + int (length props) < int (rs_iterations s1) then Inl (ApplicationError unresolved_message)
                   else Inr (s1\<lparr>rs_lastIndexReduction := reduction, rs_lastIndexLength := n\<rparr>)))"

text \<open>Whether the dependencies of an index are resolved, and the entries of the queue for which they are.\<close>

definition ready :: "INodeProperties list \<Rightarrow> (string \<times> string list) list \<Rightarrow> string list \<Rightarrow> nat \<Rightarrow> bool" where
  "ready props dependencies resolved index =
     (case map_of dependencies (prop_name (props ! index)) of None \<Rightarrow> True | Some deps \<Rightarrow> missing_dependencies resolved deps = [])"

definition resolve_measure :: "INodeProperties list \<Rightarrow> (string \<times> string list) list \<Rightarrow> resolve_state \<Rightarrow> nat list" where
  "resolve_measure props dependencies s =
     [card (prop_name ` set props - set (rs_resolved s)),
      length (filter (ready props dependencies (rs_resolved s)) (rs_indexToResolve s)),
      (if length (rs_indexToResolve s) < rs_lastIndexLength s then 1 else 0),
      nat (rs_lastIndexReduction s + int (length props) + 1 - int (rs_iterations s))]"

lemma lex_less:
  "a' < a \<or> a' = a \<and> (b' < b \<or> b' = b \<and> (c' < c \<or> c' = c \<and> d' < (d :: nat))) \<Longrightarrow> ([a', b', c', d'], [a, b, c, d]) \<in> lenlex {(x, y). x < y}"
  by (auto simp: lenlex_def)

lemma resolve_measure_less:
  assumes step: "resolve_step props dependencies index s = Inr s'" and index: "rs_indexToResolve s = index # rest" "index < length props"
  shows "(resolve_measure props dependencies s', resolve_measure props dependencies s) \<in> lenlex {(x, y). x < y}"
proof -
  let ?name = "prop_name (props ! index)"
  from step obtain deps where deps: "map_of dependencies ?name = Some deps" by (auto simp: resolve_step_def Let_def split: option.splits)
  have resolved: "rs_resolved s' = rs_resolved s @ [?name]"
    using step deps by (auto simp: resolve_step_def Let_def resolved_index_def split: if_splits)
  show ?thesis
  proof (cases "?name \<in> set (rs_resolved s)")
    case False
    have "prop_name ` set props - set (rs_resolved s') \<subset> prop_name ` set props - set (rs_resolved s)"
      using False index(2) by (auto simp: resolved)
    then have "card (prop_name ` set props - set (rs_resolved s')) < card (prop_name ` set props - set (rs_resolved s))"
      by (rule psubset_card_mono [rotated]) simp
    then show ?thesis unfolding resolve_measure_def by (intro lex_less) simp
  next
    case True
    then have same: "set (rs_resolved s') = set (rs_resolved s)" by (auto simp: resolved)
    then have ready: "ready props dependencies (rs_resolved s') = ready props dependencies (rs_resolved s)"
      by (simp add: ready_def missing_dependencies_def fun_eq_iff split: option.split)
    show ?thesis
    proof (cases "missing_dependencies (rs_resolved s) deps = []")
      case True
      then have "ready props dependencies (rs_resolved s) index" by (simp add: ready_def deps)
      moreover have "rs_indexToResolve s' = rest"
        using step deps True index(1) by (auto simp: resolve_step_def Let_def resolved_index_def split: if_splits)
      ultimately show ?thesis unfolding resolve_measure_def ready same index(1) by (intro lex_less) simp
    next
      case False
      then have not_ready: "\<not> ready props dependencies (rs_resolved s) index" by (simp add: ready_def deps)
      let ?missing = "missing_dependencies (rs_resolved s) deps"
      let ?n = "length rest + length ?missing"
      have "deps \<noteq> []" using False by (auto simp: missing_dependencies_def)
      with step deps index(1) have s': "rs_indexToResolve s' = rest @ map (\<lambda>_. index) ?missing" "rs_lastIndexLength s' = ?n"
        "rs_iterations s' = Suc (rs_iterations s)"
        "rs_lastIndexReduction s' = (if ?n < rs_lastIndexLength s then int (Suc (rs_iterations s)) else rs_lastIndexReduction s)"
        "int (rs_iterations s') \<le> rs_lastIndexReduction s' + int (length props)"
        by (auto simp: resolve_step_def Let_def resolved_index_def split: if_splits)
      have "Suc (length rest) \<le> ?n" using False by (cases ?missing) auto
      moreover have "filter (ready props dependencies (rs_resolved s)) (map (\<lambda>_. index) ?missing) = []"
        using not_ready by (simp add: filter_empty_conv)
      ultimately show ?thesis
        unfolding resolve_measure_def ready same using not_ready s' index(1)
        by (intro lex_less) auto
    qed
  qed
qed

function resolve_loop :: "INodeProperties list \<Rightarrow> (string \<times> string list) list \<Rightarrow> resolve_state \<Rightarrow> nat list res" where
  "resolve_loop props dependencies s =
     (case rs_indexToResolve s of
        [] \<Rightarrow> Inr (rs_executionOrder s)
      | index # _ \<Rightarrow>
          if index < length props then bind_res (resolve_step props dependencies index s) (resolve_loop props dependencies)
          else Inl TypeError)"
  by pat_completeness auto
termination
proof (relation "inv_image (lenlex {(x, y). x < y}) (\<lambda>(props, dependencies, s). resolve_measure props dependencies s)", goal_cases)
  case 1
  show ?case by (intro wf_inv_image wf_lenlex wf_less)
next
  case (2 props dependencies s index rest s')
  then show ?case using resolve_measure_less by simp
qed

definition initial_resolve :: "INodeProperties list \<Rightarrow> resolve_state" where
  "initial_resolve props = \<lparr>rs_executionOrder = [], rs_indexToResolve = [0..<length props], rs_resolved = [],
     rs_lastIndexLength = length props, rs_lastIndexReduction = - 1, rs_iterations = 0\<rparr>"

definition getParameterResolveOrder :: "INodeProperties list \<Rightarrow> (string \<times> string list) list \<Rightarrow> nat list res" where
  "getParameterResolveOrder props dependencies = resolve_loop props dependencies (initial_resolve props)"

declare resolve_loop.simps [simp del]

section \<open>Facts about the order\<close>

lemma resolve_loop_Nil: "rs_indexToResolve s = [] \<Longrightarrow> resolve_loop props dependencies s = Inr (rs_executionOrder s)"
  by (simp add: resolve_loop.simps)

lemma resolve_loop_Cons:
  "rs_indexToResolve s = index # rest \<Longrightarrow> index < length props \<Longrightarrow>
    resolve_loop props dependencies s = bind_res (resolve_step props dependencies index s) (resolve_loop props dependencies)"
  by (simp add: resolve_loop.simps)

lemma resolve_step_queue:
  assumes "resolve_step props dependencies index s = Inr s'" "rs_indexToResolve s = index # rest"
  shows "rs_executionOrder s' = rs_executionOrder s @ [index]"
    and "rs_resolved s' = rs_resolved s @ [prop_name (props ! index)]"
    and "\<exists>n. rs_indexToResolve s' = rest @ replicate n index"
  using assms by (auto simp: resolve_step_def Let_def resolved_index_def map_replicate_const split: option.splits if_splits)

text \<open>An order that is returned holds every index of the queue, and no others.\<close>

lemma resolve_loop_indices:
  assumes "resolve_loop props dependencies s = Inr order"
  shows "set order = set (rs_executionOrder s) \<union> set (rs_indexToResolve s)
    \<and> set (rs_indexToResolve s) \<subseteq> {..<length props}"
  using assms
proof (induction props dependencies s arbitrary: order rule: resolve_loop.induct)
  case (1 props dependencies s)
  show ?case
  proof (cases "rs_indexToResolve s")
    case Nil
    with "1.prems" show ?thesis by (simp add: resolve_loop_Nil)
  next
    case (Cons index rest)
    have index: "index < length props" using "1.prems" Cons by (auto simp: resolve_loop.simps split: if_splits)
    with "1.prems" obtain s1 where s1: "resolve_step props dependencies index s = Inr s1" "resolve_loop props dependencies s1 = Inr order"
      by (auto simp: resolve_loop_Cons [OF Cons index] bind_res_Inr_iff)
    obtain n where n: "rs_indexToResolve s1 = rest @ replicate n index" using resolve_step_queue(3) [OF s1(1) Cons] ..
    show ?thesis
      using "1.IH" [OF Cons index s1] resolve_step_queue(1) [OF s1(1) Cons] Cons index by (auto simp: n)
  qed
qed

lemma resolve_order_indices:
  "getParameterResolveOrder props dependencies = Inr order \<Longrightarrow> set order = {..<length props}"
  unfolding getParameterResolveOrder_def by (drule resolve_loop_indices) (auto simp: initial_resolve_def)

text \<open>The queue when nothing is missing any more: it is emptied from the front.\<close>

lemma resolve_step_ready:
  assumes "map_of dependencies (prop_name (props ! index)) = Some deps" "missing_dependencies (rs_resolved s) deps = []"
    and "rs_indexToResolve s = index # rest" "Suc (length rest) \<le> rs_lastIndexLength s"
  obtains s' where "resolve_step props dependencies index s = Inr s'" "rs_indexToResolve s' = rest"
    "rs_iterations s' = Suc (rs_iterations s)" "rs_lastIndexReduction s \<le> int (rs_iterations s) \<Longrightarrow>
       rs_lastIndexReduction s \<le> rs_lastIndexReduction s' \<and> rs_lastIndexReduction s' \<le> int (rs_iterations s')"
    "length rest \<le> rs_lastIndexLength s'"
  using assms by (cases "deps = []") (simp_all add: resolve_step_def Let_def resolved_index_def)

lemma resolve_loop_ready:
  assumes "rs_indexToResolve s = queue" "length queue \<le> rs_lastIndexLength s"
    and "\<forall>index \<in> set queue. index < length props \<and> (\<exists>deps. map_of dependencies (prop_name (props ! index)) = Some deps
      \<and> missing_dependencies (rs_resolved s) deps = [])"
  shows "resolve_loop props dependencies s = Inr (rs_executionOrder s @ queue)"
  using assms
proof (induction queue arbitrary: s)
  case Nil
  then show ?case by (simp add: resolve_loop_Nil)
next
  case (Cons index rest)
  then obtain deps where deps: "map_of dependencies (prop_name (props ! index)) = Some deps" "missing_dependencies (rs_resolved s) deps = []"
    by auto
  have "Suc (length rest) \<le> rs_lastIndexLength s" using Cons.prems by simp
  from resolve_step_ready [OF deps Cons.prems(1) this] obtain s' where
    s': "resolve_step props dependencies index s = Inr s'" "rs_indexToResolve s' = rest" "length rest \<le> rs_lastIndexLength s'" by metis
  have more: "missing_dependencies (rs_resolved s) ds = [] \<Longrightarrow> missing_dependencies (rs_resolved s') ds = []" for ds
    using resolve_step_queue(2) [OF s'(1) Cons.prems(1)] by (auto simp: missing_dependencies_def filter_empty_conv)
  have "resolve_loop props dependencies s' = Inr (rs_executionOrder s' @ rest)"
    by (rule Cons.IH [OF s'(2,3)]) (use Cons.prems(3) more in fastforce)
  then show ?case
    using resolve_step_queue(1) [OF s'(1) Cons.prems(1)] s'(1) Cons.prems by (simp add: resolve_loop_Cons)
qed

text \<open>The dependencies of an index that are missing when only the properties before it are resolved.\<close>

definition missing_at :: "INodeProperties list \<Rightarrow> (string \<times> string list) list \<Rightarrow> nat \<Rightarrow> string list" where
  "missing_at props dependencies i = missing_dependencies (map prop_name (take i props))
     (case map_of dependencies (prop_name (props ! i)) of None \<Rightarrow> [] | Some deps \<Rightarrow> deps)"

lemma resolve_step_missing:
  assumes "map_of dependencies (prop_name (props ! index)) = Some deps" "missing_dependencies (rs_resolved s) deps = missing"
    and "missing \<noteq> []" "rs_indexToResolve s = index # rest" "rs_iterations s + 1 < length props"
    and "- 1 \<le> rs_lastIndexReduction s" "rs_lastIndexReduction s \<le> int (rs_iterations s)"
  obtains s' where "resolve_step props dependencies index s = Inr s'"
    "rs_indexToResolve s' = rest @ replicate (length missing) index" "rs_iterations s' = Suc (rs_iterations s)"
    "- 1 \<le> rs_lastIndexReduction s'" "rs_lastIndexReduction s' \<le> int (rs_iterations s')"
    "rs_lastIndexLength s' = length (rs_indexToResolve s')"
proof -
  have "deps \<noteq> []" using assms(2,3) by (auto simp: missing_dependencies_def)
  then show ?thesis
    using assms that
    by (cases "length rest + length missing < rs_lastIndexLength s")
      (simp_all add: resolve_step_def Let_def resolved_index_def map_replicate_const)
qed

lemma first_pass:
  assumes known: "\<forall>p \<in> set props. \<exists>deps. map_of dependencies (prop_name p) = Some deps
      \<and> missing_dependencies (map prop_name props) deps = []"
    and last: "\<And>i. Suc i = length props \<Longrightarrow> missing_at props dependencies i = []"
    and "rs_indexToResolve s = [k..<length props] @ again" "rs_resolved s = map prop_name (take k props)" "k \<le> length props"
    and "rs_iterations s = k" "- 1 \<le> rs_lastIndexReduction s" "rs_lastIndexReduction s \<le> int k"
    and "length (rs_indexToResolve s) \<le> rs_lastIndexLength s" "set again \<subseteq> {..<length props}"
  shows "resolve_loop props dependencies s = Inr (rs_executionOrder s @ [k..<length props] @ again
    @ concat (map (\<lambda>i. replicate (length (missing_at props dependencies i)) i) [k..<length props]))"
  using assms(3-)
proof (induction "length props - k" arbitrary: k s again)
  case 0
  then have "rs_indexToResolve s = again" "rs_resolved s = map prop_name props" by simp_all
  with 0 known have "resolve_loop props dependencies s = Inr (rs_executionOrder s @ again)"
    by (intro resolve_loop_ready) (auto intro: nth_mem)
  with 0 show ?case by simp
next
  case (Suc m)
  let ?rest = "[Suc k..<length props] @ again" and ?missing = "missing_at props dependencies k"
  have k: "k < length props" using Suc.hyps(2) by simp
  have queue: "rs_indexToResolve s = k # ?rest" using Suc.prems(1) k by (simp add: upt_conv_Cons)
  obtain deps where deps: "map_of dependencies (prop_name (props ! k)) = Some deps" using known k by (meson nth_mem)
  have missing: "missing_dependencies (rs_resolved s) deps = ?missing" by (simp add: missing_at_def deps Suc.prems(2))
  have names: "rs_resolved s @ [prop_name (props ! k)] = map prop_name (take (Suc k) props)"
    by (simp add: Suc.prems(2) take_Suc_conv_app_nth k)
  obtain s' where s': "resolve_step props dependencies k s = Inr s'" "rs_indexToResolve s' = ?rest @ replicate (length ?missing) k"
    "rs_iterations s' = Suc (rs_iterations s)" "- 1 \<le> rs_lastIndexReduction s'" "rs_lastIndexReduction s' \<le> int (Suc k)"
    "length (rs_indexToResolve s') \<le> rs_lastIndexLength s'"
  proof (cases "?missing = []")
    case True
    have "Suc (length ?rest) \<le> rs_lastIndexLength s" using Suc.prems(7) queue by simp
    from resolve_step_ready [OF deps missing [unfolded True] queue this] Suc.prems(4-6) True that show ?thesis
      by (metis append_Nil2 list.size(3) of_nat_Suc order_trans replicate_0)
  next
    case False
    then have "rs_iterations s + 1 < length props" using last [of k] k Suc.prems(4) by fastforce
    from resolve_step_missing [OF deps missing False queue this] Suc.prems(4-6) that show ?thesis by (metis order_refl)
  qed
  have "resolve_loop props dependencies s' = Inr (rs_executionOrder s' @ [Suc k..<length props] @ (again @ replicate (length ?missing) k)
    @ concat (map (\<lambda>i. replicate (length (missing_at props dependencies i)) i) [Suc k..<length props]))"
    using Suc.hyps(2) Suc.prems s' k resolve_step_queue(2) [OF s'(1) queue] names
    by (intro Suc.hyps(1)) auto
  then show ?case
    using s'(1) resolve_step_queue(1) [OF s'(1) queue] k by (simp add: resolve_loop_Cons [OF queue k] upt_conv_Cons)
qed

section \<open>Facts about the dependencies\<close>

definition starts_with_char :: "char \<Rightarrow> string \<Rightarrow> bool" where
  "starts_with_char c s = (s \<noteq> [] \<and> hd s = c)"

definition depends_on :: "INodeProperties \<Rightarrow> string \<Rightarrow> bool" where
  "depends_on p d = (\<exists>options. prop_display p = Some options \<and> d \<in> set (rule_names options) \<and> \<not> starts_with_char (CHR ''@'') d)"

lemma set_fold_add_dependency:
  "set (fold add_dependency names deps) = set deps \<union> {d \<in> set names. \<not> starts_with_char (CHR ''@'') d}"
  by (induction names arbitrary: deps) (auto simp: add_dependency_def starts_with_char_def)

lemma add_dependencies_lookup:
  "map_of (add_dependencies p dependencies) n =
     (if n = prop_name p
      then Some (let deps = (case map_of dependencies n of None \<Rightarrow> [] | Some deps \<Rightarrow> deps) in
        case prop_display p of None \<Rightarrow> deps | Some d \<Rightarrow> fold add_dependency (rule_names d) deps)
      else map_of dependencies n)"
  by (simp add: add_dependencies_def Let_def obj_set_lookup)

lemma fold_add_dependencies:
  "(case map_of (fold add_dependencies props dependencies) n of
      None \<Rightarrow> map_of dependencies n = None \<and> n \<notin> prop_name ` set props
    | Some deps \<Rightarrow> (n \<in> prop_name ` set props \<or> map_of dependencies n \<noteq> None) \<and>
        set deps = {d. (\<exists>deps. map_of dependencies n = Some deps \<and> d \<in> set deps) \<or> (\<exists>p \<in> set props. prop_name p = n \<and> depends_on p d)})"
proof (induction props arbitrary: dependencies)
  case Nil
  show ?case by (auto split: option.split)
next
  case (Cons p props)
  show ?case
    using Cons.IH [of "add_dependencies p dependencies"]
    by (auto simp: add_dependencies_lookup Let_def set_fold_add_dependency depends_on_def split: option.splits if_splits)
qed

lemma getParameterDependencies_lookup:
  assumes "p \<in> set props"
  obtains deps where "map_of (getParameterDependencies props) (prop_name p) = Some deps"
    "set deps = {d. \<exists>q \<in> set props. prop_name q = prop_name p \<and> depends_on q d}"
  using fold_add_dependencies [where props = props and dependencies = "[]" and n = "prop_name p"] assms that
  by (auto simp: getParameterDependencies_def split: option.splits)

lemma missing_dependencies_empty:
  "missing_dependencies resolved deps = [] \<longleftrightarrow> (\<forall>d \<in> set deps. d \<in> set resolved \<or> starts_with_char (CHR ''/'') d)"
  by (auto simp: missing_dependencies_def starts_with_char_def filter_empty_conv)

text \<open>Every dependency is on the root level, or on a property of another name.\<close>

definition closed_dependencies :: "INodeProperties list \<Rightarrow> bool" where
  "closed_dependencies props \<longleftrightarrow> (\<forall>p \<in> set props. \<forall>d. depends_on p d \<longrightarrow>
     starts_with_char (CHR ''/'') d \<or> d \<in> prop_name ` set props \<and> d \<noteq> prop_name p)"

lemma resolve_order_closed:
  assumes closed: "closed_dependencies props" and dependencies: "dependencies = getParameterDependencies props"
  shows "getParameterResolveOrder props dependencies = Inr ([0..<length props]
    @ concat (map (\<lambda>i. replicate (length (missing_at props dependencies i)) i) [0..<length props]))"
proof -
  have known: "\<forall>p \<in> set props. \<exists>deps. map_of dependencies (prop_name p) = Some deps
      \<and> missing_dependencies (map prop_name props) deps = []"
  proof
    fix p
    assume "p \<in> set props"
    then obtain deps where deps: "map_of dependencies (prop_name p) = Some deps"
      "set deps = {d. \<exists>q \<in> set props. prop_name q = prop_name p \<and> depends_on q d}"
      unfolding dependencies by (rule getParameterDependencies_lookup)
    then have "missing_dependencies (map prop_name props) deps = []"
      using closed unfolding missing_dependencies_empty closed_dependencies_def by auto
    with deps(1) show "\<exists>deps. map_of dependencies (prop_name p) = Some deps
      \<and> missing_dependencies (map prop_name props) deps = []" by blast
  qed
  have last: "missing_at props dependencies i = []" if i: "Suc i = length props" for i
  proof -
    have p: "props ! i \<in> set props" using i by simp
    obtain deps where deps: "map_of dependencies (prop_name (props ! i)) = Some deps"
      "set deps = {d. \<exists>q \<in> set props. prop_name q = prop_name (props ! i) \<and> depends_on q d}"
      unfolding dependencies by (rule getParameterDependencies_lookup [OF p])
    have "props = take i props @ [props ! i]" using i by (metis lessI take_Suc_conv_app_nth take_all_iff order_refl)
    then have "set props = insert (props ! i) (set (take i props))" by (metis list.set(2) rotate1.simps(2) set_rotate1)
    then show ?thesis
      using closed p unfolding missing_at_def deps option.case missing_dependencies_empty closed_dependencies_def deps(2) by (auto, metis)
  qed
  show ?thesis
    unfolding getParameterResolveOrder_def
    by (subst first_pass [OF known last, where k = 0 and again = "[]"]) (simp_all add: initial_resolve_def)
qed

text \<open>With a dependency that no property provides, some index stays queued.\<close>

lemma resolve_loop_stuck:
  assumes "\<forall>index \<in> set (rs_indexToResolve s). index < length props"
    and "\<forall>p \<in> set props. \<exists>deps. map_of dependencies (prop_name p) = Some deps"
    and "set (rs_resolved s) \<subseteq> prop_name ` set props"
    and "i \<in> set (rs_indexToResolve s)" "map_of dependencies (prop_name (props ! i)) = Some deps"
    and "d \<in> set deps" "d \<notin> prop_name ` set props" "\<not> starts_with_char (CHR ''/'') d"
  shows "resolve_loop props dependencies s = Inl (ApplicationError unresolved_message)"
  using assms
proof (induction props dependencies s rule: resolve_loop.induct)
  case (1 props dependencies s)
  then obtain index rest where queue: "rs_indexToResolve s = index # rest" by (cases "rs_indexToResolve s") auto
  have index: "index < length props" using "1.prems"(1) queue by simp
  obtain ds where ds: "map_of dependencies (prop_name (props ! index)) = Some ds" using "1.prems"(2) index by (meson nth_mem)
  show ?case
  proof (cases "resolve_step props dependencies index s")
    case (Inl e)
    then have "e = ApplicationError unresolved_message" by (auto simp: resolve_step_def Let_def ds split: if_splits)
    with Inl show ?thesis by (simp add: resolve_loop_Cons [OF queue index])
  next
    case (Inr s')
    obtain n where n: "rs_indexToResolve s' = rest @ replicate n index" using resolve_step_queue(3) [OF Inr queue] ..
    have again: "i \<in> set (rs_indexToResolve s')"
    proof (cases "i = index")
      case True
      then have "ds = deps" using ds "1.prems"(5) by simp
      then have "missing_dependencies (rs_resolved s) ds \<noteq> []" "ds \<noteq> []"
        using "1.prems"(3,6-8) by (auto simp: missing_dependencies_empty)
      with Inr have "index \<in> set (rs_indexToResolve s')"
        by (auto simp: resolve_step_def Let_def ds resolved_index_def queue map_replicate_const split: if_splits)
      with True show ?thesis by simp
    qed (use "1.prems"(4) queue n in auto)
    have "resolve_loop props dependencies s' = Inl (ApplicationError unresolved_message)"
      using "1.prems" resolve_step_queue(2) [OF Inr queue] index again
      by (intro "1.IH" [OF queue index Inr]) (auto simp: n queue)
    with Inr show ?thesis by (simp add: resolve_loop_Cons [OF queue index])
  qed
qed

lemma resolve_order_unknown:
  assumes "p \<in> set props" "depends_on p d" "d \<notin> prop_name ` set props" "\<not> starts_with_char (CHR ''/'') d"
  shows "getParameterResolveOrder props (getParameterDependencies props) = Inl (ApplicationError unresolved_message)"
proof -
  obtain i where i: "i < length props" "props ! i = p" using assms(1) by (auto simp: in_set_conv_nth)
  from getParameterDependencies_lookup [OF assms(1)] obtain deps where
    "map_of (getParameterDependencies props) (prop_name p) = Some deps" "d \<in> set deps" using assms(1,2) by (metis (mono_tags, lifting) mem_Collect_eq)
  then show ?thesis
    unfolding getParameterResolveOrder_def using i assms(3,4) getParameterDependencies_lookup
    by (intro resolve_loop_stuck [where i = i and deps = deps and d = d]) (auto simp: initial_resolve_def, metis)
qed

section \<open>Facts about displaying\<close>

definition plain_rule :: "string \<times> condition list \<Rightarrow> bool" where
  "plain_rule rule = (\<forall>c \<in> set (snd rule). \<exists>x. c = PlainValue x)"

text \<open>One of the values of the rule's property is one of the values the rule lists.\<close>

definition rule_matches :: "display_env \<Rightarrow> IDataObject \<Rightarrow> IDataObject \<Rightarrow> string \<times> condition list \<Rightarrow> bool" where
  "rule_matches env nodeValues rootValues rule =
     (\<exists>v \<in> set (getPropertyValues env nodeValues (fst rule) rootValues). \<exists>x. PlainValue x \<in> set (snd rule) \<and> same_value v x)"

definition rule_expression :: "display_env \<Rightarrow> IDataObject \<Rightarrow> IDataObject \<Rightarrow> string \<times> condition list \<Rightarrow> bool" where
  "rule_expression env nodeValues rootValues rule = list_ex is_expression (getPropertyValues env nodeValues (fst rule) rootValues)"

definition rules_of :: "display_rule option \<Rightarrow> display_rule" where
  "rules_of rules = (case rules of None \<Rightarrow> [] | Some r \<Rightarrow> r)"

lemma checkConditions_plain:
  assumes "\<forall>c \<in> set conditions. \<exists>x. c = PlainValue x"
  shows "checkConditions env conditions values = Inr (\<exists>v \<in> set values. \<exists>x. PlainValue x \<in> set conditions \<and> same_value v x)"
  using assms unfolding checkConditions_def
  by (induction conditions) (auto simp: list_ex_iff, blast+)

lemma show_rules_plain:
  assumes "\<forall>rule \<in> set rules. plain_rule rule \<and> \<not> rule_expression env nodeValues rootValues rule"
  shows "show_rules env nodeValues rootValues rules =
    Inr (if \<forall>rule \<in> set rules. rule_matches env nodeValues rootValues rule then None else Some False)"
  using assms
proof (induction rules)
  case (Cons rule rules)
  obtain n cs where rule: "rule = (n, cs)" by fastforce
  show ?case
  proof (cases "getPropertyValues env nodeValues n rootValues = []")
    case True
    then show ?thesis by (simp add: rule Let_def rule_matches_def)
  next
    case False
    have "checkConditions env cs (getPropertyValues env nodeValues n rootValues) = Inr (rule_matches env nodeValues rootValues rule)"
      using Cons.prems unfolding rule rule_matches_def by (subst checkConditions_plain) (auto simp: plain_rule_def)
    with Cons False show ?thesis by (simp add: rule Let_def rule_expression_def)
  qed
qed simp

lemma hide_rules_plain:
  assumes "\<forall>rule \<in> set rules. plain_rule rule"
  shows "hide_rules env nodeValues rootValues rules = Inr (\<forall>rule \<in> set rules. \<not> rule_matches env nodeValues rootValues rule)"
  using assms
proof (induction rules)
  case (Cons rule rules)
  obtain n cs where rule: "rule = (n, cs)" by fastforce
  show ?case
  proof (cases "getPropertyValues env nodeValues n rootValues = []")
    case True
    with Cons show ?thesis by (simp add: rule Let_def rule_matches_def)
  next
    case False
    have "checkConditions env cs (getPropertyValues env nodeValues n rootValues) = Inr (rule_matches env nodeValues rootValues rule)"
      using Cons.prems unfolding rule rule_matches_def by (subst checkConditions_plain) (auto simp: plain_rule_def)
    with Cons False show ?thesis by (simp add: rule Let_def)
  qed
qed simp

lemma show_rules_expression:
  assumes "\<forall>rule \<in> set before. plain_rule rule \<and> \<not> rule_expression env nodeValues rootValues rule \<and> rule_matches env nodeValues rootValues rule"
    and "rule_expression env nodeValues rootValues rule"
  shows "show_rules env nodeValues rootValues (before @ rule # after) = Inr (Some True)"
  using assms
proof (induction before)
  case Nil
  then show ?case by (cases rule) (simp add: Let_def rule_expression_def)
next
  case (Cons r before)
  obtain n cs where r: "r = (n, cs)" by fastforce
  have "getPropertyValues env nodeValues n rootValues \<noteq> []" using Cons.prems by (auto simp: r rule_matches_def)
  moreover have "checkConditions env cs (getPropertyValues env nodeValues n rootValues) = Inr True"
    using Cons.prems unfolding r rule_matches_def by (subst checkConditions_plain) (auto simp: plain_rule_def)
  ultimately show ?case using Cons by (simp add: r Let_def rule_expression_def)
qed

text \<open>Where every dependency is closed, the position in the order is the position in the description.\<close>

definition choice_property :: INodeProperties where
  "choice_property = NodeProperties ''resource'' ''options'' None (JStr ''user'') None None"

definition dependent_property :: INodeProperties where
  "dependent_property = NodeProperties ''id'' ''string'' None (JStr '''')
     (Some \<lparr>do_show = Some [(''resource'', [PlainValue (JStr ''user'')])], do_hide = None\<rparr>) None"

definition plain_env :: display_env where
  "plain_env = \<lparr>de_isEqual = (=), de_get = map_of, de_regex = (\<lambda>_ _. Inr False), de_number = (\<lambda>_. None), de_typeVersion = None, de_typeName = None\<rparr>"

text \<open>
  C18: where every property depends on the root level or on properties of other names, the order is
  the order of the description, followed by each property again, once for each of its dependencies that comes
  after it: a property is resolved before the later ones it depends on.
\<close>

theorem parameters_resolve_in_array_order:
  assumes "closed_dependencies props" and "dependencies = getParameterDependencies props"
  shows "getParameterResolveOrder props dependencies = Inr ([0..<length props]
    @ concat (map (\<lambda>i. replicate (length (missing_at props dependencies i)) i) [0..<length props]))"
  using assms by (rule resolve_order_closed)

lemma forward_closed: "closed_dependencies [dependent_property, choice_property]"
  by (auto simp: closed_dependencies_def depends_on_def rule_names_def dependent_property_def choice_property_def)

lemma parameters_resolve_in_array_order_witness:
  "getParameterResolveOrder [dependent_property, choice_property] (getParameterDependencies [dependent_property, choice_property]) = Inr [0, 1, 0]"
proof -
  let ?props = "[dependent_property, choice_property]"
  have "getParameterDependencies ?props = [(''id'', [''resource'']), (''resource'', [])]"
    by (simp add: getParameterDependencies_def add_dependencies_def add_dependency_def Let_def
        rule_names_def dependent_property_def choice_property_def obj_set_def is_index_key_code is_digit_def)
  then have "missing_at ?props (getParameterDependencies ?props) 0 = [''resource'']" "missing_at ?props (getParameterDependencies ?props) 1 = []"
    by (simp_all add: missing_at_def missing_dependencies_def dependent_property_def choice_property_def)
  then show ?thesis
    using parameters_resolve_in_array_order [OF forward_closed refl] by (simp add: upt_conv_Cons)
qed

text \<open>
  C27: a dependency on a name that is neither on the root level nor the name of a property is an error.
\<close>

theorem unknown_dependency_is_rejected:
  assumes "p \<in> set props" "depends_on p d" "d \<notin> prop_name ` set props" "\<not> starts_with_char (CHR ''/'') d"
  shows "getParameterResolveOrder props (getParameterDependencies props) = Inl (ApplicationError unresolved_message)"
  using assms by (rule resolve_order_unknown)

lemma unknown_dependency_is_rejected_witness:
  "getParameterResolveOrder [dependent_property] (getParameterDependencies [dependent_property]) = Inl (ApplicationError unresolved_message)"
  by (rule unknown_dependency_is_rejected [where p = dependent_property and d = "''resource''"])
    (simp_all add: depends_on_def rule_names_def dependent_property_def starts_with_char_def)

lemma displayParameter_rules:
  assumes "prop_display p = Some options" and "r = (case rootValues of None \<Rightarrow> nodeValues | Some r \<Rightarrow> r)"
  shows "displayParameter env nodeValues p rootValues =
    bind_res (show_rules env nodeValues r (rules_of (do_show options)))
      (\<lambda>answer. case answer of Some b \<Rightarrow> Inr b | None \<Rightarrow> hide_rules env nodeValues r (rules_of (do_hide options)))"
  unfolding displayParameter_def display_options_def assms(1) assms(2) [symmetric] rules_of_def option.case by (rule refl)

text \<open>An expression among the values to show displays the property without looking at the rest.\<close>

lemma expression_displays:
  assumes "prop_display p = Some options" and "r = (case rootValues of None \<Rightarrow> nodeValues | Some r \<Rightarrow> r)"
    and "rules_of (do_show options) = before @ rule # after" "rule_expression env nodeValues r rule"
    and "\<forall>q \<in> set before. plain_rule q \<and> \<not> rule_expression env nodeValues r q \<and> rule_matches env nodeValues r q"
  shows "displayParameter env nodeValues p rootValues = Inr True"
  unfolding displayParameter_rules [OF assms(1,2)] assms(3) using show_rules_expression [OF assms(5,4)] by simp



end
