(* ===== verification/NodeParameters.thy ===== *)
theory NodeParameters
  imports NodeDisplay
begin

text \<open>
  The parameters of a node against the properties of its type: \<open>getNodeParameters\<close> of
  \<open>packages/workflow/src/node-helpers.ts\<close>, which fills in the defaults of what is displayed, or
  leaves out what has its default.
\<close>

section \<open>Values\<close>

text \<open>\<open>Object.keys\<close> with the values: arrays and strings have their indices.\<close>

fun own_entries :: "json \<Rightarrow> (string \<times> json) list" where
  "own_entries (JObj kv) = kv"
| "own_entries (JArr xs) = zip (map dec_str [0..<length xs]) xs"
| "own_entries (JStr s) = zip (map dec_str [0..<length s]) (map (\<lambda>c. JStr [c]) s)"
| "own_entries _ = []"

fun iterated :: "json \<Rightarrow> json list res" where
  "iterated (JArr xs) = Inr xs"
| "iterated (JStr s) = Inr (map (\<lambda>c. JStr [c]) s)"
| "iterated _ = Inl TypeError"

definition truthy_value :: "json option \<Rightarrow> bool" where
  "truthy_value v = (case v of None \<Rightarrow> False | Some x \<Rightarrow> json_truthy x)"

fun is_object_type :: "json \<Rightarrow> bool" where
  "is_object_type JNull = True"
| "is_object_type (JArr _) = True"
| "is_object_type (JObj _) = True"
| "is_object_type _ = False"

text \<open>A value of which a field is read; of \<open>null\<close> and of what is absent it is not asked.\<close>

definition value_field :: "json option \<Rightarrow> string \<Rightarrow> json option" where
  "value_field v k = (case v of None \<Rightarrow> None | Some x \<Rightarrow> field_of x k)"

section \<open>State of the loop\<close>

record params_options =
  po_onlySimpleTypes :: bool
  po_dataIsResolved :: bool
  po_nodeValuesRoot :: "IDataObject option"
  po_parentType :: "string option"
  po_parameterDependencies :: "(string \<times> string list) list option"

text \<open>\<open>ps_returned\<close> holds the values of a \<open>return\<close> from within the loop.\<close>

record params_state =
  ps_nodeParameters :: IDataObject
  ps_nodeParametersFull :: IDataObject
  ps_returned :: "IDataObject option"

definition initial_params :: params_state where
  "initial_params = \<lparr>ps_nodeParameters = [], ps_nodeParametersFull = [], ps_returned = None\<rparr>"

definition set_param :: "string \<Rightarrow> json \<Rightarrow> params_state \<Rightarrow> params_state" where
  "set_param name v st = st\<lparr>ps_nodeParameters := obj_set name v (ps_nodeParameters st),
     ps_nodeParametersFull := obj_set name v (ps_nodeParametersFull st)\<rparr>"

text \<open>The names that more than one property has.\<close>

definition duplicateParameterNames :: "INodeProperties list \<Rightarrow> string list" where
  "duplicateParameterNames props =
     fst (fold (\<lambda>p (duplicates, names).
       if prop_name p \<in> set names then (if prop_name p \<in> set duplicates then duplicates else duplicates @ [prop_name p], names)
       else (duplicates, names @ [prop_name p])) props ([], []))"

text \<open>Without a display check of its own, the one that is checked is the object being filled.\<close>

definition check_values :: "IDataObject option \<Rightarrow> params_state \<Rightarrow> IDataObject" where
  "check_values displayCheck st = (case displayCheck of None \<Rightarrow> ps_nodeParametersFull st | Some c \<Rightarrow> c)"

definition root_values :: "params_options \<Rightarrow> IDataObject option \<Rightarrow> params_state \<Rightarrow> IDataObject" where
  "root_values opts displayCheck st = (case po_nodeValuesRoot opts of None \<Rightarrow> check_values displayCheck st | Some r \<Rightarrow> r)"

definition is_displayed :: "display_env \<Rightarrow> params_options \<Rightarrow> IDataObject option \<Rightarrow> INodeProperties \<Rightarrow> params_state \<Rightarrow> bool res" where
  "is_displayed env opts displayCheck p st =
     displayParameter env (check_values displayCheck st) p (Some (root_values opts displayCheck st))"

section \<open>Simple properties\<close>

definition is_simple :: "INodeProperties \<Rightarrow> bool" where
  "is_simple p = (prop_type p \<noteq> ''collection'' \<and> prop_type p \<noteq> ''fixedCollection'')"

text \<open>The value with the default filled in; \<open>false\<close> and \<open>0\<close> are values, \<open>null\<close> is one for some types only.\<close>

definition filled_value :: "INodeProperties \<Rightarrow> json option \<Rightarrow> json" where
  "filled_value p v =
     (if prop_type p \<in> {''boolean'', ''number'', ''options''} then (case v of Some x \<Rightarrow> x | None \<Rightarrow> prop_default p)
      else if prop_type p = ''resourceLocator'' \<and> is_object_type (prop_default p) then
        (case v of Some x \<Rightarrow> x
         | None \<Rightarrow> JObj (fold (\<lambda>(k, x). obj_set k x) (own_entries (prop_default p)) [(''__rl'', JBool True)]))
      else (case v of Some x \<Rightarrow> if x = JNull then prop_default p else x | None \<Rightarrow> prop_default p))"

definition differs_from_default :: "display_env \<Rightarrow> INodeProperties \<Rightarrow> json \<Rightarrow> bool" where
  "differs_from_default env p x =
     ((\<not> is_object_type x \<and> x \<noteq> prop_default p) \<or> (is_object_type x \<and> \<not> de_isEqual env (Some x) (Some (prop_default p))))"

definition set_simple :: "display_env \<Rightarrow> INodeProperties \<Rightarrow> json option \<Rightarrow> bool \<Rightarrow> string option \<Rightarrow> params_state \<Rightarrow> params_state" where
  "set_simple env p v returnDefaults parentType st =
     (if returnDefaults then set_param (prop_name p) (filled_value p v) st
      else case v of
        None \<Rightarrow> st
      | Some x \<Rightarrow> if differs_from_default env p x \<or> parentType = Some ''collection'' then set_param (prop_name p) x st else st)"

definition simple_property ::
  "display_env \<Rightarrow> INodeProperties list \<Rightarrow> json option \<Rightarrow> bool \<Rightarrow> params_options \<Rightarrow> IDataObject option \<Rightarrow> INodeProperties \<Rightarrow> params_state
    \<Rightarrow> params_state res" where
  "simple_property env props v returnDefaults opts displayCheck p st =
     bind_res (if prop_name p \<in> set (duplicateParameterNames props) then is_displayed env opts displayCheck p st else Inr True)
       (\<lambda>shown. Inr (if shown then set_simple env p v returnDefaults (po_parentType opts) st else st))"

section \<open>Collections\<close>

definition sub_properties :: "property_option list \<Rightarrow> INodeProperties list" where
  "sub_properties options = concat (map (\<lambda>opt. case opt of SubProperty p \<Rightarrow> [p] | _ \<Rightarrow> []) options)"

fun option_name :: "property_option \<Rightarrow> string" where
  "option_name (PropertyOption n) = n"
| "option_name (SubProperty p) = prop_name p"
| "option_name (PropertyCollection n _) = n"

text \<open>The properties of the option of that name, if there is one.\<close>

definition option_values :: "INodeProperties \<Rightarrow> string \<Rightarrow> INodeProperties list option res" where
  "option_values p itemName =
     (case prop_options p of
        None \<Rightarrow> Inl TypeError
      | Some options \<Rightarrow> (case find (\<lambda>opt. option_name opt = itemName) options of
            None \<Rightarrow> Inr None
          | Some (PropertyCollection _ ps) \<Rightarrow> Inr (Some ps)
          | Some _ \<Rightarrow> Inl TypeError))"

definition collection_default :: "INodeProperties \<Rightarrow> json option \<Rightarrow> bool \<Rightarrow> params_state \<Rightarrow> params_state" where
  "collection_default p v returnDefaults st =
     (case v of
        Some x \<Rightarrow> set_param (prop_name p) x st
      | None \<Rightarrow> if returnDefaults then set_param (prop_name p) (case prop_default p of JArr xs \<Rightarrow> JArr xs | _ \<Rightarrow> JArr []) st else st)"

definition property_values :: "INodeProperties \<Rightarrow> json option \<Rightarrow> bool \<Rightarrow> json option" where
  "property_values p v returnDefaults = (case v of Some x \<Rightarrow> Some x | None \<Rightarrow> if returnDefaults then Some (prop_default p) else None)"

definition value_entries :: "json option \<Rightarrow> (string \<times> json) list" where
  "value_entries v = (case v of Some x \<Rightarrow> if json_truthy x then own_entries x else [] | None \<Rightarrow> [])"

definition keeps_empty_value :: "INodeProperties \<Rightarrow> json option \<Rightarrow> bool \<Rightarrow> bool" where
  "keeps_empty_value p propertyValues returnDefaults =
     (\<not> returnDefaults \<and> prop_multiple p = Some False \<and> truthy_value propertyValues \<and> value_entries propertyValues = [])"

definition finish_fixed :: "INodeProperties \<Rightarrow> json option \<Rightarrow> bool \<Rightarrow> IDataObject \<Rightarrow> params_state \<Rightarrow> params_state" where
  "finish_fixed p propertyValues returnDefaults collectionValues st =
     (let st1 =
        (if \<not> returnDefaults \<and> prop_multiple p = Some False \<and> collectionValues = []
            \<and> (case propertyValues of Some (JObj kv) \<Rightarrow> kv \<noteq> [] | _ \<Rightarrow> False)
         then st\<lparr>ps_nodeParameters := obj_set (prop_name p) (JObj (map (\<lambda>(k, _). (k, JObj [])) (value_entries propertyValues))) (ps_nodeParameters st)\<rparr>
         else st)
      in if collectionValues \<noteq> [] \<or> returnDefaults then set_param (prop_name p) (JObj collectionValues) st1 else st1)"

text \<open>A value that is not a property's is skipped.\<close>

definition skips_value :: "json option \<Rightarrow> json option \<Rightarrow> bool \<Rightarrow> params_options \<Rightarrow> bool" where
  "skips_value nodeValues v returnDefaults opts =
     (\<not> truthy_value nodeValues \<or> v = None \<and> (\<not> returnDefaults \<or> po_parentType opts = Some ''collection''))"

definition child_options :: "IDataObject \<Rightarrow> INodeProperties \<Rightarrow> params_options" where
  "child_options rootValues p = \<lparr>po_onlySimpleTypes = False, po_dataIsResolved = False, po_nodeValuesRoot = Some rootValues,
     po_parentType = Some (prop_type p), po_parameterDependencies = None\<rparr>"

definition check_options :: "params_options \<Rightarrow> (string \<times> string list) list \<Rightarrow> params_options" where
  "check_options opts dependencies = opts\<lparr>po_onlySimpleTypes := True, po_dataIsResolved := True, po_parameterDependencies := Some dependencies\<rparr>"

definition missing_option_message :: string where
  "missing_option_message = ''Could not find property option''"

section \<open>Sizes, for the recursion\<close>

lemma size_nth_property: "i < length props \<Longrightarrow> size (props ! i) \<le> size_list size (props :: INodeProperties list)"
  using size_list_estimation' [OF nth_mem order_refl, where f = size] by blast

lemma size_options: "prop_options p = Some options \<Longrightarrow> size_list size options < size p"
  by (cases p) simp

lemma size_sub_properties: "size_list size (sub_properties options) \<le> size_list size options"
  by (induction options) (auto simp: sub_properties_def split: property_option.split)

lemma size_option_values: "option_values p n = Inr (Some ps) \<Longrightarrow> size_list size ps < size p"
proof -
  assume "option_values p n = Inr (Some ps)"
  then obtain options m where "prop_options p = Some options" "PropertyCollection m ps \<in> set options"
    by (auto simp: option_values_def find_Some_iff split: option.splits property_option.splits) (metis nth_mem)
  then have "size (PropertyCollection m ps) \<le> size_list size options" "size_list size options < size p"
    by (simp_all add: size_list_estimation' size_options)
  then show ?thesis by simp
qed

section \<open>The function\<close>

text \<open>
  The values to check the display rules with come from a first run, over the simple properties only; then the properties
  are visited in their order. The calls for the parts of a collection take the values to check as their root.
\<close>

function getNodeParameters ::
  "display_env \<Rightarrow> INodeProperties list \<Rightarrow> json option \<Rightarrow> bool \<Rightarrow> bool \<Rightarrow> params_options \<Rightarrow> IDataObject res" where
  "getNodeParameters env props nodeValues returnDefaults returnNoneDisplayed opts =
     (let dependencies = (case po_parameterDependencies opts of None \<Rightarrow> getParameterDependencies props | Some d \<Rightarrow> d) in
      bind_res
        (if \<not> po_dataIsResolved opts \<and> \<not> returnNoneDisplayed
         then bind_res (getNodeParameters env props nodeValues True True (check_options opts dependencies)) (\<lambda>c. Inr (Some c))
         else Inr None) (\<lambda>displayCheck.
      bind_res (getParameterResolveOrder props dependencies) (\<lambda>order.
      bind_res
        (fold_res (\<lambda>i st.
          let p = props ! i; v = value_field nodeValues (prop_name p); rootValues = root_values opts displayCheck st in
          if ps_returned st \<noteq> None \<or> skips_value nodeValues v returnDefaults opts then Inr st
          else
            bind_res (if returnNoneDisplayed then Inr True else is_displayed env opts displayCheck p st) (\<lambda>shown.
              if \<not> shown then Inr st
              else if is_simple p then simple_property env props v returnDefaults opts displayCheck p st
              else if po_onlySimpleTypes opts then Inr st
              else if prop_type p = ''collection'' then
                (if prop_multiple p = Some True then Inr (collection_default p v returnDefaults st)
                 else (case v of
                     Some x \<Rightarrow> (case prop_options p of
                         None \<Rightarrow> Inl TypeError
                       | Some options \<Rightarrow>
                           bind_res (getNodeParameters env (sub_properties options) (Some x) returnDefaults returnNoneDisplayed (child_options rootValues p))
                             (\<lambda>temp. Inr (set_param (prop_name p) (JObj temp) st)))
                   | None \<Rightarrow> Inr (if returnDefaults then set_param (prop_name p) (prop_default p) st else st)))
              else
                let propertyValues = property_values p v returnDefaults in
                if keeps_empty_value p propertyValues returnDefaults
                then Inr (st\<lparr>ps_returned := (case nodeValues of Some (JObj kv) \<Rightarrow> Some kv | _ \<Rightarrow> Some [])\<rparr>)
                else
                  bind_res
                    (fold_res (\<lambda>entry collectionValues.
                      if prop_multiple p = Some True then
                        bind_res (iterated (snd entry)) (\<lambda>items.
                        bind_res
                          (fold_res (\<lambda>nodeValue tempArrayValue.
                            bind_res (option_values p (fst entry)) (\<lambda>found. case found of
                                None \<Rightarrow> Inl (ApplicationError missing_option_message)
                              | Some ps \<Rightarrow>
                                  bind_res (getNodeParameters env ps (Some nodeValue) returnDefaults returnNoneDisplayed (child_options rootValues p))
                                    (\<lambda>temp. Inr (tempArrayValue @ [JObj temp])))) items [])
                          (\<lambda>tempArrayValue. Inr (obj_set (fst entry) (JArr tempArrayValue) collectionValues)))
                      else
                        bind_res (option_values p (fst entry)) (\<lambda>found. case found of
                            None \<Rightarrow> Inr collectionValues
                          | Some ps \<Rightarrow> (case v of
                                None \<Rightarrow> Inl TypeError
                              | Some x \<Rightarrow>
                                  bind_res (getNodeParameters env ps (map_of (own_entries x) (fst entry)) returnDefaults returnNoneDisplayed (child_options rootValues p))
                                    (\<lambda>temp. Inr (if temp = [] then collectionValues else obj_set (fst entry) (JObj temp) collectionValues)))))
                      (value_entries propertyValues) [])
                    (\<lambda>collectionValues. Inr (finish_fixed p propertyValues returnDefaults collectionValues st))))
          order initial_params)
        (\<lambda>st. Inr (case ps_returned st of Some values \<Rightarrow> values | None \<Rightarrow> ps_nodeParameters st)))))"
  by pat_completeness auto
termination
proof (relation "measures [\<lambda>(env, props, nodeValues, returnDefaults, returnNoneDisplayed, opts). size_list size props,
    \<lambda>(env, props, nodeValues, returnDefaults, returnNoneDisplayed, opts). if po_dataIsResolved opts then 0 else (1 :: nat)]", goal_cases)
  case (2 env props nodeValues returnDefaults returnNoneDisplayed opts)
  then show ?case by (simp add: check_options_def)
qed (auto dest!: resolve_order_indices size_options size_option_values
  intro: le_less_trans [OF size_sub_properties] less_le_trans [OF _ size_nth_property])

declare getNodeParameters.simps [simp del]

section \<open>Simple properties of different names\<close>

definition plain_properties :: "INodeProperties list \<Rightarrow> bool" where
  "plain_properties props \<longleftrightarrow> distinct (map prop_name props) \<and> (\<forall>p \<in> set props. is_simple p)"

text \<open>What a visit of a simple property sets it to, if anything; it is the same whatever was set before.\<close>

definition outcome ::
  "display_env \<Rightarrow> json option \<Rightarrow> bool \<Rightarrow> bool \<Rightarrow> params_options \<Rightarrow> IDataObject \<Rightarrow> INodeProperties \<Rightarrow> json option res" where
  "outcome env nodeValues returnDefaults returnNoneDisplayed opts displayCheck p =
     (let v = value_field nodeValues (prop_name p) in
      if skips_value nodeValues v returnDefaults opts then Inr None
      else
        bind_res
          (if returnNoneDisplayed then Inr True
           else displayParameter env displayCheck p (Some (case po_nodeValuesRoot opts of None \<Rightarrow> displayCheck | Some r \<Rightarrow> r)))
          (\<lambda>shown. Inr (
            if \<not> shown then None
            else if returnDefaults then Some (filled_value p v)
            else case v of
              None \<Rightarrow> None
            | Some x \<Rightarrow> if differs_from_default env p x \<or> po_parentType opts = Some ''collection'' then Some x else None)))"

definition put_outcome :: "INodeProperties \<Rightarrow> json option \<Rightarrow> params_state \<Rightarrow> params_state" where
  "put_outcome p v st = (case v of None \<Rightarrow> st | Some x \<Rightarrow> set_param (prop_name p) x st)"

lemma put_outcome_simps [simp]:
  "ps_returned (put_outcome p v st) = ps_returned st"
  "map_of (ps_nodeParameters (put_outcome p v st)) n =
     (if n = prop_name p then (case v of None \<Rightarrow> map_of (ps_nodeParameters st) n | Some x \<Rightarrow> Some x) else map_of (ps_nodeParameters st) n)"
  by (auto simp: put_outcome_def set_param_def obj_set_lookup split: option.split)

lemma fold_duplicates:
  "distinct (map prop_name props) \<Longrightarrow> set names \<inter> prop_name ` set props = {} \<Longrightarrow>
    fst (fold (\<lambda>p (duplicates, names).
      if prop_name p \<in> set names then (if prop_name p \<in> set duplicates then duplicates else duplicates @ [prop_name p], names)
      else (duplicates, names @ [prop_name p])) props (duplicates, names)) = duplicates"
  by (induction props arbitrary: names) auto

lemma no_duplicates: "plain_properties props \<Longrightarrow> duplicateParameterNames props = []"
  by (simp add: duplicateParameterNames_def plain_properties_def fold_duplicates)

lemma bind_res_assoc: "bind_res (bind_res m f) g = bind_res m (\<lambda>x. bind_res (f x) g)"
  by (cases m) simp_all

lemma fold_res_outcomes:
  assumes "\<And>i st. i \<in> set order \<Longrightarrow> ps_returned st = None \<Longrightarrow> f i st = bind_res (a i) (\<lambda>v. Inr (put_outcome (props ! i) v st))"
    and "ps_returned st = None"
  shows "fold_res f order st = Inr st' \<longleftrightarrow> (\<exists>g. (\<forall>i \<in> set order. a i = Inr (g i)) \<and> st' = fold (\<lambda>i. put_outcome (props ! i) (g i)) order st)"
  using assms
proof (induction order arbitrary: st)
  case (Cons i order)
  have step: "f i st = bind_res (a i) (\<lambda>v. Inr (put_outcome (props ! i) v st))" using Cons.prems by simp
  show ?case
  proof (cases "a i")
    case (Inr v)
    have "fold_res f order (put_outcome (props ! i) v st) = Inr st' \<longleftrightarrow>
      (\<exists>g. (\<forall>i \<in> set order. a i = Inr (g i)) \<and> st' = fold (\<lambda>i. put_outcome (props ! i) (g i)) order (put_outcome (props ! i) v st))"
      using Cons.prems by (intro Cons.IH) simp_all
    also have "\<dots> \<longleftrightarrow> (\<exists>g. (\<forall>j \<in> set (i # order). a j = Inr (g j)) \<and> st' = fold (\<lambda>i. put_outcome (props ! i) (g i)) (i # order) st)"
    proof
      assume "\<exists>g. (\<forall>i \<in> set order. a i = Inr (g i)) \<and> st' = fold (\<lambda>i. put_outcome (props ! i) (g i)) order (put_outcome (props ! i) v st)"
      then obtain g where g: "\<forall>i \<in> set order. a i = Inr (g i)"
        "st' = fold (\<lambda>i. put_outcome (props ! i) (g i)) order (put_outcome (props ! i) v st)" by blast
      have "fold (\<lambda>j. put_outcome (props ! j) ((g(i := v)) j)) order st1 = fold (\<lambda>j. put_outcome (props ! j) (g j)) order st1" for st1
        using g(1) Inr by (intro fold_cong) auto
      with g Inr show "\<exists>g. (\<forall>j \<in> set (i # order). a j = Inr (g j)) \<and> st' = fold (\<lambda>i. put_outcome (props ! i) (g i)) (i # order) st"
        by (intro exI [of _ "g(i := v)"]) auto
    qed (use Inr in auto)
    finally show ?thesis using Inr step by simp
  qed (auto simp: step)
qed auto

lemma fold_put_outcome:
  assumes "distinct (map prop_name props)" "set order \<subseteq> {..<length props}" "j < length props"
  shows "map_of (ps_nodeParameters (fold (\<lambda>i. put_outcome (props ! i) (g i)) order st)) (prop_name (props ! j)) =
    (if j \<in> set order then (case g j of None \<Rightarrow> map_of (ps_nodeParameters st) (prop_name (props ! j)) | Some x \<Rightarrow> Some x)
     else map_of (ps_nodeParameters st) (prop_name (props ! j)))"
  using assms(2)
proof (induction order arbitrary: st)
  case (Cons i order)
  then have "prop_name (props ! j) = prop_name (props ! i) \<longleftrightarrow> i = j"
    using assms(1,3) nth_eq_iff_index_eq [OF assms(1), of i j] by auto
  with Cons show ?case by (auto split: option.split)
qed simp

lemma fold_put_returned: "ps_returned (fold (\<lambda>i. put_outcome (props ! i) (g i)) order st) = ps_returned st"
  by (induction order arbitrary: st) simp_all

lemma fold_put_other:
  "n \<notin> prop_name ` set props \<Longrightarrow> set order \<subseteq> {..<length props} \<Longrightarrow>
    map_of (ps_nodeParameters (fold (\<lambda>i. put_outcome (props ! i) (g i)) order st)) n = map_of (ps_nodeParameters st) n"
  by (induction order arbitrary: st) auto

lemma bind_fold_outcomes:
  assumes "\<And>i st. i \<in> set order \<Longrightarrow> ps_returned st = None \<Longrightarrow> f i st = bind_res (a i) (\<lambda>v. Inr (put_outcome (props ! i) v st))"
  shows "bind_res (fold_res f order initial_params)
      (\<lambda>st. Inr (case ps_returned st of Some values \<Rightarrow> values | None \<Rightarrow> ps_nodeParameters st)) = Inr out \<longleftrightarrow>
    (\<exists>g. (\<forall>i \<in> set order. a i = Inr (g i))
      \<and> out = ps_nodeParameters (fold (\<lambda>i. put_outcome (props ! i) (g i)) order initial_params))"
    (is "bind_res ?loop ?final = _ \<longleftrightarrow> (\<exists>g. ?all g \<and> out = ps_nodeParameters (?run g))")
proof -
  have none: "ps_returned initial_params = None" by (simp add: initial_params_def)
  have loop: "?loop = Inr st' \<longleftrightarrow> (\<exists>g. ?all g \<and> st' = ?run g)" for st'
    by (rule fold_res_outcomes [OF assms none])
  have final: "?final (?run g) = Inr (ps_nodeParameters (?run g))" for g
    by (simp add: fold_put_returned none)
  show ?thesis
  proof
    assume "bind_res ?loop ?final = Inr out"
    then obtain st' where "?loop = Inr st'" "?final st' = Inr out" unfolding bind_res_Inr_iff by blast
    moreover from this(1) obtain g where "?all g" "st' = ?run g" unfolding loop by (elim exE conjE)
    ultimately have "?all g \<and> out = ps_nodeParameters (?run g)" by (simp add: fold_put_returned none)
    then show "\<exists>g. ?all g \<and> out = ps_nodeParameters (?run g)" by (intro exI [of _ g])
  next
    assume "\<exists>g. ?all g \<and> out = ps_nodeParameters (?run g)"
    then obtain g where g: "?all g" "out = ps_nodeParameters (?run g)" by blast
    have "?loop = Inr (?run g)" using loop [of "?run g"] g(1) by blast
    with g(2) final show "bind_res ?loop ?final = Inr out" by simp
  qed
qed

lemma outcome_step:
  assumes plain: "plain_properties props" "p \<in> set props" and check: "displayCheck = Some c \<or> returnNoneDisplayed"
    and "ps_returned st = None"
  shows "(let v = value_field nodeValues (prop_name p) in
      if ps_returned st \<noteq> None \<or> skips_value nodeValues v returnDefaults opts then Inr st
      else bind_res (if returnNoneDisplayed then Inr True else is_displayed env opts displayCheck p st) (\<lambda>shown.
        if \<not> shown then Inr st
        else if is_simple p then simple_property env props v returnDefaults opts displayCheck p st
        else rest v shown))
    = bind_res (outcome env nodeValues returnDefaults returnNoneDisplayed opts c p) (\<lambda>v. Inr (put_outcome p v st))"
proof -
  have simple: "is_simple p" "duplicateParameterNames props = []" using plain no_duplicates by (auto simp: plain_properties_def)
  have shown: "\<not> returnNoneDisplayed \<Longrightarrow> is_displayed env opts displayCheck p st =
    displayParameter env c p (Some (case po_nodeValuesRoot opts of None \<Rightarrow> c | Some r \<Rightarrow> r))"
    using check by (auto simp: is_displayed_def check_values_def root_values_def split: option.split)
  let ?v = "value_field nodeValues (prop_name p)"
  have set: "simple_property env props ?v returnDefaults opts displayCheck p st =
    Inr (put_outcome p (if returnDefaults then Some (filled_value p ?v) else case ?v of None \<Rightarrow> None
      | Some x \<Rightarrow> if differs_from_default env p x \<or> po_parentType opts = Some ''collection'' then Some x else None) st)"
    by (simp add: simple_property_def simple set_simple_def put_outcome_def split: option.split)
  show ?thesis
  proof (cases "skips_value nodeValues ?v returnDefaults opts")
    case True
    then show ?thesis by (simp add: outcome_def Let_def put_outcome_def)
  next
    case False
    let ?shown = "if returnNoneDisplayed then Inr True
      else displayParameter env c p (Some (case po_nodeValuesRoot opts of None \<Rightarrow> c | Some r \<Rightarrow> r))"
    have same: "(if returnNoneDisplayed then Inr True else is_displayed env opts displayCheck p st) = ?shown" by (simp add: shown)
    have none: "put_outcome p None st = st" by (simp add: put_outcome_def)
    show ?thesis
    proof (cases ?shown)
      case (Inr b)
      with False assms(4) show ?thesis unfolding outcome_def Let_def same set by (cases b) (simp_all add: simple(1) set none)
    qed (use False assms(4) in \<open>simp add: outcome_def Let_def same\<close>)
  qed
qed

text \<open>A run over plain properties: it returns if every outcome does, and sets what they say.\<close>

lemma getNodeParameters_plain:
  assumes plain: "plain_properties props"
    and order: "getParameterResolveOrder props (case po_parameterDependencies opts of None \<Rightarrow> getParameterDependencies props | Some d \<Rightarrow> d) = Inr order"
    and check: "\<not> returnNoneDisplayed \<Longrightarrow> \<not> po_dataIsResolved opts \<and> getNodeParameters env props nodeValues True True
      (check_options opts (case po_parameterDependencies opts of None \<Rightarrow> getParameterDependencies props | Some d \<Rightarrow> d)) = Inr c"
  shows "getNodeParameters env props nodeValues returnDefaults returnNoneDisplayed opts = Inr out \<longleftrightarrow>
    (\<exists>g. (\<forall>i \<in> set order. outcome env nodeValues returnDefaults returnNoneDisplayed opts c (props ! i) = Inr (g i))
      \<and> out = ps_nodeParameters (fold (\<lambda>i. put_outcome (props ! i) (g i)) order initial_params))"
proof -
  let ?deps = "case po_parameterDependencies opts of None \<Rightarrow> getParameterDependencies props | Some d \<Rightarrow> d"
  obtain displayCheck where displayCheck: "(if \<not> po_dataIsResolved opts \<and> \<not> returnNoneDisplayed
      then bind_res (getNodeParameters env props nodeValues True True (check_options opts ?deps)) (\<lambda>c. Inr (Some c)) else Inr None) = Inr displayCheck"
    "displayCheck = Some c \<or> returnNoneDisplayed"
    using check by (cases returnNoneDisplayed) auto
  have inside: "i \<in> set order \<Longrightarrow> props ! i \<in> set props" for i using resolve_order_indices [OF order] by simp
  show ?thesis
    by (subst getNodeParameters.simps, unfold Let_def [of ?deps] displayCheck(1) order bind_res_simps)
      (rule bind_fold_outcomes, unfold Let_def [of "_ ! _"], rule trans [OF _ outcome_step [OF plain inside displayCheck(2)]], simp_all add: Let_def)
qed

section \<open>What is stored and what it stands for\<close>

definition no_options :: params_options where
  "no_options = \<lparr>po_onlySimpleTypes = False, po_dataIsResolved = False, po_nodeValuesRoot = None, po_parentType = None,
     po_parameterDependencies = None\<rparr>"

text \<open>A rule looks at the version, the kind of the node, or a property that is always displayed.\<close>

definition rule_path :: "string \<Rightarrow> string" where
  "rule_path n = (if n \<noteq> [] \<and> hd n = CHR ''/'' then tl n else n)"

definition shallow_rules :: "INodeProperties list \<Rightarrow> bool" where
  "shallow_rules props \<longleftrightarrow> (\<forall>p \<in> set props. \<forall>options. prop_display p = Some options \<longrightarrow> (\<forall>n \<in> set (rule_names options).
     n \<in> {''@version'', ''@tool''} \<or> (\<exists>q \<in> set props. prop_display q = None \<and> rule_path n = prop_name q)))"

definition default_where_equal :: "display_env \<Rightarrow> INodeProperties list \<Rightarrow> IDataObject \<Rightarrow> bool" where
  "default_where_equal env props kv \<longleftrightarrow>
     (\<forall>p \<in> set props. \<forall>x. map_of kv (prop_name p) = Some x \<longrightarrow> de_isEqual env (Some x) (Some (prop_default p)) \<longrightarrow> x = prop_default p)"

definition lookup_by_name :: "display_env \<Rightarrow> INodeProperties list \<Rightarrow> bool" where
  "lookup_by_name env props \<longleftrightarrow> (\<forall>p \<in> set props. \<forall>kv. de_get env kv (prop_name p) = map_of kv (prop_name p))"

definition plain_locators :: "INodeProperties list \<Rightarrow> bool" where
  "plain_locators props \<longleftrightarrow> (\<forall>p \<in> set props. prop_type p = ''resourceLocator'' \<longrightarrow> \<not> is_object_type (prop_default p))"

lemma shallow_closed:
  assumes "plain_properties props" "shallow_rules props"
  shows "closed_dependencies props"
  unfolding closed_dependencies_def
proof (intro ballI allI impI)
  fix p d
  assume p: "p \<in> set props" "depends_on p d"
  then obtain options where options: "prop_display p = Some options" "d \<in> set (rule_names options)" "\<not> starts_with_char (CHR ''@'') d"
    by (auto simp: depends_on_def)
  then have "d \<notin> {''@version'', ''@tool''}" by (auto simp: starts_with_char_def)
  then obtain q where q: "q \<in> set props" "prop_display q = None" "rule_path d = prop_name q"
    using assms(2) p(1) options unfolding shallow_rules_def by blast
  have "prop_name q \<noteq> prop_name p"
    using assms(1) p(1) q options(1) by (auto simp: plain_properties_def distinct_map dest: inj_onD)
  with q show "starts_with_char (CHR ''/'') d \<or> d \<in> prop_name ` set props \<and> d \<noteq> prop_name p"
    by (auto simp: rule_path_def starts_with_char_def split: if_splits)
qed

text \<open>The values the display rules are checked with: every property, with its value or its default.\<close>

lemma check_run:
  assumes "plain_properties props" "closed_dependencies props" "dependencies = getParameterDependencies props"
  obtains c where "getNodeParameters env props (Some (JObj kv)) True True (check_options no_options dependencies) = Inr c"
    and "\<And>p. p \<in> set props \<Longrightarrow> map_of c (prop_name p) = Some (filled_value p (map_of kv (prop_name p)))"
proof -
  obtain order where order: "getParameterResolveOrder props dependencies = Inr order"
    using resolve_order_closed [OF assms(2,3)] by blast
  let ?g = "\<lambda>i. Some (filled_value (props ! i) (map_of kv (prop_name (props ! i))))"
  let ?c = "ps_nodeParameters (fold (\<lambda>i. put_outcome (props ! i) (?g i)) order initial_params)"
  have outcome: "outcome env (Some (JObj kv)) True True (check_options no_options dependencies) c p = Inr (Some (filled_value p (map_of kv (prop_name p))))"
    for c p by (simp add: outcome_def Let_def skips_value_def truthy_value_def check_options_def no_options_def value_field_def field_of_def)
  have "getNodeParameters env props (Some (JObj kv)) True True (check_options no_options dependencies) = Inr ?c"
    using order by (subst getNodeParameters_plain [OF assms(1)]) (auto simp: check_options_def outcome [unfolded check_options_def] intro!: exI [of _ ?g])
  moreover have "map_of ?c (prop_name p) = Some (filled_value p (map_of kv (prop_name p)))" if "p \<in> set props" for p
  proof -
    from that obtain j where j: "j < length props" "p = props ! j" by (auto simp: in_set_conv_nth)
    show ?thesis
      using assms(1) resolve_order_indices [OF order] j fold_put_outcome [of props order j ?g]
      by (simp add: plain_properties_def)
  qed
  ultimately show ?thesis by (rule that)
qed

text \<open>Two sets of values that agree on the properties the rules look at display the same.\<close>

lemma displayParameter_cong:
  assumes "\<And>options n. prop_display p = Some options \<Longrightarrow> n \<in> set (rule_names options) \<Longrightarrow>
      getPropertyValues env c n c = getPropertyValues env d n d"
  shows "displayParameter env c p (Some c) = displayParameter env d p (Some d)"
proof (cases "prop_display p")
  case (Some options)
  have show_same: "\<forall>n \<in> set (keys_of rules). getPropertyValues env c n c = getPropertyValues env d n d \<Longrightarrow>
    show_rules env c c rules = show_rules env d d rules" for rules
    by (induction rules) (auto simp: Let_def intro!: bind_res_cong)
  have hide_same: "\<forall>n \<in> set (keys_of rules). getPropertyValues env c n c = getPropertyValues env d n d \<Longrightarrow>
    hide_rules env c c rules = hide_rules env d d rules" for rules
    by (induction rules) (auto simp: Let_def intro!: bind_res_cong)
  have rule: "n \<in> set (rule_names options) \<Longrightarrow> getPropertyValues env c n c = getPropertyValues env d n d" for n
    by (rule assms [OF Some])
  have "show_rules env c c (case do_show options of None \<Rightarrow> [] | Some r \<Rightarrow> r) = show_rules env d d (case do_show options of None \<Rightarrow> [] | Some r \<Rightarrow> r)"
    by (rule show_same, intro ballI rule) (auto simp: rule_names_def split: option.splits)
  moreover have "hide_rules env c c (case do_hide options of None \<Rightarrow> [] | Some r \<Rightarrow> r) = hide_rules env d d (case do_hide options of None \<Rightarrow> [] | Some r \<Rightarrow> r)"
    by (rule hide_same, intro ballI rule) (auto simp: rule_names_def split: option.splits)
  ultimately show ?thesis by (simp add: displayParameter_def display_options_def Some)
qed (simp add: displayParameter_def display_options_def)

lemma shallow_displays_same:
  assumes "shallow_rules props" "lookup_by_name env props" "p \<in> set props"
    and same: "\<And>q. q \<in> set props \<Longrightarrow> prop_display q = None \<Longrightarrow> map_of c (prop_name q) = map_of d (prop_name q)"
  shows "displayParameter env c p (Some c) = displayParameter env d p (Some d)"
proof (rule displayParameter_cong)
  fix options n
  assume options: "prop_display p = Some options" "n \<in> set (rule_names options)"
  then consider "n \<in> {''@version'', ''@tool''}" | q where "q \<in> set props" "prop_display q = None" "rule_path n = prop_name q"
    using assms(1,3) unfolding shallow_rules_def by blast
  then show "getPropertyValues env c n c = getPropertyValues env d n d"
  proof cases
    case (2 q)
    then have "de_get env c (rule_path n) = de_get env d (rule_path n)" using assms(2) same by (simp add: lookup_by_name_def)
    then show ?thesis
    proof (cases "n \<noteq> [] \<and> hd n = CHR ''/''")
      case False
      then have "rule_path n = n" unfolding rule_path_def by (simp only: if_False)
      with False \<open>de_get env c (rule_path n) = de_get env d (rule_path n)\<close> show ?thesis unfolding getPropertyValues_def by (simp only: if_False)
    qed (simp add: getPropertyValues_def rule_path_def)
  qed (auto simp: getPropertyValues_def)
qed

text \<open>What a top-level call returns, with the defaults and without.\<close>

lemma top_outcome:
  "outcome env (Some (JObj kv)) returnDefaults False no_options c p =
     (case map_of kv (prop_name p) of
        None \<Rightarrow> if returnDefaults then bind_res (displayParameter env c p (Some c)) (\<lambda>shown. Inr (if shown then Some (filled_value p None) else None))
                else Inr None
      | Some x \<Rightarrow> bind_res (displayParameter env c p (Some c)) (\<lambda>shown. Inr (
          if \<not> shown then None
          else if returnDefaults then Some (filled_value p (Some x))
          else if differs_from_default env p x then Some x else None)))"
  by (auto simp: outcome_def Let_def skips_value_def truthy_value_def no_options_def value_field_def field_of_def
      split: option.split intro!: bind_res_cong)

lemma top_run:
  assumes plain: "plain_properties props" and closed: "closed_dependencies props"
    and check: "getNodeParameters env props (Some (JObj kv)) True True (check_options no_options (getParameterDependencies props)) = Inr c"
    and order: "getParameterResolveOrder props (getParameterDependencies props) = Inr order"
  shows "getNodeParameters env props (Some (JObj kv)) returnDefaults False no_options = Inr out \<longleftrightarrow>
    (\<exists>g. (\<forall>i \<in> set order. outcome env (Some (JObj kv)) returnDefaults False no_options c (props ! i) = Inr (g i))
      \<and> out = ps_nodeParameters (fold (\<lambda>i. put_outcome (props ! i) (g i)) order initial_params))"
  using order check by (intro getNodeParameters_plain [OF plain]) (simp_all add: no_options_def)

lemma top_lookup:
  assumes plain: "plain_properties props" and order: "getParameterResolveOrder props (getParameterDependencies props) = Inr order"
  shows "p \<in> set props \<Longrightarrow> \<exists>i < length props. p = props ! i \<and>
      map_of (ps_nodeParameters (fold (\<lambda>i. put_outcome (props ! i) (g i)) order initial_params)) (prop_name p) = g i"
    and "n \<notin> prop_name ` set props \<Longrightarrow>
      map_of (ps_nodeParameters (fold (\<lambda>i. put_outcome (props ! i) (g i)) order initial_params)) n = None"
proof -
  have all: "set order = {..<length props}" by (rule resolve_order_indices [OF order])
  show "\<exists>i < length props. p = props ! i \<and>
      map_of (ps_nodeParameters (fold (\<lambda>i. put_outcome (props ! i) (g i)) order initial_params)) (prop_name p) = g i"
    if "p \<in> set props"
  proof -
    from that obtain j where j: "j < length props" "p = props ! j" by (auto simp: in_set_conv_nth)
    then show ?thesis
      using plain all fold_put_outcome [of props order j g]
      by (intro exI [of _ j]) (auto simp: plain_properties_def initial_params_def split: option.split)
  qed
  show "map_of (ps_nodeParameters (fold (\<lambda>i. put_outcome (props ! i) (g i)) order initial_params)) n = None"
    if "n \<notin> prop_name ` set props"
    using that all by (simp add: fold_put_other initial_params_def)
qed

lemma stored_value:
  assumes "default_where_equal env props kv" "p \<in> set props" "plain_locators props" "map_of kv (prop_name p) = Some x"
  shows "filled_value p (if differs_from_default env p x then Some x else None) = filled_value p (Some x)"
proof (cases "differs_from_default env p x")
  case False
  then have "x = prop_default p" using assms(1,2,4) by (auto simp: differs_from_default_def default_where_equal_def)
  with False show ?thesis using assms(2,3) by (auto simp: filled_value_def plain_locators_def)
qed simp

lemma fill_outcome:
  "outcome env (Some (JObj kv)) True False no_options c p = bind_res (displayParameter env c p (Some c))
     (\<lambda>shown. Inr (if shown then Some (filled_value p (map_of kv (prop_name p))) else None))"
  by (auto simp: top_outcome split: option.split intro!: bind_res_cong)

lemma strip_then_fill:
  assumes plain: "plain_properties props" "shallow_rules props" "plain_locators props"
    and env: "lookup_by_name env props" and kv: "default_where_equal env props kv"
    and strip: "getNodeParameters env props (Some (JObj kv)) False False no_options = Inr stored"
    and fill: "getNodeParameters env props (Some (JObj kv)) True False no_options = Inr full"
  shows "getNodeParameters env props (Some (JObj stored)) True False no_options = Inr full"
proof -
  note closed = shallow_closed [OF plain(1,2)]
  obtain order where order: "getParameterResolveOrder props (getParameterDependencies props) = Inr order"
    using resolve_order_closed [OF closed refl] by blast
  have all: "set order = {..<length props}" by (rule resolve_order_indices [OF order])
  obtain c where c: "getNodeParameters env props (Some (JObj kv)) True True (check_options no_options (getParameterDependencies props)) = Inr c"
    "\<And>p. p \<in> set props \<Longrightarrow> map_of c (prop_name p) = Some (filled_value p (map_of kv (prop_name p)))"
    using check_run [OF plain(1) closed refl, of env kv] by blast
  obtain d where d: "getNodeParameters env props (Some (JObj stored)) True True (check_options no_options (getParameterDependencies props)) = Inr d"
    "\<And>p. p \<in> set props \<Longrightarrow> map_of d (prop_name p) = Some (filled_value p (map_of stored (prop_name p)))"
    using check_run [OF plain(1) closed refl, of env stored] by blast
  obtain s where s: "\<And>i. i < length props \<Longrightarrow> outcome env (Some (JObj kv)) False False no_options c (props ! i) = Inr (s i)"
    "stored = ps_nodeParameters (fold (\<lambda>i. put_outcome (props ! i) (s i)) order initial_params)"
    using strip unfolding top_run [OF plain(1) closed c(1) order] all by auto
  obtain f where f: "\<And>i. i < length props \<Longrightarrow> outcome env (Some (JObj kv)) True False no_options c (props ! i) = Inr (f i)"
    "full = ps_nodeParameters (fold (\<lambda>i. put_outcome (props ! i) (f i)) order initial_params)"
    using fill unfolding top_run [OF plain(1) closed c(1) order] all by auto
  have kept: "map_of stored (prop_name p) =
      (case map_of kv (prop_name p) of None \<Rightarrow> None | Some x \<Rightarrow> if differs_from_default env p x then Some x else None)"
    if p: "p \<in> set props" and shown: "displayParameter env c p (Some c) = Inr True" for p
  proof -
    obtain i where i: "i < length props" "p = props ! i" "map_of stored (prop_name p) = s i"
      using top_lookup(1) [OF plain(1) order p, of s] unfolding s(2) by blast
    with s(1) have "outcome env (Some (JObj kv)) False False no_options c p = Inr (s i)" by simp
    then show ?thesis by (cases "map_of kv (prop_name p)") (simp_all add: top_outcome shown i(3))
  qed
  have same_value: "filled_value p (map_of stored (prop_name p)) = filled_value p (map_of kv (prop_name p))"
    if p: "p \<in> set props" and shown: "displayParameter env c p (Some c) = Inr True" for p
    using stored_value [OF kv p plain(3)] by (simp add: kept [OF p shown] split: option.split)
  have displays: "displayParameter env d p (Some d) = displayParameter env c p (Some c)" if "p \<in> set props" for p
  proof (rule shallow_displays_same [OF plain(2) env that])
    fix q
    assume q: "q \<in> set props" "prop_display q = None"
    then have "displayParameter env c q (Some c) = Inr True" by (simp add: displayParameter_def display_options_def)
    then show "map_of d (prop_name q) = map_of c (prop_name q)" using same_value q by (simp add: c(2) d(2))
  qed
  have "outcome env (Some (JObj stored)) True False no_options d p = outcome env (Some (JObj kv)) True False no_options c p"
    if p: "p \<in> set props" for p
  proof -
    show ?thesis
      unfolding fill_outcome displays [OF p]
      by (rule bind_res_cong [OF refl]) (simp add: same_value [OF p])
  qed
  then show ?thesis
    using f unfolding top_run [OF plain(1) closed d(1) order] all by (intro exI [of _ f]) auto
qed

section \<open>Properties\<close>


definition example_properties :: "INodeProperties list" where
  "example_properties = [choice_property, dependent_property]"

lemma example_run:
  "getNodeParameters plain_env example_properties (Some (JObj [(''resource'', JStr ''user''), (''id'', JStr ''7'')])) False False no_options
    = Inr [(''id'', JStr ''7'')]"
  "getNodeParameters plain_env example_properties (Some (JObj [(''resource'', JStr ''user''), (''id'', JStr ''7'')])) True False no_options
    = Inr [(''resource'', JStr ''user''), (''id'', JStr ''7'')]"
  by code_simp+

lemma example_fields:
  "prop_name choice_property = ''resource''" "prop_type choice_property = ''options''" "prop_display choice_property = None"
  "prop_default choice_property = JStr ''user''"
  "prop_name dependent_property = ''id''" "prop_type dependent_property = ''string''" "prop_default dependent_property = JStr ''''"
  "set example_properties = {choice_property, dependent_property}"
  by (simp_all add: choice_property_def dependent_property_def example_properties_def)

lemma example_rules:
  "prop_display dependent_property = Some options \<Longrightarrow> set (rule_names options) = {''resource''}"
  by (auto simp: dependent_property_def rule_names_def)

lemma example_plain:
  "plain_properties example_properties" "shallow_rules example_properties" "plain_locators example_properties"
  "closed_dependencies example_properties" "lookup_by_name plain_env example_properties"
proof -
  show plain: "plain_properties example_properties"
    by (simp add: plain_properties_def is_simple_def example_fields) (simp add: example_properties_def example_fields)
  show shallow: "shallow_rules example_properties"
    unfolding shallow_rules_def example_fields by (auto simp: example_rules rule_path_def example_fields)
  show "closed_dependencies example_properties" by (rule shallow_closed [OF plain shallow])
  show "plain_locators example_properties" by (simp add: plain_locators_def example_fields)
  show "lookup_by_name plain_env example_properties" by (simp add: lookup_by_name_def plain_env_def)
qed

lemma example_equal: "default_where_equal plain_env example_properties [(''resource'', JStr ''user''), (''id'', JStr ''7'')]"
  unfolding default_where_equal_def example_fields by (simp add: example_fields plain_env_def)




text \<open>The hypothesis on the rules is needed: a property that a hidden one displays is lost when its stored values are read again.\<close>

definition chained_properties :: "INodeProperties list" where
  "chained_properties =
     [NodeProperties ''resource'' ''options'' None (JStr ''user'') None None,
      NodeProperties ''lookup'' ''options'' None (JStr ''id'')
        (Some \<lparr>do_show = Some [(''resource'', [PlainValue (JStr ''user'')])], do_hide = None\<rparr>) None,
      NodeProperties ''email'' ''string'' None (JStr '''')
        (Some \<lparr>do_show = Some [(''lookup'', [PlainValue (JStr ''email'')])], do_hide = None\<rparr>) None]"

lemma chained_rules_lose_values:
  "getNodeParameters plain_env chained_properties (Some (JObj [(''resource'', JStr ''team''), (''lookup'', JStr ''email''), (''email'', JStr ''a@b'')]))
     False False no_options = Inr [(''resource'', JStr ''team''), (''email'', JStr ''a@b'')]"
  "getNodeParameters plain_env chained_properties (Some (JObj [(''resource'', JStr ''team''), (''lookup'', JStr ''email''), (''email'', JStr ''a@b'')]))
     True False no_options = Inr [(''resource'', JStr ''team''), (''email'', JStr ''a@b'')]"
  "getNodeParameters plain_env chained_properties (Some (JObj [(''resource'', JStr ''team''), (''email'', JStr ''a@b'')]))
     True False no_options = Inr [(''resource'', JStr ''team'')]"
  by code_simp+

lemma fold_res_stays: "(\<And>i. i \<in> set xs \<Longrightarrow> f i st = Inr st) \<Longrightarrow> fold_res f xs st = Inr st"
  by (induction xs) simp_all

lemma fold_res_same: "f x st = Inr st \<Longrightarrow> fold_res f (replicate k x) st = Inr st"
  by (rule fold_res_stays) simp

lemma order_starts_with_first:
  assumes "closed_dependencies (p # rest)"
  obtains more where "getParameterResolveOrder (p # rest) (getParameterDependencies (p # rest)) = Inr (0 # more)"
proof -
  have first: "[0..<length (p # rest)] = 0 # [1..<length (p # rest)]" by (simp add: upt_conv_Cons del: upt_Suc)
  let ?again = "concat (map (\<lambda>i. replicate (length (missing_at (p # rest) (getParameterDependencies (p # rest)) i)) i) [0..<length (p # rest)])"
  have "getParameterResolveOrder (p # rest) (getParameterDependencies (p # rest)) = Inr ([0..<length (p # rest)] @ ?again)"
    by (rule resolve_order_closed [OF assms refl])
  also have "\<dots> = Inr (0 # [1..<length (p # rest)] @ ?again)" by (subst first) simp
  finally show ?thesis by (rule that)
qed


definition single_collection :: INodeProperties where
  "single_collection = NodeProperties ''retry'' ''fixedCollection'' (Some False) (JObj [(''values'', JObj [])]) None
     (Some [PropertyCollection ''values'' [choice_property]])"


text \<open>
  filling in a default that is not empty fails for a fixed collection of one value: the value
  that is not there is read instead of the default.
\<close>

theorem default_of_single_collection_fails:
  assumes "prop_type p = ''fixedCollection''" "prop_multiple p \<noteq> Some True" "prop_display p = None"
    and "prop_default p = JObj ((n, x) # entries)" "option_values p n = Inr (Some ps)" "map_of kv (prop_name p) = None"
  shows "getNodeParameters env [p] (Some (JObj kv)) True False no_options = Inl TypeError"
proof -
  have closed: "closed_dependencies [p]" by (simp add: closed_dependencies_def depends_on_def assms(3))
  obtain more where first: "getParameterResolveOrder [p] (getParameterDependencies [p]) = Inr (0 # more)"
    using order_starts_with_first [OF closed] .
  then have "\<forall>i \<in> set more. i = 0" using resolve_order_indices [OF first] by auto
  then have "more = replicate (length more) 0" by (metis replicate_length_same)
  with first obtain k where order: "getParameterResolveOrder [p] (getParameterDependencies [p]) = Inr (0 # replicate k 0)" by metis
  have shown: "is_displayed env no_options displayCheck p st = Inr True" for st displayCheck
    by (simp add: is_displayed_def displayParameter_def display_options_def assms(3))
  have simple: "\<not> is_simple p" by (simp add: is_simple_def assms(1))
  have options: "po_parameterDependencies no_options = None" "\<not> po_dataIsResolved no_options" "\<not> po_onlySimpleTypes no_options"
    "po_parameterDependencies (check_options no_options d) = Some d" "po_dataIsResolved (check_options no_options d)"
    "po_onlySimpleTypes (check_options no_options d)" for d
    by (simp_all add: no_options_def check_options_def)
  have field: "value_field (Some (JObj kv)) (prop_name p) = None" by (simp add: value_field_def field_of_def assms(6))
  have skips: "\<not> skips_value (Some (JObj kv)) None True no_options"
    by (simp add: skips_value_def truthy_value_def no_options_def)
  have check: "getNodeParameters env [p] (Some (JObj kv)) True True (check_options no_options (getParameterDependencies [p])) = Inr []"
    by (subst getNodeParameters.simps)
      (simp add: options order Let_def simple fold_res_same initial_params_def)
  have keeps: "\<not> keeps_empty_value p v True" for v by (simp add: keeps_empty_value_def)
  have entries: "value_entries (property_values p None True) = (n, x) # entries"
    by (simp add: property_values_def value_entries_def assms(4))
  show ?thesis
    by (subst getNodeParameters.simps)
      (simp add: options order check Let_def shown simple assms(1,2,5) field skips keeps entries initial_params_def)
qed

lemma default_of_single_collection_fails_witness:
  "getNodeParameters plain_env [single_collection] (Some (JObj [])) True False no_options = Inl TypeError"
  by (rule default_of_single_collection_fails [where n = "''values''" and x = "JObj []" and entries = "[]" and ps = "[choice_property]"])
    (simp_all add: single_collection_def option_values_def)

end
